(* ===== verification/Prelude.thy ===== *)
theory Prelude
  imports Main "HOL-Library.Word" "HOL-Library.Signed_Division" "HOL-Library.Monad_Syntax"
    "HOL-Library.Sublist"
begin

text \<open>
  Shared vocabulary of the development: the machine types of the Go sources, the fact
  collections the component theories feed, and generic lemmas on options, lists, bits and
  strings.  A Go panic (an index out of range, a shift by a negative amount) is the value
  \<open>None\<close> of an option; a Go \<open>error\<close> result is the left summand of a sum.
\<close>

unbundle bit_operations_syntax

type_synonym u8 = "8 word"
type_synonym u32 = "32 word"
type_synonym u64 = "64 word"
type_synonym bytes = "u8 list"
type_synonym txid = string

named_theorems ca_simps \<open>rewriting facts of the reference automaton\<close>
named_theorems script_simps \<open>rewriting facts of the covenant binding\<close>
named_theorems store_simps \<open>rewriting facts of the history store\<close>
named_theorems verdict_simps \<open>rewriting facts of the recovery decisions\<close>
named_theorems engine_simps \<open>rewriting facts of the engine\<close>

subsection \<open>Strings\<close>

definition to_lower_char :: "char \<Rightarrow> char" where
  "to_lower_char c = (let k = (of_char c :: nat) in
     if 65 \<le> k \<and> k \<le> 90 then char_of (k + 32) else c)"

definition to_lower :: "string \<Rightarrow> string" where
  "to_lower s = map to_lower_char s"

text \<open>\<open>strings.Index\<close>: the least offset at which a non-empty or empty needle occurs.\<close>

fun str_index :: "string \<Rightarrow> string \<Rightarrow> nat option" where
  "str_index [] needle = (if needle = [] then Some 0 else None)"
| "str_index (c # cs) needle =
     (if prefix needle (c # cs) then Some 0 else map_option Suc (str_index cs needle))"

definition str_contains :: "string \<Rightarrow> string \<Rightarrow> bool" where
  "str_contains s needle = (str_index s needle \<noteq> None)"

definition has_suffix :: "'a list \<Rightarrow> 'a list \<Rightarrow> bool" where
  "has_suffix xs ys = (length ys \<le> length xs \<and> drop (length xs - length ys) xs = ys)"

lemma has_suffix_append [simp]: "has_suffix (xs @ ys) ys"
  by (simp add: has_suffix_def)

lemma has_suffix_split:
  "has_suffix xs ys \<Longrightarrow> xs = take (length xs - length ys) xs @ ys"
  unfolding has_suffix_def by (metis append_take_drop_id)

lemma str_index_Some:
  "str_index s needle = Some i \<Longrightarrow> i \<le> length s \<and> prefix needle (drop i s)"
  by (induction s arbitrary: i) (auto split: if_splits)

lemma str_index_append: "prefix needle t \<Longrightarrow> str_index (s @ t) needle \<noteq> None"
proof (induction s)
  case Nil
  then show ?case by (cases t) auto
next
  case (Cons c s)
  then show ?case by simp
qed

lemma str_contains_iff: "str_contains s needle \<longleftrightarrow> (\<exists>a b. s = a @ needle @ b)"
proof
  assume "str_contains s needle"
  then obtain i where "str_index s needle = Some i" by (auto simp: str_contains_def)
  then have "prefix needle (drop i s)" by (blast dest: str_index_Some)
  then obtain b where "drop i s = needle @ b" by (auto simp: prefix_def)
  then have "s = take i s @ needle @ b" by (metis append_take_drop_id)
  then show "\<exists>a b. s = a @ needle @ b" by blast
next
  assume "\<exists>a b. s = a @ needle @ b"
  then obtain a b where "s = a @ needle @ b" by blast
  then show "str_contains s needle"
    using str_index_append [of needle "needle @ b" a] by (simp add: str_contains_def)
qed

lemma length_to_lower [simp]: "length (to_lower s) = length s"
  by (simp add: to_lower_def)

lemma to_lower_append [simp]: "to_lower (s @ t) = to_lower s @ to_lower t"
  by (simp add: to_lower_def)

subsection \<open>Words\<close>

lemma and_push_bit_one_iff: "(w AND push_bit k 1 \<noteq> 0) = bit w k" for w :: "'a::len word"
  by (simp add: bit_iff_and_push_bit_not_eq_0)

lemma drop_bit_and_one: "drop_bit k w AND 1 = of_bool (bit w k)" for w :: "'a::len word"
  by (rule bit_word_eqI) (auto simp: bit_simps)

lemma unat_of_bool [simp]: "unat (of_bool b :: 'a::len word) = of_bool b"
  by (cases b) auto

lemma uint_of_bool [simp]: "uint (of_bool b :: 'a::len word) = of_bool b"
  by (cases b) auto

lemma u64_le_add_one: "(a :: u64) < b \<Longrightarrow> a + 1 \<le> b"
  by (metis inc_le)

lemma unat_succ_u64: "unat (g :: u64) + 1 < 2 ^ 64 \<Longrightarrow> unat (g + 1) = unat g + 1"
  by (simp add: unat_word_ariths)

subsection \<open>Lists and options\<close>

lemma find_eq_None: "(find P xs = None) = (\<forall>x \<in> set xs. \<not> P x)"
  by (auto simp: find_None_iff)

lemma find_SomeD: "find P xs = Some x \<Longrightarrow> x \<in> set xs \<and> P x"
  by (auto simp: find_Some_iff)

lemma map_of_filter_key:
  "map_of (filter (\<lambda>p. fst p \<noteq> k) xs) = (map_of xs)(k := None)"
  by (induction xs) auto

lemma nth_map_upt_int: "i < n \<Longrightarrow> map int [0..<n] ! i = int i"
  by simp

end
