(* ===== verification/Ca.thy ===== *)
theory Ca
  imports Prelude
begin

text \<open>
  The reference automaton, \<open>internal/ca/ca.go\<close>: a Wolfram rule is a byte, a row is a
  byte string with cell \<open>i\<close> in byte \<open>i div 8\<close> at bit \<open>i mod 8\<close>, and \<open>Step\<close> advances the
  whole ring by one generation.  Rows are written to and read from lower-case hex.
\<close>

type_synonym rule = u8
type_synonym row = bytes

definition Rule110 :: rule where
  "Rule110 = 110"

text \<open>\<open>Rule.Next\<close>: bit \<open>4l + 2c + r\<close> of the rule byte; a negative shift panics.\<close>

definition Next :: "rule \<Rightarrow> int \<Rightarrow> int \<Rightarrow> int \<Rightarrow> int option" where
  "Next rule l c r =
     (let s = 4 * l + 2 * c + r in
      if s < 0 then None else Some (uint (drop_bit (nat s) rule AND 1)))"

datatype ca_error =
    BadCellCount int
  | InvalidHexByte char
  | OddHexLength
  | WrongSeedLength nat int

definition NewRow :: "int \<Rightarrow> ca_error + row" where
  "NewRow n = (if n \<le> 0 \<or> n smod 8 \<noteq> 0 then Inl (BadCellCount n)
               else Inr (replicate (nat (n sdiv 8)) 0))"

definition Cells :: "row \<Rightarrow> int" where
  "Cells r = int (length r) * 8"

text \<open>
  \<open>Row.Get\<close> and \<open>Row.Set\<close>: an index outside the row panics, either on the slice access or,
  for \<open>-8 < i < 0\<close>, on the negative shift amount.
\<close>

definition Get :: "row \<Rightarrow> int \<Rightarrow> bool option" where
  "Get r i =
     (if 0 \<le> i sdiv 8 \<and> i sdiv 8 < int (length r) \<and> 0 \<le> i smod 8
      then Some ((r ! nat (i sdiv 8)) AND push_bit (nat (i smod 8)) 1 \<noteq> 0)
      else None)"

definition Set :: "row \<Rightarrow> int \<Rightarrow> bool \<Rightarrow> row option" where
  "Set r i alive =
     (if 0 \<le> i sdiv 8 \<and> i sdiv 8 < int (length r) \<and> 0 \<le> i smod 8
      then let k = nat (i sdiv 8); m = push_bit (nat (i smod 8)) 1 in
           Some (r[k := (if alive then (r ! k) OR m else (r ! k) AND NOT m)])
      else None)"

text \<open>\<open>hex.EncodeToString\<close> and \<open>hex.DecodeString\<close> of the Go standard library.\<close>

definition hex_digit :: "nat \<Rightarrow> char" where
  "hex_digit n = ''0123456789abcdef'' ! n"

definition from_hex_char :: "char \<Rightarrow> nat option" where
  "from_hex_char c = (let k = (of_char c :: nat) in
     if 48 \<le> k \<and> k \<le> 57 then Some (k - 48)
     else if 97 \<le> k \<and> k \<le> 102 then Some (k - 87)
     else if 65 \<le> k \<and> k \<le> 70 then Some (k - 55)
     else None)"

fun hex_encode :: "bytes \<Rightarrow> string" where
  "hex_encode [] = []"
| "hex_encode (b # bs) = hex_digit (unat b div 16) # hex_digit (unat b mod 16) # hex_encode bs"

fun hex_decode :: "string \<Rightarrow> ca_error + bytes" where
  "hex_decode [] = Inr []"
| "hex_decode [a] = (case from_hex_char a of None \<Rightarrow> Inl (InvalidHexByte a) | Some _ \<Rightarrow> Inl OddHexLength)"
| "hex_decode (a # b # s) =
     (case from_hex_char a of
        None \<Rightarrow> Inl (InvalidHexByte a)
      | Some x \<Rightarrow>
         (case from_hex_char b of
            None \<Rightarrow> Inl (InvalidHexByte b)
          | Some y \<Rightarrow>
             (case hex_decode s of Inl e \<Rightarrow> Inl e | Inr bs \<Rightarrow> Inr (of_nat (16 * x + y) # bs))))"

definition Hex :: "row \<Rightarrow> string" where
  "Hex r = hex_encode r"

text \<open>\<open>Row.Equal\<close>: the length check, then the byte loop.\<close>

fun equal_bytes :: "row \<Rightarrow> row \<Rightarrow> nat list \<Rightarrow> bool" where
  "equal_bytes r s [] = True"
| "equal_bytes r s (i # is) = (if r ! i \<noteq> s ! i then False else equal_bytes r s is)"

definition Equal :: "row \<Rightarrow> row \<Rightarrow> bool" where
  "Equal r s = (if length r \<noteq> length s then False else equal_bytes r s [0..<length r])"

text \<open>\<open>Row.String\<close>: highest index leftmost.\<close>

definition String :: "row \<Rightarrow> string" where
  "String r = map (\<lambda>i. if Get r (int i) = Some True then CHR ''#'' else CHR ''.'')
                  (rev [0..<8 * length r])"

text \<open>Ring neighbours.  Go's \<open>%\<close> truncates towards zero, which is \<open>smod\<close>.\<close>

definition LeftIndex :: "int \<Rightarrow> int \<Rightarrow> int" where
  "LeftIndex n i = (i + 1) smod n"

definition RightIndex :: "int \<Rightarrow> int \<Rightarrow> int" where
  "RightIndex n i = ((i - 1) smod n + n) smod n"

text \<open>\<open>Rule.Step\<close>: the loop over the cells, each iteration reading three bits of the old row.\<close>

definition bool_int :: "bool \<Rightarrow> int" where
  "bool_int b = (if b then 1 else 0)"

fun step_loop :: "rule \<Rightarrow> row \<Rightarrow> int list \<Rightarrow> row \<Rightarrow> row option" where
  "step_loop rule row [] out = Some out"
| "step_loop rule row (i # is) out = do {
     l \<leftarrow> Get row (LeftIndex (Cells row) i);
     c \<leftarrow> Get row i;
     r \<leftarrow> Get row (RightIndex (Cells row) i);
     v \<leftarrow> Next rule (bool_int l) (bool_int c) (bool_int r);
     out' \<leftarrow> (if v = 1 then Set out i True else Some out);
     step_loop rule row is out'
   }"

definition Step :: "rule \<Rightarrow> row \<Rightarrow> row option" where
  "Step rule row = step_loop rule row (map int [0..<8 * length row]) (replicate (length row) 0)"

definition SeedSingle :: "int \<Rightarrow> ca_error + row option" where
  "SeedSingle n = (case NewRow n of Inl e \<Rightarrow> Inl e | Inr row \<Rightarrow> Inr (Set row 0 True))"

definition SeedHex :: "int \<Rightarrow> string \<Rightarrow> ca_error + row" where
  "SeedHex n s =
     (if n \<le> 0 \<or> n smod 8 \<noteq> 0 then Inl (BadCellCount n)
      else case hex_decode s of
             Inl e \<Rightarrow> Inl e
           | Inr b \<Rightarrow> if int (length b) \<noteq> n sdiv 8 then Inl (WrongSeedLength (length b) n) else Inr b)"

subsection \<open>Reading and writing single cells\<close>

text \<open>\<open>alive\<close> is the value \<open>Get\<close> returns inside the row, \<open>next_alive\<close> the value the rule assigns.\<close>

definition alive :: "row \<Rightarrow> int \<Rightarrow> bool" where
  "alive r i = bit (r ! (nat i div 8)) (nat i mod 8)"

lemma sdiv_nonneg: "0 \<le> a \<Longrightarrow> 0 < b \<Longrightarrow> a sdiv b = a div b" for a b :: int
proof -
  assume "0 \<le> a" "0 < b"
  then have "a = 0 \<or> 0 < a" by linarith
  then show ?thesis using \<open>0 < b\<close> by (elim disjE) (simp_all add: signed_divide_int_def)
qed

lemma smod_nonneg: "0 \<le> a \<Longrightarrow> 0 < b \<Longrightarrow> a smod b = a mod b" for a b :: int
  using sdiv_mult_smod_eq [of a b] minus_div_mult_eq_mod [of a b] sdiv_nonneg [of a b] by simp

lemma in_row_iff:
  "(0 \<le> i sdiv 8 \<and> i sdiv 8 < int n \<and> 0 \<le> i smod 8) = (0 \<le> i \<and> i < int n * 8)"
proof (cases "0 \<le> i")
  case True
  then show ?thesis by (auto simp: sdiv_nonneg smod_nonneg)
next
  case False
  then have "i sdiv 8 = - ((- i) div 8)" by (simp add: signed_divide_int_def)
  moreover from this have "i smod 8 = - ((- i) mod 8)"
    using False minus_div_mult_eq_mod [of "- i" 8]
    by (simp add: signed_modulo_int_def signed_divide_int_def)
  ultimately show ?thesis using False by auto
qed

lemma Get_eq: "Get r i = (if 0 \<le> i \<and> i < Cells r then Some (alive r i) else None)"
  unfolding Get_def in_row_iff Cells_def alive_def
  by (auto simp: and_push_bit_one_iff sdiv_nonneg smod_nonneg nat_div_distrib nat_mod_distrib
      simp del: push_bit_of_1)

lemma Set_eq: "Set r i b = (if 0 \<le> i \<and> i < Cells r then
   Some (r[nat i div 8 := (if b then set_bit (nat i mod 8) (r ! (nat i div 8))
         else unset_bit (nat i mod 8) (r ! (nat i div 8)))]) else None)"
  unfolding Set_def in_row_iff Cells_def
  by (simp add: sdiv_nonneg smod_nonneg nat_div_distrib nat_mod_distrib set_bit_eq_or
      unset_bit_eq_and_not Let_def)

lemma alive_set:
  assumes "Set r i b = Some r'" and "0 \<le> j" and "j < Cells r"
  shows "alive r' j = (if j = i then b else alive r j)"
proof -
  from assms(1) have i: "0 \<le> i" "i < Cells r" and r': "r' = r[nat i div 8 := (if b then set_bit (nat i mod 8) (r ! (nat i div 8))
         else unset_bit (nat i mod 8) (r ! (nat i div 8)))]"
    by (auto simp: Set_eq split: if_splits)
  have m: "nat j mod 8 < 8" "nat i mod 8 < 8" by simp_all
  have len: "nat i div 8 < length r" "nat j div 8 < length r" using i assms(2,3) by (auto simp: Cells_def)
  have same: "j = i \<longleftrightarrow> nat j div 8 = nat i div 8 \<and> nat j mod 8 = nat i mod 8"
    using i(1) assms(2) by (metis div_mult_mod_eq eq_nat_nat_iff)
  show ?thesis
    unfolding alive_def r' using len m same
    by (cases "nat j div 8 = nat i div 8") (auto simp: bit_simps nth_list_update)
qed

lemma smod_pos_mod: "0 < n \<Longrightarrow> (a smod n + n) smod n = a mod n" for a n :: int
proof (cases "0 \<le> a")
  case True
  assume n: "0 < n"
  then have "(a smod n + n) smod n = (a mod n + n) mod n"
    using True by (simp add: smod_nonneg)
  then show ?thesis by simp
next
  case False
  assume n: "0 < n"
  have d: "a smod n = a - (a sdiv n) * n" using sdiv_mult_smod_eq [of a n] by linarith
  have "a smod n = - ((- a) mod n)"
    using False n minus_div_mult_eq_mod [of "- a" n]
    by (simp add: signed_modulo_int_def signed_divide_int_def)
  moreover have "0 \<le> (- a) mod n" "(- a) mod n < n" using n by simp_all
  ultimately have "0 \<le> a smod n + n" by linarith
  then have "(a smod n + n) smod n = (a smod n + n) mod n" using n by (rule smod_nonneg)
  also have "\<dots> = (a - (a sdiv n) * n) mod n" using d by simp
  also have "\<dots> = a mod n" using mod_mult_self1 [of a "- (a sdiv n)" n] by simp
  finally show ?thesis .
qed

lemma LeftIndex_mod: "0 < n \<Longrightarrow> 0 \<le> i \<Longrightarrow> LeftIndex n i = (i + 1) mod n"
  by (simp add: LeftIndex_def smod_nonneg)

lemma RightIndex_mod: "0 < n \<Longrightarrow> RightIndex n i = (i - 1) mod n"
  by (simp add: RightIndex_def smod_pos_mod)

lemma LeftIndex_range: "0 < n \<Longrightarrow> 0 \<le> i \<Longrightarrow> 0 \<le> LeftIndex n i \<and> LeftIndex n i < n"
  by (simp add: LeftIndex_mod)

lemma RightIndex_range: "0 < n \<Longrightarrow> 0 \<le> RightIndex n i \<and> RightIndex n i < n"
  by (simp add: RightIndex_mod)

lemma ring_inverse:
  assumes "0 < n" and "0 \<le> i" and "i < n"
  shows "RightIndex n (LeftIndex n i) = i" and "LeftIndex n (RightIndex n i) = i"
proof -
  show "RightIndex n (LeftIndex n i) = i"
    using assms by (simp add: LeftIndex_mod RightIndex_mod mod_diff_left_eq)
  have "0 \<le> (i - 1) mod n" using assms by simp
  then show "LeftIndex n (RightIndex n i) = i"
    using assms by (simp add: LeftIndex_mod RightIndex_mod mod_add_left_eq)
qed

definition nbhd :: "bool \<Rightarrow> bool \<Rightarrow> bool \<Rightarrow> nat" where
  "nbhd l c r = 4 * of_bool l + 2 * of_bool c + of_bool r"

lemma Next_nbhd:
  "Next rule (bool_int l) (bool_int c) (bool_int r) = Some (of_bool (bit rule (nbhd l c r)))"
proof -
  have "nat (4 * bool_int l + 2 * bool_int c + bool_int r) = nbhd l c r"
    and "\<not> 4 * bool_int l + 2 * bool_int c + bool_int r < 0"
    by (cases l; cases c; cases r; simp add: bool_int_def nbhd_def)+
  then show ?thesis by (simp only: Next_def Let_def if_False drop_bit_and_one uint_of_bool)
qed

definition next_alive :: "rule \<Rightarrow> row \<Rightarrow> int \<Rightarrow> bool" where
  "next_alive rule row i = bit rule (nbhd (alive row (LeftIndex (Cells row) i)) (alive row i)
      (alive row (RightIndex (Cells row) i)))"

lemma Cells_eq_length: "length r = length s \<Longrightarrow> Cells r = Cells s"
  by (simp add: Cells_def)

lemma Set_length: "Set r i b = Some r' \<Longrightarrow> length r' = length r"
  by (auto simp: Set_eq split: if_splits)

lemma step_loop_spec:
  assumes "\<forall>i \<in> set is. 0 \<le> i \<and> i < Cells row" and "length out = length row"
  shows "\<exists>res. step_loop rule row is out = Some res \<and> length res = length row \<and>
     (\<forall>j. 0 \<le> j \<and> j < Cells row \<longrightarrow>
        alive res j = ((j \<in> set is \<and> next_alive rule row j) \<or> alive out j))"
  using assms
proof (induction "is" arbitrary: out)
  case Nil
  then show ?case by simp
next
  case (Cons i "is")
  let ?n = "Cells row"
  have i: "0 \<le> i" "i < ?n" using Cons.prems by auto
  have rd: "Get row (LeftIndex ?n i) = Some (alive row (LeftIndex ?n i))"
    "Get row i = Some (alive row i)"
    "Get row (RightIndex ?n i) = Some (alive row (RightIndex ?n i))"
    using i LeftIndex_range [of ?n i] RightIndex_range [of ?n i] by (simp_all add: Get_eq)
  define out' where "out' = (if next_alive rule row i
     then out[nat i div 8 := set_bit (nat i mod 8) (out ! (nat i div 8))] else out)"
  have io: "i < Cells out" using i(2) Cons.prems(2) by (simp add: Cells_def)
  have st: "step_loop rule row (i # is) out = step_loop rule row is out'"
    using i io by (auto simp: rd Next_nbhd next_alive_def out'_def Set_eq)
  have len: "length out' = length row" using Cons.prems(2) by (simp add: out'_def)
  have al: "alive out' j = (j = i \<and> next_alive rule row i \<or> alive out j)"
    if j: "0 \<le> j" "j < ?n" for j
    using alive_set [of out i True out' j] i io j Cons.prems(2)
    by (auto simp: out'_def Set_eq Cells_def)
  from Cons.IH [of out'] Cons.prems(1) len al show ?case
    unfolding st by auto
qed

lemma alive_zero: "0 \<le> j \<Longrightarrow> j < int n * 8 \<Longrightarrow> \<not> alive (replicate n 0) j"
  by (auto simp: alive_def)

lemma Step_spec:
  "\<exists>res. Step rule row = Some res \<and> length res = length row \<and>
     (\<forall>j. 0 \<le> j \<and> j < Cells row \<longrightarrow> alive res j = next_alive rule row j)"
proof -
  have rng: "\<forall>i \<in> set (map int [0..<8 * length row]). 0 \<le> i \<and> i < Cells row"
    by (auto simp: Cells_def)
  have "j \<in> set (map int [0..<8 * length row])" if "0 \<le> j" "j < Cells row" for j
    using that by (auto simp: Cells_def image_iff intro!: bexI [of _ "nat j"])
  then show ?thesis
    using step_loop_spec [OF rng, of "replicate (length row) 0" rule]
    unfolding Step_def by (auto simp: alive_zero Cells_def)
qed

lemma row_eqI:
  assumes len: "length r = length s"
    and bits: "\<And>j. 0 \<le> j \<Longrightarrow> j < Cells r \<Longrightarrow> alive r j = alive s j"
  shows "r = s"
proof (rule nth_equalityI [OF len])
  fix k assume k: "k < length r"
  show "r ! k = s ! k"
  proof (rule bit_word_eqI)
    fix b :: nat assume b: "b < LENGTH(8)"
    have "0 \<le> int (8 * k + b)" "int (8 * k + b) < Cells r" using k b by (auto simp: Cells_def)
    from bits [OF this] show "bit (r ! k) b = bit (s ! k) b"
      using b by (simp add: alive_def nat_int_add div_mult_self4 flip: of_nat_mult of_nat_add)
  qed
qed

subsection \<open>Hex encoding and the ring-size guard\<close>

lemma hex_digit_back: "n < 16 \<Longrightarrow> from_hex_char (hex_digit n) = Some n"
proof -
  assume "n < 16"
  then have "n \<in> set [0..<16]" by simp
  then show ?thesis by (simp add: upt_rec hex_digit_def from_hex_char_def) auto
qed

lemma hex_char_fwd:
  assumes "from_hex_char c = Some k"
  shows "k < 16 \<and> hex_digit k = to_lower_char c"
proof -
  define n where "n = (of_char c :: nat)"
  have c: "c = char_of n" by (simp add: n_def)
  have n: "n \<in> set ([48..<58] @ [65..<71] @ [97..<103])"
    and k: "k = (if n \<le> 57 then n - 48 else if 97 \<le> n then n - 87 else n - 55)"
    using assms unfolding from_hex_char_def n_def [symmetric] Let_def
    by (simp_all del: upt_Suc upt_rec_numeral split: if_splits)
  have lc: "to_lower_char c = char_of (if 65 \<le> n \<and> n \<le> 90 then n + 32 else n)"
    using c by (auto simp: to_lower_char_def n_def)
  from n show ?thesis unfolding lc k
    by (simp add: upt_rec hex_digit_def) (elim disjE; simp add: char_of_def bit_Suc_0_iff)
qed

lemma hex_decode_encode: "hex_decode (hex_encode bs) = Inr bs"
proof (induction bs)
  case Nil
  then show ?case by simp
next
  case (Cons b bs)
  have "unat b < 2 ^ LENGTH(8)" by (rule unsigned_less)
  then have "unat b div 16 < 16" by simp
  moreover have "(of_nat (16 * (unat b div 16) + unat b mod 16) :: u8) = b"
    by (simp only: mult_div_mod_eq of_nat_unat ucast_id)
  ultimately show ?case using Cons by (simp add: hex_digit_back)
qed

lemma hex_encode_decode: "hex_decode s = Inr bs \<Longrightarrow> hex_encode bs = to_lower s \<and> length s = 2 * length bs"
proof (induction s arbitrary: bs rule: hex_decode.induct)
  case 1
  then show ?case by (simp add: to_lower_def)
next
  case (2 a)
  then show ?case by (simp split: option.splits)
next
  case (3 a b s)
  from 3(2) obtain x y cs where x: "from_hex_char a = Some x" and y: "from_hex_char b = Some y"
    and cs: "hex_decode s = Inr cs" and bs: "bs = of_nat (16 * x + y) # cs"
    by (auto split: option.splits sum.splits)
  have lt: "x < 16" "y < 16" and eq: "hex_digit x = to_lower_char a" "hex_digit y = to_lower_char b"
    using hex_char_fwd [OF x] hex_char_fwd [OF y] by auto
  have "unat (of_nat (16 * x + y) :: u8) = 16 * x + y"
    using lt by (subst unat_of_nat) simp
  then show ?case using 3(1) [OF x y cs] lt eq bs by (simp add: to_lower_def)
qed

lemma length_hex_encode [simp]: "length (hex_encode bs) = 2 * length bs"
  by (induction bs) auto

lemma hex_encode_inj: "hex_encode a = hex_encode b \<Longrightarrow> a = b"
  by (metis hex_decode_encode sum.inject(2))

lemma ring_size_ok: "((n :: int) \<le> 0 \<or> n smod 8 \<noteq> 0) = (\<not> (0 < n \<and> 8 dvd n))"
  by (cases "0 < n") (auto simp: smod_nonneg dvd_eq_mod_eq_0)

lemma SeedHex_Hex:
  assumes "0 < Cells r"
  shows "SeedHex (Cells r) (Hex r) = Inr r"
  using assms by (simp add: SeedHex_def ring_size_ok Hex_def hex_decode_encode Cells_def sdiv_nonneg
      smod_nonneg)

lemma SeedHex_Inr:
  "SeedHex n s = Inr r \<longleftrightarrow> 0 < n \<and> Cells r = n \<and> hex_decode s = Inr r"
  unfolding SeedHex_def ring_size_ok
  by (auto simp: Cells_def sdiv_nonneg split: sum.splits)

lemma equal_bytes_iff: "equal_bytes r s is = (\<forall>i \<in> set is. r ! i = s ! i)"
  by (induction "is") auto

lemma Equal_iff [simp]: "Equal r s = (r = s)"
  by (auto simp: Equal_def equal_bytes_iff intro: nth_equalityI)

lemma NewRow_Inr: "0 < n \<Longrightarrow> 8 dvd n \<Longrightarrow> NewRow n = Inr (replicate (nat (n div 8)) 0)"
  by (simp add: NewRow_def sdiv_nonneg smod_nonneg)

lemma from_hex_lower: "from_hex_char (to_lower_char c) = from_hex_char c"
proof (cases "65 \<le> (of_char c :: nat) \<and> of_char c \<le> (90 :: nat)")
  case False
  then show ?thesis by (auto simp: to_lower_char_def Let_def)
next
  case True
  then have "(of_char (char_of (of_char c + 32 :: nat)) :: nat) = of_char c + 32"
    by (simp add: take_bit_nat_eq_self)
  with True show ?thesis by (auto simp: to_lower_char_def from_hex_char_def Let_def)
qed

lemma hex_decode_Cons2:
  "hex_decode (a # b # s) = Inr bs \<longleftrightarrow>
     (\<exists>x y cs. from_hex_char a = Some x \<and> from_hex_char b = Some y \<and>
        hex_decode s = Inr cs \<and> bs = of_nat (16 * x + y) # cs)"
  by (auto split: option.splits sum.splits)

lemma hex_decode_lower: "hex_decode (to_lower s) = Inr bs \<longleftrightarrow> hex_decode s = Inr bs"
proof (induction s arbitrary: bs rule: hex_decode.induct)
  case (3 a b s)
  have "hex_decode (map to_lower_char s) = Inr cs \<longleftrightarrow> hex_decode s = Inr cs"
    if "from_hex_char a = Some x" "from_hex_char b = Some y" for x y cs
    using 3 that unfolding to_lower_def by blast
  then show ?case unfolding to_lower_def list.map hex_decode_Cons2 from_hex_lower by blast
qed (auto simp: to_lower_def from_hex_lower split: option.splits)

subsection \<open>The row as an indexed bit store\<close>

text \<open>
  The contract the other components use a row by: reads and writes are defined exactly inside
  the row, a write is read back, and it disturbs no other cell.
\<close>

locale bit_row =
  fixes get :: "'r \<Rightarrow> int \<Rightarrow> bool option"
    and put :: "'r \<Rightarrow> int \<Rightarrow> bool \<Rightarrow> 'r option"
    and size :: "'r \<Rightarrow> int"
  assumes get_defined: "get r i \<noteq> None \<longleftrightarrow> 0 \<le> i \<and> i < size r"
    and put_defined: "put r i b \<noteq> None \<longleftrightarrow> 0 \<le> i \<and> i < size r"
    and size_put: "put r i b = Some r' \<Longrightarrow> size r' = size r"
    and get_put: "put r i b = Some r' \<Longrightarrow> get r' j = (if j = i then Some b else get r j)"
begin

lemma get_put_same: "put r i b = Some r' \<Longrightarrow> get r' i = Some b"
  by (simp add: get_put)

lemma get_put_other: "put r i b = Some r' \<Longrightarrow> j \<noteq> i \<Longrightarrow> get r' j = get r j"
  by (simp add: get_put)

lemma put_in_range: "0 \<le> i \<Longrightarrow> i < size r \<Longrightarrow> \<exists>r'. put r i b = Some r'"
  using put_defined [of r i b] by auto

lemma put_swap:
  assumes "put r i a = Some s" "put s j b = Some t" "put r j b = Some s'" "put s' i a = Some t'"
    and "i \<noteq> j"
  shows "get t k = get t' k"
  using assms by (simp add: get_put)

end

interpretation ca_row: bit_row Get Set Cells
proof
  fix r r' i j b
  show "Get r i \<noteq> None \<longleftrightarrow> 0 \<le> i \<and> i < Cells r" by (simp add: Get_eq)
  show "Set r i b \<noteq> None \<longleftrightarrow> 0 \<le> i \<and> i < Cells r" by (simp add: Set_eq)
  assume s: "Set r i b = Some r'"
  then show c: "Cells r' = Cells r" by (intro Cells_eq_length Set_length)
  from s have i: "0 \<le> i \<and> i < Cells r" by (auto simp: Set_eq split: if_splits)
  show "Get r' j = (if j = i then Some b else Get r j)"
    using i c alive_set [OF s, of j] by (auto simp: Get_eq)
qed

subsection \<open>Properties\<close>

text \<open>Claim C1: \<open>Rule.Step\<close> never panics; it returns a row of the same length in which every
  cell is exactly the rule's output for the three cells around it on the ring, and it is the
  only such row.\<close>

theorem ca_step_exact:
  "Step rule row = Some res \<longleftrightarrow>
     length res = length row \<and>
     (\<forall>j \<in> {0..<Cells row}. Get res j = do {
        l \<leftarrow> Get row (LeftIndex (Cells row) j);
        c \<leftarrow> Get row j;
        r \<leftarrow> Get row (RightIndex (Cells row) j);
        v \<leftarrow> Next rule (bool_int l) (bool_int c) (bool_int r);
        Some (v = 1) })"
proof -
  let ?n = "Cells row"
  have rhs: "(do { l \<leftarrow> Get row (LeftIndex ?n j); c \<leftarrow> Get row j; r \<leftarrow> Get row (RightIndex ?n j);
        v \<leftarrow> Next rule (bool_int l) (bool_int c) (bool_int r); Some (v = 1) })
      = Some (next_alive rule row j)" if "0 \<le> j" "j < ?n" for j
    using that LeftIndex_range [of ?n j] RightIndex_range [of ?n j]
    by (simp add: Get_eq Next_nbhd next_alive_def)
  have spec: "(\<forall>j \<in> {0..<?n}. Get res j = do {
        l \<leftarrow> Get row (LeftIndex ?n j); c \<leftarrow> Get row j; r \<leftarrow> Get row (RightIndex ?n j);
        v \<leftarrow> Next rule (bool_int l) (bool_int c) (bool_int r); Some (v = 1) })
      = (\<forall>j \<in> {0..<?n}. Get res j = Some (next_alive rule row j))"
    by (rule ball_cong [OF refl]) (use rhs in simp)
  obtain out where out: "Step rule row = Some out" "length out = length row"
    "\<And>j. 0 \<le> j \<Longrightarrow> j < ?n \<Longrightarrow> alive out j = next_alive rule row j"
    using Step_spec by blast
  have "out = res" if "length res = length row"
    and "\<forall>j \<in> {0..<?n}. Get res j = Some (next_alive rule row j)"
  proof (rule row_eqI)
    show "length out = length res" using that(1) out(2) by simp
    fix j assume j: "0 \<le> j" "j < Cells out"
    then have j': "j < ?n" "j < Cells res" using out(2) that(1) by (simp_all add: Cells_def)
    then show "alive out j = alive res j"
      using bspec [OF that(2), of j] out(3) [of j] j by (simp add: Get_eq)
  qed
  with out Cells_eq_length [OF out(2)] show ?thesis unfolding spec by (auto simp: Get_eq)
qed

theorem ca_step_exact_witness: "Step Rule110 [1, 0] = Some [3, 0]"
proof -
  have dom: "{0..<Cells [1, 0]} = set [0..15]" by (auto simp: Cells_def)
  have "length [3, 0 :: u8] = length [1, 0 :: u8]" by simp
  moreover have "\<forall>j \<in> set [0..15]. Get [3, 0] j = do {
        l \<leftarrow> Get [1, 0] (LeftIndex (Cells [1, 0]) j);
        c \<leftarrow> Get [1, 0] j;
        r \<leftarrow> Get [1, 0] (RightIndex (Cells [1, 0]) j);
        v \<leftarrow> Next Rule110 (bool_int l) (bool_int c) (bool_int r);
        Some (v = 1) }"
    by code_simp
  ultimately show ?thesis using ca_step_exact [of Rule110 "[1, 0]" "[3, 0]"] unfolding dom by blast
qed

text \<open>On a ring of \<open>n > 0\<close> cells both neighbour indices are cells of the ring, they are
  the Euclidean successor and predecessor although Go's remainder truncates, and going left
  then right (or right then left) comes back.\<close>

theorem ring_neighbours:
  assumes "0 < n" and "0 \<le> i" and "i < n"
  shows "LeftIndex n i = (i + 1) mod n \<and> RightIndex n i = (i - 1) mod n
    \<and> 0 \<le> LeftIndex n i \<and> LeftIndex n i < n \<and> 0 \<le> RightIndex n i \<and> RightIndex n i < n
    \<and> RightIndex n (LeftIndex n i) = i \<and> LeftIndex n (RightIndex n i) = i"
  using assms LeftIndex_range [of n i] RightIndex_range [of n i] ring_inverse [of n i]
  by (simp add: LeftIndex_mod RightIndex_mod)

theorem ring_neighbours_witness: "RightIndex 128 0 = 127 \<and> LeftIndex 128 127 = 0"
  using ring_neighbours [of 128 0] ring_neighbours [of 128 127] by simp

text \<open>A write of one cell is read back, leaves every other cell (and the row's length)
  as it was, and is defined exactly for the cells of the row.\<close>

theorem row_get_set:
  assumes "Set r i b = Some r'"
  shows "Get r' j = (if j = i then Some b else Get r j) \<and> Cells r' = Cells r \<and> 0 \<le> i \<and> i < Cells r"
  using ca_row.get_put [OF assms, of j] ca_row.size_put [OF assms] ca_row.put_defined [of r i b] assms
  by simp

theorem row_get_set_witness: "Set [0, 0] 9 True = Some [0, 2] \<and> Get [0, 2] 9 = Some True \<and> Get [0, 2] 8 = Some False"
proof -
  have s: "Set [0, 0] 9 True = Some [0, 2]" by code_simp
  have g: "Get [0, 0] 8 = Some False" by code_simp
  show ?thesis using s g row_get_set [OF s, of 9] row_get_set [OF s, of 8] by simp
qed

text \<open>\<open>SeedHex\<close> accepts exactly the hex strings, in either case, of rows that have the
  requested number of cells, for a positive multiple of eight cells; in particular it inverts
  \<open>Row.Hex\<close>, and every other string is an error.\<close>

theorem seed_hex_exact:
  "SeedHex n s = Inr r \<longleftrightarrow> 0 < n \<and> Cells r = n \<and> to_lower s = Hex r"
proof -
  have "hex_decode s = Inr r \<longleftrightarrow> to_lower s = Hex r"
    by (metis Hex_def hex_decode_encode hex_decode_lower hex_encode_decode)
  then show ?thesis by (simp add: SeedHex_Inr)
qed

end
