(* ===== verification/CellContract.thy ===== *)
theory CellContract
  imports Ca
begin

text \<open>
  The on-chain cell, \<open>contracts/Cell.runar.go\<close>.  The Runar primitives it calls are not part
  of the repository: they are the fields of a record, and \<open>runar_laws\<close> states their documented
  behaviour (a one-byte substring, concatenation, length, and the little-endian sign-magnitude
  reading of a byte padded with a zero byte).  A failed assertion, and any Go panic, is \<open>None\<close>:
  the spend is not valid.
\<close>

record runar_prims =
  Substr :: "bytes \<Rightarrow> int \<Rightarrow> int \<Rightarrow> bytes option"
  Cat :: "bytes \<Rightarrow> bytes \<Rightarrow> bytes"
  Bin2Num :: "bytes \<Rightarrow> int"
  Len :: "bytes \<Rightarrow> int"

record cell_contract =
  cRow :: bytes
  ByteL :: int
  DivL :: int
  ByteC :: int
  DivC :: int
  ByteR :: int
  DivR :: int
  RowBytes :: int
  cRule :: int

definition go_div :: "int \<Rightarrow> int \<Rightarrow> int option" where
  "go_div a b = (if b = 0 then None else Some (a sdiv b))"

definition bitAt :: "runar_prims \<Rightarrow> bytes \<Rightarrow> int \<Rightarrow> int \<Rightarrow> int option" where
  "bitAt R row byteIndex d = do {
     sub \<leftarrow> Substr R row byteIndex 1;
     q \<leftarrow> go_div (Bin2Num R (Cat R sub [0])) d;
     Some (q smod 2)
   }"

definition contract_Step :: "runar_prims \<Rightarrow> cell_contract \<Rightarrow> bytes \<Rightarrow> cell_contract option" where
  "contract_Step R c nextRow =
     (if Len R nextRow \<noteq> RowBytes c then None else do {
        l \<leftarrow> bitAt R (cRow c) (ByteL c) (DivL c);
        ce \<leftarrow> bitAt R (cRow c) (ByteC c) (DivC c);
        r \<leftarrow> bitAt R (cRow c) (ByteR c) (DivR c);
        q \<leftarrow> go_div (cRule c) ((1 + 15 * l) * (1 + 3 * ce) * (1 + r));
        b \<leftarrow> bitAt R nextRow (ByteC c) (DivC c);
        (if b = q smod 2 then Some (c\<lparr>cRow := nextRow\<rparr>) else None)
      })"

definition runar_laws :: "runar_prims \<Rightarrow> bool" where
  "runar_laws R \<longleftrightarrow>
     (\<forall>s i. 0 \<le> i \<and> i < int (length s) \<longrightarrow> Substr R s i 1 = Some [s ! nat i]) \<and>
     (\<forall>a b. Cat R a b = a @ b) \<and>
     (\<forall>b. Bin2Num R [b, 0] = uint b) \<and>
     (\<forall>s. Len R s = int (length s))"

text \<open>
  Script's own semantics of the four primitives, to instantiate the parameter: numbers are
  little-endian with the sign in the high bit of the last byte.
\<close>

fun le_nat :: "bytes \<Rightarrow> int" where
  "le_nat [] = 0"
| "le_nat (b # bs) = uint b + 256 * le_nat bs"

definition script_num :: "bytes \<Rightarrow> int" where
  "script_num bs =
     (if bs = [] then 0
      else if bit (last bs) 7 then - le_nat (butlast bs @ [last bs AND 127])
      else le_nat bs)"

definition script_prims :: runar_prims where
  "script_prims = \<lparr>
     Substr = (\<lambda>s i n. if 0 \<le> i \<and> 0 \<le> n \<and> i + n \<le> int (length s)
                        then Some (take (nat n) (drop (nat i) s)) else None),
     Cat = (@), Bin2Num = script_num, Len = (\<lambda>s. int (length s))\<rparr>"

lemma script_prims_laws: "runar_laws script_prims"
proof -
  have "take 1 (drop i s) = [s ! i]" if "i < length s" for i and s :: bytes
    using that by (simp add: Cons_nth_drop_Suc [symmetric])
  then show ?thesis by (auto simp: runar_laws_def script_prims_def script_num_def)
qed

subsection \<open>Reading a bit with a byte index and a divisor\<close>

lemma int_div_pow_mod2: "(uint b div 2 ^ k) mod 2 = of_bool (bit b k)" for b :: u8
proof -
  have "odd (uint b div 2 ^ k) = bit b k"
    using bit_iff_odd [of "uint b" k] bit_uint_iff [of b k] bit_imp_le_length [of b k] by blast
  then show ?thesis by (cases "bit b k") (auto simp: odd_iff_mod_2_eq_one even_iff_mod_2_eq_zero)
qed

lemma bool_int_eq_of_bool [simp]: "(bool_int a = of_bool b) = (a = b)"
  by (simp add: bool_int_def)

lemma bool_int_of_bool: "bool_int b = of_bool b"
  by (simp add: bool_int_def)

lemma bitAt_alive:
  assumes R: "runar_laws R" and i: "0 \<le> i" "i < Cells row"
  shows "bitAt R row (i div 8) (2 ^ nat (i mod 8)) = Some (bool_int (alive row i))"
proof -
  have "i div 8 < int (length row)" using i by (simp add: Cells_def)
  then have s: "Substr R row (i div 8) 1 = Some [row ! nat (i div 8)]"
    using R i(1) by (simp add: runar_laws_def)
  have n: "nat (i div 8) = nat i div 8" "nat (i mod 8) = nat i mod 8"
    using i(1) by (simp_all add: nat_div_distrib nat_mod_distrib)
  have "uint (row ! nat (i div 8)) sdiv 2 ^ nat (i mod 8) = uint (row ! nat (i div 8)) div 2 ^ nat (i mod 8)"
    by (rule sdiv_nonneg) simp_all
  moreover have "\<dots> smod 2 = \<dots> mod 2"
    by (rule smod_nonneg) (simp_all add: pos_imp_zdiv_nonneg_iff)
  ultimately show ?thesis using R s
    by (simp add: bitAt_def go_div_def runar_laws_def int_div_pow_mod2 alive_def n bool_int_of_bool)
qed

lemma branchless_pow:
  "(1 + 15 * bool_int l) * (1 + 3 * bool_int c) * (1 + bool_int r) = 2 ^ nbhd l c r"
  by (cases l; cases c; cases r) (simp_all add: bool_int_def nbhd_def)

lemma rule_bit: "(uint rule sdiv 2 ^ k) smod 2 = of_bool (bit rule k)" for rule :: u8
proof -
  have "uint rule sdiv 2 ^ k = uint rule div 2 ^ k" by (rule sdiv_nonneg) simp_all
  moreover have "\<dots> smod 2 = \<dots> mod 2" by (rule smod_nonneg) (simp_all add: pos_imp_zdiv_nonneg_iff)
  ultimately show ?thesis by (simp add: int_div_pow_mod2)
qed

text \<open>The contract bound to cell \<open>i\<close> of an \<open>n\<close>-cell ring: the constants \<open>ctorArgs\<close> computes.\<close>

definition bound_cell :: "int \<Rightarrow> rule \<Rightarrow> int \<Rightarrow> row \<Rightarrow> cell_contract" where
  "bound_cell n rule i row =
     (let l = LeftIndex n i; r = RightIndex n i in
      \<lparr>cRow = row,
       ByteL = l sdiv 8, DivL = 2 ^ nat (l smod 8),
       ByteC = i sdiv 8, DivC = 2 ^ nat (i smod 8),
       ByteR = r sdiv 8, DivR = 2 ^ nat (r smod 8),
       RowBytes = n sdiv 8, cRule = uint rule\<rparr>)"

lemma bound_cell_step:
  assumes R: "runar_laws R" and i: "0 \<le> i" "i < Cells row"
  shows "contract_Step R (bound_cell (Cells row) rule i row) next =
     (if length next = length row \<and> alive next i = next_alive rule row i
      then Some (bound_cell (Cells row) rule i next) else None)"
proof -
  let ?n = "Cells row" and ?l = "LeftIndex (Cells row) i" and ?r = "RightIndex (Cells row) i"
  have n: "0 < ?n" using i by simp
  have l: "0 \<le> ?l" "?l < ?n" and r: "0 \<le> ?r" "?r < ?n"
    using LeftIndex_range [OF n i(1)] RightIndex_range [OF n, of i] by simp_all
  have d: "j sdiv 8 = j div 8" "j smod 8 = j mod 8" if "0 \<le> j" for j :: int
    using that by (simp_all add: sdiv_nonneg smod_nonneg)
  have len: "Len R next = ?n sdiv 8 \<longleftrightarrow> length next = length row"
    using R by (simp add: runar_laws_def d Cells_def)
  have own: "bitAt R next (i div 8) (2 ^ nat (i mod 8)) = Some (bool_int (alive next i))"
    if "length next = length row"
    using bitAt_alive [OF R i(1)] i(2) that by (simp add: Cells_def)
  have g: "go_div (uint rule) (2 ^ k) = Some (uint rule sdiv 2 ^ k)" for k
    by (simp add: go_div_def)
  show ?thesis
    using own unfolding contract_Step_def bound_cell_def Let_def
    by (simp add: len d [OF l(1)] d [OF r(1)] d [OF i(1)] bitAt_alive [OF R l] bitAt_alive [OF R r]
        bitAt_alive [OF R i] branchless_pow g rule_bit next_alive_def)
qed

subsection \<open>Properties\<close>

text \<open>The covenant of cell \<open>i\<close> accepts a presented row exactly when the row has the ring's
  length and its bit \<open>i\<close> is the rule's output for the three bits the cell's own UTXO carries;
  the successor then carries precisely the presented row.\<close>

theorem covenant_accepts_own_bit:
  assumes "runar_laws R" and "0 \<le> i" and "i < Cells row"
  shows "contract_Step R (bound_cell (Cells row) rule i row) next = Some c' \<longleftrightarrow>
     length next = length row \<and>
     Get next i = do {
        l \<leftarrow> Get row (LeftIndex (Cells row) i);
        c \<leftarrow> Get row i;
        r \<leftarrow> Get row (RightIndex (Cells row) i);
        v \<leftarrow> Next rule (bool_int l) (bool_int c) (bool_int r);
        Some (v = 1) } \<and>
     c' = bound_cell (Cells row) rule i next"
proof -
  have rhs: "(do { l \<leftarrow> Get row (LeftIndex (Cells row) i); c \<leftarrow> Get row i;
        r \<leftarrow> Get row (RightIndex (Cells row) i);
        v \<leftarrow> Next rule (bool_int l) (bool_int c) (bool_int r); Some (v = 1) })
      = Some (next_alive rule row i)"
    using assms LeftIndex_range [of "Cells row" i] RightIndex_range [of "Cells row" i]
    by (simp add: Get_eq Next_nbhd next_alive_def)
  have "Get next i = Some (alive next i)" if "length next = length row"
    using assms that by (simp add: Get_eq Cells_def)
  then show ?thesis unfolding rhs bound_cell_step [OF assms] by auto
qed

theorem covenant_accepts_own_bit_witness:
  "contract_Step script_prims (bound_cell 8 Rule110 1 [1]) [3] = Some (bound_cell 8 Rule110 1 [3])"
proof -
  have n: "Cells [1 :: u8] = 8" by (simp add: Cells_def)
  have g: "Get [3] 1 = do {
        l \<leftarrow> Get [1] (LeftIndex (Cells [1]) 1);
        c \<leftarrow> Get [1] 1;
        r \<leftarrow> Get [1] (RightIndex (Cells [1]) 1);
        v \<leftarrow> Next Rule110 (bool_int l) (bool_int c) (bool_int r);
        Some (v = 1) }" by code_simp
  show ?thesis
    using covenant_accepts_own_bit [OF script_prims_laws, of 1 "[1]" Rule110 "[3]"
      "bound_cell (Cells [1]) Rule110 1 [3]"] g unfolding n by simp
qed

text \<open>Claim C2: a complete generation is proved by the ring: if every cell's UTXO carries the same row
  and every cell's covenant accepts the same presented row, that row is exactly \<open>Rule.Step\<close> of
  the current one, and conversely \<open>Rule.Step\<close>'s row is accepted by every cell.\<close>

theorem ring_proves_generation:
  assumes "runar_laws R" and "0 < Cells row"
  shows "(\<forall>i \<in> {0..<Cells row}. contract_Step R (bound_cell (Cells row) rule i row) next \<noteq> None)
     \<longleftrightarrow> Step rule row = Some next"
proof -
  obtain out where out: "Step rule row = Some out" "length out = length row"
    "\<And>j. 0 \<le> j \<Longrightarrow> j < Cells row \<Longrightarrow> alive out j = next_alive rule row j"
    using Step_spec by blast
  have "(\<forall>i \<in> {0..<Cells row}. contract_Step R (bound_cell (Cells row) rule i row) next \<noteq> None)
    = (\<forall>i \<in> {0..<Cells row}. length next = length row \<and> alive next i = next_alive rule row i)"
    by (rule ball_cong [OF refl]) (simp add: bound_cell_step [OF assms(1)])
  also have "\<dots> = (next = out)"
  proof
    assume a: "\<forall>i \<in> {0..<Cells row}. length next = length row \<and> alive next i = next_alive rule row i"
    have len: "length next = length row" using bspec [OF a, of 0] assms(2) by simp
    show "next = out" by (rule row_eqI) (use a len out(2,3) in \<open>simp_all add: Cells_def\<close>)
  next
    assume "next = out"
    then show "\<forall>i \<in> {0..<Cells row}. length next = length row \<and> alive next i = next_alive rule row i"
      using out(2,3) by simp
  qed
  finally show ?thesis using out(1) by auto
qed

theorem ring_proves_generation_witness:
  "Step Rule110 [1] = Some [3]
   \<and> contract_Step script_prims (bound_cell 8 Rule110 0 [1]) [3] \<noteq> None
   \<and> contract_Step script_prims (bound_cell 8 Rule110 7 [1]) [3] \<noteq> None"
proof -
  have n: "Cells [1 :: u8] = 8" by (simp add: Cells_def)
  have "Step Rule110 [1] = Some [3]" by code_simp
  then show ?thesis
    using ring_proves_generation [OF script_prims_laws, of "[1]" Rule110 "[3]"] unfolding n by simp
qed

text \<open>Script does not make the cells agree: whatever is written into another cell's position
  of an accepted row, the covenant of cell \<open>i\<close> accepts the altered row too.\<close>

theorem other_cells_bits_unchecked:
  assumes "runar_laws R" and "0 \<le> i" and "i < Cells row" and "j \<noteq> i"
    and "contract_Step R (bound_cell (Cells row) rule i row) next \<noteq> None"
    and "Set next j b = Some next'"
  shows "contract_Step R (bound_cell (Cells row) rule i row) next' = Some (bound_cell (Cells row) rule i next')"
proof -
  have nx: "length next = length row" "alive next i = next_alive rule row i"
    using assms(5) bound_cell_step [OF assms(1-3), of rule "next"] by (auto split: if_splits)
  have "Get next' i = Get next i" using ca_row.get_put_other [OF assms(6)] assms(4) by simp
  moreover have "length next' = length row" using Set_length [OF assms(6)] nx(1) by simp
  ultimately show ?thesis
    using nx assms(2,3) bound_cell_step [OF assms(1-3), of rule next'] by (simp add: Get_eq Cells_def)
qed

theorem other_cells_bits_unchecked_witness:
  "contract_Step script_prims (bound_cell 8 Rule110 1 [1]) [67] = Some (bound_cell 8 Rule110 1 [67])"
proof -
  have n: "Cells [1 :: u8] = 8" by (simp add: Cells_def)
  have s: "Set [3] 6 True = Some [67]" by code_simp
  have a: "contract_Step script_prims (bound_cell (Cells [1]) Rule110 1 [1]) [3] \<noteq> None" by code_simp
  show ?thesis
    using other_cells_bits_unchecked [OF script_prims_laws, of 1 "[1]" 6 Rule110 "[3]" True "[67]"] s a
    unfolding n by simp
qed

end
