(* ===== verification/CellScript.thy ===== *)
theory CellScript
  imports CellContract
begin

text \<open>
  Binding the compiled contract per cell, \<open>internal/cellscript/cellscript.go\<close>.  The Runar
  compiler's output is third-party code: an artifact is a record of what the source calls on it
  (the locking-script assembler, the state serializer, the ABI and the code-separator indices).
  What \<open>Decode\<close> relies on is stated by \<open>artifact_laws\<close>.  Transactions of go-sdk are the record
  \<open>tx\<close> below, holding the fields the sources read.
\<close>

datatype ctor_arg = ArgHex string | ArgInt int

record artifact =
  GetLockingScript :: "ctor_arg list \<Rightarrow> string"
  SerializeState :: "string \<Rightarrow> string"
  ctorParamNames :: "string list"
  abiMethods :: "(string \<times> bool) list"
  CodeSeparatorIndices :: "int list"
  CodeSeparatorIndex :: "int option"

record compiled =
  art :: artifact
  cells :: int
  crule :: rule
  codeSepOff :: int

datatype script_error =
    BadRing int
  | CompileFailed string
  | ConstructorChanged "string list"
  | PublicMethodsChanged "string list"
  | SeparatorOutside int nat
  | NotSeparator int u8
  | CellOutOfRange int int
  | RowHasWrongCells int int
  | BadScriptHex int
  | NoStateSuffix int
  | ScriptTooShort nat
  | NotOpReturn nat u8
  | DuplicateCode int int
  | UnknownCode int rule
  | RebuildDiffers int
  | BadUnlockChunks string
  | WrongPushCount nat
  | WrongNextRow nat int
  | NumberTooLong nat
  | NumberNegative bytes
  | PreimageFailed string
  | NilTransaction
  | InputOutOfRange int nat
  | BadChangePKH nat
  | Panicked

definition opReturn :: string where
  "opReturn = ''6a''"

definition OP_RETURN :: u8 where "OP_RETURN = 0x6a"
definition OP_CODESEPARATOR :: u8 where "OP_CODESEPARATOR = 0xab"
definition OP_0 :: u8 where "OP_0 = 0"
definition OP_1NEGATE :: u8 where "OP_1NEGATE = 0x4f"
definition OP_1 :: u8 where "OP_1 = 0x51"
definition OP_16 :: u8 where "OP_16 = 0x60"

definition ctorParams :: "string list" where
  "ctorParams = [''row'', ''byteL'', ''divL'', ''byteC'', ''divC'', ''byteR'', ''divR'', ''rowBytes'', ''rule'']"

definition stepMethod :: string where
  "stepMethod = ''step''"

subsection \<open>Compilation and the ABI check\<close>

fun str_join :: "string \<Rightarrow> string list \<Rightarrow> string" where
  "str_join sep [] = []"
| "str_join sep [s] = s"
| "str_join sep (s # t # ts) = s @ sep @ str_join sep (t # ts)"

definition checkABI :: "artifact \<Rightarrow> script_error option" where
  "checkABI a =
     (if str_join '','' (ctorParamNames a) \<noteq> str_join '','' ctorParams
      then Some (ConstructorChanged (ctorParamNames a))
      else let public = map fst (filter snd (abiMethods a)) in
           if length public \<noteq> 1 \<or> public ! 0 \<noteq> stepMethod then Some (PublicMethodsChanged public)
           else None)"

definition codeSepOffset :: "artifact \<Rightarrow> bytes \<Rightarrow> script_error + int" where
  "codeSepOffset a ls =
     (let idx = (case CodeSeparatorIndices a of
                   i # _ \<Rightarrow> i
                 | [] \<Rightarrow> (case CodeSeparatorIndex a of Some i \<Rightarrow> i | None \<Rightarrow> - 1)) in
      if idx < 0 \<or> idx \<ge> int (length ls) then Inl (SeparatorOutside idx (length ls))
      else if ls ! nat idx \<noteq> OP_CODESEPARATOR then Inl (NotSeparator idx (ls ! nat idx))
      else Inr idx)"

definition mustRow :: "int \<Rightarrow> row option" where
  "mustRow n = (case NewRow n of Inl _ \<Rightarrow> None | Inr r \<Rightarrow> Some r)"

text \<open>\<open>int64(1) << (l % 8)\<close> for the bit position of a cell.\<close>

definition divisor :: "int \<Rightarrow> int" where
  "divisor i = push_bit (nat (i smod 8)) 1"

definition ctorArgs :: "compiled \<Rightarrow> int \<Rightarrow> row \<Rightarrow> script_error + ctor_arg list" where
  "ctorArgs c i row =
     (if i < 0 \<or> i \<ge> cells c then Inl (CellOutOfRange i (cells c))
      else if Cells row \<noteq> cells c then Inl (RowHasWrongCells (Cells row) (cells c))
      else let l = LeftIndex (cells c) i; r = RightIndex (cells c) i in
           Inr [ArgHex (Hex row),
                ArgInt (l sdiv 8), ArgInt (divisor l),
                ArgInt (i sdiv 8), ArgInt (divisor i),
                ArgInt (r sdiv 8), ArgInt (divisor r),
                ArgInt (cells c sdiv 8),
                ArgInt (uint (crule c))])"

definition lockingScriptHex :: "compiled \<Rightarrow> int \<Rightarrow> row \<Rightarrow> script_error + string" where
  "lockingScriptHex c i row =
     (case ctorArgs c i row of Inl e \<Rightarrow> Inl e | Inr args \<Rightarrow> Inr (GetLockingScript (art c) args))"

definition LockingScript :: "compiled \<Rightarrow> int \<Rightarrow> row \<Rightarrow> script_error + bytes" where
  "LockingScript c i row =
     (case ctorArgs c i row of
        Inl e \<Rightarrow> Inl e
      | Inr args \<Rightarrow>
         (case hex_decode (GetLockingScript (art c) args) of
            Inl _ \<Rightarrow> Inl (BadScriptHex i)
          | Inr b \<Rightarrow> Inr b))"

definition Compile :: "(string + artifact) \<Rightarrow> int \<Rightarrow> rule \<Rightarrow> script_error + compiled" where
  "Compile source_artifact n rule =
     (if n \<le> 0 \<or> n smod 8 \<noteq> 0 then Inl (BadRing n)
      else case source_artifact of
             Inl msg \<Rightarrow> Inl (CompileFailed msg)
           | Inr a \<Rightarrow>
              (case checkABI a of
                 Some e \<Rightarrow> Inl e
               | None \<Rightarrow>
                  (let c = \<lparr>art = a, cells = n, crule = rule, codeSepOff = 0\<rparr> in
                   case mustRow n of
                     None \<Rightarrow> Inl Panicked
                   | Some row \<Rightarrow>
                      (case LockingScript c 0 row of
                         Inl e \<Rightarrow> Inl e
                       | Inr probe \<Rightarrow>
                          (case codeSepOffset a probe of
                             Inl e \<Rightarrow> Inl e
                           | Inr off \<Rightarrow> Inr (c\<lparr>codeSepOff := off\<rparr>))))))"

definition stateSuffixHex :: "compiled \<Rightarrow> row \<Rightarrow> string" where
  "stateSuffixHex c row = opReturn @ SerializeState (art c) (Hex row)"

definition CodePart :: "compiled \<Rightarrow> int \<Rightarrow> row \<Rightarrow> script_error + bytes" where
  "CodePart c i row =
     (case lockingScriptHex c i row of
        Inl e \<Rightarrow> Inl e
      | Inr lockHex \<Rightarrow>
         (let suffix = stateSuffixHex c row in
          if \<not> has_suffix lockHex suffix then Inl (NoStateSuffix i)
          else case hex_decode (take (length lockHex - length suffix) lockHex) of
                 Inl _ \<Rightarrow> Inl (BadScriptHex i)
               | Inr b \<Rightarrow> Inr b))"

definition ScriptCode :: "compiled \<Rightarrow> bytes \<Rightarrow> script_error + bytes" where
  "ScriptCode c ls =
     (if int (length ls) \<le> codeSepOff c + 1 then Inl (ScriptTooShort (length ls))
      else Inr (drop (nat (codeSepOff c + 1)) ls))"

subsection \<open>Spending a cell: the preimage and the unlocking script\<close>

record tx_input =
  SourceTXID :: "txid option"
  SourceTxOutIndex :: u32
  UnlockScript :: bytes

record tx_output =
  OutScript :: "bytes option"
  Satoshis :: u64

record tx =
  Inputs :: "tx_input list"
  Outputs :: "tx_output list"

text \<open>What the source calls on the Runar SDK to assemble an unlocking script.\<close>

record runar_sdk =
  ComputeOpPushTx :: "tx \<Rightarrow> int \<Rightarrow> string \<Rightarrow> int \<Rightarrow> int \<Rightarrow> string + bytes"
  EncodePushData :: "string \<Rightarrow> string"
  EncodeScriptInt :: "int \<Rightarrow> string"

record spend =
  CellIndex :: int
  CurrentRow :: row
  NextRow :: row
  SpendTx :: "tx option"
  InputIndex :: int
  PrevSatoshis :: u64
  ChangePKH :: bytes
  ChangeAmount :: u64
  NewAmount :: u64

definition preimage :: "runar_sdk \<Rightarrow> compiled \<Rightarrow> tx \<Rightarrow> int \<Rightarrow> string \<Rightarrow> u64 \<Rightarrow> script_error + bytes" where
  "preimage K c t idx lockHex prevSats =
     (case ComputeOpPushTx K t idx lockHex (sint prevSats) (codeSepOff c) of
        Inl msg \<Rightarrow> Inl (PreimageFailed msg)
      | Inr p \<Rightarrow> Inr p)"

definition Preimage :: "runar_sdk \<Rightarrow> compiled \<Rightarrow> tx option \<Rightarrow> int \<Rightarrow> bytes \<Rightarrow> u64 \<Rightarrow> script_error + bytes" where
  "Preimage K c t idx prevLock prevSats =
     (case t of
        None \<Rightarrow> Inl NilTransaction
      | Some t' \<Rightarrow>
         if idx < 0 \<or> idx \<ge> int (length (Inputs t')) then Inl (InputOutOfRange idx (length (Inputs t')))
         else preimage K c t' idx (hex_encode prevLock) prevSats)"

definition UnlockingScript :: "runar_sdk \<Rightarrow> compiled \<Rightarrow> spend \<Rightarrow> script_error + bytes" where
  "UnlockingScript K c s =
     (case SpendTx s of
        None \<Rightarrow> Inl NilTransaction
      | Some t \<Rightarrow>
         if Cells (NextRow s) \<noteq> cells c then Inl (RowHasWrongCells (Cells (NextRow s)) (cells c))
         else if length (ChangePKH s) \<noteq> 20 then Inl (BadChangePKH (length (ChangePKH s)))
         else case lockingScriptHex c (CellIndex s) (CurrentRow s) of
                Inl e \<Rightarrow> Inl e
              | Inr lockHex \<Rightarrow>
                 (case CodePart c (CellIndex s) (CurrentRow s) of
                    Inl e \<Rightarrow> Inl e
                  | Inr codePart \<Rightarrow>
                     (case preimage K c t (InputIndex s) lockHex (PrevSatoshis s) of
                        Inl e \<Rightarrow> Inl e
                      | Inr p \<Rightarrow>
                         (case hex_decode
                            (EncodePushData K (hex_encode codePart) @
                             EncodePushData K (Hex (NextRow s)) @
                             EncodePushData K (hex_encode (ChangePKH s)) @
                             EncodeScriptInt K (sint (ChangeAmount s)) @
                             EncodeScriptInt K (sint (NewAmount s)) @
                             EncodePushData K (hex_encode p)) of
                            Inl _ \<Rightarrow> Inl (BadScriptHex (CellIndex s))
                          | Inr b \<Rightarrow> Inr b))))"

subsection \<open>Decoding a locking script\<close>

record binding =
  bCell :: int
  bRow :: row

text \<open>\<open>bindingIndex\<close>: every cell's code part, refusing to build the table over a duplicate.\<close>

fun index_loop :: "compiled \<Rightarrow> row \<Rightarrow> int list \<Rightarrow> (bytes \<Rightarrow> int option)
    \<Rightarrow> script_error + (bytes \<Rightarrow> int option)" where
  "index_loop c row [] idx = Inr idx"
| "index_loop c row (i # is) idx =
     (case CodePart c i row of
        Inl e \<Rightarrow> Inl e
      | Inr code \<Rightarrow>
         (case idx code of
            Some prev \<Rightarrow> Inl (DuplicateCode prev i)
          | None \<Rightarrow> index_loop c row is (idx(code \<mapsto> i))))"

definition bindingIndex :: "compiled \<Rightarrow> script_error + (bytes \<Rightarrow> int option)" where
  "bindingIndex c =
     (case mustRow (cells c) of
        None \<Rightarrow> Inl Panicked
      | Some row \<Rightarrow> index_loop c row (map int [0..<nat (cells c)]) Map.empty)"

definition Decode :: "compiled \<Rightarrow> bytes \<Rightarrow> script_error + binding" where
  "Decode c ls =
     (case bindingIndex c of
        Inl e \<Rightarrow> Inl e
      | Inr index \<Rightarrow>
         (let rowBytes = nat (cells c sdiv 8);
              suffix = length (stateSuffixHex c (replicate rowBytes 0)) div 2 in
          if length ls \<le> suffix then Inl (ScriptTooShort (length ls))
          else let split = length ls - suffix in
          if split \<ge> length ls then Inl Panicked
          else if ls ! split \<noteq> OP_RETURN then Inl (NotOpReturn split (ls ! split))
          else if rowBytes > length ls then Inl Panicked
          else let row = drop (length ls - rowBytes) ls in
          (case index (take split ls) of
             None \<Rightarrow> Inl (UnknownCode (cells c) (crule c))
           | Some cell \<Rightarrow>
              (case LockingScript c cell row of
                 Inl e \<Rightarrow> Inl e
               | Inr want \<Rightarrow>
                  if want \<noteq> ls then Inl (RebuildDiffers cell)
                  else Inr \<lparr>bCell = cell, bRow = row\<rparr>))))"

subsection \<open>Decoding an unlocking script\<close>

record chunk =
  Op :: u8
  Data :: bytes

definition unlockArgs :: nat where "unlockArgs = 6"

record unlock =
  uCodePart :: bytes
  uNextRow :: row
  uChangePKH :: bytes
  uChangeAmount :: u64
  uNewAmount :: u64
  uPreimage :: bytes

definition pushedBytes :: "chunk \<Rightarrow> bytes" where
  "pushedBytes ch =
     (if Op ch = OP_0 then []
      else if Op ch = OP_1NEGATE then [0x81]
      else if OP_1 \<le> Op ch \<and> Op ch \<le> OP_16 then [Op ch - OP_1 + 1]
      else Data ch)"

text \<open>The accumulation loop of \<open>scriptUint\<close>, most significant byte first.\<close>

fun be_shift :: "u64 \<Rightarrow> bytes \<Rightarrow> u64" where
  "be_shift n [] = n"
| "be_shift n (b # bs) = be_shift (push_bit 8 n OR ucast b) bs"

definition scriptUint :: "chunk \<Rightarrow> script_error + u64" where
  "scriptUint ch =
     (let b = pushedBytes ch in
      if length b = 0 then Inr 0
      else if length b > 8 then Inl (NumberTooLong (length b))
      else if (last b AND 0x80) \<noteq> 0 then Inl (NumberNegative b)
      else Inr (be_shift 0 (rev b)))"

definition DecodeUnlocking :: "compiled \<Rightarrow> (string + chunk list) \<Rightarrow> script_error + unlock" where
  "DecodeUnlocking c parsed =
     (case parsed of
        Inl msg \<Rightarrow> Inl (BadUnlockChunks msg)
      | Inr chunks \<Rightarrow>
         if length chunks \<noteq> unlockArgs then Inl (WrongPushCount (length chunks))
         else let nextRow = pushedBytes (chunks ! 1) in
         if int (length nextRow) \<noteq> cells c sdiv 8
         then Inl (WrongNextRow (length nextRow) (cells c sdiv 8))
         else case scriptUint (chunks ! 3) of
                Inl e \<Rightarrow> Inl e
              | Inr changeAmount \<Rightarrow>
                 (case scriptUint (chunks ! 4) of
                    Inl e \<Rightarrow> Inl e
                  | Inr newAmount \<Rightarrow>
                     Inr \<lparr>uCodePart = pushedBytes (chunks ! 0), uNextRow = nextRow,
                          uChangePKH = pushedBytes (chunks ! 2),
                          uChangeAmount = changeAmount, uNewAmount = newAmount,
                          uPreimage = Data (chunks ! 5)\<rparr>))"

subsection \<open>What decoding relies on\<close>

text \<open>
  The compiler's documented output shape: the locking script is a code part that depends only on
  the cell, then \<open>OP_RETURN\<close>, then the serialized row, which is a push prefix that depends only on
  the row's length followed by the row's bytes; and distinct cells have distinct code parts.
\<close>

definition artifact_laws :: "compiled \<Rightarrow> (int \<Rightarrow> bytes) \<Rightarrow> bytes \<Rightarrow> bool" where
  "artifact_laws c code pre \<longleftrightarrow>
     0 < cells c \<and> 8 dvd cells c \<and>
     (\<forall>i row args. ctorArgs c i row = Inr args \<longrightarrow>
        GetLockingScript (art c) args = hex_encode (code i) @ stateSuffixHex c row) \<and>
     (\<forall>row. Cells row = cells c \<longrightarrow> SerializeState (art c) (Hex row) = hex_encode (pre @ row)) \<and>
     inj_on code {0..<cells c} \<and> (\<forall>i. code i \<noteq> [])"

lemma hex_encode_append: "hex_encode (a @ b) = hex_encode a @ hex_encode b"
  by (induction a) auto

lemma opReturn_hex: "opReturn = hex_encode [OP_RETURN]"
  by (simp add: opReturn_def OP_RETURN_def hex_digit_def)

lemma ctorArgs_Inr:
  "ctorArgs c i row = Inr args \<Longrightarrow> 0 \<le> i \<and> i < cells c \<and> Cells row = cells c"
  by (auto simp: ctorArgs_def Let_def split: if_splits)

lemma ctorArgs_ok:
  "0 \<le> i \<Longrightarrow> i < cells c \<Longrightarrow> Cells row = cells c \<Longrightarrow> \<exists>args. ctorArgs c i row = Inr args"
  by (simp add: ctorArgs_def Let_def)

lemma LockingScript_Inr:
  "LockingScript c i row = Inr ls \<Longrightarrow> 0 \<le> i \<and> i < cells c \<and> Cells row = cells c"
  by (auto simp: LockingScript_def dest: ctorArgs_Inr split: sum.splits)

lemma suffix_hex:
  "artifact_laws c code pre \<Longrightarrow> Cells row = cells c \<Longrightarrow>
   stateSuffixHex c row = hex_encode (OP_RETURN # pre @ row)"
  by (simp add: artifact_laws_def stateSuffixHex_def opReturn_hex)

lemma lock_hex:
  "artifact_laws c code pre \<Longrightarrow> ctorArgs c i row = Inr args \<Longrightarrow>
   GetLockingScript (art c) args = hex_encode (code i @ OP_RETURN # pre @ row)"
  using ctorArgs_Inr [of c i row args] suffix_hex [of c code pre row]
  by (auto simp: artifact_laws_def hex_encode_append)

lemma LockingScript_code:
  assumes "artifact_laws c code pre" "0 \<le> i" "i < cells c" "Cells row = cells c"
  shows "LockingScript c i row = Inr (code i @ OP_RETURN # pre @ row)"
  using ctorArgs_ok [OF assms(2-4)] by (auto simp: LockingScript_def lock_hex [OF assms(1)] hex_decode_encode)

lemma CodePart_code:
  assumes "artifact_laws c code pre" "0 \<le> i" "i < cells c" "Cells row = cells c"
  shows "CodePart c i row = Inr (code i)"
proof -
  have "lockingScriptHex c i row = Inr (hex_encode (code i) @ hex_encode (OP_RETURN # pre @ row))"
    using ctorArgs_ok [OF assms(2-4)]
    by (auto simp: lockingScriptHex_def lock_hex [OF assms(1)] hex_encode_append)
  then show ?thesis
    by (simp add: CodePart_def suffix_hex [OF assms(1,4)] hex_decode_encode Let_def
        del: hex_encode.simps(2))
qed

lemma index_loop_spec:
  assumes "\<forall>i \<in> set is. CodePart c i row = Inr (code i)"
    and "inj_on code (set is)" and "distinct is" and "\<forall>i \<in> set is. idx (code i) = None"
  shows "\<exists>res. index_loop c row is idx = Inr res \<and> (\<forall>i \<in> set is. res (code i) = Some i)
     \<and> (\<forall>k. k \<notin> code ` set is \<longrightarrow> res k = idx k)"
  using assms
proof (induction "is" arbitrary: idx)
  case Nil
  then show ?case by simp
next
  case (Cons i "is")
  have fresh: "code j \<noteq> code i" if "j \<in> set is" for j
    using Cons.prems(2,3) that by (auto simp: inj_on_def)
  have "\<exists>res. index_loop c row is (idx(code i \<mapsto> i)) = Inr res \<and> (\<forall>j \<in> set is. res (code j) = Some j)
     \<and> (\<forall>k. k \<notin> code ` set is \<longrightarrow> res k = (idx(code i \<mapsto> i)) k)"
    using Cons.prems fresh by (intro Cons.IH) auto
  moreover have "code i \<notin> code ` set is" using fresh by (metis imageE)
  ultimately show ?case using Cons.prems(1,4) by auto
qed

lemma bindingIndex_spec:
  assumes laws: "artifact_laws c code pre"
  shows "\<exists>idx. bindingIndex c = Inr idx \<and> (\<forall>i. 0 \<le> i \<and> i < cells c \<longrightarrow> idx (code i) = Some i)"
proof -
  let ?is = "map int [0..<nat (cells c)]"
  have c: "0 < cells c" "8 dvd cells c" "inj_on code {0..<cells c}" using laws by (auto simp: artifact_laws_def)
  define row :: row where "row = replicate (nat (cells c div 8)) 0"
  have row: "mustRow (cells c) = Some row" "Cells row = cells c"
    using c by (auto simp: mustRow_def NewRow_Inr row_def Cells_def)
  have is_eq: "set ?is = {0..<cells c}" by (auto simp: image_iff intro!: bexI [of _ "nat _"])
  have "distinct ?is" by (simp add: distinct_map)
  then have "\<exists>res. index_loop c row ?is Map.empty = Inr res \<and> (\<forall>i \<in> set ?is. res (code i) = Some i)"
    using index_loop_spec [of ?is c row code Map.empty] CodePart_code [OF laws] c(3) row(2)
    unfolding is_eq by auto
  then show ?thesis unfolding is_eq by (auto simp: bindingIndex_def row(1))
qed

lemma Decode_LockingScript:
  assumes laws: "artifact_laws c code pre" and ls: "LockingScript c i row = Inr ls"
  shows "Decode c ls = Inr \<lparr>bCell = i, bRow = row\<rparr>"
proof -
  have i: "0 \<le> i" "i < cells c" and row: "Cells row = cells c" using LockingScript_Inr [OF ls] by auto
  obtain idx where idx: "bindingIndex c = Inr idx" "idx (code i) = Some i"
    using bindingIndex_spec [OF laws] i by blast
  have ne: "code i \<noteq> []" using laws by (simp add: artifact_laws_def)
  have lsc: "ls = code i @ OP_RETURN # pre @ row" using LockingScript_code [OF laws i row] ls by simp
  let ?z = "replicate (nat (cells c sdiv 8)) (0 :: u8)"
  have rb: "nat (cells c sdiv 8) = length row" using row i by (simp add: sdiv_nonneg Cells_def)
  have "Cells ?z = cells c" unfolding rb using row by (simp add: Cells_def)
  then have suf: "length (stateSuffixHex c ?z) div 2 = Suc (length pre + length row)"
    by (simp add: suffix_hex [OF laws] rb del: hex_encode.simps(2))
  show ?thesis
    unfolding Decode_def idx(1) sum.case Let_def suf
    by (simp add: rb lsc idx(2) LockingScript_code [OF laws i row] nth_append ne)
qed

lemma LockingScript_inj:
  assumes "artifact_laws c code pre" "LockingScript c i row = Inr ls" "LockingScript c j row' = Inr ls"
  shows "i = j \<and> row = row'"
  using Decode_LockingScript [OF assms(1,2)] Decode_LockingScript [OF assms(1,3)] by simp

subsection \<open>Properties\<close>

text \<open>A successful decode is a demonstration: whatever the Runar compiler produces, the
  decoded cell is a cell of the ring, the decoded row has the ring's size, and binding that cell
  to that row rebuilds the given script byte for byte.\<close>

theorem decode_sound:
  assumes "Decode c ls = Inr b"
  shows "LockingScript c (bCell b) (bRow b) = Inr ls \<and> 0 \<le> bCell b \<and> bCell b < cells c
     \<and> Cells (bRow b) = cells c"
proof -
  have "LockingScript c (bCell b) (bRow b) = Inr ls"
    using assms by (auto simp: Decode_def Let_def split: sum.splits option.splits if_splits)
  then show ?thesis using LockingScript_Inr by blast
qed

text \<open>Claim C3: for a compiler that behaves as documented, decoding is total on the covenant's own
  scripts: the locking script of any cell carrying any row of the ring decodes to that cell and
  that row, so no two bindings share a script.\<close>

theorem decode_locking_script:
  assumes laws: "artifact_laws c code pre" and ls: "LockingScript c i row = Inr ls"
  shows "Decode c ls = Inr \<lparr>bCell = i, bRow = row\<rparr>"
  using assms by (rule Decode_LockingScript)

text \<open>A small concrete compiler output, to instantiate the parameter: an 8-cell ring whose code part
  is the constructor's integers behind an \<open>OP_CODESEPARATOR\<close>.\<close>

definition demo_lock :: "ctor_arg list \<Rightarrow> string" where
  "demo_lock args = hex_encode (OP_CODESEPARATOR # concat (map (\<lambda>a. case a of ArgInt n \<Rightarrow> [word_of_int n] | ArgHex _ \<Rightarrow> []) args))
     @ ''6a'' @ ''01'' @ concat (map (\<lambda>a. case a of ArgHex s \<Rightarrow> s | ArgInt _ \<Rightarrow> []) args)"

definition demo_artifact :: artifact where
  "demo_artifact = \<lparr>GetLockingScript = demo_lock, SerializeState = (\<lambda>s. ''01'' @ s),
     ctorParamNames = ctorParams, abiMethods = [(''step'', True)],
     CodeSeparatorIndices = [0], CodeSeparatorIndex = None\<rparr>"

definition demo_compiled :: compiled where
  "demo_compiled = \<lparr>art = demo_artifact, cells = 8, crule = Rule110, codeSepOff = 0\<rparr>"

definition demo_code :: "int \<Rightarrow> bytes" where
  "demo_code i = [OP_CODESEPARATOR, 0, word_of_int (divisor (LeftIndex 8 i)), 0, word_of_int (divisor i),
     0, word_of_int (divisor (RightIndex 8 i)), 1, 110]"

lemma demo_ring: "0 \<le> i \<Longrightarrow> i < 8 \<Longrightarrow> i \<in> {0, 1, 2, 3, 4, 5, 6, 7 :: int}"
  by auto

lemma demo_code_inj: "inj_on demo_code {0..<8}"
proof -
  let ?find = "\<lambda>i. find (\<lambda>j. demo_code j = demo_code i) [0, 1, 2, 3, 4, 5, 6, 7]"
  have f: "\<forall>i \<in> {0, 1, 2, 3, 4, 5, 6, 7 :: int}. ?find i = Some i"
    by code_simp
  show ?thesis
  proof (rule inj_onI)
    fix i j :: int
    assume "i \<in> {0..<8}" "j \<in> {0..<8}" and e: "demo_code i = demo_code j"
    then have "?find i = Some i" "?find j = Some j"
      using bspec [OF f, OF demo_ring, of i] bspec [OF f, OF demo_ring, of j] by simp_all
    moreover have "?find i = ?find j" using e by (simp only:)
    ultimately show "i = j" by simp
  qed
qed

lemma demo_compiles: "Compile (Inr demo_artifact) 8 Rule110 = Inr demo_compiled"
proof -
  let ?c = "\<lparr>art = demo_artifact, cells = 8, crule = Rule110, codeSepOff = 0\<rparr>"
  have ring: "(8 :: int) smod 8 = 0" by code_simp
  have abi: "checkABI demo_artifact = None" by code_simp
  have row: "mustRow 8 = Some [0]" by code_simp
  have "case LockingScript ?c 0 [0] of Inr probe \<Rightarrow> codeSepOffset demo_artifact probe = Inr 0 | _ \<Rightarrow> False" by code_simp
  then obtain probe where "LockingScript ?c 0 [0] = Inr probe" "codeSepOffset demo_artifact probe = Inr 0"
    by (auto split: sum.splits)
  then show ?thesis using ring by (simp add: Compile_def abi row demo_compiled_def)
qed

lemma demo_laws: "artifact_laws demo_compiled demo_code [1]"
proof -
  have one: "''01'' = hex_encode [1]" by (simp add: hex_digit_def)
  have "LeftIndex 8 i sdiv 8 = 0" "RightIndex 8 i sdiv 8 = 0" "i sdiv 8 = 0" if "0 \<le> i" "i < 8" for i
    using that LeftIndex_range [of 8 i] RightIndex_range [of 8 i] by (simp_all add: sdiv_nonneg)
  then have "demo_lock args = hex_encode (demo_code i) @ stateSuffixHex demo_compiled row"
    if "ctorArgs demo_compiled i row = Inr args" for i row args
    using that one
    by (auto simp: ctorArgs_def demo_compiled_def demo_artifact_def demo_lock_def demo_code_def
        stateSuffixHex_def opReturn_def Let_def Rule110_def split: if_splits)
  then show ?thesis
    using demo_code_inj one
    by (simp add: artifact_laws_def demo_compiled_def demo_artifact_def Hex_def demo_code_def)
qed

theorem decode_sound_witness:
  "LockingScript demo_compiled 3 [5] = Inr [0xab, 0, 16, 0, 8, 0, 4, 1, 110, 0x6a, 1, 5]"
proof -
  have "Decode demo_compiled [0xab, 0, 16, 0, 8, 0, 4, 1, 110, 0x6a, 1, 5] = Inr \<lparr>bCell = 3, bRow = [5]\<rparr>"
    by code_simp
  from decode_sound [OF this] show ?thesis by simp
qed

theorem decode_locking_script_witness:
  "Decode demo_compiled [0xab, 0, 1, 0, 128, 0, 64, 1, 110, 0x6a, 1, 0x80] = Inr \<lparr>bCell = 7, bRow = [0x80]\<rparr>"
proof -
  have "LockingScript demo_compiled 7 [0x80] = Inr [0xab, 0, 1, 0, 128, 0, 64, 1, 110, 0x6a, 1, 0x80]"
    by code_simp
  from decode_locking_script [OF demo_laws this] show ?thesis .
qed

subsection \<open>Script numbers\<close>

lemma le_nat_bounds: "0 \<le> le_nat bs \<and> le_nat bs < 256 ^ length bs"
proof (induction bs)
  case Nil
  then show ?case by simp
next
  case (Cons b bs)
  have "uint b \<le> 255" using uint_bounded [of b] by simp
  moreover have "le_nat bs + 1 \<le> 256 ^ length bs" using Cons by simp
  ultimately have "uint b + 256 * le_nat bs < 256 * 256 ^ length bs" by linarith
  then show ?case using Cons by simp
qed

lemma shift_or_value:
  fixes w :: u64 and b :: u8
  assumes "uint w < 2 ^ 56"
  shows "uint (push_bit 8 w OR ucast b) = 256 * uint w + uint b"
proof -
  have "push_bit 8 w AND ucast b = 0"
    by (rule bit_word_eqI) (auto simp: bit_simps dest: bit_imp_le_length)
  then have "push_bit 8 w OR ucast b = push_bit 8 w + ucast b" by (simp add: disjunctive_add_eq_or)
  also have "\<dots> = w * 256 + ucast b" by (simp add: push_bit_eq_mult)
  finally have e: "push_bit 8 w OR ucast b = w * 256 + ucast b" .
  have "uint b < 256" using uint_bounded [of b] by simp
  moreover have "uint (ucast b :: u64) = uint b" by (simp add: uint_up_ucast is_up)
  ultimately show ?thesis unfolding e using assms
    by (simp add: uint_word_ariths)
qed

lemma be_shift_append: "be_shift n (xs @ ys) = be_shift (be_shift n xs) ys"
  by (induction xs arbitrary: n) auto

lemma be_shift_value: "length bs \<le> 8 \<Longrightarrow> uint (be_shift 0 (rev bs)) = le_nat bs"
proof (induction bs)
  case Nil
  then show ?case by simp
next
  case (Cons b bs)
  then have v: "uint (be_shift 0 (rev bs)) = le_nat bs" by simp
  have "le_nat bs < 256 ^ length bs" using le_nat_bounds by blast
  also have "(256 :: int) ^ length bs \<le> 256 ^ 7" using Cons.prems by (intro power_increasing) auto
  finally have "uint (be_shift 0 (rev bs)) < 2 ^ 56" using v by simp
  from shift_or_value [OF this, of b] show ?case using v by (simp add: be_shift_append)
qed

text \<open>An amount is accepted from an unlocking script exactly when it is at most eight bytes
  with a clear sign bit, and the value returned is then the Script number that was pushed, never
  wrapped and never the magnitude of a negative one.\<close>

theorem script_uint_exact:
  "scriptUint ch = Inr n \<longleftrightarrow>
     length (pushedBytes ch) \<le> 8
     \<and> (if pushedBytes ch = [] then True else \<not> bit (last (pushedBytes ch)) 7)
     \<and> uint n = script_num (pushedBytes ch)"
proof -
  let ?b = "pushedBytes ch"
  have m: "(x AND 0x80 \<noteq> 0) = bit x 7" for x :: u8
    using and_push_bit_one_iff [of x 7] by simp
  have z: "(0 = n) = (uint n = 0)" by (metis uint_0_eq uint_0_iff)
  show ?thesis
  proof (cases "?b = []")
    case True
    then show ?thesis by (auto simp: scriptUint_def script_num_def Let_def z)
  next
    case False
    moreover have "(be_shift 0 (rev ?b) = n) = (uint (be_shift 0 (rev ?b)) = uint n)"
      by (simp add: word_uint_eq_iff)
    ultimately show ?thesis
      using be_shift_value [of ?b]
      by (auto simp: scriptUint_def script_num_def Let_def m)
  qed
qed

end
