(* ===== verification/History.thy ===== *)
theory History
  imports Ca
begin

text \<open>
  The durable record, \<open>internal/history/history.go\<close>: the three tables as lists of rows, one
  function per SQL statement.  A query's \<open>WHERE\<close> is a \<open>filter\<close>, its \<open>ORDER BY\<close> a stable sort and
  its \<open>LIMIT\<close> a \<open>take\<close>; an \<open>ON CONFLICT\<close> clause is written out.  Time is a parameter, in the
  database's resolution.  A statement the database refuses returns an error and leaves the tables
  as they were; the callers that react to that (the engine) take the outcome as a parameter.
\<close>

datatype status =
    StatusAttempting
  | StatusBroadcast
  | StatusSeen
  | StatusMined
  | StatusFailed

definition IsTerminal :: "status \<Rightarrow> bool" where
  "IsTerminal s = (s = StatusMined \<or> s = StatusFailed)"

record cell_tx =
  txGen :: u64
  txCell :: int
  txTxID :: txid
  txStatus :: status
  txErr :: string

record cell_row =
  rowGen :: u64
  rowCell :: int
  rowTxID :: txid
  rowStatus :: status
  rowErr :: string
  rowUpdated :: int

record lease_row =
  leaseName :: string
  leaseOwner :: string
  leaseExpires :: int

record store =
  generations :: "(u64 \<times> string) list"
  cell_txs :: "cell_row list"
  leases :: "lease_row list"
  postgres :: bool

definition row_tx :: "cell_row \<Rightarrow> cell_tx" where
  "row_tx r = \<lparr>txGen = rowGen r, txCell = rowCell r, txTxID = rowTxID r,
     txStatus = rowStatus r, txErr = rowErr r\<rparr>"

definition tx_row :: "int \<Rightarrow> cell_tx \<Rightarrow> cell_row" where
  "tx_row now t = \<lparr>rowGen = txGen t, rowCell = txCell t, rowTxID = txTxID t,
     rowStatus = txStatus t, rowErr = txErr t, rowUpdated = now\<rparr>"

definition row_key :: "cell_row \<Rightarrow> u64 \<times> int" where
  "row_key r = (rowGen r, rowCell r)"

subsection \<open>Writes\<close>

text \<open>\<open>ON CONFLICT (number) DO NOTHING\<close>\<close>

definition RecordGeneration :: "store \<Rightarrow> u64 \<Rightarrow> string \<Rightarrow> store" where
  "RecordGeneration s number rowHex =
     (if number \<in> fst ` set (generations s) then s
      else s\<lparr>generations := generations s @ [(number, rowHex)]\<rparr>)"

text \<open>\<open>ON CONFLICT (generation, cell) DO UPDATE\<close>\<close>

definition upsert_row :: "cell_row \<Rightarrow> cell_row list \<Rightarrow> cell_row list" where
  "upsert_row r rs =
     (if row_key r \<in> row_key ` set rs
      then map (\<lambda>q. if row_key q = row_key r then r else q) rs
      else rs @ [r])"

definition RecordTx :: "store \<Rightarrow> int \<Rightarrow> cell_tx \<Rightarrow> store" where
  "RecordTx s now t = s\<lparr>cell_txs := upsert_row (tx_row now t) (cell_txs s)\<rparr>"

definition UpdateStatus :: "store \<Rightarrow> int \<Rightarrow> txid \<Rightarrow> status \<Rightarrow> string \<Rightarrow> store" where
  "UpdateStatus s now tid st msg =
     s\<lparr>cell_txs := map (\<lambda>r. if rowTxID r = tid
        then r\<lparr>rowStatus := st, rowErr := msg, rowUpdated := now\<rparr> else r) (cell_txs s)\<rparr>"

record status_update =
  suTxID :: txid
  suStatus :: status
  suErr :: string

definition updateStatusBatchTx :: "store \<Rightarrow> status_update list \<Rightarrow> int \<Rightarrow> store" where
  "updateStatusBatchTx s us now =
     fold (\<lambda>u s. UpdateStatus s now (suTxID u) (suStatus u) (suErr u)) us s"

text \<open>The single statement \<open>UPDATE ... FROM (VALUES ...) AS v WHERE cell_txs.txid = v.txid\<close>: each row
  joins with a value of its txid.\<close>

definition update_join :: "store \<Rightarrow> status_update list \<Rightarrow> int \<Rightarrow> store" where
  "update_join s us now =
     s\<lparr>cell_txs := map (\<lambda>r. case find (\<lambda>u. suTxID u = rowTxID r) us of
         None \<Rightarrow> r
       | Some u \<Rightarrow> r\<lparr>rowStatus := suStatus u, rowErr := suErr u, rowUpdated := now\<rparr>) (cell_txs s)\<rparr>"

definition UpdateStatusBatch :: "store \<Rightarrow> status_update list \<Rightarrow> int \<Rightarrow> store" where
  "UpdateStatusBatch s us now =
     (if length us = 0 then s
      else if length us = 1 then UpdateStatus s now (suTxID (us ! 0)) (suStatus (us ! 0)) (suErr (us ! 0))
      else if \<not> postgres s then updateStatusBatchTx s us now
      else update_join s us now)"

definition delete_rows :: "(cell_row \<Rightarrow> bool) \<Rightarrow> store \<Rightarrow> store" where
  "delete_rows P s = s\<lparr>cell_txs := filter (\<lambda>r. \<not> P r) (cell_txs s)\<rparr>"

definition DeleteAttempt :: "store \<Rightarrow> u64 \<Rightarrow> int \<Rightarrow> store" where
  "DeleteAttempt s g c =
     delete_rows (\<lambda>r. rowGen r = g \<and> rowCell r = c \<and> rowStatus r = StatusAttempting) s"

datatype history_error =
    NoTransactionID int u64
  | CellsNotPositive int
  | DepthNotPositive int

definition DeleteRejection :: "store \<Rightarrow> u64 \<Rightarrow> int \<Rightarrow> txid \<Rightarrow> history_error + store" where
  "DeleteRejection s g c tid =
     (if tid = '''' then Inl (NoTransactionID c g)
      else Inr (delete_rows (\<lambda>r. rowGen r = g \<and> rowCell r = c \<and> rowStatus r = StatusFailed
                \<and> rowTxID r = tid) s))"

definition DeleteUnsignedRejection :: "store \<Rightarrow> u64 \<Rightarrow> int \<Rightarrow> store" where
  "DeleteUnsignedRejection s g c =
     delete_rows (\<lambda>r. rowGen r = g \<and> rowCell r = c \<and> rowStatus r = StatusFailed \<and> rowTxID r = '''') s"

subsection \<open>Reads\<close>

definition order_by_gen_cell :: "cell_row list \<Rightarrow> cell_row list" where
  "order_by_gen_cell rs = sort_key rowGen (sort_key rowCell rs)"

definition Unsettled :: "store \<Rightarrow> cell_tx list" where
  "Unsettled s = map row_tx (order_by_gen_cell (filter (\<lambda>r. \<not> IsTerminal (rowStatus r)) (cell_txs s)))"

definition Stale :: "store \<Rightarrow> int \<Rightarrow> int \<Rightarrow> nat \<Rightarrow> cell_tx list" where
  "Stale s now age limit = map row_tx (take limit (sort_key rowUpdated
     (filter (\<lambda>r. \<not> IsTerminal (rowStatus r) \<and> rowTxID r \<noteq> '''' \<and> rowUpdated r < now - age)
       (cell_txs s))))"

record generation =
  genNumber :: u64
  genRowHex :: string
  genCells :: "cell_tx list"

definition Load :: "store \<Rightarrow> u64 \<Rightarrow> nat \<Rightarrow> generation list" where
  "Load s from limit =
     (let gens = take limit (sort_key fst (filter (\<lambda>(n, h). n \<ge> from) (generations s))) in
      if gens = [] then []
      else let lo = fst (hd gens); hi = fst (last gens);
               cs = order_by_gen_cell (filter (\<lambda>r. rowGen r \<ge> lo \<and> rowGen r \<le> hi) (cell_txs s)) in
           map (\<lambda>(n, h). \<lparr>genNumber = n, genRowHex = h,
                  genCells = map row_tx (filter (\<lambda>r. rowGen r = n) cs)\<rparr>) gens)"

definition RowAt :: "store \<Rightarrow> u64 \<Rightarrow> string option" where
  "RowAt s number = map_of (generations s) number"

record stats =
  stGenerations :: nat
  stTxs :: nat
  stUnsettled :: nat
  stLatest :: u64

definition Stats :: "store \<Rightarrow> stats" where
  "Stats s = \<lparr>stGenerations = length (generations s),
     stTxs = length (cell_txs s),
     stUnsettled = length (filter (\<lambda>r. \<not> IsTerminal (rowStatus r)) (cell_txs s)),
     stLatest = fold (\<lambda>(n, h) m. max n m) (generations s) 0\<rparr>"

record tip =
  tipCell :: int
  tipGen :: u64
  tipTxID :: txid
  tipStatus :: status
  tipErr :: string

definition row_tip :: "cell_row \<Rightarrow> tip" where
  "row_tip r = \<lparr>tipCell = rowCell r, tipGen = rowGen r, tipTxID = rowTxID r,
     tipStatus = rowStatus r, tipErr = rowErr r\<rparr>"

text \<open>\<open>ORDER BY generation DESC\<close> over the rows of one cell that satisfy a predicate.\<close>

definition newest_first :: "store \<Rightarrow> int \<Rightarrow> (cell_row \<Rightarrow> bool) \<Rightarrow> cell_row list" where
  "newest_first s c P = rev (sort_key rowGen (filter (\<lambda>r. rowCell r = c \<and> P r) (cell_txs s)))"

definition cell_tips :: "store \<Rightarrow> int \<Rightarrow> nat \<Rightarrow> tip list" where
  "cell_tips s c depth = map row_tip (take depth (newest_first s c (\<lambda>_. True)))"

text \<open>\<open>CellTips\<close>: a cell with no record is absent from the answer.\<close>

definition CellTips :: "store \<Rightarrow> int \<Rightarrow> int \<Rightarrow> history_error + (int \<Rightarrow> tip list option)" where
  "CellTips s n depth =
     (if n \<le> 0 then Inl (CellsNotPositive n)
      else if depth \<le> 0 then Inl (DepthNotPositive depth)
      else Inr (\<lambda>c. if 0 \<le> c \<and> c < n \<and> cell_tips s c (nat depth) \<noteq> []
                    then Some (cell_tips s c (nat depth)) else None))"

record deep_tip =
  Settled :: "tip option"
  Failed :: "tip option"
  Attempt :: "tip option"

definition newest :: "store \<Rightarrow> int \<Rightarrow> bool \<Rightarrow> status list \<Rightarrow> tip option" where
  "newest s c named sts =
     (case newest_first s c (\<lambda>r. rowStatus r \<in> set sts \<and> (named \<longrightarrow> rowTxID r \<noteq> '''')) of
        [] \<Rightarrow> None
      | r # _ \<Rightarrow> Some (row_tip r))"

definition above :: "tip option \<Rightarrow> tip option \<Rightarrow> tip option" where
  "above settled t = (case (t, settled) of
      (Some a, Some b) \<Rightarrow> (if tipGen a \<le> tipGen b then None else Some a)
    | _ \<Rightarrow> t)"

definition DeepTip :: "store \<Rightarrow> int \<Rightarrow> deep_tip" where
  "DeepTip s c =
     (let settled = newest s c True [StatusMined, StatusBroadcast, StatusSeen] in
      \<lparr>Settled = settled,
       Failed = above settled (newest s c False [StatusFailed]),
       Attempt = above settled (newest s c False [StatusAttempting])\<rparr>)"

definition RejectedTxIDs :: "store \<Rightarrow> txid list \<Rightarrow> txid \<Rightarrow> bool" where
  "RejectedTxIDs s ids tid =
     (tid \<in> set ids \<and> (\<exists>r \<in> set (cell_txs s). rowTxID r = tid \<and> rowStatus r = StatusFailed))"

definition HasTxID :: "store \<Rightarrow> txid \<Rightarrow> bool" where
  "HasTxID s tid = (if tid = '''' then False else \<exists>r \<in> set (cell_txs s). rowTxID r = tid)"

definition CellAt :: "store \<Rightarrow> u64 \<Rightarrow> int \<Rightarrow> (txid \<times> status \<times> string) option" where
  "CellAt s g c = map_option (\<lambda>r. (rowTxID r, rowStatus r, rowErr r))
     (find (\<lambda>r. rowGen r = g \<and> rowCell r = c) (cell_txs s))"

definition Extent :: "store \<Rightarrow> (u64 \<times> u64) option" where
  "Extent s = (case generations s of
      [] \<Rightarrow> None
    | (n, h) # gs \<Rightarrow> Some (fold (\<lambda>(m, h) a. min m a) gs n, fold (\<lambda>(m, h) a. max m a) gs n))"

subsection \<open>The compact window for the renderer\<close>

record compact_generation =
  cgNumber :: u64
  cgRowHex :: string
  cgStates :: string

definition noRecord :: char where "noRecord = CHR ''-''"

definition status_char :: "status \<Rightarrow> char" where
  "status_char st = (case st of
      StatusAttempting \<Rightarrow> CHR ''a'' | StatusBroadcast \<Rightarrow> CHR ''b'' | StatusSeen \<Rightarrow> CHR ''s''
    | StatusMined \<Rightarrow> CHR ''m'' | StatusFailed \<Rightarrow> CHR ''f'')"

definition mark_state :: "int \<Rightarrow> cell_row \<Rightarrow> string \<Rightarrow> string" where
  "mark_state n r st = (if rowCell r < 0 \<or> rowCell r \<ge> n then st
      else st[nat (rowCell r) := status_char (rowStatus r)])"

definition LoadCompact :: "store \<Rightarrow> u64 \<Rightarrow> int \<Rightarrow> int \<Rightarrow> compact_generation list" where
  "LoadCompact s from limit n =
     (if limit \<le> 0 \<or> n \<le> 0 then []
      else let gens = take (nat limit) (sort_key fst (filter (\<lambda>(k, h). k \<ge> from) (generations s))) in
        map (\<lambda>(k, h). \<lparr>cgNumber = k, cgRowHex = h,
               cgStates = fold (mark_state n) (filter (\<lambda>r. rowGen r = k) (cell_txs s))
                 (replicate (nat n) noRecord)\<rparr>) gens)"

subsection \<open>The writer lease\<close>

definition lease_of :: "store \<Rightarrow> string \<Rightarrow> lease_row option" where
  "lease_of s name = find (\<lambda>l. leaseName l = name) (leases s)"

definition AcquireLease :: "store \<Rightarrow> string \<Rightarrow> string \<Rightarrow> int \<Rightarrow> int \<Rightarrow> store \<times> bool" where
  "AcquireLease s name owner ttl now =
     (let new = \<lparr>leaseName = name, leaseOwner = owner, leaseExpires = now + ttl\<rparr> in
      case lease_of s name of
        None \<Rightarrow> (s\<lparr>leases := leases s @ [new]\<rparr>, True)
      | Some l \<Rightarrow>
          if leaseOwner l = owner \<or> leaseExpires l < now
          then (s\<lparr>leases := map (\<lambda>k. if leaseName k = name then new else k) (leases s)\<rparr>, True)
          else (s, False))"

definition ReleaseLease :: "store \<Rightarrow> string \<Rightarrow> string \<Rightarrow> store" where
  "ReleaseLease s name owner =
     s\<lparr>leases := filter (\<lambda>l. \<not> (leaseName l = name \<and> leaseOwner l = owner)) (leases s)\<rparr>"

subsection \<open>The tables as a state machine\<close>

datatype store_op =
    OpRecordGeneration u64 string
  | OpRecordTx int cell_tx
  | OpUpdateStatus int txid status string
  | OpUpdateStatusBatch "status_update list" int
  | OpDeleteAttempt u64 int
  | OpDeleteRejection u64 int txid
  | OpDeleteUnsignedRejection u64 int
  | OpAcquireLease string string int int
  | OpReleaseLease string string

fun store_step :: "store_op \<Rightarrow> store \<Rightarrow> store" where
  "store_step (OpRecordGeneration n h) s = RecordGeneration s n h"
| "store_step (OpRecordTx now t) s = RecordTx s now t"
| "store_step (OpUpdateStatus now tid st msg) s = UpdateStatus s now tid st msg"
| "store_step (OpUpdateStatusBatch us now) s = UpdateStatusBatch s us now"
| "store_step (OpDeleteAttempt g c) s = DeleteAttempt s g c"
| "store_step (OpDeleteRejection g c tid) s =
     (case DeleteRejection s g c tid of Inl e \<Rightarrow> s | Inr s' \<Rightarrow> s')"
| "store_step (OpDeleteUnsignedRejection g c) s = DeleteUnsignedRejection s g c"
| "store_step (OpAcquireLease name owner ttl now) s = fst (AcquireLease s name owner ttl now)"
| "store_step (OpReleaseLease name owner) s = ReleaseLease s name owner"

definition empty_store :: "bool \<Rightarrow> store" where
  "empty_store pg = \<lparr>generations = [], cell_txs = [], leases = [], postgres = pg\<rparr>"

definition run_store :: "bool \<Rightarrow> store_op list \<Rightarrow> store" where
  "run_store pg ops = fold store_step ops (empty_store pg)"

text \<open>The three primary keys.\<close>

definition keys_ok :: "store \<Rightarrow> bool" where
  "keys_ok s = (distinct (map fst (generations s)) \<and> distinct (map row_key (cell_txs s))
     \<and> distinct (map leaseName (leases s)))"

lemma row_key_simps [simp]:
  "row_key (r\<lparr>rowStatus := a\<rparr>) = row_key r"
  "row_key (r\<lparr>rowErr := b\<rparr>) = row_key r"
  "row_key (r\<lparr>rowUpdated := u\<rparr>) = row_key r"
  by (simp_all add: row_key_def)

lemma keys_upsert: "distinct (map row_key rs) \<Longrightarrow> distinct (map row_key (upsert_row r rs))"
proof (cases "row_key r \<in> row_key ` set rs")
  case True
  then have "map row_key (upsert_row r rs) = map row_key rs"
    by (simp add: upsert_row_def)
  then show "distinct (map row_key rs) \<Longrightarrow> ?thesis" by simp
qed (simp add: upsert_row_def)

lemma keys_update: "map row_key (cell_txs (UpdateStatus s now tid st msg)) = map row_key (cell_txs s)"
  by (simp add: UpdateStatus_def)

lemma update_other_tables [simp]:
  "generations (UpdateStatus s now tid st msg) = generations s"
  "leases (UpdateStatus s now tid st msg) = leases s"
  "postgres (UpdateStatus s now tid st msg) = postgres s"
  by (simp_all add: UpdateStatus_def)

lemma keys_ok_update: "keys_ok (UpdateStatus s now tid st msg) = keys_ok s"
  by (simp add: keys_ok_def keys_update)

lemma keys_ok_batch: "keys_ok (UpdateStatusBatch s us now) = keys_ok s"
proof -
  have seq: "keys_ok (updateStatusBatchTx s us now) = keys_ok s" for us s
    by (induction us arbitrary: s) (simp_all add: updateStatusBatchTx_def keys_ok_update)
  have rows: "map row_key (cell_txs (update_join s us now)) = map row_key (cell_txs s)"
    by (simp add: update_join_def o_def split: option.split)
  have "keys_ok (update_join s us now) = keys_ok s"
    unfolding keys_ok_def rows by (simp add: update_join_def)
  then show ?thesis by (simp add: UpdateStatusBatch_def seq keys_ok_update)
qed

lemma keys_ok_delete: "keys_ok s \<Longrightarrow> keys_ok (delete_rows P s)"
  by (simp add: keys_ok_def delete_rows_def distinct_map_filter)

lemma keys_ok_acquire: "keys_ok s \<Longrightarrow> keys_ok (fst (AcquireLease s name owner ttl now))"
proof -
  assume k: "keys_ok s"
  have same: "map leaseName (map (\<lambda>k. if leaseName k = name
      then \<lparr>leaseName = name, leaseOwner = owner, leaseExpires = now + ttl\<rparr> else k) (leases s))
      = map leaseName (leases s)"
    by simp
  show ?thesis
  proof (cases "lease_of s name")
    case None
    then have "name \<notin> leaseName ` set (leases s)"
      by (auto simp: lease_of_def find_eq_None)
    with k None show ?thesis by (auto simp: AcquireLease_def Let_def keys_ok_def)
  next
    case (Some l)
    with k same show ?thesis
      by (simp add: AcquireLease_def Let_def keys_ok_def del: map_map)
  qed
qed

lemma keys_ok_step: "keys_ok s \<Longrightarrow> keys_ok (store_step p s)"
proof (cases p)
  case (OpRecordGeneration n h)
  then show "keys_ok s \<Longrightarrow> ?thesis" by (auto simp: RecordGeneration_def keys_ok_def)
next
  case (OpRecordTx now t)
  then show "keys_ok s \<Longrightarrow> ?thesis" by (simp add: RecordTx_def keys_ok_def keys_upsert)
next
  case (OpDeleteRejection g c tid)
  then show "keys_ok s \<Longrightarrow> ?thesis" by (simp add: DeleteRejection_def keys_ok_delete)
next
  case (OpReleaseLease name owner)
  then show "keys_ok s \<Longrightarrow> ?thesis"
    by (simp add: ReleaseLease_def keys_ok_def distinct_map_filter)
qed (simp_all add: keys_ok_update keys_ok_batch keys_ok_delete keys_ok_acquire
      DeleteAttempt_def DeleteUnsignedRejection_def)

lemma keys_ok_run: "keys_ok (run_store pg ops)"
proof -
  have "keys_ok s \<Longrightarrow> keys_ok (fold store_step ops s)" for s
    by (induction ops arbitrary: s) (simp_all add: keys_ok_step)
  then show ?thesis by (simp add: run_store_def empty_store_def keys_ok_def)
qed

subsection \<open>What a lookup returns after each write\<close>

definition row_at :: "store \<Rightarrow> u64 \<Rightarrow> int \<Rightarrow> cell_row option" where
  "row_at s g c = find (\<lambda>r. rowGen r = g \<and> rowCell r = c) (cell_txs s)"

lemma row_at_unique:
  assumes "keys_ok s"
  shows "row_at s g c = Some r \<longleftrightarrow> r \<in> set (cell_txs s) \<and> rowGen r = g \<and> rowCell r = c"
proof -
  have "distinct (map row_key rs) \<Longrightarrow>
     (find (\<lambda>r. rowGen r = g \<and> rowCell r = c) rs = Some r)
       = (r \<in> set rs \<and> rowGen r = g \<and> rowCell r = c)" for rs
    by (induction rs) (auto simp: row_key_def image_iff)
  with assms show ?thesis by (simp add: row_at_def keys_ok_def)
qed

lemma row_at_None: "row_at s g c = None \<longleftrightarrow> (g, c) \<notin> row_key ` set (cell_txs s)"
  by (auto simp: row_at_def find_eq_None row_key_def)

lemma CellAt_row: "CellAt s g c = map_option (\<lambda>r. (rowTxID r, rowStatus r, rowErr r)) (row_at s g c)"
  by (simp add: CellAt_def row_at_def)

lemma find_upsert:
  "find (\<lambda>r. rowGen r = g \<and> rowCell r = c) (upsert_row q rs) =
    (if row_key q = (g, c) then Some q else find (\<lambda>r. rowGen r = g \<and> rowCell r = c) rs)"
proof -
  have keyq: "(rowGen r = g \<and> rowCell r = c) = (row_key r = (g, c))" for r
    by (auto simp: row_key_def)
  have fm: "find (\<lambda>r. row_key r = (g, c)) (map (\<lambda>p. if row_key p = row_key q then q else p) rs)
      = (if row_key q = (g, c) \<and> row_key q \<in> row_key ` set rs then Some q
         else find (\<lambda>r. row_key r = (g, c)) rs)"
  proof (induction rs)
    case (Cons p rs)
    then show ?case by (cases "row_key p = row_key q") (auto simp: image_iff split: if_splits)
  qed simp
  have fa: "find (\<lambda>r. row_key r = (g, c)) (rs @ [q])
      = (case find (\<lambda>r. row_key r = (g, c)) rs of None \<Rightarrow> (if row_key q = (g, c) then Some q else None) | Some r \<Rightarrow> Some r)"
    by (induction rs) auto
  have fn: "row_key q = (g, c) \<Longrightarrow> row_key q \<notin> row_key ` set rs \<Longrightarrow> find (\<lambda>r. row_key r = (g, c)) rs = None"
    by (auto simp: find_eq_None image_iff)
  show ?thesis
    unfolding keyq using fm fa fn by (auto simp: upsert_row_def split: option.split)
qed

lemma row_at_record [store_simps]:
  "row_at (RecordTx s now t) g c =
     (if txGen t = g \<and> txCell t = c then Some (tx_row now t) else row_at s g c)"
  by (simp add: row_at_def RecordTx_def find_upsert row_key_def tx_row_def)

lemma row_at_update [store_simps]:
  "row_at (UpdateStatus s now tid st msg) g c =
     map_option (\<lambda>r. if rowTxID r = tid then r\<lparr>rowStatus := st, rowErr := msg, rowUpdated := now\<rparr>
        else r) (row_at s g c)"
proof -
  have "find (\<lambda>r. rowGen r = g \<and> rowCell r = c) (map (\<lambda>r. if rowTxID r = tid
        then r\<lparr>rowStatus := st, rowErr := msg, rowUpdated := now\<rparr> else r) rs)
     = map_option (\<lambda>r. if rowTxID r = tid then r\<lparr>rowStatus := st, rowErr := msg, rowUpdated := now\<rparr>
        else r) (find (\<lambda>r. rowGen r = g \<and> rowCell r = c) rs)" for rs
    by (induction rs) auto
  then show ?thesis by (simp add: row_at_def UpdateStatus_def)
qed

lemma row_at_delete:
  assumes "keys_ok s"
  shows "row_at (delete_rows P s) g c =
     (case row_at s g c of None \<Rightarrow> None | Some r \<Rightarrow> if P r then None else Some r)"
proof (cases "row_at s g c")
  case None
  then have "row_at (delete_rows P s) g c = None"
    by (auto simp: row_at_None delete_rows_def)
  with None show ?thesis by simp
next
  case (Some r)
  then have r: "r \<in> set (cell_txs s)" "rowGen r = g" "rowCell r = c"
    using assms by (auto simp: row_at_unique)
  have uniq: "q = r" if "q \<in> set (cell_txs s)" "rowGen q = g" "rowCell q = c" for q
    using assms that Some by (metis option.inject row_at_unique)
  show ?thesis
  proof (cases "P r")
    case True
    then have "row_at (delete_rows P s) g c = None"
      using uniq by (auto simp: row_at_def find_eq_None delete_rows_def)
    with Some True show ?thesis by simp
  next
    case False
    then have "row_at (delete_rows P s) g c = Some r"
      using r keys_ok_delete [OF assms] by (simp add: row_at_unique) (simp add: delete_rows_def)
    with Some False show ?thesis by simp
  qed
qed

lemma CellAt_record [store_simps]:
  "CellAt (RecordTx s now t) g c = (if txGen t = g \<and> txCell t = c
     then Some (txTxID t, txStatus t, txErr t) else CellAt s g c)"
  by (simp add: CellAt_row row_at_record tx_row_def)

lemma CellAt_delete:
  assumes "keys_ok s"
    and "\<And>r. P r = (rowGen r = g \<and> rowCell r = c \<and> Q (rowTxID r, rowStatus r, rowErr r))"
  shows "CellAt (delete_rows P s) g' c' = (if g' = g \<and> c' = c then
      (case CellAt s g c of None \<Rightarrow> None | Some v \<Rightarrow> if Q v then None else Some v)
    else CellAt s g' c')"
proof (cases "row_at s g' c'")
  case None
  then show ?thesis by (auto simp: CellAt_row row_at_delete [OF assms(1)])
next
  case (Some r)
  then have "rowGen r = g'" "rowCell r = c'" using assms(1) by (auto simp: row_at_unique)
  with Some show ?thesis by (auto simp: CellAt_row row_at_delete [OF assms(1)] assms(2))
qed

subsection \<open>The table as an interface\<close>

text \<open>
  What the engine relies on when it writes its intent before broadcasting and takes it back when
  the network refuses: a record is found again under its own generation and cell and disturbs no
  other, and a retraction removes the guarded record and nothing else.
\<close>

locale cell_table =
  fixes ok :: "'s \<Rightarrow> bool"
    and look :: "'s \<Rightarrow> u64 \<Rightarrow> int \<Rightarrow> 'v option"
    and put :: "'s \<Rightarrow> u64 \<Rightarrow> int \<Rightarrow> 'v \<Rightarrow> 's"
    and retract :: "'s \<Rightarrow> u64 \<Rightarrow> int \<Rightarrow> 's"
    and guard :: "'v \<Rightarrow> bool"
  assumes ok_put: "ok s \<Longrightarrow> ok (put s g c v)"
    and ok_retract: "ok s \<Longrightarrow> ok (retract s g c)"
    and look_put: "ok s \<Longrightarrow> look (put s g c v) g' c' = (if g' = g \<and> c' = c then Some v else look s g' c')"
    and look_retract: "ok s \<Longrightarrow> look (retract s g c) g' c' = (if g' = g \<and> c' = c then
          (case look s g c of None \<Rightarrow> None | Some v \<Rightarrow> if guard v then None else Some v)
        else look s g' c')"
begin

lemma put_put: "ok s \<Longrightarrow> look (put (put s g c v) g c w) = look (put s g c w)"
  by (intro ext) (simp add: look_put ok_put)

lemma put_commute:
  "ok s \<Longrightarrow> (g, c) \<noteq> (g', c') \<Longrightarrow> look (put (put s g c v) g' c' w) = look (put (put s g' c' w) g c v)"
  by (intro ext) (auto simp: look_put ok_put)

lemma retract_put:
  "ok s \<Longrightarrow> look s g c = None \<Longrightarrow> guard v \<Longrightarrow> look (retract (put s g c v) g c) = look s"
  by (intro ext) (simp add: look_put look_retract ok_put)

lemma retract_kept:
  "ok s \<Longrightarrow> \<not> guard v \<Longrightarrow> look (retract (put s g c v) g c) = look (put s g c v)"
  by (intro ext) (auto simp: look_put look_retract ok_put)

lemma retract_idem: "ok s \<Longrightarrow> look (retract (retract s g c) g c) = look (retract s g c)"
  by (intro ext) (auto simp: look_retract ok_retract split: option.split)

end

definition put_cell :: "int \<Rightarrow> store \<Rightarrow> u64 \<Rightarrow> int \<Rightarrow> txid \<times> status \<times> string \<Rightarrow> store" where
  "put_cell now s g c v = RecordTx s now \<lparr>txGen = g, txCell = c, txTxID = fst v,
     txStatus = fst (snd v), txErr = snd (snd v)\<rparr>"

interpretation attempts: cell_table keys_ok CellAt "put_cell now" DeleteAttempt
  "\<lambda>(t, st, e). st = StatusAttempting" for now
proof
  fix s g c v g' c' assume k: "keys_ok s"
  show "keys_ok (put_cell now s g c v)"
    using k keys_ok_step [of s "OpRecordTx now \<lparr>txGen = g, txCell = c, txTxID = fst v,
       txStatus = fst (snd v), txErr = snd (snd v)\<rparr>"] by (simp add: put_cell_def)
  show "keys_ok (DeleteAttempt s g c)" using k by (simp add: DeleteAttempt_def keys_ok_delete)
  show "CellAt (put_cell now s g c v) g' c' = (if g' = g \<and> c' = c then Some v else CellAt s g' c')"
    by (simp add: put_cell_def CellAt_record)
  show "CellAt (DeleteAttempt s g c) g' c' = (if g' = g \<and> c' = c then
      (case CellAt s g c of None \<Rightarrow> None
       | Some v \<Rightarrow> if case v of (t, st, e) \<Rightarrow> st = StatusAttempting then None else Some v)
    else CellAt s g' c')"
    unfolding DeleteAttempt_def using k by (intro CellAt_delete) auto
qed

interpretation unsigned: cell_table keys_ok CellAt "put_cell now" DeleteUnsignedRejection
  "\<lambda>(t, st, e). st = StatusFailed \<and> t = ''''" for now
proof
  fix s g c v g' c' assume k: "keys_ok s"
  show "keys_ok (put_cell now s g c v)" using k by (rule attempts.ok_put)
  show "keys_ok (DeleteUnsignedRejection s g c)"
    using k by (simp add: DeleteUnsignedRejection_def keys_ok_delete)
  show "CellAt (put_cell now s g c v) g' c' = (if g' = g \<and> c' = c then Some v else CellAt s g' c')"
    using k by (rule attempts.look_put)
  show "CellAt (DeleteUnsignedRejection s g c) g' c' = (if g' = g \<and> c' = c then
      (case CellAt s g c of None \<Rightarrow> None
       | Some v \<Rightarrow> if case v of (t, st, e) \<Rightarrow> st = StatusFailed \<and> t = '''' then None else Some v)
    else CellAt s g' c')"
    unfolding DeleteUnsignedRejection_def using k by (intro CellAt_delete) auto
qed

text \<open>On any reachable store \<open>CellAt\<close> finds a recorded transaction under its generation and
  cell and every other record unchanged; deleting the attempt afterwards removes it exactly when it
  is still an attempt, deleting an unsigned rejection exactly when it is a failure with no txid, and
  \<open>DeleteRejection\<close> exactly when it is a failure under the txid named, which it refuses to leave
  empty.  None of the three deletes touches another record.\<close>

lemma record_then_retract:
  "let s = run_store pg ops; r = RecordTx s now t; v = (txTxID t, txStatus t, txErr t);
       here = (g = txGen t \<and> c = txCell t) in
     CellAt r g c = (if here then Some v else CellAt s g c)
   \<and> CellAt (DeleteAttempt r (txGen t) (txCell t)) g c =
       (if here then (if txStatus t = StatusAttempting then None else Some v) else CellAt s g c)
   \<and> CellAt (DeleteUnsignedRejection r (txGen t) (txCell t)) g c =
       (if here then (if txStatus t = StatusFailed \<and> txTxID t = '''' then None else Some v)
        else CellAt s g c)
   \<and> (case DeleteRejection r (txGen t) (txCell t) tid of
        Inl e \<Rightarrow> tid = '''' \<and> e = NoTransactionID (txCell t) (txGen t)
      | Inr r' \<Rightarrow> tid \<noteq> '''' \<and> CellAt r' g c =
          (if here then (if txStatus t = StatusFailed \<and> txTxID t = tid then None else Some v)
           else CellAt s g c))"
proof -
  define s where "s = run_store pg ops"
  define r where "r = RecordTx s now t"
  have k: "keys_ok s" by (simp add: s_def keys_ok_run)
  then have kr: "keys_ok r" using keys_ok_step [of s "OpRecordTx now t"] by (simp add: r_def)
  have look: "CellAt r g c = (if txGen t = g \<and> txCell t = c
      then Some (txTxID t, txStatus t, txErr t) else CellAt s g c)" for g c
    by (simp add: r_def CellAt_record)
  have rej: "CellAt (delete_rows (\<lambda>q. rowGen q = txGen t \<and> rowCell q = txCell t
      \<and> rowStatus q = StatusFailed \<and> rowTxID q = tid) r) g c = (if g = txGen t \<and> c = txCell t then
      (case CellAt r (txGen t) (txCell t) of None \<Rightarrow> None
       | Some v \<Rightarrow> if (case v of (i, st, e) \<Rightarrow> st = StatusFailed \<and> i = tid) then None else Some v)
    else CellAt r g c)"
    using kr by (intro CellAt_delete) auto
  show ?thesis
    unfolding Let_def s_def [symmetric] r_def [symmetric]
    using attempts.look_retract [OF kr] unsigned.look_retract [OF kr] look rej
    by (auto simp: DeleteRejection_def)
qed

subsection \<open>The batched status update\<close>

lemma update_join_rows:
  "distinct (map suTxID us) \<Longrightarrow> update_join s us now = updateStatusBatchTx s us now"
proof (induction us arbitrary: s)
  case Nil
  then show ?case by (simp add: update_join_def updateStatusBatchTx_def)
next
  case (Cons u us)
  then have "updateStatusBatchTx s (u # us) now
      = update_join (UpdateStatus s now (suTxID u) (suStatus u) (suErr u)) us now"
    by (simp add: updateStatusBatchTx_def)
  moreover have "find (\<lambda>u'. suTxID u' = suTxID u) us = None"
    using Cons.prems by (simp add: find_eq_None) (metis image_eqI)
  ultimately show ?case
    by (auto simp: update_join_def UpdateStatus_def split: option.split)
qed

lemma update_batch_sequential:
  assumes "distinct (map suTxID us)"
  shows "UpdateStatusBatch s us now
    = fold (\<lambda>u s. UpdateStatus s now (suTxID u) (suStatus u) (suErr u)) us s"
proof -
  consider "us = []" | u where "us = [u]" | "2 \<le> length us"
    by (cases us; cases "tl us") auto
  then show ?thesis
    using update_join_rows [OF assms]
    by cases (auto simp: UpdateStatusBatch_def updateStatusBatchTx_def)
qed

text \<open>A batch of status updates with distinct transaction ids leaves the same tables as
  applying the updates one by one, whichever of the three statements the store chooses (none, the
  single update, the transaction of updates on SQLite, the joined update on Postgres).\<close>

lemma status_batch_sequential:
  assumes "distinct (map suTxID us)"
  shows "UpdateStatusBatch s us now
    = fold (\<lambda>u s. UpdateStatus s now (suTxID u) (suStatus u) (suErr u)) us s"
  using assms by (rule update_batch_sequential)

lemma status_batch_sequential_witness:
  "let us = [\<lparr>suTxID = ''aa'', suStatus = StatusMined, suErr = ''''\<rparr>,
             \<lparr>suTxID = ''bb'', suStatus = StatusFailed, suErr = ''no''\<rparr>];
       s = run_store True [OpRecordTx 1 \<lparr>txGen = 1, txCell = 0, txTxID = ''aa'',
             txStatus = StatusSeen, txErr = ''''\<rparr>] in
   UpdateStatusBatch s us 5 = fold (\<lambda>u s. UpdateStatus s 5 (suTxID u) (suStatus u) (suErr u)) us s
   \<and> CellAt (UpdateStatusBatch s us 5) 1 0 = Some (''aa'', StatusMined, '''')"
proof -
  let ?us = "[\<lparr>suTxID = ''aa'', suStatus = StatusMined, suErr = ''''\<rparr>,
             \<lparr>suTxID = ''bb'', suStatus = StatusFailed, suErr = ''no''\<rparr>]"
  have "distinct (map suTxID ?us)" by simp
  moreover have "let s = run_store True [OpRecordTx 1 \<lparr>txGen = 1, txCell = 0, txTxID = ''aa'',
             txStatus = StatusSeen, txErr = ''''\<rparr>] in
     CellAt (UpdateStatusBatch s ?us 5) 1 0 = Some (''aa'', StatusMined, '''')"
    by code_simp
  ultimately show ?thesis
    unfolding Let_def using status_batch_sequential [of ?us] by blast
qed

subsection \<open>Newest rows of a cell\<close>

lemma set_newest_first: "set (newest_first s c P) = {r \<in> set (cell_txs s). rowCell r = c \<and> P r}"
  by (auto simp: newest_first_def)

lemma newest_first_desc:
  assumes "keys_ok s"
  shows "sorted_wrt (\<lambda>a b. rowGen b < rowGen a) (newest_first s c P)"
proof -
  let ?rs = "filter (\<lambda>r. rowCell r = c \<and> P r) (cell_txs s)"
  have "distinct ?rs" "inj_on row_key (set ?rs)"
    using assms by (auto simp: keys_ok_def distinct_map inj_on_def)
  then have "distinct ?rs" "inj_on rowGen (set ?rs)"
    by (auto simp: inj_on_def row_key_def)
  then have "distinct (map rowGen (sort_key rowGen ?rs))"
    by (simp add: distinct_map)
  then have "sorted_wrt (<) (map rowGen (sort_key rowGen ?rs))"
    by (simp add: strict_sorted_iff)
  then show ?thesis
    by (simp add: newest_first_def sorted_wrt_rev sorted_wrt_map)
qed

lemma newest_first_hd:
  assumes "keys_ok s" "newest_first s c P = r # rs"
  shows "r \<in> set (cell_txs s) \<and> rowCell r = c \<and> P r"
    and "q \<in> set (cell_txs s) \<Longrightarrow> rowCell q = c \<Longrightarrow> P q \<Longrightarrow> rowGen q \<le> rowGen r"
proof -
  have set: "set (r # rs) = {r \<in> set (cell_txs s). rowCell r = c \<and> P r}"
    using assms(2) set_newest_first by metis
  then show "r \<in> set (cell_txs s) \<and> rowCell r = c \<and> P r" by auto
  have "sorted_wrt (\<lambda>a b. rowGen b < rowGen a) (r # rs)"
    using newest_first_desc [OF assms(1)] assms(2) by metis
  moreover have "q \<in> set (cell_txs s) \<Longrightarrow> rowCell q = c \<Longrightarrow> P q \<Longrightarrow> q \<in> set (r # rs)"
    unfolding set by blast
  ultimately show "q \<in> set (cell_txs s) \<Longrightarrow> rowCell q = c \<Longrightarrow> P q \<Longrightarrow> rowGen q \<le> rowGen r"
    by (auto simp: less_imp_le)
qed

lemma CellAt_Some:
  assumes "keys_ok s"
  shows "CellAt s g c = Some (i, st, e) \<longleftrightarrow> (\<exists>r \<in> set (cell_txs s). rowGen r = g \<and> rowCell r = c
     \<and> rowTxID r = i \<and> rowStatus r = st \<and> rowErr r = e)"
  unfolding CellAt_row using row_at_unique [OF assms] by auto

text \<open>The newest record of a cell among those a condition on status and txid selects.\<close>

definition newest_where :: "store \<Rightarrow> int \<Rightarrow> (status \<Rightarrow> txid \<Rightarrow> bool) \<Rightarrow> tip \<Rightarrow> bool" where
  "newest_where s c Q t = (tipCell t = c
     \<and> CellAt s (tipGen t) c = Some (tipTxID t, tipStatus t, tipErr t) \<and> Q (tipStatus t) (tipTxID t)
     \<and> (\<forall>g i st e. CellAt s g c = Some (i, st, e) \<and> Q st i \<longrightarrow> g \<le> tipGen t))"

lemma newest_iff:
  assumes k: "keys_ok s"
  shows "newest s c named sts = Some t \<longleftrightarrow>
    newest_where s c (\<lambda>st i. st \<in> set sts \<and> (named \<longrightarrow> i \<noteq> '''')) t"
proof -
  let ?P = "\<lambda>r. rowStatus r \<in> set sts \<and> (named \<longrightarrow> rowTxID r \<noteq> '''')"
  let ?Q = "\<lambda>st i. st \<in> set sts \<and> (named \<longrightarrow> i \<noteq> '''')"
  show ?thesis
  proof (cases "newest_first s c ?P")
    case Nil
    then have "\<not> (r \<in> set (cell_txs s) \<and> rowCell r = c \<and> ?P r)" for r
      using set_newest_first [of s c ?P] by auto
    then have "\<not> newest_where s c ?Q t"
      by (fastforce simp: newest_where_def CellAt_Some [OF k])
    with Nil show ?thesis by (simp add: newest_def)
  next
    case (Cons r rs)
    note h = newest_first_hd [OF k Cons]
    have "newest_where s c ?Q (row_tip r)"
      using h by (auto simp: newest_where_def CellAt_Some [OF k] row_tip_def)
    moreover have "t = t'" if "newest_where s c ?Q t" "newest_where s c ?Q t'" for t t'
    proof -
      have "tipGen t \<le> tipGen t'" "tipGen t' \<le> tipGen t"
        using that unfolding newest_where_def by blast+
      then have "tipGen t = tipGen t'" by (rule order_antisym)
      with that show ?thesis by (cases t; cases t') (auto simp: newest_where_def)
    qed
    ultimately show ?thesis using Cons by (auto simp: newest_def)
  qed
qed

lemma above_Some: "above settled x = Some t \<longleftrightarrow> x = Some t \<and>
    (case settled of None \<Rightarrow> True | Some p \<Rightarrow> tipGen p < tipGen t)"
  by (cases x; cases settled) (auto simp: above_def not_le)

text \<open>On every reachable store \<open>DeepTip\<close> names as settled the newest record of the cell
  with a txid that was broadcast, seen or mined, as failed the newest rejection and as attempt the
  newest intent, each of these two only when it lies above the settled record.\<close>

lemma deep_tip_exact:
  "let s = run_store pg ops; d = DeepTip s c;
       up = (\<lambda>t. case Settled d of None \<Rightarrow> True | Some p \<Rightarrow> tipGen p < tipGen t) in
     (Settled d = Some t \<longleftrightarrow> newest_where s c
        (\<lambda>st i. st \<in> {StatusMined, StatusBroadcast, StatusSeen} \<and> i \<noteq> '''') t)
   \<and> (Failed d = Some t \<longleftrightarrow> newest_where s c (\<lambda>st i. st = StatusFailed) t \<and> up t)
   \<and> (Attempt d = Some t \<longleftrightarrow> newest_where s c (\<lambda>st i. st = StatusAttempting) t \<and> up t)"
  using newest_iff [OF keys_ok_run [of pg ops]] by (simp add: DeepTip_def Let_def above_Some)

subsection \<open>The tip window\<close>

text \<open>For every cell in range, the window \<open>CellTips\<close> answers on a reachable store holds
  true records of that cell, newest first with strictly falling generations, at most \<open>depth\<close> of
  them; a record left out is older than the whole window, and none is left out of a window that is
  not full.\<close>

lemma cell_tips_exact:
  assumes "CellTips (run_store pg ops) n depth = Inr tips" "0 \<le> c" "c < n"
    and "window = (case tips c of None \<Rightarrow> [] | Some ts \<Rightarrow> ts)"
  shows "sorted_wrt (\<lambda>a b. tipGen b < tipGen a) window \<and> int (length window) \<le> depth
   \<and> (\<forall>t \<in> set window. tipCell t = c
        \<and> CellAt (run_store pg ops) (tipGen t) c = Some (tipTxID t, tipStatus t, tipErr t))
   \<and> (\<forall>g. CellAt (run_store pg ops) g c \<noteq> None \<and> g \<notin> tipGen ` set window \<longrightarrow>
        int (length window) = depth \<and> (\<forall>t \<in> set window. g < tipGen t))"
proof -
  define s where "s = run_store pg ops"
  have k: "keys_ok s" by (simp add: s_def keys_ok_run)
  define rs where "rs = newest_first s c (\<lambda>_. True)"
  have pos: "0 < depth" and w: "window = map row_tip (take (nat depth) rs)"
    using assms by (auto simp: CellTips_def cell_tips_def rs_def s_def split: if_splits)
  have desc: "sorted_wrt (\<lambda>a b. rowGen b < rowGen a) rs"
    unfolding rs_def by (rule newest_first_desc [OF k])
  have mem: "r \<in> set rs \<longleftrightarrow> r \<in> set (cell_txs s) \<and> rowCell r = c" for r
    by (simp add: rs_def set_newest_first)
  have "sorted_wrt (\<lambda>a b. rowGen b < rowGen a) (take (nat depth) rs)"
    using desc by (rule sorted_wrt_take)
  then have "sorted_wrt (\<lambda>a b. tipGen b < tipGen a) window"
    by (simp add: w sorted_wrt_map row_tip_def)
  moreover have "int (length window) \<le> depth" using pos by (simp add: w)
  moreover have "\<forall>t \<in> set window. tipCell t = c \<and> CellAt s (tipGen t) c = Some (tipTxID t, tipStatus t, tipErr t)"
    using mem by (auto simp: w row_tip_def CellAt_Some [OF k] dest!: in_set_takeD)
  moreover have "int (length window) = depth \<and> (\<forall>t \<in> set window. g < tipGen t)"
    if g: "CellAt s g c \<noteq> None" "g \<notin> tipGen ` set window" for g
  proof -
    obtain r where r: "r \<in> set (cell_txs s)" "rowGen r = g" "rowCell r = c"
      using g(1) by (auto simp: CellAt_Some [OF k])
    have "r \<notin> set (take (nat depth) rs)"
      using g(2) r(2) by (force simp: w row_tip_def)
    moreover have "r \<in> set (take (nat depth) rs) \<union> set (drop (nat depth) rs)"
      using mem r by (metis append_take_drop_id set_append)
    ultimately have dr: "r \<in> set (drop (nat depth) rs)" by blast
    then have "nat depth < length rs" by (metis drop_all empty_iff list.set(1) not_le)
    then have "int (length window) = depth" using pos by (simp add: w)
    moreover have "\<forall>q \<in> set (take (nat depth) rs). rowGen r < rowGen q"
      using desc dr by (metis append_take_drop_id sorted_wrt_append)
    ultimately show ?thesis using r by (auto simp: w row_tip_def)
  qed
  ultimately show ?thesis unfolding s_def by blast
qed

lemma cell_tips_exact_witness:
  "let t = (\<lambda>g. \<lparr>txGen = g, txCell = 0, txTxID = ''aa'', txStatus = StatusSeen, txErr = ''''\<rparr>);
       s = run_store False [OpRecordTx 1 (t 1), OpRecordTx 2 (t 3), OpRecordTx 3 (t 2)];
       w = cell_tips s 0 2 in
     map tipGen w = [3, 2]
   \<and> (\<forall>g. CellAt s g 0 \<noteq> None \<and> g \<notin> tipGen ` set w \<longrightarrow> (\<forall>t \<in> set w. g < tipGen t))"
proof -
  define t where "t = (\<lambda>g. \<lparr>txGen = g :: u64, txCell = 0 :: int, txTxID = ''aa'', txStatus = StatusSeen, txErr = ''''\<rparr>)"
  define ops where "ops = [OpRecordTx 1 (t 1), OpRecordTx 2 (t 3), OpRecordTx 3 (t 2)]"
  define tips where "tips = (\<lambda>c :: int. if 0 \<le> c \<and> c < 1 \<and> cell_tips (run_store False ops) c 2 \<noteq> []
      then Some (cell_tips (run_store False ops) c 2) else None)"
  have w: "map tipGen (cell_tips (run_store False ops) 0 2) = [3, 2]"
    unfolding ops_def t_def by code_simp
  have t: "CellTips (run_store False ops) 1 2 = Inr tips"
    by (simp add: CellTips_def tips_def fun_eq_iff)
  have "cell_tips (run_store False ops) 0 2 = (case tips 0 of None \<Rightarrow> [] | Some ts \<Rightarrow> ts)"
    by (simp add: tips_def)
  from cell_tips_exact [OF t _ _ this] w show ?thesis
    unfolding Let_def ops_def t_def by simp
qed

text \<open>After any sequence of writes, deletions and lease operations from an empty database
  the three primary keys hold: at most one row per generation number, one per generation and cell,
  one per lease name.\<close>

lemma store_primary_keys:
  "distinct (map fst (generations (run_store pg ops)))
   \<and> distinct (map (\<lambda>r. (rowGen r, rowCell r)) (cell_txs (run_store pg ops)))
   \<and> distinct (map leaseName (leases (run_store pg ops)))"
proof -
  have "row_key = (\<lambda>r. (rowGen r, rowCell r))" by (intro ext) (simp add: row_key_def)
  then show ?thesis using keys_ok_run [of pg ops] unfolding keys_ok_def by simp
qed

subsection \<open>The compact window\<close>

lemma length_fold_mark: "length (fold (mark_state n) rs st) = length st"
  by (induction rs arbitrary: st) (simp_all add: mark_state_def)

lemma fold_mark_nth:
  assumes "distinct (map rowCell rs)" "0 \<le> c" "c < n" "length st = nat n"
  shows "fold (mark_state n) rs st ! nat c =
    (case find (\<lambda>r. rowCell r = c) rs of None \<Rightarrow> st ! nat c | Some r \<Rightarrow> status_char (rowStatus r))"
  using assms
proof (induction rs arbitrary: st)
  case Nil
  then show ?case by simp
next
  case (Cons r rs)
  have len: "length (mark_state n r st) = nat n" using Cons.prems by (simp add: mark_state_def)
  have IH: "fold (mark_state n) rs (mark_state n r st) ! nat c =
    (case find (\<lambda>r. rowCell r = c) rs of None \<Rightarrow> mark_state n r st ! nat c
      | Some r \<Rightarrow> status_char (rowStatus r))"
    using Cons.prems len by (intro Cons.IH) auto
  have here: "mark_state n r st ! nat c =
      (if rowCell r = c then status_char (rowStatus r) else st ! nat c)"
    using Cons.prems by (auto simp: mark_state_def nth_list_update)
  have "rowCell r = c \<Longrightarrow> find (\<lambda>r. rowCell r = c) rs = None"
    using Cons.prems(1) by (auto simp: find_eq_None image_iff)
  then show ?case using IH here by (auto split: option.split)
qed

lemma find_filter_gen:
  "find (\<lambda>r. rowCell r = c) (filter (\<lambda>r. rowGen r = g) rs) = find (\<lambda>r. rowGen r = g \<and> rowCell r = c) rs"
  by (induction rs) auto

lemma cells_of_generation: "keys_ok s \<Longrightarrow> distinct (map rowCell (filter (\<lambda>r. rowGen r = g) (cell_txs s)))"
proof -
  let ?rs = "filter (\<lambda>r. rowGen r = g) (cell_txs s)"
  assume "keys_ok s"
  then have "distinct ?rs" "inj_on row_key (set ?rs)"
    by (auto simp: keys_ok_def distinct_map inj_on_def)
  then have "distinct ?rs" "inj_on rowCell (set ?rs)"
    by (auto simp: inj_on_def row_key_def)
  then show ?thesis by (simp add: distinct_map)
qed

text \<open>Every generation of a compact window of a reachable store carries one character per
  cell of the ring, and the character at a cell's index is the status letter of exactly the record
  \<open>CellAt\<close> finds for that cell in that generation, or the no-record mark when there is none; the
  generations are recorded ones, from the start asked for on, in ascending order.\<close>

lemma load_compact_exact:
  assumes "g \<in> set (LoadCompact (run_store pg ops) from limit n)" "0 \<le> c" "c < n"
  shows "length (cgStates g) = nat n
   \<and> cgStates g ! nat c = (case CellAt (run_store pg ops) (cgNumber g) c of
        None \<Rightarrow> noRecord | Some (i, st, e) \<Rightarrow> status_char st)
   \<and> from \<le> cgNumber g \<and> RowAt (run_store pg ops) (cgNumber g) = Some (cgRowHex g)
   \<and> sorted_wrt (<) (map cgNumber (LoadCompact (run_store pg ops) from limit n))"
proof -
  define s where "s = run_store pg ops"
  have k: "keys_ok s" by (simp add: s_def keys_ok_run)
  define gens where "gens = take (nat limit) (sort_key fst (filter (\<lambda>(k, h). k \<ge> from) (generations s)))"
  have pos: "0 < limit" "0 < n" using assms by (auto simp: LoadCompact_def split: if_splits)
  have lc: "LoadCompact s from limit n = map (\<lambda>(k, h). \<lparr>cgNumber = k, cgRowHex = h,
       cgStates = fold (mark_state n) (filter (\<lambda>r. rowGen r = k) (cell_txs s))
         (replicate (nat n) noRecord)\<rparr>) gens"
    using pos by (simp add: LoadCompact_def gens_def)
  obtain num h where kh: "(num, h) \<in> set gens" and g: "cgNumber g = num" "cgRowHex g = h"
    "cgStates g = fold (mark_state n) (filter (\<lambda>r. rowGen r = num) (cell_txs s)) (replicate (nat n) noRecord)"
    using assms(1) unfolding s_def [symmetric] lc by auto
  have "cgStates g ! nat c = (case CellAt s num c of
        None \<Rightarrow> noRecord | Some (i, st, e) \<Rightarrow> status_char st)"
    unfolding g using fold_mark_nth [OF cells_of_generation [OF k] assms(2,3)] assms(2,3)
    by (simp add: find_filter_gen CellAt_row row_at_def split: option.split)
  moreover have "length (cgStates g) = nat n" by (simp add: g length_fold_mark)
  moreover have "(num, h) \<in> set (generations s)" "from \<le> num"
    using kh by (auto simp: gens_def dest!: in_set_takeD)
  moreover from this have "RowAt s num = Some h"
    using k by (simp add: RowAt_def keys_ok_def)
  moreover have "sorted_wrt (<) (map cgNumber (LoadCompact s from limit n))"
  proof -
    have "distinct (map fst (sort_key fst (filter (\<lambda>(k, h). k \<ge> from) (generations s))))"
      using k by (simp add: keys_ok_def distinct_map inj_on_def)
    then have "sorted_wrt (<) (map fst (sort_key fst (filter (\<lambda>(k, h). k \<ge> from) (generations s))))"
      by (simp add: strict_sorted_iff)
    then have "sorted_wrt (<) (map fst gens)"
      unfolding gens_def by (simp add: take_map [symmetric] sorted_wrt_take)
    moreover have "map cgNumber (LoadCompact s from limit n) = map fst gens"
      by (auto simp: lc)
    ultimately show ?thesis by simp
  qed
  ultimately show ?thesis by (simp add: s_def [symmetric] g)
qed

lemma load_compact_exact_witness:
  "let s = run_store False [OpRecordGeneration 5 ''01'', OpRecordTx 1 \<lparr>txGen = 5, txCell = 2,
         txTxID = ''aa'', txStatus = StatusMined, txErr = ''''\<rparr>];
       g = \<lparr>cgNumber = 5, cgRowHex = ''01'', cgStates = ''--m-''\<rparr> in
     g \<in> set (LoadCompact s 0 10 4) \<and> length (cgStates g) = nat 4"
proof -
  define ops where "ops = [OpRecordGeneration 5 ''01'', OpRecordTx 1 \<lparr>txGen = 5, txCell = 2,
         txTxID = ''aa'', txStatus = StatusMined, txErr = ''''\<rparr>]"
  define g where "g = \<lparr>cgNumber = 5, cgRowHex = ''01'', cgStates = ''--m-''\<rparr>"
  have "LoadCompact (run_store False ops) 0 10 4 = [g]"
    unfolding ops_def g_def by code_simp
  then have m: "g \<in> set (LoadCompact (run_store False ops) 0 10 4)" by simp
  from load_compact_exact [OF m, of 2] m show ?thesis
    unfolding Let_def ops_def [symmetric] g_def [symmetric] by simp
qed

subsection \<open>The lease\<close>

datatype lease_event =
    Acquire int string int
  | Release int string

fun event_time :: "lease_event \<Rightarrow> int" where
  "event_time (Acquire now owner ttl) = now"
| "event_time (Release now owner) = now"

text \<open>The processes' view of one lease: what each believes it holds, and until when.  A refused
  acquisition leaves the belief as it was.\<close>

fun lease_event_step :: "string \<Rightarrow> lease_event \<Rightarrow> store \<times> (string \<Rightarrow> int option)
    \<Rightarrow> store \<times> (string \<Rightarrow> int option)" where
  "lease_event_step name (Acquire now owner ttl) (s, held) =
     (case AcquireLease s name owner ttl now of
        (s', won) \<Rightarrow> (s', if won then held(owner := Some (now + ttl)) else held))"
| "lease_event_step name (Release now owner) (s, held) =
     (ReleaseLease s name owner, held(owner := None))"

definition run_lease :: "string \<Rightarrow> lease_event list \<Rightarrow> store \<Rightarrow> store \<times> (string \<Rightarrow> int option)" where
  "run_lease name es s = fold (lease_event_step name) es (s, \<lambda>_. None)"

definition holds_at :: "(string \<Rightarrow> int option) \<Rightarrow> string \<Rightarrow> int \<Rightarrow> bool" where
  "holds_at held owner t = (case held owner of None \<Rightarrow> False | Some e \<Rightarrow> t \<le> e)"

definition lease_inv :: "string \<Rightarrow> int \<Rightarrow> store \<times> (string \<Rightarrow> int option) \<Rightarrow> bool" where
  "lease_inv name now st = (distinct (map leaseName (leases (fst st))) \<and>
     (\<forall>owner e. snd st owner = Some e \<and> now \<le> e \<longrightarrow>
        lease_of (fst st) name = Some \<lparr>leaseName = name, leaseOwner = owner, leaseExpires = e\<rparr>))"

lemma lease_inv_later: "lease_inv name now st \<Longrightarrow> now \<le> now' \<Longrightarrow> lease_inv name now' st"
  unfolding lease_inv_def by (meson order_trans)

lemma lease_of_acquired:
  "distinct (map leaseName (leases s)) \<Longrightarrow>
   lease_of (fst (AcquireLease s name owner ttl now)) name =
     (if snd (AcquireLease s name owner ttl now)
      then Some \<lparr>leaseName = name, leaseOwner = owner, leaseExpires = now + ttl\<rparr>
      else lease_of s name)"
proof -
  let ?new = "\<lparr>leaseName = name, leaseOwner = owner, leaseExpires = now + ttl\<rparr>"
  have app: "find (\<lambda>l. leaseName l = name) (ls @ [?new]) = Some ?new"
    if "find (\<lambda>l. leaseName l = name) ls = None" for ls
    using that by (induction ls) (auto split: if_splits)
  have mp: "find (\<lambda>l. leaseName l = name) (map (\<lambda>k. if leaseName k = name then ?new else k) ls)
      = Some ?new" if "find (\<lambda>l. leaseName l = name) ls = Some l" for ls l
    using that by (induction ls) (auto split: if_splits)
  show ?thesis
    using app mp by (auto simp: AcquireLease_def Let_def lease_of_def split: option.split)
qed

lemma lease_of_released:
  assumes "distinct (map leaseName (leases s))"
    and "lease_of s name = Some l" "leaseOwner l \<noteq> owner"
  shows "lease_of (ReleaseLease s name owner) name = Some l"
proof -
  have "find (\<lambda>l. leaseName l = name)
      (filter (\<lambda>l. \<not> (leaseName l = name \<and> leaseOwner l = owner)) ls) = Some l"
    if "find (\<lambda>l. leaseName l = name) ls = Some l" for ls
    using that assms(3) by (induction ls) (auto split: if_splits)
  with assms(2) show ?thesis by (simp add: lease_of_def ReleaseLease_def)
qed

lemma lease_inv_step:
  assumes inv: "lease_inv name now (s, held)" and now: "event_time e = now"
  shows "lease_inv name now (lease_event_step name e (s, held))"
proof (cases e)
  case (Acquire t owner ttl)
  with now have t: "t = now" by simp
  obtain s' won where a: "AcquireLease s name owner ttl now = (s', won)" by fastforce
  have d: "distinct (map leaseName (leases s))" using inv by (simp add: lease_inv_def)
  have d': "distinct (map leaseName (leases s'))"
  proof -
    have "keys_ok (s\<lparr>generations := [], cell_txs := []\<rparr>)" using d by (simp add: keys_ok_def)
    then have "keys_ok (fst (AcquireLease (s\<lparr>generations := [], cell_txs := []\<rparr>) name owner ttl now))"
      by (rule keys_ok_acquire)
    moreover have "leases (fst (AcquireLease (s\<lparr>generations := [], cell_txs := []\<rparr>) name owner ttl now)) = leases s'"
      using a by (auto simp: AcquireLease_def Let_def lease_of_def split: option.splits if_splits)
    ultimately show ?thesis by (simp add: keys_ok_def)
  qed
  have l: "lease_of s' name = (if won then Some \<lparr>leaseName = name, leaseOwner = owner,
       leaseExpires = now + ttl\<rparr> else lease_of s name)"
    using lease_of_acquired [OF d, of name owner ttl now] a by simp
  have only: "o' = owner" if "won" "held o' = Some e'" "now \<le> e'" for o' e'
    using that inv a by (auto simp: lease_inv_def AcquireLease_def Let_def split: if_splits)
  show ?thesis
    using Acquire t a d' l only inv by (auto simp: lease_inv_def)
next
  case (Release t owner)
  have "distinct (map leaseName (leases (ReleaseLease s name owner)))"
    using inv by (simp add: lease_inv_def ReleaseLease_def distinct_map_filter)
  with Release inv show ?thesis
    by (auto simp: lease_inv_def intro!: lease_of_released)
qed

lemma lease_inv_run:
  "lease_inv name t0 st \<Longrightarrow> sorted (t0 # map event_time es) \<Longrightarrow>
   lease_inv name (last (t0 # map event_time es)) (fold (lease_event_step name) es st)"
proof (induction es arbitrary: t0 st)
  case (Cons e es)
  have "lease_inv name (event_time e) st"
    using Cons.prems by (auto intro: lease_inv_later)
  then have "lease_inv name (event_time e) (lease_event_step name e st)"
    by (cases st) (simp add: lease_inv_step)
  from Cons.IH [OF this] Cons.prems(2) show ?case by simp
qed simp

text \<open>Claim C4: along any sequence of acquisitions and releases of one lease in time order, with any
  time to live each, no two owners hold it at once: at any moment not before the last event at most
  one owner's granted term is still running.\<close>

lemma lease_mutual_exclusion:
  assumes "sorted (map event_time es)" "\<forall>e \<in> set es. event_time e \<le> t"
    and "holds_at (snd (run_lease name es (run_store pg ops))) o1 t"
    and "holds_at (snd (run_lease name es (run_store pg ops))) o2 t"
  shows "o1 = o2"
proof -
  let ?st = "run_lease name es (run_store pg ops)"
  define t0 where "t0 = (case es of [] \<Rightarrow> t | e # _ \<Rightarrow> event_time e)"
  have "lease_inv name t0 (run_store pg ops, \<lambda>_. None)"
    using keys_ok_run by (simp add: lease_inv_def keys_ok_def)
  moreover have "sorted (t0 # map event_time es)"
    using assms(1) by (cases es) (auto simp: t0_def)
  ultimately have inv: "lease_inv name (last (t0 # map event_time es)) ?st"
    unfolding run_lease_def by (rule lease_inv_run)
  have "last (t0 # map event_time es) \<le> t"
    using assms(2) by (cases es) (auto simp: t0_def last_map)
  then have "lease_inv name t ?st" using inv by (rule lease_inv_later [rotated])
  then have only: "snd ?st o' = Some e \<Longrightarrow> t \<le> e \<Longrightarrow> map_option leaseOwner (lease_of (fst ?st) name) = Some o'"
    for o' e by (simp add: lease_inv_def)
  obtain e1 e2 where "snd ?st o1 = Some e1" "t \<le> e1" "snd ?st o2 = Some e2" "t \<le> e2"
    using assms(3,4) by (auto simp: holds_at_def split: option.splits)
  then show ?thesis using only by (metis option.inject)
qed

lemma lease_mutual_exclusion_witness:
  "let es = [Acquire 1 ''a'' 10, Acquire 5 ''b'' 10, Acquire 12 ''b'' 10];
       held = snd (run_lease ''writer'' es (run_store False [])) in
     holds_at held ''b'' 15 \<and> (\<forall>x. holds_at held x 15 \<longrightarrow> x = ''b'')"
proof -
  define es where "es = [Acquire 1 ''a'' 10, Acquire 5 ''b'' 10, Acquire 12 ''b'' 10]"
  have s: "sorted (map event_time es)" "\<forall>e \<in> set es. event_time e \<le> 15"
    by (simp_all add: es_def)
  have h: "holds_at (snd (run_lease ''writer'' es (run_store False []))) ''b'' 15"
    unfolding es_def by code_simp
  from lease_mutual_exclusion [OF s _ h] h show ?thesis
    unfolding Let_def es_def [symmetric] by blast
qed

end
