(* ===== verification/ChainTips.thy ===== *)
theory ChainTips
  imports CellScript
begin

text \<open>
  Tips from bytes, \<open>internal/chain/tips.go\<close>, and genesis, \<open>internal/chain/genesis.go\<close>.  Decoding
  a transaction and hashing it are third-party (\<open>go-sdk\<close>): the fields of a record the definitions
  take.  A cell's tip is derived from a recorded position and the bytes of the transaction it names;
  everything it holds is checked against those bytes.  Errors are values that keep the branch.
\<close>

record tx_codec =
  ParseTx :: "bytes \<Rightarrow> string + tx"
  TxIDOf :: "tx \<Rightarrow> txid"
  RawOf :: "tx \<Rightarrow> bytes"

record cell_chain =
  Cell :: int
  TxID :: txid
  Vout :: u32
  Satoshis_of :: u64
  Generation :: u64
  RowHex :: string
  RawTxHex :: string
  LegacyBEEFHex :: string

definition Row :: "cell_chain \<Rightarrow> int \<Rightarrow> ca_error + row" where
  "Row t n = SeedHex n (RowHex t)"

datatype tip_error =
    NoBytes int txid
  | ParseFailed int txid string
  | HashesTo int txid txid
  | ScriptError script_error
  | RowError int ca_error
  | ScriptAtTwoOutputs int nat nat
  | NoOutputForCell int u64
  | WrongOutput int u64 nat u32
  | DoesNotSpendTip int txid
  | NotTwoOutputs int nat
  | NotCellScript int u64
  | ValueChanged int u64 u64
  | StepPanicked int

definition parseTip :: "tx_codec \<Rightarrow> int \<Rightarrow> txid \<Rightarrow> bytes \<Rightarrow> tip_error + tx" where
  "parseTip K cell tid raw =
     (if length raw = 0 then Inl (NoBytes cell tid)
      else case ParseTx K raw of
             Inl e \<Rightarrow> Inl (ParseFailed cell tid e)
           | Inr t \<Rightarrow> if TxIDOf K t \<noteq> tid then Inl (HashesTo cell tid (TxIDOf K t)) else Inr t)"

definition carries :: "tx_output \<Rightarrow> bytes \<Rightarrow> bool" where
  "carries out want = (case OutScript out of None \<Rightarrow> False | Some s \<Rightarrow> s = want)"

text \<open>The search for the one output that carries the script: the index found so far, and the error
  at the second match.\<close>

fun match_loop :: "int \<Rightarrow> bytes \<Rightarrow> nat \<Rightarrow> tx_output list \<Rightarrow> nat option \<Rightarrow> tip_error + nat option" where
  "match_loop cell want i [] found = Inr found"
| "match_loop cell want i (out # outs) found =
     (if \<not> carries out want then match_loop cell want (i + 1) outs found
      else case found of
             Some f \<Rightarrow> Inl (ScriptAtTwoOutputs cell f i)
           | None \<Rightarrow> match_loop cell want (i + 1) outs (Some i))"

definition DeriveTip :: "tx_codec \<Rightarrow> compiled \<Rightarrow> int \<Rightarrow> u64 \<Rightarrow> row \<Rightarrow> txid \<Rightarrow> bytes \<Rightarrow> tip_error + cell_chain" where
  "DeriveTip K c cell gen row tid raw =
     (case parseTip K cell tid raw of
        Inl e \<Rightarrow> Inl e
      | Inr t \<Rightarrow>
         (case LockingScript c cell row of
            Inl e \<Rightarrow> Inl (ScriptError e)
          | Inr want \<Rightarrow>
             (case match_loop cell want 0 (Outputs t) None of
                Inl e \<Rightarrow> Inl e
              | Inr None \<Rightarrow> Inl (NoOutputForCell cell gen)
              | Inr (Some found) \<Rightarrow>
                 (let wantVout = (if gen = 0 then word_of_int cell else 0) in
                  if word_of_nat found \<noteq> wantVout then Inl (WrongOutput cell gen found wantVout)
                  else Inr \<lparr>Cell = cell, TxID = tid, Vout = wantVout,
                         Satoshis_of = Satoshis (Outputs t ! found), Generation = gen,
                         RowHex = Hex row, RawTxHex = hex_encode raw, LegacyBEEFHex = ''''\<rparr>))))"

text \<open>Whether some input of a transaction spends the tip's outpoint.\<close>

definition input_spends :: "cell_chain \<Rightarrow> tx_input \<Rightarrow> bool" where
  "input_spends tip i = (SourceTXID i = Some (TxID tip) \<and> SourceTxOutIndex i = Vout tip)"

definition spends_tip :: "cell_chain \<Rightarrow> tx \<Rightarrow> bool" where
  "spends_tip tip t = list_ex (input_spends tip) (Inputs t)"

definition VerifySuccessor :: "tx_codec \<Rightarrow> compiled \<Rightarrow> cell_chain \<Rightarrow> int \<Rightarrow> rule \<Rightarrow> txid \<Rightarrow> bytes
    \<Rightarrow> tip_error + cell_chain" where
  "VerifySuccessor K c tip n rule tid raw =
     (case parseTip K (Cell tip) tid raw of
        Inl e \<Rightarrow> Inl e
      | Inr t \<Rightarrow>
         if \<not> spends_tip tip t then Inl (DoesNotSpendTip (Cell tip) tid)
         else if length (Outputs t) \<noteq> 2 then Inl (NotTwoOutputs (Cell tip) (length (Outputs t)))
         else case Row tip n of
           Inl e \<Rightarrow> Inl (RowError (Cell tip) e)
         | Inr row \<Rightarrow>
            (case Step rule row of
               None \<Rightarrow> Inl (StepPanicked (Cell tip))
             | Some nxt \<Rightarrow>
                (case LockingScript c (Cell tip) nxt of
                   Inl e \<Rightarrow> Inl (ScriptError e)
                 | Inr want \<Rightarrow>
                    (let cont = Outputs t ! 0 in
                     if \<not> carries cont want then Inl (NotCellScript (Cell tip) (Generation tip + 1))
                     else if Satoshis cont \<noteq> Satoshis_of tip
                       then Inl (ValueChanged (Cell tip) (Satoshis cont) (Satoshis_of tip))
                     else Inr \<lparr>Cell = Cell tip, TxID = tid, Vout = 0, Satoshis_of = Satoshis cont,
                            Generation = Generation tip + 1, RowHex = Hex nxt,
                            RawTxHex = hex_encode raw, LegacyBEEFHex = ''''\<rparr>))))"

subsection \<open>Genesis\<close>

record deployment =
  dCells :: int
  dRule :: rule
  GenesisTxID :: txid
  dSeedHex :: string
  CellSatoshis :: u64
  legacyTips :: "cell_chain list"

definition Seed :: "deployment \<Rightarrow> ca_error + row" where
  "Seed d = SeedHex (dCells d) (dSeedHex d)"

datatype genesis_error =
    SeedWrongSize int int
  | AlreadyDeployed
  | StateUnchecked string
  | GenesisScript script_error
  | CreateGenesisFailed string
  | ReparseGenesis string
  | TooFewOutputs nat int
  | NotCellOutput int
  | CellOutputValue int u64 u64

text \<open>The outputs genesis asks for: one per cell, in cell order, with the generation-0 instructions.\<close>

record genesis_output =
  goScript :: bytes
  goSatoshis :: u64
  goCell :: int
  goGeneration :: u64

fun genesis_outputs :: "compiled \<Rightarrow> row \<Rightarrow> u64 \<Rightarrow> int list \<Rightarrow> script_error + genesis_output list" where
  "genesis_outputs c seed sats [] = Inr []"
| "genesis_outputs c seed sats (cell # cs) =
     (case LockingScript c cell seed of
        Inl e \<Rightarrow> Inl e
      | Inr lock \<Rightarrow>
         (case genesis_outputs c seed sats cs of
            Inl e \<Rightarrow> Inl e
          | Inr outs \<Rightarrow> Inr (\<lparr>goScript = lock, goSatoshis = sats, goCell = cell, goGeneration = 0\<rparr> # outs)))"

fun layout_loop :: "compiled \<Rightarrow> row \<Rightarrow> u64 \<Rightarrow> tx \<Rightarrow> int list \<Rightarrow> genesis_error option" where
  "layout_loop c seed sats t [] = None"
| "layout_loop c seed sats t (cell # cs) =
     (if cell \<ge> int (length (Outputs t)) then Some (TooFewOutputs (length (Outputs t)) (cells c))
      else case LockingScript c cell seed of
             Inl e \<Rightarrow> Some (GenesisScript e)
           | Inr want \<Rightarrow>
              if \<not> carries (Outputs t ! nat cell) want then Some (NotCellOutput cell)
              else if Satoshis (Outputs t ! nat cell) \<noteq> sats
                then Some (CellOutputValue cell (Satoshis (Outputs t ! nat cell)) sats)
              else layout_loop c seed sats t cs)"

definition verifyGenesisLayout :: "(bytes \<Rightarrow> string + tx) \<Rightarrow> bytes \<Rightarrow> compiled \<Rightarrow> row \<Rightarrow> u64 \<Rightarrow> genesis_error option" where
  "verifyGenesisLayout parseBEEF beef c seed sats =
     (case parseBEEF beef of
        Inl e \<Rightarrow> Some (ReparseGenesis e)
      | Inr t \<Rightarrow> layout_loop c seed sats t [0..cells c - 1])"

text \<open>
  \<open>Genesis\<close>.  The wallet's \<open>CreateAction\<close>, retried until funded, is a parameter: from the outputs
  it returns an error or the txid and the signed transaction in BEEF form.  The state file is missing, holds a
  deployment, is there and does not load, or cannot even be looked at; genesis runs only when it is missing and
  writes it last.
\<close>

datatype state_file = NoState | StateOf deployment | BrokenState | HiddenState string

text \<open>\<open>LoadDeployment\<close>, every failure of which callers treat alike.\<close>

definition LoadDeployment :: "state_file \<Rightarrow> deployment option" where
  "LoadDeployment file = (case file of StateOf d \<Rightarrow> Some d | _ \<Rightarrow> None)"

lemma LoadDeployment_Some [simp]: "LoadDeployment file = Some d \<longleftrightarrow> file = StateOf d"
  by (simp add: LoadDeployment_def split: state_file.split)

lemma LoadDeployment_simps [simp]:
  "LoadDeployment NoState = None" "LoadDeployment BrokenState = None" "LoadDeployment (HiddenState e) = None"
  "LoadDeployment (StateOf d) = Some d"
  by (simp_all add: LoadDeployment_def)

text \<open>\<open>os.Stat\<close> on the file, as genesis judges it.\<close>

definition state_refusal :: "state_file \<Rightarrow> genesis_error option" where
  "state_refusal file =
     (case file of NoState \<Rightarrow> None | HiddenState e \<Rightarrow> Some (StateUnchecked e) | _ \<Rightarrow> Some AlreadyDeployed)"

lemma state_refusal_None [simp]: "state_refusal file = None \<longleftrightarrow> file = NoState"
  by (simp add: state_refusal_def split: state_file.split)

lemma state_refusal_simps [simp]: "state_refusal NoState = None"
  by (simp add: state_refusal_def)

definition Genesis :: "(genesis_output list \<Rightarrow> string + txid \<times> bytes) \<Rightarrow> (bytes \<Rightarrow> string + tx) \<Rightarrow> u64
    \<Rightarrow> compiled \<Rightarrow> row \<Rightarrow> state_file \<Rightarrow> (genesis_error + deployment) \<times> state_file" where
  "Genesis create parseBEEF sats c seed file =
     (if Cells seed \<noteq> cells c then (Inl (SeedWrongSize (Cells seed) (cells c)), file)
      else case state_refusal file of
        Some e \<Rightarrow> (Inl e, file)
      | None \<Rightarrow>
          (case genesis_outputs c seed sats [0..cells c - 1] of
             Inl e \<Rightarrow> (Inl (GenesisScript e), file)
           | Inr outs \<Rightarrow>
              (case create outs of
                 Inl e \<Rightarrow> (Inl (CreateGenesisFailed e), file)
               | Inr (tid, beef) \<Rightarrow>
                  (case verifyGenesisLayout parseBEEF beef c seed sats of
                     Some e \<Rightarrow> (Inl e, file)
                   | None \<Rightarrow>
                      (let d = \<lparr>dCells = cells c, dRule = crule c, GenesisTxID = tid,
                                dSeedHex = Hex seed, CellSatoshis = sats, legacyTips = []\<rparr> in
                       (Inr d, StateOf d))))))"

subsection \<open>The one output that carries the script\<close>

definition positions :: "bytes \<Rightarrow> nat \<Rightarrow> tx_output list \<Rightarrow> nat list" where
  "positions want i outs = map fst (filter (\<lambda>(k, out). carries out want) (enumerate i outs))"

lemma positions_simps [simp]:
  "positions want i [] = []"
  "positions want i (out # outs) =
     (if carries out want then i # positions want (Suc i) outs else positions want (Suc i) outs)"
  by (simp_all add: positions_def)

lemma match_loop_positions:
  "match_loop cell want i outs found =
     (case (found, positions want i outs) of
        (f, []) \<Rightarrow> Inr f
      | (None, [f]) \<Rightarrow> Inr (Some f)
      | (None, f # g # _) \<Rightarrow> Inl (ScriptAtTwoOutputs cell f g)
      | (Some f, g # _) \<Rightarrow> Inl (ScriptAtTwoOutputs cell f g))"
  by (induction cell want i outs found rule: match_loop.induct)
     (auto split: option.splits list.splits)

lemma set_positions: "set (positions want 0 outs) = {k. k < length outs \<and> carries (outs ! k) want}"
  by (force simp: positions_def in_set_enumerate_eq image_iff)

lemma distinct_positions: "distinct (positions want i outs)"
  by (simp add: positions_def distinct_map_filter)

lemma match_loop_one:
  "match_loop cell want 0 outs None = Inr (Some f) \<longleftrightarrow>
     {k. k < length outs \<and> carries (outs ! k) want} = {f}"
proof -
  have "match_loop cell want 0 outs None = Inr (Some f) \<longleftrightarrow> positions want 0 outs = [f]"
    by (simp add: match_loop_positions split: list.split)
  also have "\<dots> \<longleftrightarrow> set (positions want 0 outs) = {f}"
    using distinct_positions [of want 0 outs]
    by (cases "positions want 0 outs" rule: remdups_adj.cases) auto
  finally show ?thesis by (simp add: set_positions)
qed

lemma parseTip_Inr:
  "parseTip K cell tid raw = Inr t \<longleftrightarrow> raw \<noteq> [] \<and> ParseTx K raw = Inr t \<and> TxIDOf K t = tid"
  by (auto simp: parseTip_def split: sum.split)

lemma spends_tip_iff:
  "spends_tip tip t \<longleftrightarrow> (\<exists>i \<in> set (Inputs t). SourceTXID i = Some (TxID tip) \<and> SourceTxOutIndex i = Vout tip)"
  by (auto simp: spends_tip_def input_spends_def list_ex_iff)

definition wantVout :: "u64 \<Rightarrow> int \<Rightarrow> u32" where
  "wantVout gen cell = (if gen = 0 then word_of_int cell else 0)"

lemma DeriveTip_Inr:
  "DeriveTip K c cell gen row tid raw = Inr tip \<longleftrightarrow>
     (\<exists>t want f. raw \<noteq> [] \<and> ParseTx K raw = Inr t \<and> TxIDOf K t = tid
        \<and> LockingScript c cell row = Inr want
        \<and> {k. k < length (Outputs t) \<and> carries (Outputs t ! k) want} = {f}
        \<and> word_of_nat f = wantVout gen cell
        \<and> tip = \<lparr>Cell = cell, TxID = tid, Vout = wantVout gen cell, Satoshis_of = Satoshis (Outputs t ! f),
            Generation = gen, RowHex = Hex row, RawTxHex = hex_encode raw, LegacyBEEFHex = ''''\<rparr>)"
proof -
  have "DeriveTip K c cell gen row tid raw = Inr tip \<longleftrightarrow>
     (\<exists>t want f. parseTip K cell tid raw = Inr t \<and> LockingScript c cell row = Inr want
        \<and> match_loop cell want 0 (Outputs t) None = Inr (Some f) \<and> word_of_nat f = wantVout gen cell
        \<and> tip = \<lparr>Cell = cell, TxID = tid, Vout = wantVout gen cell, Satoshis_of = Satoshis (Outputs t ! f),
            Generation = gen, RowHex = Hex row, RawTxHex = hex_encode raw, LegacyBEEFHex = []\<rparr>)"
    unfolding DeriveTip_def Let_def wantVout_def
    by (cases "parseTip K cell tid raw"; cases "LockingScript c cell row") (auto split: sum.split option.split)
  then show ?thesis unfolding parseTip_Inr match_loop_one by blast
qed

lemma Row_Hex: "Cells row = n \<Longrightarrow> 0 < n \<Longrightarrow> RowHex tip = Hex row \<Longrightarrow> Row tip n = Inr row"
  using SeedHex_Hex [of row] by (simp add: Row_def)

text \<open>A derived tip is proved by the bytes: the transaction hashes to the tip's txid, exactly
  one of its outputs carries the covenant script of this cell at this row, that output sits at the
  index the tip names and holds the tip's value, and its script decodes back to the cell and row.\<close>

theorem derive_tip_sound:
  assumes "artifact_laws c code pre" and "DeriveTip K c cell gen row tid raw = Inr tip"
  shows "\<exists>t s f. ParseTx K raw = Inr t \<and> TxIDOf K t = TxID tip \<and> TxID tip = tid
     \<and> {k. k < length (Outputs t) \<and> OutScript (Outputs t ! k) = Some s} = {f}
     \<and> word_of_nat f = Vout tip \<and> Satoshis (Outputs t ! f) = Satoshis_of tip
     \<and> Decode c s = Inr \<lparr>bCell = cell, bRow = row\<rparr>
     \<and> Cell tip = cell \<and> Generation tip = gen \<and> Row tip (cells c) = Inr row
     \<and> hex_decode (RawTxHex tip) = Inr raw"
proof -
  obtain t want f where d: "ParseTx K raw = Inr t" "TxIDOf K t = tid" "LockingScript c cell row = Inr want"
    "{k. k < length (Outputs t) \<and> carries (Outputs t ! k) want} = {f}" "word_of_nat f = wantVout gen cell"
    "tip = \<lparr>Cell = cell, TxID = tid, Vout = wantVout gen cell, Satoshis_of = Satoshis (Outputs t ! f),
            Generation = gen, RowHex = Hex row, RawTxHex = hex_encode raw, LegacyBEEFHex = ''''\<rparr>"
    using assms(2) unfolding DeriveTip_Inr by blast
  have "carries out want = (OutScript out = Some want)" for out
    by (simp add: carries_def split: option.split)
  moreover have "Row tip (cells c) = Inr row"
    using LockingScript_Inr [OF d(3)] d(6) by (intro Row_Hex) auto
  ultimately show ?thesis
    using d Decode_LockingScript [OF assms(1) d(3)] by (auto simp: hex_decode_encode)
qed

text \<open>An outpoint belongs to one cell at one row: two tips derived from the same bytes at the
  same output index are tips of the same cell carrying the same row and value.\<close>

theorem derived_tips_distinct:
  assumes "artifact_laws c code pre"
    and "DeriveTip K c cell gen row tid raw = Inr tip" and "DeriveTip K c cell' gen' row' tid' raw = Inr tip'"
    and "Vout tip = Vout tip'"
    and "\<And>t. ParseTx K raw = Inr t \<Longrightarrow> length (Outputs t) \<le> 2 ^ 32"
  shows "cell = cell' \<and> row = row' \<and> tid = tid' \<and> Satoshis_of tip = Satoshis_of tip'"
proof -
  obtain t want f where d: "ParseTx K raw = Inr t" "TxIDOf K t = tid" "LockingScript c cell row = Inr want"
    "{k. k < length (Outputs t) \<and> carries (Outputs t ! k) want} = {f}" "word_of_nat f = Vout tip"
    "Satoshis_of tip = Satoshis (Outputs t ! f)"
    using assms(2) unfolding DeriveTip_Inr by force
  obtain t' want' f' where d': "ParseTx K raw = Inr t'" "TxIDOf K t' = tid'" "LockingScript c cell' row' = Inr want'"
    "{k. k < length (Outputs t') \<and> carries (Outputs t' ! k) want'} = {f'}" "word_of_nat f' = Vout tip'"
    "Satoshis_of tip' = Satoshis (Outputs t' ! f')"
    using assms(3) unfolding DeriveTip_Inr by force
  have t: "t' = t" using d(1) d'(1) by simp
  have "length (Outputs t) \<le> 2 ^ 32" using assms(5) d(1) by blast
  moreover have f: "f < length (Outputs t) \<and> carries (Outputs t ! f) want"
    and f': "f' < length (Outputs t) \<and> carries (Outputs t ! f') want'"
    using d(4) d'(4) t by auto
  ultimately have lt: "f < 2 ^ 32" "f' < 2 ^ 32" by linarith+
  have "(word_of_nat f :: u32) = word_of_nat f'" using d(5) d'(5) assms(4) by simp
  then have "unat (word_of_nat f :: u32) = unat (word_of_nat f' :: u32)" by simp
  then have ff: "f = f'" using lt by (simp add: unat_of_nat)
  then have "want = want'" using f f' by (auto simp: carries_def split: option.splits)
  then show ?thesis using LockingScript_inj [OF assms(1) d(3)] d'(3) d d' t ff by simp
qed

text \<open>A small ledger of two transactions over the demonstration covenant: the genesis of the ring and
  the first transition of its cell 0.\<close>

definition demo_genesis :: tx where
  "demo_genesis = \<lparr>Inputs = [], Outputs = map (\<lambda>i. \<lparr>OutScript = Some (demo_code i @ [0x6a, 1, 1]),
     Satoshis = 1\<rparr>) [0, 1, 2, 3, 4, 5, 6, 7]\<rparr>"

definition demo_step :: tx where
  "demo_step = \<lparr>Inputs = [\<lparr>SourceTXID = Some ''aa'', SourceTxOutIndex = 0, UnlockScript = []\<rparr>],
     Outputs = [\<lparr>OutScript = Some (demo_code 0 @ [0x6a, 1, 3]), Satoshis = 1\<rparr>,
                \<lparr>OutScript = Some [0x76], Satoshis = 9\<rparr>]\<rparr>"

definition demo_codec :: tx_codec where
  "demo_codec = \<lparr>ParseTx = (\<lambda>raw. if raw = [1] then Inr demo_genesis else if raw = [2] then Inr demo_step
       else Inl ''not a transaction''),
     TxIDOf = (\<lambda>t. if length (Outputs t) = 2 then ''bb'' else ''aa''), RawOf = (\<lambda>t. [])\<rparr>"

definition demo_tip :: "int \<Rightarrow> cell_chain" where
  "demo_tip i = \<lparr>Cell = i, TxID = ''aa'', Vout = word_of_int i, Satoshis_of = 1, Generation = 0,
     RowHex = ''01'', RawTxHex = ''01'', LegacyBEEFHex = ''''\<rparr>"

definition demo_next :: cell_chain where
  "demo_next = \<lparr>Cell = 0, TxID = ''bb'', Vout = 0, Satoshis_of = 1, Generation = 1,
     RowHex = ''03'', RawTxHex = ''02'', LegacyBEEFHex = ''''\<rparr>"

lemma demo_derive:
  "DeriveTip demo_codec demo_compiled 2 0 [1] ''aa'' [1] = Inr (demo_tip 2)"
  "DeriveTip demo_codec demo_compiled 0 1 [3] ''bb'' [2] = Inr demo_next"
  by code_simp+

lemma demo_outputs: "ParseTx demo_codec raw = Inr t \<Longrightarrow> length (Outputs t) \<le> 8"
  by (auto simp: demo_codec_def demo_genesis_def demo_step_def split: if_splits)

theorem derive_tip_sound_witness:
  "\<exists>t s. ParseTx demo_codec [2] = Inr t \<and> Decode demo_compiled s = Inr \<lparr>bCell = 0, bRow = [3]\<rparr>"
  using derive_tip_sound [OF demo_laws demo_derive(2)] by blast

theorem derived_tips_distinct_witness:
  "Satoshis_of demo_next = Satoshis_of demo_next \<and> Vout demo_next = 0"
  using derived_tips_distinct [OF demo_laws demo_derive(2) demo_derive(2) refl]
    demo_outputs by (force simp: demo_next_def)

subsection \<open>The next step of a chain\<close>

lemma VerifySuccessor_Inr:
  "VerifySuccessor K c tip n rule tid raw = Inr nx \<longleftrightarrow>
     (\<exists>t row nxt want. raw \<noteq> [] \<and> ParseTx K raw = Inr t \<and> TxIDOf K t = tid \<and> spends_tip tip t
        \<and> length (Outputs t) = 2 \<and> Row tip n = Inr row \<and> Step rule row = Some nxt
        \<and> LockingScript c (Cell tip) nxt = Inr want \<and> carries (Outputs t ! 0) want
        \<and> Satoshis (Outputs t ! 0) = Satoshis_of tip
        \<and> nx = \<lparr>Cell = Cell tip, TxID = tid, Vout = 0, Satoshis_of = Satoshis_of tip,
            Generation = Generation tip + 1, RowHex = Hex nxt, RawTxHex = hex_encode raw, LegacyBEEFHex = ''''\<rparr>)"
proof -
  have "VerifySuccessor K c tip n rule tid raw = Inr nx \<longleftrightarrow>
     (\<exists>t row nxt want. parseTip K (Cell tip) tid raw = Inr t \<and> spends_tip tip t
        \<and> length (Outputs t) = 2 \<and> Row tip n = Inr row \<and> Step rule row = Some nxt
        \<and> LockingScript c (Cell tip) nxt = Inr want \<and> carries (Outputs t ! 0) want
        \<and> Satoshis (Outputs t ! 0) = Satoshis_of tip
        \<and> nx = \<lparr>Cell = Cell tip, TxID = tid, Vout = 0, Satoshis_of = Satoshis_of tip,
            Generation = Generation tip + 1, RowHex = Hex nxt, RawTxHex = hex_encode raw, LegacyBEEFHex = ''''\<rparr>)"
    unfolding VerifySuccessor_def Let_def
    by (cases "parseTip K (Cell tip) tid raw"; cases "Row tip n") (auto split: sum.split option.split)
  then show ?thesis unfolding parseTip_Inr by blast
qed

text \<open>Claim C7: a verified successor really is the next step: the bytes hash to its id, the
  transaction spends exactly the outpoint of the tip and has the covenant's two outputs, the row it
  carries is the automaton step of the tip's row one generation on, and the value is kept.  Where the
  change output does not carry the same covenant, deriving the tip from the bytes agrees with it.\<close>

theorem verify_successor_sound:
  assumes "VerifySuccessor K c tip n rule tid raw = Inr nx" and "Generation tip + 1 \<noteq> 0"
  shows "\<exists>t row nxt want. ParseTx K raw = Inr t \<and> TxIDOf K t = TxID nx
     \<and> list_ex (\<lambda>i. SourceTXID i = Some (TxID tip) \<and> SourceTxOutIndex i = Vout tip) (Inputs t)
     \<and> length (Outputs t) = 2 \<and> Row tip n = Inr row \<and> Step rule row = Some nxt
     \<and> LockingScript c (Cell tip) nxt = Inr want
     \<and> Cell nx = Cell tip \<and> Generation nx = Generation tip + 1 \<and> Satoshis_of nx = Satoshis_of tip
     \<and> Vout nx = 0 \<and> RowHex nx = Hex nxt
     \<and> DeriveTip K c (Cell tip) (Generation tip + 1) nxt tid raw =
        (if OutScript (Outputs t ! 1) = Some want then Inl (ScriptAtTwoOutputs (Cell tip) 0 1) else Inr nx)"
proof -
  obtain t row nxt want where v: "raw \<noteq> []" "ParseTx K raw = Inr t" "TxIDOf K t = tid" "spends_tip tip t"
    "length (Outputs t) = 2" "Row tip n = Inr row" "Step rule row = Some nxt"
    "LockingScript c (Cell tip) nxt = Inr want" "carries (Outputs t ! 0) want"
    "Satoshis (Outputs t ! 0) = Satoshis_of tip"
    "nx = \<lparr>Cell = Cell tip, TxID = tid, Vout = 0, Satoshis_of = Satoshis_of tip,
        Generation = Generation tip + 1, RowHex = Hex nxt, RawTxHex = hex_encode raw, LegacyBEEFHex = ''''\<rparr>"
    using assms(1) unfolding VerifySuccessor_Inr by blast
  obtain a b where ab: "Outputs t = [a, b]" using v(5) by (metis One_nat_def Suc_1 length_0_conv length_Suc_conv)
  have carry: "carries b want = (OutScript b = Some want)" by (simp add: carries_def split: option.split)
  have "parseTip K (Cell tip) tid raw = Inr t" using v by (simp add: parseTip_Inr)
  then have "DeriveTip K c (Cell tip) (Generation tip + 1) nxt tid raw =
        (if OutScript (Outputs t ! 1) = Some want then Inl (ScriptAtTwoOutputs (Cell tip) 0 1) else Inr nx)"
    using v(8-11) assms(2) by (simp add: DeriveTip_def ab match_loop_positions carry)
  moreover have "input_spends tip = (\<lambda>i. SourceTXID i = Some (TxID tip) \<and> SourceTxOutIndex i = Vout tip)"
    by (intro ext) (simp add: input_spends_def)
  ultimately show ?thesis using v(2-8) v(11) by (auto simp: spends_tip_def)
qed

theorem verify_successor_sound_witness:
  "\<exists>nxt. Step Rule110 [1] = Some nxt \<and> RowHex demo_next = Hex nxt"
proof -
  have v: "VerifySuccessor demo_codec demo_compiled (demo_tip 0) 8 Rule110 ''bb'' [2] = Inr demo_next"
    by code_simp
  have "Generation (demo_tip 0) + 1 \<noteq> 0" "Row (demo_tip 0) 8 = Inr [1]" by code_simp+
  with verify_successor_sound [OF v] show ?thesis by auto
qed

subsection \<open>Genesis\<close>

lemma layout_loop_None:
  "layout_loop c seed sats t is = None \<Longrightarrow> i \<in> set is \<Longrightarrow> 0 \<le> i \<Longrightarrow>
     nat i < length (Outputs t) \<and> (\<exists>want. LockingScript c i seed = Inr want
       \<and> OutScript (Outputs t ! nat i) = Some want) \<and> Satoshis (Outputs t ! nat i) = sats"
  by (induction "is") (auto simp: carries_def split: if_splits sum.splits option.splits)

text \<open>Genesis writes the deployment file only for a transaction that carries, in cell order, one
  covenant output per cell with the configured value; every cell's generation-0 tip is then derivable
  from the deployment's txid, its seed and the transaction's bytes, at the output of its own index,
  as long as no output beyond the ring repeats a cell's script.\<close>

theorem genesis_tips_derivable:
  assumes laws: "artifact_laws c code pre" and small: "cells c \<le> 2 ^ 32"
    and gen: "Genesis create parseBEEF sats c seed file = (Inr d, file')"
    and bytes: "\<And>outs tid beef t. create outs = Inr (tid, beef) \<Longrightarrow> parseBEEF beef = Inr t \<Longrightarrow>
          raw \<noteq> [] \<and> ParseTx K raw = Inr t \<and> TxIDOf K t = tid"
    and change: "\<And>t k j want. ParseTx K raw = Inr t \<Longrightarrow> nat (cells c) \<le> k \<Longrightarrow> k < length (Outputs t) \<Longrightarrow>
          LockingScript c j seed = Inr want \<Longrightarrow> OutScript (Outputs t ! k) \<noteq> Some want"
    and i: "0 \<le> i" "i < cells c"
  shows "file = NoState \<and> file' = StateOf d \<and> Seed d = Inr seed \<and> dRule d = crule c \<and> CellSatoshis d = sats
     \<and> DeriveTip K c i 0 seed (GenesisTxID d) raw = Inr \<lparr>Cell = i, TxID = GenesisTxID d,
          Vout = word_of_int i, Satoshis_of = sats, Generation = 0, RowHex = Hex seed,
          RawTxHex = hex_encode raw, LegacyBEEFHex = ''''\<rparr>"
proof -
  obtain outs tid beef t where g: "Cells seed = cells c" "file = NoState" "create outs = Inr (tid, beef)"
    "parseBEEF beef = Inr t" "layout_loop c seed sats t [0..cells c - 1] = None"
    "d = \<lparr>dCells = cells c, dRule = crule c, GenesisTxID = tid, dSeedHex = Hex seed,
        CellSatoshis = sats, legacyTips = []\<rparr>" "file' = StateOf d"
    using gen by (auto simp: Genesis_def Let_def verifyGenesisLayout_def split: if_splits sum.splits option.splits)
  have raw: "raw \<noteq> []" "ParseTx K raw = Inr t" "TxIDOf K t = tid" using bytes [OF g(3,4)] by auto
  have lay: "nat j < length (Outputs t) \<and> (\<exists>want. LockingScript c j seed = Inr want
       \<and> OutScript (Outputs t ! nat j) = Some want) \<and> Satoshis (Outputs t ! nat j) = sats"
    if "0 \<le> j" "j < cells c" for j
    using layout_loop_None [OF g(5), of j] that by simp
  obtain want where w: "nat i < length (Outputs t)" "LockingScript c i seed = Inr want"
    "OutScript (Outputs t ! nat i) = Some want" "Satoshis (Outputs t ! nat i) = sats"
    using lay [OF i] by blast
  have only: "k = nat i" if k: "k < length (Outputs t)" "OutScript (Outputs t ! k) = Some want" for k
  proof -
    have "k < nat (cells c)" using change [OF raw(2) _ k(1) w(2)] k(2) by (meson not_le)
    then have "0 \<le> int k" "int k < cells c" by auto
    then obtain want' where "LockingScript c (int k) seed = Inr want'" "OutScript (Outputs t ! k) = Some want'"
      using lay [of "int k"] by auto
    then have "LockingScript c (int k) seed = Inr want" using k(2) by simp
    then have "i = int k" using LockingScript_inj [OF laws w(2)] by blast
    then show ?thesis by simp
  qed
  have carry: "carries out want = (OutScript out = Some want)" for out
    by (simp add: carries_def split: option.split)
  have one: "{k. k < length (Outputs t) \<and> carries (Outputs t ! k) want} = {nat i}"
    unfolding carry using only w(1,3) by blast
  have vout: "word_of_nat (nat i) = wantVout 0 i" using i by (simp add: wantVout_def)
  have "Seed d = Inr seed" using SeedHex_Hex [of seed] g(1,6) i by (simp add: Seed_def)
  moreover have "DeriveTip K c i 0 seed tid raw = Inr \<lparr>Cell = i, TxID = tid,
          Vout = wantVout 0 i, Satoshis_of = Satoshis (Outputs t ! nat i), Generation = 0, RowHex = Hex seed,
          RawTxHex = hex_encode raw, LegacyBEEFHex = ''''\<rparr>"
    unfolding DeriveTip_Inr using raw w(2) one vout by blast
  ultimately show ?thesis using g(2,6,7) w(4) by (simp add: wantVout_def)
qed

theorem genesis_tips_derivable_witness:
  "let create = (\<lambda>outs. Inr (''aa'', [1])); r = Genesis create (ParseTx demo_codec) 1 demo_compiled [1] NoState in
   (case r of (Inr d, StateOf f) \<Rightarrow> f = d
      \<and> DeriveTip demo_codec demo_compiled 5 0 [1] (GenesisTxID d) [1] = Inr (demo_tip 5)
    | _ \<Rightarrow> False)"
proof -
  define create where "create = (\<lambda>outs :: genesis_output list. (Inr (''aa'', [1 :: u8]) :: string + txid \<times> bytes))"
  define d where "d = \<lparr>dCells = 8, dRule = Rule110, GenesisTxID = ''aa'', dSeedHex = ''01'',
        CellSatoshis = 1, legacyTips = []\<rparr>"
  have g: "Genesis create (ParseTx demo_codec) 1 demo_compiled [1] NoState = (Inr d, StateOf d)"
    unfolding create_def d_def by code_simp
  have bytes: "[1] \<noteq> [] \<and> ParseTx demo_codec [1] = Inr t \<and> TxIDOf demo_codec t = tid"
    if "create outs = Inr (tid, beef)" "ParseTx demo_codec beef = Inr t" for outs tid beef t
    using that by (auto simp: create_def demo_codec_def demo_genesis_def)
  have n: "nat (cells demo_compiled) = 8" by (simp add: demo_compiled_def)
  have change: "OutScript (Outputs t ! k) \<noteq> Some want"
    if "ParseTx demo_codec [1] = Inr t" "nat (cells demo_compiled) \<le> k" "k < length (Outputs t)" for t k want
    using that demo_outputs [OF that(1)] n by linarith
  have "DeriveTip demo_codec demo_compiled 5 0 [1] (GenesisTxID d) [1] = Inr (demo_tip 5)"
    using genesis_tips_derivable [OF demo_laws _ g bytes change, where i = 5]
    by (simp add: demo_compiled_def d_def demo_tip_def Hex_def hex_digit_def)
  with g show ?thesis unfolding Let_def create_def [symmetric] by simp
qed

end
