(* ===== verification/ChainRecover.thy ===== *)
theory ChainRecover
  imports ChainTips
begin

text \<open>
  Recovery decisions, \<open>internal/chain/recover.go\<close> and \<open>ledger.go\<close>: what to do with a cell whose
  tip is unknown.  The wallet (\<open>Ledger\<close>), arcade (\<open>TxStatus\<close>) and the deployment's own record
  (\<open>OnRecord\<close>) are interfaces the callers supply; here they are records of functions that may
  fail.  A decision is data: a verdict, the tip it leaves, the walk it verified and the reason, whose
  prose is replaced by one constructor per branch.
\<close>

datatype verdict =
    VerdictHalt
  | VerdictResume
  | VerdictAdopt

record cell_action =
  aTxID :: txid
  aStatus :: string
  aGeneration :: u64
  HasGeneration :: bool
  aLockingScript :: bytes
  aSatoshis :: u64

record ledger =
  RawTx :: "txid \<Rightarrow> string + bytes"
  CellActions :: "int \<Rightarrow> int \<Rightarrow> string + cell_action list \<times> nat"

text \<open>Arcade's status vocabulary: the values the sources name, and any other.\<close>

datatype arc_status =
    ArcAcceptedByNetwork
  | ArcSeenOnNetwork
  | ArcSeenMultipleNodes
  | ArcMined
  | ArcImmutable
  | ArcRejected
  | ArcDoubleSpendAttempted
  | ArcUnknown
  | ArcPendingRetry
  | ArcOther string

record tx_record =
  recStatus :: arc_status
  recExtraInfo :: string

type_synonym tx_status = "txid \<Rightarrow> string + tx_record option"
type_synonym on_record = "txid \<Rightarrow> string + bool"

datatype cell_reason =
    NotAdjacent u64 u64
  | ActionsUnreadable string
  | WrongWallet u64
  | NeverCreated u64
  | NoReadableGeneration nat
  | AttemptProducedNothing u64 u64 u64
  | NeverSigned u64

datatype walk_reason =
    WalkTooLong u64 u64
  | WalkGap u64 u64
  | WalkUnsigned u64
  | WalkRejected u64 txid
  | WalkUnreadable u64 txid string
  | WalkUnverified u64 txid tip_error
  | WalletDisagrees u64 txid
  | NothingToAdopt u64 u64
  | AdoptedWalk nat u64 u64 txid

datatype spent_reason =
    NotSpentRejection u64 string
  | RecordUnsearchable u64 txid string
  | AlreadyOnRecord u64 txid
  | CandidateUnreadable txid string
  | CandidateNotThat tip_error
  | CandidateOtherInput txid
  | CandidateOtherCovenant txid tip_error
  | CandidateValue txid u64 u64
  | NoOracle txid
  | NoVerdict txid
  | NotAccepted txid arc_status
  | AdoptedSpender u64 txid arc_status
  | TipRowUnreadable int ca_error
  | TipRowPanicked int

datatype reject_reason =
    BelowTip u64 u64
  | NamesNoTransaction u64 string
  | RejectedUnreadable u64 txid string
  | RejectedNotThat u64 tip_error
  | RejectedNoInputs u64 txid
  | RejectedUnreadableInput u64 txid
  | RejectedSpendsTip u64 txid string
  | StaleRejection u64 txid string
  | NotOurSentinel u64 string
  | SentinelWithTxID u64 txid string
  | FailedUnsigned u64 string
  | UTXOSpentNotRetried u64 string
  | RejectedOtherParent u64 txid
  | SafeToRetry u64 txid string

datatype reason =
    OfCell cell_reason
  | OfWalk walk_reason
  | OfSpent spent_reason
  | OfReject reject_reason

definition no_chain :: cell_chain where
  "no_chain = \<lparr>Cell = 0, TxID = '''', Vout = 0, Satoshis_of = 0, Generation = 0,
     RowHex = '''', RawTxHex = '''', LegacyBEEFHex = ''''\<rparr>"

record recovery =
  Verdict :: verdict
  Tip :: cell_chain
  Reason :: reason
  Steps :: "cell_chain list"

definition halt :: "reason \<Rightarrow> recovery" where
  "halt r = \<lparr>Verdict = VerdictHalt, Tip = no_chain, Reason = r, Steps = []\<rparr>"

definition resume :: "cell_chain \<Rightarrow> reason \<Rightarrow> recovery" where
  "resume tip r = \<lparr>Verdict = VerdictResume, Tip = tip, Reason = r, Steps = []\<rparr>"

definition halt_walk :: "cell_chain list \<Rightarrow> reason \<Rightarrow> recovery" where
  "halt_walk steps r = \<lparr>Verdict = VerdictHalt, Tip = no_chain, Reason = r, Steps = steps\<rparr>"

definition statusFailed :: string where "statusFailed = ''failed''"

definition defaultMaxWalk :: int where "defaultMaxWalk = 8"

subsection \<open>The wallet's answer about one action\<close>

definition zeroTxID :: txid where "zeroTxID = replicate 64 (CHR ''0'')"

record action_output =
  CustomInstructions :: string
  oLockingScript :: bytes
  oSatoshis :: u64

text \<open>\<open>generationOf\<close>: the JSON decoder is a parameter, giving the two optional fields.\<close>

definition generationOf :: "(string \<Rightarrow> (int option \<times> u64 option) option) \<Rightarrow> int \<Rightarrow> string \<Rightarrow> u64 option" where
  "generationOf json cell instructions =
     (if instructions = '''' then None
      else case json instructions of
             Some (Some c, Some g) \<Rightarrow> if c = cell then Some g else None
           | _ \<Rightarrow> None)"

fun first_cell_output :: "(string \<Rightarrow> (int option \<times> u64 option) option) \<Rightarrow> int \<Rightarrow> action_output list
    \<Rightarrow> (u64 \<times> action_output) option" where
  "first_cell_output json cell [] = None"
| "first_cell_output json cell (o' # os) =
     (case generationOf json cell (CustomInstructions o') of
        Some g \<Rightarrow> Some (g, o')
      | None \<Rightarrow> first_cell_output json cell os)"

definition cellActionFrom :: "(string \<Rightarrow> (int option \<times> u64 option) option) \<Rightarrow> int \<Rightarrow> txid \<Rightarrow> string
    \<Rightarrow> action_output list \<Rightarrow> cell_action" where
  "cellActionFrom json cell tid st outs =
     (let base = \<lparr>aTxID = (if tid = zeroTxID then '''' else tid), aStatus = st, aGeneration = 0,
                  HasGeneration = False, aLockingScript = [], aSatoshis = 0\<rparr> in
      case first_cell_output json cell outs of
        None \<Rightarrow> base
      | Some (g, o') \<Rightarrow> base\<lparr>aGeneration := g, HasGeneration := True,
            aLockingScript := oLockingScript o', aSatoshis := oSatoshis o'\<rparr>)"

definition cellActionPage :: int where "cellActionPage = 64"

text \<open>\<open>Chain.CellActions\<close>: the newest \<open>n\<close> actions with the cell's label, by offset from the end.
  \<open>count\<close> is the total of the first request, \<open>page\<close> the second request by limit and offset.\<close>

definition Chain_CellActions :: "(int \<Rightarrow> string + u32) \<Rightarrow> (int \<Rightarrow> u32 \<Rightarrow> u32 \<Rightarrow> string + 'a list)
    \<Rightarrow> (int \<Rightarrow> 'a \<Rightarrow> cell_action) \<Rightarrow> int \<Rightarrow> int \<Rightarrow> string + cell_action list \<times> nat" where
  "Chain_CellActions count page from cell n =
     (let n = (if n \<le> 0 \<or> n > cellActionPage then cellActionPage else n) in
      case count cell of
        Inl e \<Rightarrow> Inl e
      | Inr m \<Rightarrow>
         (let tot = uint m in
          if tot = 0 then Inr ([], 0)
          else case page cell (word_of_int (min n tot)) (word_of_int (max (tot - n) 0)) of
                 Inl e \<Rightarrow> Inl e
               | Inr as \<Rightarrow> Inr (map (from cell) as, nat tot)))"

text \<open>\<open>Chain.RawTx\<close>: the wallet's copy if it has one, arcade's otherwise, never silence.  The wallet
  provider is optional.\<close>

datatype raw_error =
    WalletReadFailed string
  | ArcadeLookupFailed string
  | NobodyHasBytes

definition Chain_RawTx :: "(txid \<Rightarrow> string + bytes option) option \<Rightarrow> (txid \<Rightarrow> string + bytes option)
    \<Rightarrow> txid \<Rightarrow> raw_error + bytes" where
  "Chain_RawTx provider oracle tid =
     (let ask = (case oracle tid of
                   Inl e \<Rightarrow> Inl (ArcadeLookupFailed e)
                 | Inr None \<Rightarrow> Inl NobodyHasBytes
                 | Inr (Some raw) \<Rightarrow> if raw = [] then Inl NobodyHasBytes else Inr raw) in
      case provider of
        None \<Rightarrow> ask
      | Some p \<Rightarrow>
         (case p tid of
            Inl e \<Rightarrow> Inl (WalletReadFailed e)
          | Inr (Some raw) \<Rightarrow> if raw \<noteq> [] then Inr raw else ask
          | Inr None \<Rightarrow> ask))"

subsection \<open>Reading a rejection\<close>

definition utxoSpentMarker :: string where "utxoSpentMarker = ''utxo_spent''"

definition spentByPhrase :: string where "spentByPhrase = ''utxo already spent by tx''"

definition IsUTXOSpent :: "string \<Rightarrow> bool" where
  "IsUTXOSpent rejection = str_contains (to_lower rejection) utxoSpentMarker"

definition isHexDigit :: "char \<Rightarrow> bool" where
  "isHexDigit c = ((of_char c \<ge> (48 :: nat) \<and> of_char c \<le> (57 :: nat))
     \<or> (of_char c \<ge> (97 :: nat) \<and> of_char c \<le> (102 :: nat)))"

definition leadingTxID :: "string \<Rightarrow> txid option" where
  "leadingTxID s =
     (let n = length (takeWhile isHexDigit s) in
      if n \<noteq> 64 then None
      else if take 64 s = zeroTxID then None
      else Some (take 64 s))"

definition trim_sep :: "string \<Rightarrow> string" where
  "trim_sep = dropWhile (\<lambda>c. c = CHR '' '' \<or> c = CHR 0x09 \<or> c = CHR '':'')"

lemma str_index_shorter:
  "str_index s spentByPhrase = Some i \<Longrightarrow>
     length (trim_sep (drop (i + length spentByPhrase) s)) < length s"
proof -
  assume "str_index s spentByPhrase = Some i"
  then have p: "prefix spentByPhrase (drop i s)" by (blast dest: str_index_Some)
  then have "0 < length s" by (cases s) (auto simp: spentByPhrase_def)
  moreover have "length (trim_sep (drop (i + length spentByPhrase) s)) \<le> length s - (i + length spentByPhrase)"
    unfolding trim_sep_def by (metis length_dropWhile_le length_drop)
  moreover have "0 < length spentByPhrase" by (simp add: spentByPhrase_def)
  ultimately show ?thesis by linarith
qed

text \<open>The loop of \<open>SpentBy\<close>: the outer option is the verdict, the inner one the id found so far;
  the empty string of the source is \<open>None\<close>.\<close>

function spent_loop :: "string \<Rightarrow> txid option \<Rightarrow> txid option" where
  "spent_loop rest found =
     (case str_index rest spentByPhrase of
        None \<Rightarrow> found
      | Some i \<Rightarrow>
         (let rest' = trim_sep (drop (i + length spentByPhrase) rest) in
          case leadingTxID rest' of
            None \<Rightarrow> None
          | Some tid \<Rightarrow>
             if found \<noteq> None \<and> found \<noteq> Some tid then None else spent_loop rest' (Some tid)))"
  by pat_completeness auto
termination
  by (relation "measure (\<lambda>(rest, found). length rest)") (auto dest: str_index_shorter)

declare spent_loop.simps [simp del]

definition SpentBy :: "string \<Rightarrow> txid option" where
  "SpentBy rejection =
     (let s = to_lower rejection in
      if \<not> str_contains s utxoSpentMarker then None else spent_loop s None)"

text \<open>\<open>ErrNotBroadcast\<close> as it survives into the record.\<close>

definition notBroadcastPrefix :: string where "notBroadcastPrefix = ''chain: not broadcast: ''"

definition IsNotBroadcast :: "string \<Rightarrow> bool" where
  "IsNotBroadcast recorded = prefix notBroadcastPrefix recorded"

subsection \<open>The network's verdicts\<close>

definition acceptedByNetwork :: "arc_status \<Rightarrow> bool" where
  "acceptedByNetwork s = (s \<in> {ArcAcceptedByNetwork, ArcSeenOnNetwork, ArcSeenMultipleNodes, ArcMined, ArcImmutable})"

definition RefusedByNetwork :: "arc_status \<Rightarrow> bool" where
  "RefusedByNetwork s = (s = ArcRejected \<or> s = ArcDoubleSpendAttempted)"

subsection \<open>Walking the wallet's chain forward\<close>

definition newestCellAction :: "cell_action list \<Rightarrow> cell_action option" where
  "newestCellAction as = fold (\<lambda>a newest.
      if \<not> HasGeneration a then newest
      else case newest of
             None \<Rightarrow> Some a
           | Some b \<Rightarrow> if aGeneration a > aGeneration b then Some a else newest) as None"

definition by_generation :: "cell_action list \<Rightarrow> u64 \<Rightarrow> cell_action option" where
  "by_generation as = fold (\<lambda>a m. if HasGeneration a then m(aGeneration a \<mapsto> a) else m) as (\<lambda>_. None)"

text \<open>The check of the wallet's own record of an output against the derived tip; \<open>True\<close> for
  agreement.\<close>

definition agreesWithWallet :: "compiled \<Rightarrow> cell_action \<Rightarrow> cell_chain \<Rightarrow> int \<Rightarrow> bool" where
  "agreesWithWallet c a tip n =
     (if aSatoshis a \<noteq> Satoshis_of tip then False
      else if aLockingScript a = [] then True
      else case Row tip n of
             Inl e \<Rightarrow> False
           | Inr row \<Rightarrow>
              (case LockingScript c (Cell tip) row of
                 Inl e \<Rightarrow> False
               | Inr want \<Rightarrow> aLockingScript a = want))"

definition resumeAfter :: "cell_chain \<Rightarrow> cell_chain list \<Rightarrow> reason \<Rightarrow> recovery" where
  "resumeAfter tip steps r = \<lparr>Verdict = (if steps = [] then VerdictResume else VerdictAdopt),
     Tip = tip, Reason = r, Steps = steps\<rparr>"

text \<open>
  The loop \<open>for gen := tip.Generation + 1; gen <= newestGen; gen++\<close>.  Every turn that goes on has
  appended a step, and a turn that finds \<open>maxWalk\<close> steps stops, so the loop ends even where the
  64-bit counter would wrap.
\<close>

function walk_loop :: "tx_codec \<Rightarrow> ledger \<Rightarrow> compiled \<Rightarrow> cell_chain \<Rightarrow> (u64 \<Rightarrow> cell_action option) \<Rightarrow> u64
    \<Rightarrow> int \<Rightarrow> rule \<Rightarrow> int \<Rightarrow> u64 \<Rightarrow> cell_chain \<Rightarrow> cell_chain list \<Rightarrow> recovery" where
  "walk_loop K l c tip byGen newestGen n rule maxWalk gen current steps =
     (if \<not> gen \<le> newestGen then
        (if steps = [] then halt (OfWalk (NothingToAdopt newestGen (Generation tip)))
         else \<lparr>Verdict = VerdictAdopt, Tip = current,
                Reason = OfWalk (AdoptedWalk (length steps) (Generation tip) (Generation current) (TxID current)),
                Steps = steps\<rparr>)
      else if int (length steps) \<ge> maxWalk then halt_walk steps (OfWalk (WalkTooLong newestGen (Generation tip)))
      else case byGen gen of
             None \<Rightarrow> halt_walk steps (OfWalk (WalkGap newestGen gen))
           | Some a \<Rightarrow>
              if aTxID a = '''' then resumeAfter current steps (OfWalk (WalkUnsigned gen))
              else if aStatus a = statusFailed then halt_walk steps (OfWalk (WalkRejected gen (aTxID a)))
              else case RawTx l (aTxID a) of
                     Inl e \<Rightarrow> halt_walk steps (OfWalk (WalkUnreadable gen (aTxID a) e))
                   | Inr raw \<Rightarrow>
                      (case VerifySuccessor K c current n rule (aTxID a) raw of
                         Inl e \<Rightarrow> halt_walk steps (OfWalk (WalkUnverified gen (aTxID a) e))
                       | Inr nxt \<Rightarrow>
                          if \<not> agreesWithWallet c a nxt n then halt_walk steps (OfWalk (WalletDisagrees gen (aTxID a)))
                          else walk_loop K l c tip byGen newestGen n rule maxWalk (gen + 1) nxt (steps @ [nxt])))"
  by pat_completeness auto
termination
  by (relation "measure (\<lambda>(K, l, c, tip, m, ng, n, r, maxWalk, gen, cur, steps). nat (maxWalk - int (length steps)))") auto

declare walk_loop.simps [simp del]

definition walkForward :: "tx_codec \<Rightarrow> ledger \<Rightarrow> compiled \<Rightarrow> cell_chain \<Rightarrow> cell_action list \<Rightarrow> u64 \<Rightarrow> int \<Rightarrow> rule
    \<Rightarrow> int \<Rightarrow> recovery" where
  "walkForward K l c tip as newestGen n rule maxWalk =
     walk_loop K l c tip (by_generation as) newestGen n rule maxWalk (Generation tip + 1) tip []"

definition RecoverCell :: "tx_codec \<Rightarrow> ledger \<Rightarrow> compiled \<Rightarrow> cell_chain \<Rightarrow> u64 \<Rightarrow> int \<Rightarrow> rule \<Rightarrow> int \<Rightarrow> recovery" where
  "RecoverCell K l c tip attempted n rule maxWalk =
     (if attempted \<noteq> Generation tip + 1 then halt (OfCell (NotAdjacent attempted (Generation tip)))
      else let maxWalk = (if maxWalk \<le> 0 then defaultMaxWalk else maxWalk) in
        case CellActions l (Cell tip) maxWalk of
          Inl e \<Rightarrow> halt (OfCell (ActionsUnreadable e))
        | Inr (as, tot) \<Rightarrow>
           if tot = 0 then
             (if Generation tip > 0 then halt (OfCell (WrongWallet (Generation tip)))
              else resume tip (OfCell (NeverCreated (Generation tip))))
           else case newestCellAction as of
                  None \<Rightarrow> halt (OfCell (NoReadableGeneration tot))
                | Some a \<Rightarrow>
                   if aGeneration a < attempted
                   then resume tip (OfCell (AttemptProducedNothing (aGeneration a) attempted (Generation tip)))
                   else if aGeneration a = attempted \<and> aTxID a = ''''
                   then resume tip (OfCell (NeverSigned attempted))
                   else walkForward K l c tip as (aGeneration a) n rule maxWalk)"

subsection \<open>A tip somebody already spent\<close>

definition RecoverSpentTip :: "tx_codec \<Rightarrow> ledger \<Rightarrow> tx_status option \<Rightarrow> compiled \<Rightarrow> cell_chain \<Rightarrow> string \<Rightarrow> row
    \<Rightarrow> on_record \<Rightarrow> recovery" where
  "RecoverSpentTip K l oracle c tip rejection nxt onRecord =
     (let gen = Generation tip + 1 in
      case SpentBy rejection of
        None \<Rightarrow> halt (OfSpent (NotSpentRejection gen rejection))
      | Some tid \<Rightarrow>
      (case onRecord tid of
        Inl e \<Rightarrow> halt (OfSpent (RecordUnsearchable gen tid e))
      | Inr True \<Rightarrow> halt (OfSpent (AlreadyOnRecord gen tid))
      | Inr False \<Rightarrow>
      (case RawTx l tid of
        Inl e \<Rightarrow> halt (OfSpent (CandidateUnreadable tid e))
      | Inr raw \<Rightarrow>
      (case parseTip K (Cell tip) tid raw of
        Inl e \<Rightarrow> halt (OfSpent (CandidateNotThat e))
      | Inr t \<Rightarrow>
      if \<not> spends_tip tip t then halt (OfSpent (CandidateOtherInput tid))
      else case DeriveTip K c (Cell tip) gen nxt tid raw of
        Inl e \<Rightarrow> halt (OfSpent (CandidateOtherCovenant tid e))
      | Inr adopted \<Rightarrow>
      if Satoshis_of adopted \<noteq> Satoshis_of tip
      then halt (OfSpent (CandidateValue tid (Satoshis_of adopted) (Satoshis_of tip)))
      else case oracle of
        None \<Rightarrow> halt (OfSpent (NoOracle tid))
      | Some ask \<Rightarrow>
      (case ask tid of
        Inl e \<Rightarrow> halt (OfSpent (NoVerdict tid))
      | Inr None \<Rightarrow> halt (OfSpent (NoVerdict tid))
      | Inr (Some rec) \<Rightarrow>
         if \<not> acceptedByNetwork (recStatus rec) then halt (OfSpent (NotAccepted tid (recStatus rec)))
         else \<lparr>Verdict = VerdictAdopt, Tip = adopted, Reason = OfSpent (AdoptedSpender gen tid (recStatus rec)),
                Steps = [adopted]\<rparr>)))))"

subsection \<open>A rejection about another parent\<close>

fun stale_inputs :: "cell_chain \<Rightarrow> u64 \<Rightarrow> txid \<Rightarrow> string \<Rightarrow> tx_input list \<Rightarrow> reason option" where
  "stale_inputs tip rejected tid rejection [] = None"
| "stale_inputs tip rejected tid rejection (i # is) =
     (if SourceTXID i = None then Some (OfReject (RejectedUnreadableInput rejected tid))
      else if input_spends tip i then Some (OfReject (RejectedSpendsTip rejected tid rejection))
      else stale_inputs tip rejected tid rejection is)"

definition RecoverStaleRejection :: "tx_codec \<Rightarrow> ledger \<Rightarrow> cell_chain \<Rightarrow> u64 \<Rightarrow> txid \<Rightarrow> string \<Rightarrow> recovery" where
  "RecoverStaleRejection K l tip rejected rejectedTxID rejection =
     (if rejected \<le> Generation tip then halt (OfReject (BelowTip rejected (Generation tip)))
      else if rejectedTxID = '''' then halt (OfReject (NamesNoTransaction rejected rejection))
      else case RawTx l rejectedTxID of
             Inl e \<Rightarrow> halt (OfReject (RejectedUnreadable rejected rejectedTxID e))
           | Inr raw \<Rightarrow>
              (case parseTip K (Cell tip) rejectedTxID raw of
                 Inl e \<Rightarrow> halt (OfReject (RejectedNotThat rejected e))
               | Inr t \<Rightarrow>
                  if length (Inputs t) = 0 then halt (OfReject (RejectedNoInputs rejected rejectedTxID))
                  else case stale_inputs tip rejected rejectedTxID rejection (Inputs t) of
                         Some r \<Rightarrow> halt r
                       | None \<Rightarrow> resume tip (OfReject (StaleRejection rejected rejectedTxID rejection))))"

definition RecoverNotBroadcast :: "cell_chain \<Rightarrow> u64 \<Rightarrow> txid \<Rightarrow> string \<Rightarrow> recovery" where
  "RecoverNotBroadcast tip failed failedTxID recorded =
     (if failed \<le> Generation tip then halt (OfReject (BelowTip failed (Generation tip)))
      else if \<not> IsNotBroadcast recorded then halt (OfReject (NotOurSentinel failed recorded))
      else if failedTxID \<noteq> '''' then halt (OfReject (SentinelWithTxID failed failedTxID recorded))
      else resume tip (OfReject (FailedUnsigned failed recorded)))"

definition RetryRefusal :: "tx_codec \<Rightarrow> ledger \<Rightarrow> cell_chain \<Rightarrow> u64 \<Rightarrow> txid \<Rightarrow> string \<Rightarrow> recovery" where
  "RetryRefusal K l tip rejected rejectedTxID rejection =
     (if rejected \<noteq> Generation tip + 1 then halt (OfCell (NotAdjacent rejected (Generation tip)))
      else if IsUTXOSpent rejection then halt (OfReject (UTXOSpentNotRetried rejected rejection))
      else if rejectedTxID = '''' then halt (OfReject (NamesNoTransaction rejected rejection))
      else case RawTx l rejectedTxID of
             Inl e \<Rightarrow> halt (OfReject (RejectedUnreadable rejected rejectedTxID e))
           | Inr raw \<Rightarrow>
              (case parseTip K (Cell tip) rejectedTxID raw of
                 Inl e \<Rightarrow> halt (OfReject (RejectedNotThat rejected e))
               | Inr t \<Rightarrow>
                  if \<not> spends_tip tip t then halt (OfReject (RejectedOtherParent rejected rejectedTxID))
                  else resume tip (OfReject (SafeToRetry rejected rejectedTxID rejection))))"

subsection \<open>Which transaction a rejection names\<close>

lemma phrase_u: "spentByPhrase = CHR ''u'' # tl spentByPhrase" "CHR ''u'' \<notin> set (tl spentByPhrase)"
  by (simp_all add: spentByPhrase_def)

text \<open>The phrase begins with its only \<open>u\<close>, so two occurrences never overlap and no occurrence is lost
  by trimming separators.\<close>

lemma trim_sep_occurrence:
  assumes "b = a' @ spentByPhrase @ b'"
  shows "\<exists>a''. trim_sep b = a'' @ spentByPhrase @ b'"
proof -
  have "\<exists>a''. dropWhile P (a' @ spentByPhrase @ b') = a'' @ spentByPhrase @ b'"
    if "\<not> P (CHR ''u'')" for P
  proof (induction a')
    case Nil
    then show ?case using that phrase_u(1) by (metis append_Cons append_Nil dropWhile.simps(2))
  next
    case (Cons c a')
    then show ?case by (cases "P c") (auto intro: exI [of _ "c # a'"])
  qed
  then show ?thesis unfolding assms trim_sep_def by simp
qed

lemma trim_sep_suffix: "\<exists>w. b = w @ trim_sep b"
  unfolding trim_sep_def by (metis takeWhile_dropWhile_id)

lemma str_index_least:
  "str_index s needle = Some i \<Longrightarrow> s = a @ needle @ b \<Longrightarrow> i \<le> length a"
proof (induction s arbitrary: i a)
  case Nil
  then show ?case by (auto split: if_splits)
next
  case (Cons c s)
  show ?case
  proof (cases "prefix needle (c # s)")
    case True
    with Cons.prems(1) show ?thesis by simp
  next
    case False
    with Cons.prems(2) obtain a' where a: "a = c # a'" "s = a' @ needle @ b"
      by (cases a) (auto simp: prefix_def)
    from False Cons.prems(1) obtain j where "str_index s needle = Some j" "i = Suc j" by auto
    with Cons.IH a show ?thesis by auto
  qed
qed

lemma later_occurrence:
  assumes "s = a @ spentByPhrase @ b" "s = a0 @ spentByPhrase @ b0" "length a0 \<le> length a"
  shows "a = a0 \<or> (\<exists>w. b0 = w @ spentByPhrase @ b)"
proof -
  have "take (length a0) s = a0" using assms(2) by simp
  moreover have "take (length a0) s = take (length a0) a" using assms(1,3) by simp
  ultimately obtain w where a: "a = a0 @ w" by (metis append_take_drop_id)
  then have "a0 @ (w @ spentByPhrase @ b) = a0 @ (spentByPhrase @ b0)"
    using assms(1,2) by (metis append_assoc)
  then have w: "a = a0 @ w" "spentByPhrase @ b0 = w @ spentByPhrase @ b" using a by simp_all
  show ?thesis
  proof (cases w)
    case Nil
    then show ?thesis using w by simp
  next
    case (Cons x v)
    have "length spentByPhrase \<le> length w"
    proof (rule ccontr)
      assume "\<not> length spentByPhrase \<le> length w"
      then have lt: "length w < length spentByPhrase" by simp
      have "(spentByPhrase @ b0) ! length w = (w @ spentByPhrase @ b) ! length w" using w(2) by simp
      then have "spentByPhrase ! length w = CHR ''u''"
        using lt phrase_u(1) by (metis append_Cons nth_append nth_append_length)
      moreover have "spentByPhrase ! length w = tl spentByPhrase ! length v"
        using phrase_u(1) Cons by (metis length_Cons nth_Cons_Suc)
      moreover have "length v < length (tl spentByPhrase)" using lt Cons by simp
      ultimately show False using phrase_u(2) by (metis nth_mem)
    qed
    then obtain w' where "w = spentByPhrase @ w'"
      using w(2) by (metis append_eq_append_conv_if append_take_drop_id)
    then show ?thesis using w(2) by simp
  qed
qed

definition names :: "string \<Rightarrow> txid \<Rightarrow> bool" where
  "names s tid \<longleftrightarrow> (\<exists>a b. s = a @ spentByPhrase @ b \<and> leadingTxID (trim_sep b) = Some tid)"

definition unreadable :: "string \<Rightarrow> bool" where
  "unreadable s \<longleftrightarrow> (\<exists>a b. s = a @ spentByPhrase @ b \<and> leadingTxID (trim_sep b) = None)"

lemma occurrence_split:
  assumes "str_index s spentByPhrase = Some i"
  defines "b0 \<equiv> drop (i + length spentByPhrase) s"
  shows "s = take i s @ spentByPhrase @ b0"
    and "(\<exists>a b. s = a @ spentByPhrase @ b \<and> Q (trim_sep b)) \<longleftrightarrow>
         Q (trim_sep b0) \<or> (\<exists>a b. trim_sep b0 = a @ spentByPhrase @ b \<and> Q (trim_sep b))"
proof -
  have p: "prefix spentByPhrase (drop i s)" using str_index_Some [OF assms(1)] by simp
  then obtain r where "drop i s = spentByPhrase @ r" by (auto simp: prefix_def)
  moreover from this have "b0 = r" unfolding b0_def by (metis append_eq_conv_conj drop_drop add.commute)
  ultimately show s: "s = take i s @ spentByPhrase @ b0" by (metis append_take_drop_id)
  have i: "length (take i s) = i" using str_index_Some [OF assms(1)] by simp
  show "(\<exists>a b. s = a @ spentByPhrase @ b \<and> Q (trim_sep b)) \<longleftrightarrow>
         Q (trim_sep b0) \<or> (\<exists>a b. trim_sep b0 = a @ spentByPhrase @ b \<and> Q (trim_sep b))"
  proof
    assume "\<exists>a b. s = a @ spentByPhrase @ b \<and> Q (trim_sep b)"
    then obtain a b where ab: "s = a @ spentByPhrase @ b" "Q (trim_sep b)" by blast
    have "length (take i s) \<le> length a" using str_index_least [OF assms(1) ab(1)] i by simp
    then consider "a = take i s" | w where "b0 = w @ spentByPhrase @ b"
      using later_occurrence [OF ab(1) s] by blast
    then show "Q (trim_sep b0) \<or> (\<exists>a b. trim_sep b0 = a @ spentByPhrase @ b \<and> Q (trim_sep b))"
    proof cases
      case 1
      then have "b = b0" using ab(1) s by (metis append_same_eq same_append_eq)
      with ab show ?thesis by simp
    next
      case 2
      with ab(2) show ?thesis using trim_sep_occurrence by blast
    qed
  next
    assume "Q (trim_sep b0) \<or> (\<exists>a b. trim_sep b0 = a @ spentByPhrase @ b \<and> Q (trim_sep b))"
    then show "\<exists>a b. s = a @ spentByPhrase @ b \<and> Q (trim_sep b)"
    proof
      assume "\<exists>a b. trim_sep b0 = a @ spentByPhrase @ b \<and> Q (trim_sep b)"
      then obtain a b where "trim_sep b0 = a @ spentByPhrase @ b" "Q (trim_sep b)" by blast
      moreover obtain w where "b0 = w @ trim_sep b0" using trim_sep_suffix by blast
      ultimately have "s = (take i s @ spentByPhrase @ w @ a) @ spentByPhrase @ b" using s by simp
      with \<open>Q (trim_sep b)\<close> show ?thesis by blast
    qed (use s in blast)
  qed
qed

lemma spent_loop_exact:
  "spent_loop s found = Some tid \<longleftrightarrow>
     \<not> unreadable s \<and> (\<forall>t. names s t \<longrightarrow> t = tid)
     \<and> (case found of None \<Rightarrow> names s tid | Some f \<Rightarrow> f = tid)"
proof (induction s found rule: spent_loop.induct)
  case (1 s found)
  show ?case
  proof (cases "str_index s spentByPhrase")
    case None
    have "\<not> (\<exists>a b. s = a @ spentByPhrase @ b)"
      using None str_contains_iff [of s spentByPhrase] by (simp add: str_contains_def)
    then show ?thesis using None
      by (auto simp: spent_loop.simps [of s found] names_def unreadable_def split: option.split)
  next
    case (Some i)
    define b0 where "b0 = drop (i + length spentByPhrase) s"
    have nm: "names s t \<longleftrightarrow> leadingTxID (trim_sep b0) = Some t \<or> names (trim_sep b0) t" for t
      using occurrence_split(2) [OF Some, of "\<lambda>x. leadingTxID x = Some t"] by (simp add: names_def b0_def)
    have un: "unreadable s \<longleftrightarrow> leadingTxID (trim_sep b0) = None \<or> unreadable (trim_sep b0)"
      using occurrence_split(2) [OF Some, of "\<lambda>x. leadingTxID x = None"] by (simp add: unreadable_def b0_def)
    show ?thesis
    proof (cases "leadingTxID (trim_sep b0)")
      case None
      then show ?thesis using Some un by (simp add: spent_loop.simps [of s found] b0_def)
    next
      case (Some t)
      have step: "spent_loop s found = (if found \<noteq> None \<and> found \<noteq> Some t then None
          else spent_loop (trim_sep b0) (Some t))"
        using \<open>str_index s spentByPhrase = Some i\<close> Some by (simp add: spent_loop.simps [of s found] b0_def)
      have IH: "spent_loop (trim_sep b0) (Some t) = Some tid \<longleftrightarrow> \<not> unreadable (trim_sep b0)
          \<and> (\<forall>t'. names (trim_sep b0) t' \<longrightarrow> t' = tid) \<and> t = tid"
        if "\<not> (found \<noteq> None \<and> found \<noteq> Some t)"
        using "1.IH" [OF \<open>str_index s spentByPhrase = Some i\<close> refl, of t] Some that by (simp add: b0_def)
      show ?thesis
      proof (cases "found \<noteq> None \<and> found \<noteq> Some t")
        case True
        then obtain f where "found = Some f" "f \<noteq> t" by auto
        moreover have "names s t" using nm Some by simp
        moreover have "spent_loop s found = None" using step True by simp
        ultimately show ?thesis by auto
      next
        case False
        then have "found = None \<or> found = Some t" by auto
        then show ?thesis using False IH [OF False] Some by (auto simp: step nm un)
      qed
    qed
  qed
qed

text \<open>A rejection names a transaction exactly when it carries the spent marker and the naming
  phrase occurs, and every occurrence of the phrase is followed, after separators, by the same
  well-formed id.  One unreadable occurrence, or two different ids, name nothing.\<close>

theorem spent_by_exact:
  "SpentBy rejection = Some tid \<longleftrightarrow>
     IsUTXOSpent rejection
     \<and> {leadingTxID (trim_sep b) | a b. to_lower rejection = a @ spentByPhrase @ b} = {Some tid}"
proof -
  let ?s = "to_lower rejection"
  have "spent_loop ?s None = Some tid \<longleftrightarrow>
      \<not> unreadable ?s \<and> (\<forall>t. names ?s t \<longrightarrow> t = tid) \<and> names ?s tid"
    by (simp add: spent_loop_exact)
  also have "\<dots> \<longleftrightarrow> {leadingTxID (trim_sep b) | a b. ?s = a @ spentByPhrase @ b} = {Some tid}"
  proof
    assume l: "\<not> unreadable ?s \<and> (\<forall>t. names ?s t \<longrightarrow> t = tid) \<and> names ?s tid"
    have all: "leadingTxID (trim_sep b) = Some tid" if occ: "?s = a @ spentByPhrase @ b" for a b
    proof (cases "leadingTxID (trim_sep b)")
      case None
      with occ have "unreadable ?s" unfolding unreadable_def by blast
      with l show ?thesis by blast
    next
      case (Some t)
      with occ have "names ?s t" unfolding names_def by blast
      with l Some show ?thesis by blast
    qed
    obtain a b where ab: "?s = a @ spentByPhrase @ b" using l unfolding names_def by blast
    have "x = Some tid" if x: "x \<in> {leadingTxID (trim_sep b) | a b. ?s = a @ spentByPhrase @ b}" for x
    proof -
      obtain a' b' where "x = leadingTxID (trim_sep b')" "?s = a' @ spentByPhrase @ b'"
        using x by blast
      then show ?thesis using all by simp
    qed
    moreover have "Some tid \<in> {leadingTxID (trim_sep b) | a b. ?s = a @ spentByPhrase @ b}"
      using all [OF ab, symmetric] ab by blast
    ultimately show "{leadingTxID (trim_sep b) | a b. ?s = a @ spentByPhrase @ b} = {Some tid}"
      by blast
  next
    assume r: "{leadingTxID (trim_sep b) | a b. ?s = a @ spentByPhrase @ b} = {Some tid}"
    then have all: "leadingTxID (trim_sep b) = Some tid" if "?s = a @ spentByPhrase @ b" for a b
      using that by blast
    obtain a b where ab: "?s = a @ spentByPhrase @ b" using r by blast
    have "\<not> unreadable ?s" unfolding unreadable_def using all by force
    moreover have "names ?s t \<Longrightarrow> t = tid" for t unfolding names_def using all by force
    moreover have "names ?s tid" unfolding names_def using all [OF ab] ab by blast
    ultimately show "\<not> unreadable ?s \<and> (\<forall>t. names ?s t \<longrightarrow> t = tid) \<and> names ?s tid"
      by blast
  qed
  finally have loop: "spent_loop ?s None = Some tid \<longleftrightarrow>
     {leadingTxID (trim_sep b) | a b. ?s = a @ spentByPhrase @ b} = {Some tid}" .
  have "SpentBy rejection = Some tid \<longleftrightarrow> IsUTXOSpent rejection \<and> spent_loop ?s None = Some tid"
    by (simp add: SpentBy_def IsUTXOSpent_def Let_def)
  then show ?thesis unfolding loop .
qed

lemma leadingTxID_Some:
  "leadingTxID s = Some tid \<Longrightarrow> length tid = 64 \<and> list_all isHexDigit tid \<and> tid \<noteq> zeroTxID \<and> prefix tid s"
proof -
  assume l: "leadingTxID s = Some tid"
  then have n: "length (takeWhile isHexDigit s) = 64" and t: "tid = take 64 s" "tid \<noteq> zeroTxID"
    by (auto simp: leadingTxID_def Let_def split: if_splits)
  have tw: "tid = takeWhile isHexDigit s" using n t(1) by (metis takeWhile_eq_take)
  have "list_all isHexDigit tid" unfolding tw list_all_iff by (blast dest: set_takeWhileD)
  moreover have "length tid = 64" using n tw by simp
  moreover have "prefix tid s" unfolding t(1) by (rule take_is_prefix)
  ultimately show ?thesis using t(2) by blast
qed

subsection \<open>What every decision keeps\<close>

lemma verdict_simps [simp, verdict_simps]:
  "Verdict (halt r) = VerdictHalt" "Tip (halt r) = no_chain" "Steps (halt r) = []" "Reason (halt r) = r"
  "Verdict (resume tip r) = VerdictResume" "Tip (resume tip r) = tip" "Steps (resume tip r) = []"
  "Reason (resume tip r) = r"
  "Verdict (halt_walk ss r) = VerdictHalt" "Tip (halt_walk ss r) = no_chain"
  "Steps (halt_walk ss r) = ss" "Reason (halt_walk ss r) = r"
  "Verdict (resumeAfter tip ss r) = (if ss = [] then VerdictResume else VerdictAdopt)"
  "Tip (resumeAfter tip ss r) = tip" "Steps (resumeAfter tip ss r) = ss" "Reason (resumeAfter tip ss r) = r"
  by (simp_all add: halt_def resume_def halt_walk_def resumeAfter_def)

text \<open>
  The contract between a recovery decision and its caller: a resume leaves the tip it was given, an
  adoption moves it along the steps it verified, the cell and its value stay, and the generation
  counts the steps.
\<close>

locale recovery_decision =
  fixes decide :: "cell_chain \<Rightarrow> 'e \<Rightarrow> recovery"
  assumes resume_keeps: "Verdict (decide tip e) = VerdictResume \<Longrightarrow> Tip (decide tip e) = tip \<and> Steps (decide tip e) = []"
    and adopt_steps: "Verdict (decide tip e) = VerdictAdopt \<Longrightarrow>
          Steps (decide tip e) \<noteq> [] \<and> Tip (decide tip e) = last (Steps (decide tip e))"
    and adopt_keeps: "Verdict (decide tip e) = VerdictAdopt \<Longrightarrow> Cell (Tip (decide tip e)) = Cell tip
          \<and> Satoshis_of (Tip (decide tip e)) = Satoshis_of tip
          \<and> Generation (Tip (decide tip e)) = Generation tip + of_nat (length (Steps (decide tip e)))"
begin

definition settled_tip :: "cell_chain \<Rightarrow> 'e \<Rightarrow> cell_chain" where
  "settled_tip tip e = (if Verdict (decide tip e) = VerdictHalt then tip else Tip (decide tip e))"

lemma settled_cell: "Cell (settled_tip tip e) = Cell tip"
  using adopt_keeps [of tip e] resume_keeps [of tip e]
  by (cases "Verdict (decide tip e)") (auto simp: settled_tip_def)

lemma settled_value: "Satoshis_of (settled_tip tip e) = Satoshis_of tip"
  using adopt_keeps [of tip e] resume_keeps [of tip e]
  by (cases "Verdict (decide tip e)") (auto simp: settled_tip_def)

lemma settled_generation:
  "Verdict (decide tip e) \<noteq> VerdictHalt \<Longrightarrow>
   Generation (settled_tip tip e) = Generation tip + of_nat (length (Steps (decide tip e)))"
  using adopt_keeps [of tip e] resume_keeps [of tip e]
  by (cases "Verdict (decide tip e)") (auto simp: settled_tip_def)

lemma moved_only_by_adoption: "settled_tip tip e \<noteq> tip \<Longrightarrow> Verdict (decide tip e) = VerdictAdopt"
  using resume_keeps [of tip e] by (cases "Verdict (decide tip e)") (auto simp: settled_tip_def)

end

subsection \<open>The walk\<close>

text \<open>Each step carries its own bytes; a chain is a list of steps each verified as the successor of the
  one before.\<close>

fun chained :: "tx_codec \<Rightarrow> compiled \<Rightarrow> int \<Rightarrow> rule \<Rightarrow> cell_chain \<Rightarrow> cell_chain list \<Rightarrow> bool" where
  "chained K c n rule tip [] = True"
| "chained K c n rule tip (s # ss) =
     ((case hex_decode (RawTxHex s) of Inl _ \<Rightarrow> False
       | Inr raw \<Rightarrow> VerifySuccessor K c tip n rule (TxID s) raw = Inr s) \<and> chained K c n rule s ss)"

lemma VerifySuccessor_fields:
  assumes "VerifySuccessor K c tip n rule tid raw = Inr nx"
  shows "Cell nx = Cell tip \<and> TxID nx = tid \<and> Satoshis_of nx = Satoshis_of tip
     \<and> Generation nx = Generation tip + 1 \<and> hex_decode (RawTxHex nx) = Inr raw"
  using assms unfolding VerifySuccessor_Inr by (auto simp: hex_decode_encode)

lemma chained_snoc:
  "chained K c n rule tip (ss @ [s]) \<longleftrightarrow>
     chained K c n rule tip ss \<and> chained K c n rule (if ss = [] then tip else last ss) [s]"
  by (induction ss arbitrary: tip) auto

lemma chained_fields:
  "chained K c n rule tip ss \<Longrightarrow> ss \<noteq> [] \<Longrightarrow>
     Cell (last ss) = Cell tip \<and> Satoshis_of (last ss) = Satoshis_of tip
     \<and> Generation (last ss) = Generation tip + of_nat (length ss)"
proof (induction ss arbitrary: tip)
  case (Cons s ss)
  have "Cell s = Cell tip \<and> Satoshis_of s = Satoshis_of tip \<and> Generation s = Generation tip + 1"
    using Cons.prems(1) VerifySuccessor_fields by (auto split: sum.splits)
  with Cons show ?case by (cases "ss = []") (auto simp: algebra_simps)
qed simp

definition walk_ok :: "tx_codec \<Rightarrow> compiled \<Rightarrow> int \<Rightarrow> rule \<Rightarrow> cell_chain \<Rightarrow> int \<Rightarrow> recovery \<Rightarrow> bool" where
  "walk_ok K c n rule tip maxWalk r = (chained K c n rule tip (Steps r) \<and> int (length (Steps r)) \<le> maxWalk
     \<and> (Verdict r = VerdictResume \<longrightarrow> Tip r = tip \<and> Steps r = [])
     \<and> (Verdict r = VerdictAdopt \<longrightarrow> Steps r \<noteq> [] \<and> Tip r = last (Steps r)))"

lemma walk_loop_ok:
  "chained K c n rule tip steps \<Longrightarrow> current = (if steps = [] then tip else last steps) \<Longrightarrow>
   int (length steps) \<le> maxWalk \<Longrightarrow>
   walk_ok K c n rule tip maxWalk (walk_loop K l c tip byGen newestGen n rule maxWalk gen current steps)"
proof (induction K l c tip byGen newestGen n rule maxWalk gen current steps rule: walk_loop.induct)
  case (1 K l c tip byGen newestGen n rule maxWalk gen current steps)
  show ?case
  proof (cases "\<exists>a raw nxt. gen \<le> newestGen \<and> int (length steps) < maxWalk \<and> byGen gen = Some a \<and> aTxID a \<noteq> ''''
      \<and> aStatus a \<noteq> statusFailed \<and> RawTx l (aTxID a) = Inr raw
      \<and> VerifySuccessor K c current n rule (aTxID a) raw = Inr nxt \<and> agreesWithWallet c a nxt n")
    case True
    then obtain a raw nxt where t: "gen \<le> newestGen" "int (length steps) < maxWalk" "byGen gen = Some a"
      "aTxID a \<noteq> ''''" "aStatus a \<noteq> statusFailed" "RawTx l (aTxID a) = Inr raw"
      "VerifySuccessor K c current n rule (aTxID a) raw = Inr nxt" "agreesWithWallet c a nxt n"
      by blast
    have step: "walk_loop K l c tip byGen newestGen n rule maxWalk gen current steps
        = walk_loop K l c tip byGen newestGen n rule maxWalk (gen + 1) nxt (steps @ [nxt])"
      using t by (simp add: walk_loop.simps [of K l c tip byGen newestGen n rule maxWalk gen])
    have "chained K c n rule tip (steps @ [nxt])"
      using "1.prems"(1,2) t(7) VerifySuccessor_fields [OF t(7)] by (simp add: chained_snoc)
    then show ?thesis
      unfolding step using "1.IH" [of a raw nxt] t by simp
  next
    case False
    then show ?thesis
      using "1.prems" unfolding walk_loop.simps [of K l c tip byGen newestGen n rule maxWalk gen]
      by (auto simp: walk_ok_def chained.simps(1) split: option.split sum.split)
  qed
qed

lemma walk_forward_ok:
  "0 \<le> maxWalk \<Longrightarrow> walk_ok K c n rule tip maxWalk (walkForward K l c tip as newestGen n rule maxWalk)"
  unfolding walkForward_def by (rule walk_loop_ok) auto

definition walk_bound :: "int \<Rightarrow> int" where
  "walk_bound maxWalk = (if maxWalk \<le> 0 then defaultMaxWalk else maxWalk)"

lemma recover_cell_ok:
  "walk_ok K c n rule tip (walk_bound maxWalk) (RecoverCell K l c tip attempted n rule maxWalk)"
proof -
  have b: "0 \<le> walk_bound maxWalk" by (simp add: walk_bound_def defaultMaxWalk_def)
  have h: "walk_ok K c n rule tip (walk_bound maxWalk) (halt r)" "walk_ok K c n rule tip (walk_bound maxWalk) (resume tip r)" for r
    using b by (simp_all add: walk_ok_def)
  show ?thesis
    using walk_forward_ok [OF b] h
    unfolding RecoverCell_def Let_def walk_bound_def [symmetric]
    by (auto split: sum.split option.split)
qed

interpretation cell_decision: recovery_decision
  "\<lambda>tip attempted. RecoverCell K l c tip attempted n rule maxWalk" for K l c n rule maxWalk
proof
  fix tip attempted
  let ?r = "RecoverCell K l c tip attempted n rule maxWalk"
  note ok = recover_cell_ok [of K c n rule tip maxWalk l attempted, unfolded walk_ok_def]
  show "Verdict ?r = VerdictResume \<Longrightarrow> Tip ?r = tip \<and> Steps ?r = []" using ok by simp
  show "Verdict ?r = VerdictAdopt \<Longrightarrow> Steps ?r \<noteq> [] \<and> Tip ?r = last (Steps ?r)" using ok by simp
  show "Verdict ?r = VerdictAdopt \<Longrightarrow> Cell (Tip ?r) = Cell tip
          \<and> Satoshis_of (Tip ?r) = Satoshis_of tip
          \<and> Generation (Tip ?r) = Generation tip + of_nat (length (Steps ?r))"
    using ok chained_fields [of K c n rule tip "Steps ?r"] by simp
qed

lemma spent_adopt:
  "Verdict (RecoverSpentTip K l oracle c tip rejection nxt onRecord) = VerdictAdopt \<longleftrightarrow>
     (\<exists>tid raw t adopted ask rec. SpentBy rejection = Some tid \<and> onRecord tid = Inr False
        \<and> RawTx l tid = Inr raw \<and> parseTip K (Cell tip) tid raw = Inr t \<and> spends_tip tip t
        \<and> DeriveTip K c (Cell tip) (Generation tip + 1) nxt tid raw = Inr adopted
        \<and> Satoshis_of adopted = Satoshis_of tip \<and> oracle = Some ask \<and> ask tid = Inr (Some rec)
        \<and> acceptedByNetwork (recStatus rec)
        \<and> RecoverSpentTip K l oracle c tip rejection nxt onRecord =
            \<lparr>Verdict = VerdictAdopt, Tip = adopted, Reason = OfSpent (AdoptedSpender (Generation tip + 1) tid (recStatus rec)),
             Steps = [adopted]\<rparr>)"
  (is "?L = ?R")
proof
  assume l: ?L
  note d = RecoverSpentTip_def Let_def
  from l obtain tid where 1: "SpentBy rejection = Some tid"
    by (cases "SpentBy rejection") (simp_all add: d)
  from l obtain b where b: "onRecord tid = Inr b" by (cases "onRecord tid") (simp_all add: d 1)
  with l have 2: "onRecord tid = Inr False" by (cases b) (simp_all add: d 1)
  from l obtain raw where 3: "RawTx l tid = Inr raw" by (cases "RawTx l tid") (simp_all add: d 1 2)
  from l obtain t where 4: "parseTip K (Cell tip) tid raw = Inr t"
    by (cases "parseTip K (Cell tip) tid raw") (simp_all add: d 1 2 3)
  from l have 5: "spends_tip tip t" by (cases "spends_tip tip t") (simp_all add: d 1 2 3 4)
  from l obtain adopted where 6: "DeriveTip K c (Cell tip) (Generation tip + 1) nxt tid raw = Inr adopted"
    by (cases "DeriveTip K c (Cell tip) (Generation tip + 1) nxt tid raw") (simp_all add: d 1 2 3 4 5)
  from l have 7: "Satoshis_of adopted = Satoshis_of tip"
    by (cases "Satoshis_of adopted = Satoshis_of tip") (simp_all add: d 1 2 3 4 5 6)
  from l obtain ask where 8: "oracle = Some ask"
    by (cases "oracle") (simp_all add: d 1 2 3 4 5 6 7)
  from l obtain a where a: "ask tid = Inr a" by (cases "ask tid") (simp_all add: d 1 2 3 4 5 6 7 8)
  with l obtain rec where 9: "ask tid = Inr (Some rec)" by (cases a) (simp_all add: d 1 2 3 4 5 6 7 8)
  from l have 10: "acceptedByNetwork (recStatus rec)"
    by (cases "acceptedByNetwork (recStatus rec)") (simp_all add: d 1 2 3 4 5 6 7 8 9)
  have "RecoverSpentTip K l oracle c tip rejection nxt onRecord = \<lparr>Verdict = VerdictAdopt, Tip = adopted,
      Reason = OfSpent (AdoptedSpender (Generation tip + 1) tid (recStatus rec)), Steps = [adopted]\<rparr>"
    by (simp add: d 1 2 3 4 5 6 7 8 9 10)
  with 1 2 3 4 5 6 7 8 9 10 show ?R by blast
next
  assume ?R
  then obtain adopted why where "RecoverSpentTip K l oracle c tip rejection nxt onRecord =
      \<lparr>Verdict = VerdictAdopt, Tip = adopted, Reason = why, Steps = [adopted]\<rparr>" by blast
  then show ?L by (simp only: recovery.simps)
qed

lemma spent_never_resumes:
  "Verdict (RecoverSpentTip K l oracle c tip rejection nxt onRecord) \<noteq> VerdictResume"
  unfolding RecoverSpentTip_def Let_def by (auto split: option.split sum.split bool.split)

lemma DeriveTip_fields:
  "DeriveTip K c cell gen row tid raw = Inr tip \<Longrightarrow> Cell tip = cell \<and> Generation tip = gen \<and> TxID tip = tid"
  unfolding DeriveTip_Inr by (elim exE conjE) simp

interpretation spent_decision: recovery_decision
  "\<lambda>tip (rejection, nxt). RecoverSpentTip K l orc c tip rejection nxt onRecord" for K l orc c onRecord
proof
  fix tip :: cell_chain and e :: "string \<times> row"
  obtain rejection nxt where e: "e = (rejection, nxt)" by force
  let ?r = "case e of (rejection, nxt) \<Rightarrow> RecoverSpentTip K l orc c tip rejection nxt onRecord"
  show "Verdict ?r = VerdictResume \<Longrightarrow> Tip ?r = tip \<and> Steps ?r = []"
    using spent_never_resumes by (simp add: e)
  show "Verdict ?r = VerdictAdopt \<Longrightarrow> Steps ?r \<noteq> [] \<and> Tip ?r = last (Steps ?r)"
    unfolding e prod.case spent_adopt by force
  show "Verdict ?r = VerdictAdopt \<Longrightarrow> Cell (Tip ?r) = Cell tip
          \<and> Satoshis_of (Tip ?r) = Satoshis_of tip
          \<and> Generation (Tip ?r) = Generation tip + of_nat (length (Steps ?r))"
    unfolding e prod.case spent_adopt using DeriveTip_fields by force
qed

lemma stale_inputs_None:
  "stale_inputs tip rejected tid rejection is = None \<longleftrightarrow>
     list_all (\<lambda>i. SourceTXID i \<noteq> None \<and> \<not> input_spends tip i) is"
  by (induction "is") (auto split: if_splits)

lemma stale_resume:
  "Verdict (RecoverStaleRejection K l tip rejected tid rejection) = VerdictResume \<longleftrightarrow>
     Generation tip < rejected \<and> tid \<noteq> '''' \<and> (\<exists>raw t. RawTx l tid = Inr raw
       \<and> parseTip K (Cell tip) tid raw = Inr t \<and> Inputs t \<noteq> []
       \<and> list_all (\<lambda>i. SourceTXID i \<noteq> None \<and> \<not> input_spends tip i) (Inputs t))"
  (is "?L = ?R")
proof
  show "?L \<Longrightarrow> ?R"
    unfolding RecoverStaleRejection_def stale_inputs_None [of tip rejected tid rejection, symmetric]
    by (auto split: option.splits sum.splits if_splits)
next
  assume ?R
  then show ?L
    unfolding RecoverStaleRejection_def stale_inputs_None [of tip rejected tid rejection, symmetric]
    by (elim exE conjE) simp
qed

lemma retry_resume:
  "Verdict (RetryRefusal K l tip rejected tid rejection) = VerdictResume \<longleftrightarrow>
     rejected = Generation tip + 1 \<and> \<not> IsUTXOSpent rejection \<and> tid \<noteq> '''' \<and> (\<exists>raw t. RawTx l tid = Inr raw
       \<and> parseTip K (Cell tip) tid raw = Inr t \<and> spends_tip tip t)"
  unfolding RetryRefusal_def by (auto split: option.split sum.split)

lemma rejection_tips:
  "Verdict (RecoverStaleRejection K l tip rejected tid rejection) \<noteq> VerdictAdopt"
  "Verdict (RetryRefusal K l tip rejected tid rejection) \<noteq> VerdictAdopt"
  "Verdict (RecoverNotBroadcast tip rejected tid rejection) \<noteq> VerdictAdopt"
  "Verdict (RecoverStaleRejection K l tip rejected tid rejection) = VerdictResume \<Longrightarrow>
     Tip (RecoverStaleRejection K l tip rejected tid rejection) = tip
     \<and> Steps (RecoverStaleRejection K l tip rejected tid rejection) = []"
  "Verdict (RetryRefusal K l tip rejected tid rejection) = VerdictResume \<Longrightarrow>
     Tip (RetryRefusal K l tip rejected tid rejection) = tip
     \<and> Steps (RetryRefusal K l tip rejected tid rejection) = []"
  "Verdict (RecoverNotBroadcast tip rejected tid rejection) = VerdictResume \<Longrightarrow>
     Tip (RecoverNotBroadcast tip rejected tid rejection) = tip
     \<and> Steps (RecoverNotBroadcast tip rejected tid rejection) = []"
  unfolding RecoverStaleRejection_def RetryRefusal_def RecoverNotBroadcast_def
  by (auto split: option.splits sum.splits if_splits)

interpretation stale_decision: recovery_decision
  "\<lambda>tip (rejected, tid, rejection). RecoverStaleRejection K l tip rejected tid rejection" for K l
  by unfold_locales (auto simp: rejection_tips split: prod.splits)

interpretation retry_decision: recovery_decision
  "\<lambda>tip (rejected, tid, rejection). RetryRefusal K l tip rejected tid rejection" for K l
  by unfold_locales (auto simp: rejection_tips split: prod.splits)

interpretation unsigned_decision: recovery_decision
  "\<lambda>tip (rejected, tid, rejection). RecoverNotBroadcast tip rejected tid rejection"
  by unfold_locales (auto simp: rejection_tips split: prod.splits)

subsection \<open>Properties\<close>

definition demo_ledger :: "cell_action list \<Rightarrow> ledger" where
  "demo_ledger as = \<lparr>RawTx = (\<lambda>tid. if tid = ''bb'' then Inr [2] else if tid = ''aa'' then Inr [1]
       else Inl ''unknown''), CellActions = (\<lambda>cell n. Inr (as, length as))\<rparr>"

definition demo_action :: "u64 \<Rightarrow> txid \<Rightarrow> cell_action" where
  "demo_action g tid = \<lparr>aTxID = tid, aStatus = ''completed'', aGeneration = g, HasGeneration = True,
     aLockingScript = [], aSatoshis = 1\<rparr>"

text \<open>Claim C5: an adoption by \<open>RecoverCell\<close> rests on a chain of transactions each verified, from its
  own bytes, as the successor of the one before, from the recorded tip to the adopted one; it is at
  most the walk's bound long (eight where no positive bound is given), and the adopted tip is that
  many generations on, for the same cell and value.\<close>

theorem recover_cell_adopts_chain:
  assumes "Verdict (RecoverCell K l c tip attempted n rule maxWalk) = VerdictAdopt"
  shows "let r = RecoverCell K l c tip attempted n rule maxWalk in
     attempted = Generation tip + 1 \<and> chained K c n rule tip (Steps r) \<and> Steps r \<noteq> []
     \<and> int (length (Steps r)) \<le> (if maxWalk \<le> 0 then 8 else maxWalk)
     \<and> Tip r = last (Steps r) \<and> Generation (Tip r) = Generation tip + of_nat (length (Steps r))
     \<and> Cell (Tip r) = Cell tip \<and> Satoshis_of (Tip r) = Satoshis_of tip"
proof -
  have "attempted = Generation tip + 1"
    using assms by (rule contrapos_pp) (simp add: RecoverCell_def)
  then show ?thesis
    using recover_cell_ok [of K c n rule tip maxWalk l attempted] assms
      cell_decision.adopt_keeps [OF assms] cell_decision.adopt_steps [OF assms]
    by (cases "maxWalk \<le> 0") (simp_all add: walk_ok_def walk_bound_def defaultMaxWalk_def Let_def)
qed

theorem recover_cell_adopts_chain_witness:
  "Tip (RecoverCell demo_codec (demo_ledger [demo_action 1 ''bb'']) demo_compiled (demo_tip 0) 1 8 Rule110 0)
     = demo_next \<and> chained demo_codec demo_compiled 8 Rule110 (demo_tip 0) [demo_next]"
proof -
  let ?r = "RecoverCell demo_codec (demo_ledger [demo_action 1 ''bb'']) demo_compiled (demo_tip 0) 1 8 Rule110 0"
  have v: "Verdict ?r = VerdictAdopt" and s: "Steps ?r = [demo_next]" by code_simp+
  show ?thesis using recover_cell_adopts_chain [OF v] unfolding Let_def s by simp
qed

lemma newest_spec:
  "newestCellAction as = Some a \<Longrightarrow> a \<in> set as \<and> HasGeneration a
     \<and> (\<forall>b \<in> set as. HasGeneration b \<longrightarrow> aGeneration b \<le> aGeneration a)"
proof -
  let ?f = "\<lambda>a newest. if \<not> HasGeneration a then newest else case newest of None \<Rightarrow> Some a
     | Some b \<Rightarrow> if aGeneration a > aGeneration b then Some a else newest"
  have "fold ?f as m = Some a \<Longrightarrow>
     (a \<in> set as \<and> HasGeneration a \<or> m = Some a)
     \<and> (\<forall>b \<in> set as. HasGeneration b \<longrightarrow> aGeneration b \<le> aGeneration a)
     \<and> (\<forall>b. m = Some b \<longrightarrow> aGeneration b \<le> aGeneration a)" for m
  proof (induction as arbitrary: m)
    case (Cons x xs)
    show ?case using Cons.IH [of "?f x m"] Cons.prems
      by (auto split: if_splits option.splits intro: order.trans less_imp_le)
  qed simp
  then show "newestCellAction as = Some a \<Longrightarrow> ?thesis" by (auto simp: newestCellAction_def)
qed

lemma by_generation_Some:
  "by_generation as g = Some a \<Longrightarrow> a \<in> set as \<and> HasGeneration a \<and> aGeneration a = g"
proof -
  have "fold (\<lambda>a m. if HasGeneration a then m(aGeneration a \<mapsto> a) else m) as m g = Some a \<Longrightarrow>
     a \<in> set as \<and> HasGeneration a \<and> aGeneration a = g \<or> m g = Some a" for m
  proof (induction as arbitrary: m)
    case (Cons x xs)
    show ?case
      using Cons.IH [of "if HasGeneration x then m(aGeneration x \<mapsto> x) else m"] Cons.prems
      by (auto split: if_splits)
  qed simp
  then show "by_generation as g = Some a \<Longrightarrow> ?thesis" by (auto simp: by_generation_def)
qed

lemma walk_loop_resume:
  "Verdict (walk_loop K l c tip byGen newestGen n rule maxWalk gen current steps) = VerdictResume \<Longrightarrow>
     steps = [] \<and> (\<exists>a. byGen gen = Some a \<and> aTxID a = '''')"
proof (induction K l c tip byGen newestGen n rule maxWalk gen current steps rule: walk_loop.induct)
  case (1 K l c tip byGen newestGen n rule maxWalk gen current steps)
  from "1.prems" show ?case
    unfolding walk_loop.simps [of K l c tip byGen newestGen n rule maxWalk gen]
    using "1.IH" by (auto split: option.splits sum.splits if_splits)
qed

text \<open>\<open>RecoverCell\<close> resumes only on positive evidence: the wallet answered, and either it has no
  action at all for a cell still at generation 0, or its highest generation is below the attempted
  one, or it lists an action at the attempted generation that carries no txid.  The tip and the
  generation are then unchanged.\<close>

theorem recover_cell_resumes_on_evidence:
  assumes "Verdict (RecoverCell K l c tip attempted n rule maxWalk) = VerdictResume"
  shows "attempted = Generation tip + 1 \<and> Tip (RecoverCell K l c tip attempted n rule maxWalk) = tip
     \<and> (\<exists>as tot. CellActions l (Cell tip) (if maxWalk \<le> 0 then 8 else maxWalk) = Inr (as, tot)
       \<and> (tot = 0 \<and> Generation tip = 0
          \<or> (\<exists>a \<in> set as. HasGeneration a) \<and> (\<forall>b \<in> set as. HasGeneration b \<longrightarrow> aGeneration b < attempted)
          \<or> (\<exists>a \<in> set as. HasGeneration a \<and> aGeneration a = attempted \<and> aTxID a = '''')))"
proof -
  let ?r = "RecoverCell K l c tip attempted n rule maxWalk"
  let ?w = "if maxWalk \<le> 0 then 8 else maxWalk"
  have att: "attempted = Generation tip + 1"
    using assms by (rule contrapos_pp) (simp add: RecoverCell_def)
  have w: "(if maxWalk \<le> 0 then defaultMaxWalk else maxWalk) = ?w" by (simp add: defaultMaxWalk_def)
  obtain as tot where a: "CellActions l (Cell tip) ?w = Inr (as, tot)"
    using assms by (cases "CellActions l (Cell tip) ?w") (auto simp: RecoverCell_def Let_def w att)
  have body: "?r = (if tot = 0 then
             (if Generation tip > 0 then halt (OfCell (WrongWallet (Generation tip)))
              else resume tip (OfCell (NeverCreated (Generation tip))))
           else case newestCellAction as of
                  None \<Rightarrow> halt (OfCell (NoReadableGeneration tot))
                | Some a \<Rightarrow>
                   if aGeneration a < attempted
                   then resume tip (OfCell (AttemptProducedNothing (aGeneration a) attempted (Generation tip)))
                   else if aGeneration a = attempted \<and> aTxID a = ''''
                   then resume tip (OfCell (NeverSigned attempted))
                   else walkForward K l c tip as (aGeneration a) n rule ?w)"
    unfolding att RecoverCell_def Let_def w a by (simp only: sum.case prod.case simp_thms if_False)
  have "tot = 0 \<and> Generation tip = 0
      \<or> (\<exists>a \<in> set as. HasGeneration a) \<and> (\<forall>b \<in> set as. HasGeneration b \<longrightarrow> aGeneration b < attempted)
      \<or> (\<exists>a \<in> set as. HasGeneration a \<and> aGeneration a = attempted \<and> aTxID a = '''')"
  proof (cases "tot = 0")
    case True
    then show ?thesis using assms unfolding body by (simp split: if_splits add: word_gt_0)
  next
    case False
    then obtain x where x: "newestCellAction as = Some x"
      using assms unfolding body by (auto split: option.splits)
    note nx = newest_spec [OF x]
    show ?thesis
    proof (cases "aGeneration x < attempted")
      case True
      then show ?thesis using nx by (meson order.strict_trans1)
    next
      case nlt: False
      show ?thesis
      proof (cases "aGeneration x = attempted \<and> aTxID x = ''''")
        case True
        then show ?thesis using nx by blast
      next
        case nun: False
        have "?r = walkForward K l c tip as (aGeneration x) n rule ?w"
          unfolding body x option.case using False nlt nun by (simp only: if_False)
        then have "Verdict (walkForward K l c tip as (aGeneration x) n rule ?w) = VerdictResume"
          using assms by metis
        then have "\<exists>y. by_generation as attempted = Some y \<and> aTxID y = ''''"
          unfolding walkForward_def att by (blast dest: walk_loop_resume)
        then show ?thesis using by_generation_Some by blast
      qed
    qed
  qed
  moreover have "Tip ?r = tip" using cell_decision.resume_keeps [OF assms] by simp
  ultimately show ?thesis using att a by blast
qed

theorem recover_cell_resumes_on_evidence_witness:
  "Tip (RecoverCell demo_codec (demo_ledger [demo_action 1 '''']) demo_compiled (demo_tip 0) 1 8 Rule110 0)
     = demo_tip 0"
proof -
  have v: "Verdict (RecoverCell demo_codec (demo_ledger [demo_action 1 '''']) demo_compiled (demo_tip 0) 1 8
      Rule110 0) = VerdictResume"
    by code_simp
  show ?thesis using recover_cell_resumes_on_evidence [OF v] by simp
qed

text \<open>\<open>RecoverSpentTip\<close> adopts exactly when all six conditions hold (the rejection names one
  transaction, the record does not know it, its bytes are readable and hash to that name, one of its
  inputs is the tip's outpoint, output 0 carries the covenant of the next row with the tip's value,
  and arcade reports the network accepted it), and then the tip becomes that transaction's output;
  in every other case it halts.\<close>

theorem recover_spent_tip_exact:
  "let r = RecoverSpentTip K l arcade c tip rejection nxt onRecord in
     (case Verdict r of
        VerdictResume \<Rightarrow> False
      | VerdictAdopt \<Rightarrow> \<exists>tid raw t ask rec. SpentBy rejection = Some tid \<and> onRecord tid = Inr False
          \<and> RawTx l tid = Inr raw \<and> parseTip K (Cell tip) tid raw = Inr t \<and> spends_tip tip t
          \<and> DeriveTip K c (Cell tip) (Generation tip + 1) nxt tid raw = Inr (Tip r)
          \<and> Satoshis_of (Tip r) = Satoshis_of tip \<and> arcade = Some ask \<and> ask tid = Inr (Some rec)
          \<and> acceptedByNetwork (recStatus rec) \<and> Steps r = [Tip r]
      | VerdictHalt \<Rightarrow> \<not> (\<exists>tid raw t tip' ask rec. SpentBy rejection = Some tid \<and> onRecord tid = Inr False
          \<and> RawTx l tid = Inr raw \<and> parseTip K (Cell tip) tid raw = Inr t \<and> spends_tip tip t
          \<and> DeriveTip K c (Cell tip) (Generation tip + 1) nxt tid raw = Inr tip'
          \<and> Satoshis_of tip' = Satoshis_of tip \<and> arcade = Some ask \<and> ask tid = Inr (Some rec)
          \<and> acceptedByNetwork (recStatus rec)))"
proof -
  define r where "r = RecoverSpentTip K l arcade c tip rejection nxt onRecord"
  have adopt: "\<exists>tid raw t ask rec. SpentBy rejection = Some tid \<and> onRecord tid = Inr False
          \<and> RawTx l tid = Inr raw \<and> parseTip K (Cell tip) tid raw = Inr t \<and> spends_tip tip t
          \<and> DeriveTip K c (Cell tip) (Generation tip + 1) nxt tid raw = Inr (Tip r)
          \<and> Satoshis_of (Tip r) = Satoshis_of tip \<and> arcade = Some ask \<and> ask tid = Inr (Some rec)
          \<and> acceptedByNetwork (recStatus rec) \<and> Steps r = [Tip r]" if "Verdict r = VerdictAdopt"
  proof -
    obtain tid raw t adopted ask rec where s: "SpentBy rejection = Some tid" "onRecord tid = Inr False"
      "RawTx l tid = Inr raw" "parseTip K (Cell tip) tid raw = Inr t" "spends_tip tip t"
      "DeriveTip K c (Cell tip) (Generation tip + 1) nxt tid raw = Inr adopted"
      "Satoshis_of adopted = Satoshis_of tip" "arcade = Some ask" "ask tid = Inr (Some rec)"
      "acceptedByNetwork (recStatus rec)"
      and eq: "r = \<lparr>Verdict = VerdictAdopt, Tip = adopted,
         Reason = OfSpent (AdoptedSpender (Generation tip + 1) tid (recStatus rec)), Steps = [adopted]\<rparr>"
      using \<open>Verdict r = VerdictAdopt\<close> unfolding r_def spent_adopt by blast
    have "Tip r = adopted" "Steps r = [adopted]" by (simp_all add: eq)
    with s show ?thesis by blast
  qed
  have halts: "Verdict r = VerdictAdopt" if c: "SpentBy rejection = Some tid" "onRecord tid = Inr False"
      "RawTx l tid = Inr raw" "parseTip K (Cell tip) tid raw = Inr t" "spends_tip tip t"
      "DeriveTip K c (Cell tip) (Generation tip + 1) nxt tid raw = Inr tip'"
      "Satoshis_of tip' = Satoshis_of tip" "arcade = Some ask" "ask tid = Inr (Some rec)"
      "acceptedByNetwork (recStatus rec)" for tid raw t tip' ask rec
    unfolding r_def RecoverSpentTip_def Let_def by (simp add: c)
  have never: "Verdict r \<noteq> VerdictResume" unfolding r_def by (rule spent_never_resumes)
  show ?thesis
    unfolding Let_def r_def [symmetric]
    using adopt halts never by (cases "Verdict r") (simp_all only: verdict.case, blast+)
qed

text \<open>Which recorded failure lets a cell rebuild the generation above its tip, on each of the
  three paths, and that none of them ever moves the tip: a failure before signing needs the sentinel
  and no txid; a stale rejection needs the bytes of the rejected transaction to show that every input
  spends something other than the tip; a retry needs them to show that one input spends it.  The last
  two can therefore never both resume.\<close>

theorem rejection_resume_exact:
  "let u = RecoverNotBroadcast tip rejected tid msg; s = RecoverStaleRejection K l tip rejected tid msg;
       t = RetryRefusal K l tip rejected tid msg in
     (Verdict u = VerdictResume \<longleftrightarrow> Generation tip < rejected \<and> prefix ''chain: not broadcast: '' msg \<and> tid = '''')
   \<and> (Verdict s = VerdictResume \<longleftrightarrow> Generation tip < rejected \<and> tid \<noteq> '''' \<and> (\<exists>raw x. RawTx l tid = Inr raw
        \<and> parseTip K (Cell tip) tid raw = Inr x \<and> Inputs x \<noteq> []
        \<and> list_all (\<lambda>i. SourceTXID i \<noteq> None \<and> \<not> input_spends tip i) (Inputs x)))
   \<and> (Verdict t = VerdictResume \<longleftrightarrow> rejected = Generation tip + 1 \<and> \<not> IsUTXOSpent msg \<and> tid \<noteq> ''''
        \<and> (\<exists>raw x. RawTx l tid = Inr raw \<and> parseTip K (Cell tip) tid raw = Inr x \<and> spends_tip tip x))
   \<and> \<not> (Verdict s = VerdictResume \<and> Verdict t = VerdictResume)
   \<and> VerdictAdopt \<notin> {Verdict u, Verdict s, Verdict t}"
proof -
  have u: "Verdict (RecoverNotBroadcast tip rejected tid msg) = VerdictResume \<longleftrightarrow>
      Generation tip < rejected \<and> prefix ''chain: not broadcast: '' msg \<and> tid = ''''"
    by (auto simp: RecoverNotBroadcast_def IsNotBroadcast_def notBroadcastPrefix_def)
  have e: "\<not> (list_all (\<lambda>i. SourceTXID i \<noteq> None \<and> \<not> input_spends tip i) (Inputs x) \<and> spends_tip tip x)" for x
    by (auto simp: spends_tip_def list_all_iff list_ex_iff)
  have ex: "\<not> (Verdict (RecoverStaleRejection K l tip rejected tid msg) = VerdictResume
      \<and> Verdict (RetryRefusal K l tip rejected tid msg) = VerdictResume)"
    unfolding stale_resume retry_resume using e by force
  show ?thesis
    unfolding Let_def
    by (intro conjI u stale_resume retry_resume ex) (simp add: rejection_tips(1-3) [THEN not_sym])
qed

text \<open>A wallet that answers nothing but errors decides nothing: with every lookup failing, all
  four ledger-based decisions halt, whatever the record says and whatever the errors are.\<close>

theorem lookup_failure_halts:
  "let l = \<lparr>RawTx = (\<lambda>tid. Inl (e tid)), CellActions = (\<lambda>i n. Inl (e' i n))\<rparr> in
     Verdict (RecoverCell K l c tip attempted n rule maxWalk) = VerdictHalt
   \<and> Verdict (RecoverSpentTip K l arcade c tip rejection nxt onRecord) = VerdictHalt
   \<and> Verdict (RecoverStaleRejection K l tip rejected tid rejection) = VerdictHalt
   \<and> Verdict (RetryRefusal K l tip rejected tid rejection) = VerdictHalt"
  by (simp add: RecoverCell_def RecoverSpentTip_def RecoverStaleRejection_def RetryRefusal_def Let_def
      split: option.split sum.split bool.split)

text \<open>Claim C6: where the wallet lists several actions for the attempted generation, the first one listed
  decides.  If it carries no txid the cell resumes from the tip, also when a later action of the same
  generation was signed, so its transaction may be on the network.\<close>

theorem first_listed_action_decides:
  assumes "CellActions l (Cell tip) (if maxWalk \<le> 0 then 8 else maxWalk) = Inr (us @ a # vs, tot)"
    and "tot \<noteq> 0" and "HasGeneration a" and "aGeneration a = Generation tip + 1" and "aTxID a = ''''"
    and "\<forall>u \<in> set us. HasGeneration u \<longrightarrow> aGeneration u < aGeneration a"
    and "\<forall>v \<in> set vs. HasGeneration v \<longrightarrow> aGeneration v \<le> aGeneration a"
  shows "RecoverCell K l c tip (Generation tip + 1) n rule maxWalk
     = resume tip (OfCell (NeverSigned (Generation tip + 1)))"
proof -
  let ?f = "\<lambda>a newest. if \<not> HasGeneration a then newest else case newest of None \<Rightarrow> Some a
     | Some b \<Rightarrow> if aGeneration a > aGeneration b then Some a else newest"
  define below :: "cell_action option \<Rightarrow> bool" where "below m = (case m of None \<Rightarrow> True | Some b \<Rightarrow> aGeneration b < aGeneration a)" for m :: "cell_action option"
  have stay: "below m \<Longrightarrow> HasGeneration u \<longrightarrow> aGeneration u < aGeneration a \<Longrightarrow> below (?f u m)" for u m
    by (cases m) (auto simp: below_def)
  have "below m \<Longrightarrow> \<forall>u \<in> set us. HasGeneration u \<longrightarrow> aGeneration u < aGeneration a \<Longrightarrow>
     below (fold ?f us m)" for m us
  proof (induction us arbitrary: m)
    case (Cons x xs)
    have "below (?f x m)" using Cons.prems by (intro stay) auto
    with Cons show ?case by simp
  qed simp
  then have "below (fold ?f us None)" using assms(6) by (simp add: below_def)
  then have pre: "?f a (fold ?f us None) = Some a"
    using assms(3) by (simp add: below_def split: option.splits)
  have post: "fold ?f vs (Some a) = Some a" using assms(7)
    by (induction vs) auto
  have newest: "newestCellAction (us @ a # vs) = Some a"
    unfolding newestCellAction_def by (simp only: fold_append fold.simps o_apply pre post)
  have w: "(if maxWalk \<le> 0 then defaultMaxWalk else maxWalk) = (if maxWalk \<le> 0 then 8 else maxWalk)"
    by (simp add: defaultMaxWalk_def)
  show ?thesis
    unfolding RecoverCell_def Let_def w assms(1) sum.case prod.case newest option.case
    using assms(2,4,5) by simp
qed

theorem first_listed_action_decides_witness:
  "RecoverCell demo_codec (demo_ledger [demo_action 1 '''', demo_action 1 ''bb'']) demo_compiled (demo_tip 0)
     1 8 Rule110 0 = resume (demo_tip 0) (OfCell (NeverSigned 1))"
proof -
  have g: "Generation (demo_tip 0) = 0" by (simp add: demo_tip_def)
  show ?thesis
    using first_listed_action_decides [of "demo_ledger [demo_action 1 '''', demo_action 1 ''bb'']" "demo_tip 0"
      0 "[]" "demo_action 1 ''''" "[demo_action 1 ''bb'']" 2 demo_codec demo_compiled 8 Rule110]
    by (simp add: g demo_ledger_def demo_action_def)
qed

end
