(* ===== verification/Derive.thy ===== *)
theory Derive
  imports History ChainRecover
begin

text \<open>
  Deriving every cell's position at startup, \<open>internal/engine/derive.go\<close>: the records decide where a
  cell is, the automaton which row it carries, and the bytes of the named transaction prove both.
  The halt reasons are constructors, one per branch.
\<close>

definition tipDepth :: int where "tipDepth = 8"

definition maxWreckage :: nat where "maxWreckage = 3"

datatype halt_reason =
    NoReason
  | NothingSettled u64 status
  | BuriedCascade u64 u64 string nat
  | UnresolvedAttempt u64
  | Cascade u64 nat u64 string
  | RejectedOne u64 u64 string
  | RejectedOldest u64 u64 nat string
  | RecoveryHalt reason

record cell_position =
  posTip :: cell_chain
  Halted :: bool
  HaltReason :: halt_reason
  Attempted :: u64
  Unknown :: bool
  Rejected :: bool
  RejectedAt :: u64
  RejectionErr :: string
  RejectionTxID :: txid

definition no_position :: cell_position where
  "no_position = \<lparr>posTip = no_chain, Halted = False, HaltReason = NoReason, Attempted = 0,
     Unknown = False, Rejected = False, RejectedAt = 0, RejectionErr = '''', RejectionTxID = ''''\<rparr>"

definition settled_status :: "status \<Rightarrow> bool" where
  "settled_status st = (st = StatusBroadcast \<or> st = StatusSeen \<or> st = StatusMined)"

definition newestSettled :: "tip list \<Rightarrow> tip option" where
  "newestSettled rows = find (\<lambda>r. settled_status (tipStatus r) \<and> tipTxID r \<noteq> '''') rows"

definition noteRejection :: "cell_position \<Rightarrow> u64 \<Rightarrow> tip \<Rightarrow> nat \<Rightarrow> cell_position" where
  "noteRejection p t r above_tip =
     (let p = p\<lparr>Halted := True\<rparr> in
      if above_tip > maxWreckage
      then p\<lparr>HaltReason := Cascade t above_tip (tipGen r) (tipErr r)\<rparr>
      else p\<lparr>Rejected := True, RejectedAt := tipGen r, RejectionErr := tipErr r, RejectionTxID := tipTxID r,
             HaltReason := (if above_tip = 1 then RejectedOne (tipGen r) t (tipErr r)
                            else RejectedOldest (tipGen r) t above_tip (tipErr r))\<rparr>)"

text \<open>The scan of the records above the tip: the last failure and the last attempt met, newest first,
  and how many of each.\<close>

record scan =
  scFailed :: "tip option"
  scFailures :: nat
  scAttempt :: "tip option"
  scAttempts :: nat

fun scan_above :: "u64 \<Rightarrow> tip list \<Rightarrow> scan \<Rightarrow> scan" where
  "scan_above base [] sc = sc"
| "scan_above base (r # rs) sc =
     (if tipGen r \<le> base then sc
      else scan_above base rs
        (case tipStatus r of
           StatusFailed \<Rightarrow> sc\<lparr>scFailed := Some r, scFailures := scFailures sc + 1\<rparr>
         | StatusAttempting \<Rightarrow> sc\<lparr>scAttempt := Some r, scAttempts := scAttempts sc + 1\<rparr>
         | _ \<Rightarrow> sc))"

definition unresolved :: "cell_position \<Rightarrow> u64 \<Rightarrow> u64 \<Rightarrow> cell_position" where
  "unresolved p base g = p\<lparr>Unknown := True, Halted := True, Attempted := base + 1,
     HaltReason := UnresolvedAttempt g\<rparr>"

definition empty_scan :: scan where
  "empty_scan = \<lparr>scFailed = None, scFailures = 0, scAttempt = None, scAttempts = 0\<rparr>"

text \<open>The branch of a cell whose tip lies inside the window.\<close>

definition classify_shallow :: "tip \<Rightarrow> tip list \<Rightarrow> cell_position" where
  "classify_shallow base rows =
     (let sc = scan_above (tipGen base) rows empty_scan;
          cascade = scFailures sc > maxWreckage;
          p = (case scFailed sc of
                 None \<Rightarrow> no_position
               | Some r \<Rightarrow> noteRejection no_position (tipGen base) r (scFailures sc)) in
      case scAttempt sc of
        None \<Rightarrow> p
      | Some a \<Rightarrow> if cascade then p else unresolved p (tipGen base) (tipGen a))"

text \<open>The branch of a cell whose whole window is wreckage.\<close>

definition classify_deep :: "tip \<Rightarrow> deep_tip \<Rightarrow> nat \<Rightarrow> cell_position" where
  "classify_deep base deep n =
     (case Failed deep of
        Some r \<Rightarrow> no_position\<lparr>Halted := True, HaltReason := BuriedCascade (tipGen base) (tipGen r) (tipErr r) n\<rparr>
      | None \<Rightarrow>
         (case Attempt deep of
            Some a \<Rightarrow> unresolved no_position (tipGen base) (tipGen a)
          | None \<Rightarrow> no_position))"

definition classify :: "deployment \<Rightarrow> store \<Rightarrow> (int \<Rightarrow> tip list option) \<Rightarrow> int \<Rightarrow> (u64 \<times> txid) \<times> cell_position" where
  "classify d s records cell =
     (case records cell of
        None \<Rightarrow> ((0, GenesisTxID d), no_position)
      | Some rows \<Rightarrow>
         if rows = [] then ((0, GenesisTxID d), no_position)
         else case newestSettled rows of
           Some base \<Rightarrow> ((tipGen base, tipTxID base), classify_shallow base rows)
         | None \<Rightarrow>
            (case Settled (DeepTip s cell) of
               None \<Rightarrow> ((0, ''''), no_position\<lparr>Halted := True,
                    HaltReason := NothingSettled (tipGen (hd rows)) (tipStatus (hd rows))\<rparr>)
             | Some base \<Rightarrow> ((tipGen base, tipTxID base), classify_deep base (DeepTip s cell) (length rows))))"

subsection \<open>The rows of the claimed generations\<close>

fun rows_loop :: "rule \<Rightarrow> (u64 \<Rightarrow> bool) \<Rightarrow> u64 list \<Rightarrow> row \<Rightarrow> (u64 \<Rightarrow> row option) \<Rightarrow> (u64 \<Rightarrow> row option) option" where
  "rows_loop rule wanted [] row out = Some out"
| "rows_loop rule wanted (g # gs) row out =
     (case Step rule row of
        None \<Rightarrow> None
      | Some row' \<Rightarrow> rows_loop rule wanted gs row' (if wanted g then out(g \<mapsto> row') else out))"

definition computeRows :: "row \<Rightarrow> rule \<Rightarrow> (u64 \<Rightarrow> bool) \<Rightarrow> u64 \<Rightarrow> (u64 \<Rightarrow> row option) option" where
  "computeRows seed rule wanted highest =
     rows_loop rule wanted (map word_of_nat [1..<unat highest + 1]) seed
       (if wanted 0 then [0 \<mapsto> seed] else Map.empty)"

text \<open>The first generation whose recorded row differs from the recomputed one.\<close>

definition crossCheckRows :: "store \<Rightarrow> (u64 \<Rightarrow> row option) \<Rightarrow> u64 list \<Rightarrow> u64 option" where
  "crossCheckRows s rows gens = find (\<lambda>g.
     case rows g of
       None \<Rightarrow> False
     | Some row \<Rightarrow>
        (case RowAt s g of
           None \<Rightarrow> False
         | Some recorded \<Rightarrow> recorded \<noteq> '''' \<and> recorded \<noteq> Hex row)) gens"

fun fetch_loop :: "ledger \<Rightarrow> txid list \<Rightarrow> (txid \<Rightarrow> bytes option) \<Rightarrow> string + (txid \<Rightarrow> bytes option)" where
  "fetch_loop l [] out = Inr out"
| "fetch_loop l (tid # tids) out =
     (if out tid \<noteq> None then fetch_loop l tids out
      else case RawTx l tid of
             Inl e \<Rightarrow> Inl e
           | Inr raw \<Rightarrow> fetch_loop l tids (out(tid \<mapsto> raw)))"

definition fetchRaw :: "ledger \<Rightarrow> txid list \<Rightarrow> string + (txid \<Rightarrow> bytes option)" where
  "fetchRaw l tids = fetch_loop l tids Map.empty"

datatype derive_error =
    BadSeed ca_error
  | StoreFailed history_error
  | RowPanicked
  | RowDisagrees u64
  | FetchFailed string
  | BytesMissing int u64 txid
  | TipFailed tip_error

fun tips_loop :: "tx_codec \<Rightarrow> compiled \<Rightarrow> (u64 \<Rightarrow> row option) \<Rightarrow> (txid \<Rightarrow> bytes option)
    \<Rightarrow> (int \<times> (u64 \<times> txid) \<times> cell_position) list \<Rightarrow> derive_error + cell_position list" where
  "tips_loop K c rows raws [] = Inr []"
| "tips_loop K c rows raws ((cell, (gen, tid), p) # rest) =
     (if tid = '''' then
        (case tips_loop K c rows raws rest of Inl e \<Rightarrow> Inl e | Inr ps \<Rightarrow> Inr (p # ps))
      else case raws tid of
        None \<Rightarrow> Inl (BytesMissing cell gen tid)
      | Some raw \<Rightarrow>
         (case DeriveTip K c cell gen (case rows gen of None \<Rightarrow> [] | Some row \<Rightarrow> row) tid raw of
            Inl e \<Rightarrow> Inl (TipFailed e)
          | Inr t \<Rightarrow>
             (case tips_loop K c rows raws rest of
                Inl e \<Rightarrow> Inl e
              | Inr ps \<Rightarrow> Inr (p\<lparr>posTip := t\<rparr> # ps))))"

definition DeriveTips :: "tx_codec \<Rightarrow> ledger \<Rightarrow> compiled \<Rightarrow> deployment \<Rightarrow> store \<Rightarrow> derive_error + cell_position list" where
  "DeriveTips K l c d s =
     (case Seed d of
        Inl e \<Rightarrow> Inl (BadSeed e)
      | Inr seed \<Rightarrow>
     (case CellTips s (dCells d) tipDepth of
        Inl e \<Rightarrow> Inl (StoreFailed e)
      | Inr records \<Rightarrow>
     (let cls = map (\<lambda>cell. (cell, classify d s records cell)) [0..dCells d - 1];
          claims = filter (\<lambda>(g, tid). tid \<noteq> '''') (map (fst \<circ> snd) cls);
          tids = concat (map (\<lambda>(cell, (g, tid), p). case HaltReason p of NothingSettled _ _ \<Rightarrow> [] | _ \<Rightarrow> [tid]) cls);
          gens = map fst claims;
          highest = fold max gens 0 in
      case computeRows seed (dRule d) (\<lambda>g. g \<in> set gens) highest of
        None \<Rightarrow> Inl RowPanicked
      | Some rows \<Rightarrow>
     (case crossCheckRows s rows gens of
        Some g \<Rightarrow> Inl (RowDisagrees g)
      | None \<Rightarrow>
     (case fetchRaw l tids of
        Inl e \<Rightarrow> Inl (FetchFailed e)
      | Inr raws \<Rightarrow> tips_loop K c rows raws cls)))))"

subsection \<open>The floor of a legacy state file\<close>

definition networkRefused :: "tx_status option \<Rightarrow> txid \<Rightarrow> bool \<times> bool" where
  "networkRefused arcade tid =
     (case arcade of
        None \<Rightarrow> (False, False)
      | Some ask \<Rightarrow>
         (case ask tid of
            Inr (Some rec) \<Rightarrow> (RefusedByNetwork (recStatus rec), True)
          | _ \<Rightarrow> (False, False)))"

text \<open>The legacy tips derivation landed below; the check passes when there are none.\<close>

definition CheckMigrationFloor :: "store \<Rightarrow> tx_status option \<Rightarrow> cell_position list \<Rightarrow> cell_chain list
    \<Rightarrow> (int \<times> u64 \<times> u64) list" where
  "CheckMigrationFloor s arcade ps legacy =
     (let tids = filter (\<lambda>t. t \<noteq> '''') (map TxID legacy); rejected = RejectedTxIDs s tids in
      map (\<lambda>t. (Cell t, Generation (posTip (ps ! nat (Cell t))), Generation t))
        (filter (\<lambda>t.
           \<not> (Cell t < 0 \<or> Cell t \<ge> int (length ps) \<or> TxID t = '''')
           \<and> \<not> rejected (TxID t)
           \<and> \<not> Generation (posTip (ps ! nat (Cell t))) \<ge> Generation t
           \<and> \<not> (case networkRefused arcade (TxID t) of (refused, known) \<Rightarrow> known \<and> refused)) legacy))"

subsection \<open>The window and the record\<close>

definition settles :: "status \<Rightarrow> txid \<Rightarrow> bool" where
  "settles st i = (settled_status st \<and> i \<noteq> '''')"

definition sorted_tips :: "tip list \<Rightarrow> bool" where
  "sorted_tips rows = sorted_wrt (\<lambda>a b. tipGen b < tipGen a) rows"

lemma row_tip_fields [simp]:
  "tipGen (row_tip r) = rowGen r" "tipCell (row_tip r) = rowCell r" "tipTxID (row_tip r) = rowTxID r"
  "tipStatus (row_tip r) = rowStatus r" "tipErr (row_tip r) = rowErr r"
  by (simp_all add: row_tip_def)

lemma window_sorted: "keys_ok s \<Longrightarrow> sorted_tips (cell_tips s c k)"
  using newest_first_desc [of s c "\<lambda>_. True"]
  by (simp add: sorted_tips_def cell_tips_def sorted_wrt_map sorted_wrt_take)

lemma window_member:
  assumes "keys_ok s" "t \<in> set (cell_tips s c k)"
  shows "tipCell t = c \<and> CellAt s (tipGen t) c = Some (tipTxID t, tipStatus t, tipErr t)"
  using assms(2) by (auto simp: cell_tips_def set_newest_first CellAt_Some [OF assms(1)] dest!: in_set_takeD)

lemma window_newest:
  assumes k: "keys_ok s" and t: "t \<in> set (cell_tips s c k)" and g: "tipGen t \<le> g"
    and r: "CellAt s g c = Some (i, st, e)"
  shows "\<exists>u \<in> set (cell_tips s c k). tipGen u = g \<and> tipTxID u = i \<and> tipStatus u = st \<and> tipErr u = e"
proof -
  let ?nf = "newest_first s c (\<lambda>_. True)"
  obtain q where q: "q \<in> set (cell_txs s)" "rowGen q = g" "rowCell q = c" "rowTxID q = i" "rowStatus q = st" "rowErr q = e"
    using r by (auto simp: CellAt_Some [OF k])
  have mem: "q \<in> set (take k ?nf) \<union> set (drop k ?nf)"
  proof -
    have "q \<in> set ?nf" using q by (simp add: set_newest_first)
    then have "q \<in> set (take k ?nf @ drop k ?nf)" by simp
    then show ?thesis by (simp only: set_append)
  qed
  obtain r' where r': "r' \<in> set (take k ?nf)" "t = row_tip r'" using t by (auto simp: cell_tips_def)
  have "sorted_wrt (\<lambda>a b. rowGen b < rowGen a) (take k ?nf @ drop k ?nf)"
    using newest_first_desc [OF k, of c "\<lambda>_. True"] by simp
  then have "q \<in> set (drop k ?nf) \<Longrightarrow> rowGen q < rowGen r'"
    using r'(1) unfolding sorted_wrt_append by blast
  then have "q \<in> set (take k ?nf)" using mem g q(2) r'(2) by auto
  then show ?thesis using q by (auto simp: cell_tips_def intro!: bexI [of _ "row_tip q"])
qed

lemma window_empty:
  assumes "keys_ok s" "0 < k"
  shows "cell_tips s c k = [] \<longleftrightarrow> (\<forall>g. CellAt s g c = None)"
proof -
  have "cell_tips s c k = [] \<longleftrightarrow> set (newest_first s c (\<lambda>_. True)) = {}"
    using assms(2) by (simp add: cell_tips_def)
  also have "\<dots> \<longleftrightarrow> (\<forall>g. CellAt s g c = None)"
    unfolding set_newest_first by (auto simp: CellAt_row row_at_None row_key_def image_iff)
  finally show ?thesis .
qed

lemma newest_where_unique: "newest_where s c Q t \<Longrightarrow> newest_where s c Q t' \<Longrightarrow> t = t'"
proof -
  assume t: "newest_where s c Q t" and t': "newest_where s c Q t'"
  have "tipGen t \<le> tipGen t'" "tipGen t' \<le> tipGen t"
    using t t' unfolding newest_where_def by blast+
  then have "tipGen t = tipGen t'" by (rule order_antisym)
  with t t' show "t = t'" by (cases t; cases t') (auto simp: newest_where_def)
qed

lemma find_first_sorted:
  "find P rows = Some r \<Longrightarrow> sorted_tips rows \<Longrightarrow> u \<in> set rows \<Longrightarrow> P u \<Longrightarrow> tipGen u \<le> tipGen r"
  by (induction rows) (auto simp: sorted_tips_def split: if_splits intro: less_imp_le)

lemma newestSettled_where:
  assumes k: "keys_ok s" and n: "newestSettled (cell_tips s c w) = Some base"
  shows "newest_where s c settles base" and "base \<in> set (cell_tips s c w)"
proof -
  have b: "base \<in> set (cell_tips s c w)" "settles (tipStatus base) (tipTxID base)"
    using n find_SomeD unfolding newestSettled_def settles_def by fastforce+
  show "base \<in> set (cell_tips s c w)" by (rule b(1))
  have "g \<le> tipGen base" if g: "CellAt s g c = Some (i, st, e)" "settles st i" for g i st e
  proof (rule ccontr)
    assume "\<not> g \<le> tipGen base"
    then have "tipGen base \<le> g" by simp
    from window_newest [OF k b(1) this g(1)] obtain u where "u \<in> set (cell_tips s c w)" "tipGen u = g"
      "settles (tipStatus u) (tipTxID u)" using g(2) by auto
    then have "g \<le> tipGen base"
      using find_first_sorted [OF n [unfolded newestSettled_def] window_sorted [OF k]] by (auto simp: settles_def)
    with \<open>\<not> g \<le> tipGen base\<close> show False by simp
  qed
  then show "newest_where s c settles base"
    using window_member [OF k b(1)] b(2) unfolding newest_where_def by blast
qed

lemma deep_settled_where:
  assumes "keys_ok s"
  shows "Settled (DeepTip s c) = Some base \<longleftrightarrow> newest_where s c settles base"
proof -
  have "(\<lambda>st i. st \<in> set [StatusMined, StatusBroadcast, StatusSeen] \<and> (True \<longrightarrow> i \<noteq> '''')) = settles"
    by (auto simp: fun_eq_iff settles_def settled_status_def)
  then show ?thesis using newest_iff [OF assms, of c True "[StatusMined, StatusBroadcast, StatusSeen]" base]
    by (simp add: DeepTip_def Let_def)
qed

subsection \<open>What lies above the tip\<close>

definition above_with :: "status \<Rightarrow> u64 \<Rightarrow> tip list \<Rightarrow> tip list" where
  "above_with st base rows = filter (\<lambda>r. base < tipGen r \<and> tipStatus r = st) rows"

lemma above_with_simps [simp]:
  "above_with st base [] = []"
  "above_with st base (r # rs) = (if base < tipGen r \<and> tipStatus r = st then r # above_with st base rs
     else above_with st base rs)"
  by (simp_all add: above_with_def)

lemma above_with_none: "sorted_tips (r # rs) \<Longrightarrow> tipGen r \<le> base \<Longrightarrow> above_with st base rs = []"
  by (auto simp: above_with_def sorted_tips_def filter_empty_conv not_less dest: less_le_trans)

lemma scan_above_spec:
  "sorted_tips rows \<Longrightarrow> scan_above base rows sc =
     \<lparr>scFailed = (let F = above_with StatusFailed base rows in if F = [] then scFailed sc else Some (last F)),
      scFailures = scFailures sc + length (above_with StatusFailed base rows),
      scAttempt = (let A = above_with StatusAttempting base rows in if A = [] then scAttempt sc else Some (last A)),
      scAttempts = scAttempts sc + length (above_with StatusAttempting base rows)\<rparr>"
proof (induction base rows sc rule: scan_above.induct)
  case (2 base r rs sc)
  have srt: "sorted_tips rs" using "2.prems" by (simp add: sorted_tips_def)
  show ?case
  proof (cases "tipGen r \<le> base")
    case True
    then show ?thesis using above_with_none [OF "2.prems" True] leD [OF True] by simp
  next
    case False
    then show ?thesis using "2.IH" [OF False srt]
      by (cases "tipStatus r") (simp_all add: Let_def not_le)
  qed
qed simp

lemma classify_shallow_spec:
  assumes "sorted_tips rows"
  shows "classify_shallow base rows =
     (let F = above_with StatusFailed (tipGen base) rows; A = above_with StatusAttempting (tipGen base) rows;
          p = (if F = [] then no_position else noteRejection no_position (tipGen base) (last F) (length F)) in
      if A = [] \<or> maxWreckage < length F then p else unresolved p (tipGen base) (tipGen (last A)))"
  by (simp add: classify_shallow_def scan_above_spec [OF assms] empty_scan_def Let_def)

lemma falling_distinct: "sorted_wrt (\<lambda>a b. tipGen b < tipGen a) rows \<Longrightarrow> distinct (map tipGen rows)"
  by (induction rows) auto

definition records_above :: "store \<Rightarrow> int \<Rightarrow> status \<Rightarrow> u64 \<Rightarrow> u64 set" where
  "records_above s c st base = {g. base < g \<and> (\<exists>i e. CellAt s g c = Some (i, st, e))}"

lemma above_window:
  assumes k: "keys_ok s" and b: "base \<in> set (cell_tips s c w)"
  shows "tipGen ` set (above_with st (tipGen base) (cell_tips s c w)) = records_above s c st (tipGen base)"
    and "card (records_above s c st (tipGen base)) = length (above_with st (tipGen base) (cell_tips s c w))"
proof -
  let ?A = "above_with st (tipGen base) (cell_tips s c w)"
  show im: "tipGen ` set ?A = records_above s c st (tipGen base)"
  proof
    show "tipGen ` set ?A \<subseteq> records_above s c st (tipGen base)"
      using window_member [OF k] by (force simp: above_with_def records_above_def)
    show "records_above s c st (tipGen base) \<subseteq> tipGen ` set ?A"
    proof
      fix g assume "g \<in> records_above s c st (tipGen base)"
      then obtain i e where g: "tipGen base < g" "CellAt s g c = Some (i, st, e)"
        by (auto simp: records_above_def)
      then obtain u where "u \<in> set (cell_tips s c w)" "tipGen u = g" "tipStatus u = st"
        using window_newest [OF k b _ g(2)] by (auto intro: less_imp_le)
      then show "g \<in> tipGen ` set ?A" using g(1) by (auto simp: above_with_def intro!: image_eqI)
    qed
  qed
  have "sorted_wrt (\<lambda>a b. tipGen b < tipGen a) ?A"
    using window_sorted [OF k, of c w] by (simp add: sorted_tips_def above_with_def sorted_wrt_filter)
  then have "distinct (map tipGen ?A)"
    by (rule falling_distinct)
  then have "card (tipGen ` set ?A) = length ?A"
    by (metis distinct_card length_map set_map)
  then show "card (records_above s c st (tipGen base)) = length ?A" unfolding im .
qed

lemma last_above:
  assumes k: "keys_ok s" and ne: "above_with st g0 (cell_tips s c w) \<noteq> []"
  defines "r \<equiv> last (above_with st g0 (cell_tips s c w))"
  shows "g0 < tipGen r \<and> CellAt s (tipGen r) c = Some (tipTxID r, st, tipErr r)
     \<and> (\<forall>u \<in> set (above_with st g0 (cell_tips s c w)). tipGen r \<le> tipGen u)"
proof -
  let ?A = "above_with st g0 (cell_tips s c w)"
  have r: "r \<in> set ?A" using ne by (simp add: r_def)
  have "sorted_wrt (\<lambda>a b. tipGen b < tipGen a) ?A"
    using window_sorted [OF k, of c w] by (simp add: sorted_tips_def above_with_def sorted_wrt_filter)
  moreover have split: "?A = butlast ?A @ [r]" using ne by (simp add: r_def)
  ultimately have "\<forall>u \<in> set (butlast ?A). tipGen r < tipGen u"
    by (metis (no_types, lifting) list.set_intros(1) sorted_wrt_append)
  then have "\<forall>u \<in> set ?A. tipGen r \<le> tipGen u"
    using split by (metis UnE empty_iff list.set(1) less_imp_le order_refl set_ConsD set_append)
  then show ?thesis using r window_member [OF k] by (auto simp: above_with_def)
qed

subsection \<open>The classification of a cell\<close>

text \<open>What a position may say about a cell whose newest settled record is \<open>base\<close>.\<close>

definition position_ok :: "store \<Rightarrow> int \<Rightarrow> tip \<Rightarrow> cell_position \<Rightarrow> bool" where
  "position_ok s c base p \<longleftrightarrow>
     (let failed = records_above s c StatusFailed (tipGen base);
          attempting = records_above s c StatusAttempting (tipGen base) in
      (Halted p \<longleftrightarrow> failed \<union> attempting \<noteq> {})
    \<and> (Rejected p \<longrightarrow> card failed \<le> 3 \<and> RejectedAt p \<in> failed \<and> (\<forall>g \<in> failed. RejectedAt p \<le> g)
         \<and> CellAt s (RejectedAt p) c = Some (RejectionTxID p, StatusFailed, RejectionErr p))
    \<and> (Unknown p \<longrightarrow> card failed \<le> 3 \<and> attempting \<noteq> {} \<and> Attempted p = tipGen base + 1)
    \<and> (Rejected p \<or> Unknown p \<longrightarrow> Halted p))"

lemma noteRejection_fields:
  "Halted (noteRejection p t r n)" "Unknown (noteRejection p t r n) = Unknown p"
  "Rejected (noteRejection p t r n) = (if n > maxWreckage then Rejected p else True)"
  "n \<le> maxWreckage \<Longrightarrow> RejectedAt (noteRejection p t r n) = tipGen r
     \<and> RejectionErr (noteRejection p t r n) = tipErr r \<and> RejectionTxID (noteRejection p t r n) = tipTxID r"
  by (simp_all add: noteRejection_def Let_def)

lemma no_position_fields [simp]:
  "\<not> Halted no_position" "\<not> Unknown no_position" "\<not> Rejected no_position" "posTip no_position = no_chain"
  by (simp_all add: no_position_def)

lemma unresolved_fields [simp]:
  "Halted (unresolved p b g)" "Unknown (unresolved p b g)" "Rejected (unresolved p b g) = Rejected p"
  "Attempted (unresolved p b g) = b + 1" "RejectedAt (unresolved p b g) = RejectedAt p"
  "RejectionErr (unresolved p b g) = RejectionErr p" "RejectionTxID (unresolved p b g) = RejectionTxID p"
  by (simp_all add: unresolved_def)

lemma classify_shallow_ok:
  assumes k: "keys_ok s" and b: "base \<in> set (cell_tips s c w)"
  shows "position_ok s c base (classify_shallow base (cell_tips s c w))"
proof -
  let ?F = "above_with StatusFailed (tipGen base) (cell_tips s c w)"
  let ?A = "above_with StatusAttempting (tipGen base) (cell_tips s c w)"
  have F: "records_above s c StatusFailed (tipGen base) = tipGen ` set ?F"
    "card (records_above s c StatusFailed (tipGen base)) = length ?F"
    and A: "records_above s c StatusAttempting (tipGen base) = tipGen ` set ?A"
    using above_window [OF k b] by simp_all
  let ?n = "noteRejection no_position (tipGen base) (last ?F) (length ?F)"
  have rej: "?F \<noteq> [] \<Longrightarrow> length ?F \<le> maxWreckage \<Longrightarrow> RejectedAt ?n \<in> tipGen ` set ?F
      \<and> (\<forall>g \<in> tipGen ` set ?F. RejectedAt ?n \<le> g)
      \<and> CellAt s (RejectedAt ?n) c = Some (RejectionTxID ?n, StatusFailed, RejectionErr ?n)"
    using last_above [OF k, of StatusFailed "tipGen base" c w] by (simp add: noteRejection_fields)
  have p: "classify_shallow base (cell_tips s c w) =
     (if ?A = [] \<or> maxWreckage < length ?F then (if ?F = [] then no_position else ?n)
      else unresolved (if ?F = [] then no_position else ?n) (tipGen base) (tipGen (last ?A)))"
    by (simp only: classify_shallow_spec [OF window_sorted [OF k]] Let_def)
  consider "?F = []" | "?F \<noteq> []" "length ?F \<le> maxWreckage" | "?F \<noteq> []" "maxWreckage < length ?F"
    by fastforce
  then show ?thesis
  proof cases
    case 1
    then show ?thesis unfolding position_ok_def Let_def p F A by simp
  next
    case 2
    then show ?thesis using rej [OF 2] unfolding position_ok_def Let_def p F A
      by (simp add: noteRejection_fields maxWreckage_def F(2) [unfolded F(1)])
  next
    case 3
    then show ?thesis unfolding position_ok_def Let_def p F(1) A by (simp add: noteRejection_fields)
  qed
qed

lemma deep_above:
  assumes k: "keys_ok s" and b: "newest_where s c settles base"
  shows "Failed (DeepTip s c) = None \<longleftrightarrow> records_above s c StatusFailed (tipGen base) = {}"
    and "Attempt (DeepTip s c) = None \<longleftrightarrow> records_above s c StatusAttempting (tipGen base) = {}"
proof -
  have gen: "above (Some base) (newest s c False [st]) = None \<longleftrightarrow> records_above s c st (tipGen base) = {}" for st
  proof
    assume n: "above (Some base) (newest s c False [st]) = None"
    show "records_above s c st (tipGen base) = {}"
    proof (rule ccontr)
      assume "records_above s c st (tipGen base) \<noteq> {}"
      then obtain g i e where g: "tipGen base < g" "CellAt s g c = Some (i, st, e)"
        by (auto simp: records_above_def)
      have "newest_first s c (\<lambda>r. rowStatus r \<in> set [st] \<and> (False \<longrightarrow> rowTxID r \<noteq> '''')) \<noteq> []"
      proof -
        obtain r where "r \<in> set (cell_txs s)" "rowCell r = c" "rowStatus r = st"
          using g(2) by (auto simp: CellAt_Some [OF k])
        then show ?thesis using set_newest_first [of s c "\<lambda>r. rowStatus r \<in> set [st] \<and> (False \<longrightarrow> rowTxID r \<noteq> '''')"]
          by force
      qed
      then obtain t where t: "newest s c False [st] = Some t"
        by (cases "newest_first s c (\<lambda>r. rowStatus r \<in> set [st] \<and> (False \<longrightarrow> rowTxID r \<noteq> ''''))")
           (simp_all add: newest_def)
      then have "g \<le> tipGen t"
        using newest_iff [OF k, of c False "[st]" t] g(2) by (auto simp: newest_where_def)
      then show False using n t g(1) by (auto simp: above_def split: if_splits)
    qed
  next
    assume e: "records_above s c st (tipGen base) = {}"
    show "above (Some base) (newest s c False [st]) = None"
    proof (cases "newest s c False [st]")
      case None
      then show ?thesis by (simp add: above_def)
    next
      case (Some t)
      then have "CellAt s (tipGen t) c = Some (tipTxID t, st, tipErr t)"
        using newest_iff [OF k, of c False "[st]" t] by (auto simp: newest_where_def)
      then have "\<not> tipGen base < tipGen t" using e by (auto simp: records_above_def)
      then show ?thesis using Some by (simp add: above_def not_less)
    qed
  qed
  have s: "Settled (DeepTip s c) = Some base" using deep_settled_where [OF k] b by simp
  then show "Failed (DeepTip s c) = None \<longleftrightarrow> records_above s c StatusFailed (tipGen base) = {}"
    and "Attempt (DeepTip s c) = None \<longleftrightarrow> records_above s c StatusAttempting (tipGen base) = {}"
    using gen by (simp_all add: DeepTip_def Let_def)
qed

lemma classify_deep_ok:
  assumes k: "keys_ok s" and b: "newest_where s c settles base"
  shows "position_ok s c base (classify_deep base (DeepTip s c) n)"
  using deep_above [OF k b] by (cases "Failed (DeepTip s c)"; cases "Attempt (DeepTip s c)")
    (simp_all add: position_ok_def classify_deep_def)

lemma CellTips_window:
  "CellTips s n d = Inr records \<Longrightarrow> 0 \<le> c \<Longrightarrow> c < n \<Longrightarrow>
     0 < d \<and> records c = (if cell_tips s c (nat d) = [] then None else Some (cell_tips s c (nat d)))"
  by (auto simp: CellTips_def split: if_splits)

lemma classify_settled:
  assumes k: "keys_ok s" and rec: "CellTips s n tipDepth = Inr records" and c: "0 \<le> c" "c < n"
    and b: "newest_where s c settles base"
  shows "\<exists>p. classify d s records c = ((tipGen base, tipTxID base), p) \<and> position_ok s c base p"
proof -
  let ?w = "cell_tips s c (nat tipDepth)"
  have "CellAt s (tipGen base) c \<noteq> None" using b by (simp add: newest_where_def)
  then have ne: "?w \<noteq> []" using window_empty [OF k, of "nat tipDepth" c] by (auto simp: tipDepth_def)
  then have r: "records c = Some ?w" using CellTips_window [OF rec c] by simp
  show ?thesis
  proof (cases "newestSettled ?w")
    case None
    have "Settled (DeepTip s c) = Some base" using deep_settled_where [OF k] b by blast
    then show ?thesis
      using None ne classify_deep_ok [OF k b] by (simp add: classify_def r)
  next
    case (Some t)
    note w = newestSettled_where [OF k Some]
    have "t = base" using newest_where_unique [OF w(1) b] .
    then show ?thesis
      using Some ne classify_shallow_ok [OF k w(2)] by (simp add: classify_def r)
  qed
qed

lemma classify_fresh:
  assumes k: "keys_ok s" and rec: "CellTips s n tipDepth = Inr records" and c: "0 \<le> c" "c < n"
    and none: "\<forall>g. CellAt s g c = None"
  shows "classify d s records c = ((0, GenesisTxID d), no_position)"
proof -
  have "cell_tips s c (nat tipDepth) = []" using window_empty [OF k] none by (simp add: tipDepth_def)
  then show ?thesis using CellTips_window [OF rec c] by (simp add: classify_def)
qed

lemma classify_unsettled:
  assumes k: "keys_ok s" and rec: "CellTips s n tipDepth = Inr records" and c: "0 \<le> c" "c < n"
    and some: "CellAt s g c \<noteq> None" and none: "\<And>t. \<not> newest_where s c settles t"
  shows "\<exists>p why. classify d s records c = ((0, ''''), p) \<and> Halted p \<and> \<not> Unknown p \<and> \<not> Rejected p
     \<and> posTip p = no_chain"
proof -
  let ?w = "cell_tips s c (nat tipDepth)"
  have ne: "?w \<noteq> []" using window_empty [OF k, of "nat tipDepth" c] some by (auto simp: tipDepth_def)
  then have r: "records c = Some ?w" using CellTips_window [OF rec c] by simp
  have "newestSettled ?w = None" using newestSettled_where(1) [OF k] none by (cases "newestSettled ?w") auto
  moreover have "Settled (DeepTip s c) = None"
    using deep_settled_where [OF k] none by (cases "Settled (DeepTip s c)") auto
  ultimately show ?thesis using ne by (simp add: classify_def r no_position_def)
qed

subsection \<open>Rows, bytes and tips\<close>

definition nth_row :: "rule \<Rightarrow> row \<Rightarrow> nat \<Rightarrow> row" where
  "nth_row rule seed k = ((\<lambda>r. the (Step rule r)) ^^ k) seed"

lemma Step_total: "\<exists>r. Step rule row = Some r"
  using Step_spec by blast

lemma rows_loop_spec:
  assumes "k + n < 2 ^ 64"
  shows "\<exists>out. rows_loop rule wanted (map word_of_nat [k + 1..<k + n + 1]) (nth_row rule seed k) m = Some out
     \<and> (\<forall>g. out g = (if k < unat g \<and> unat g \<le> k + n \<and> wanted g then Some (nth_row rule seed (unat g)) else m g))"
  using assms
proof (induction n arbitrary: k m)
  case 0
  then show ?case by auto
next
  case (Suc n)
  let ?g = "word_of_nat (k + 1) :: u64"
  have g: "unat ?g = k + 1" unfolding unat_of_nat using Suc.prems by simp
  have eqg: "x = ?g \<longleftrightarrow> unat x = k + 1" for x using g by (metis word_unat_eq_iff)
  have l: "[k + 1..<k + Suc n + 1] = (k + 1) # [(k + 1) + 1..<(k + 1) + n + 1]"
    by (simp add: upt_rec)
  have st: "Step rule (nth_row rule seed k) = Some (nth_row rule seed (k + 1))"
    using Step_total [of rule "nth_row rule seed k"] by (auto simp: nth_row_def)
  let ?m = "if wanted ?g then m(?g \<mapsto> nth_row rule seed (k + 1)) else m"
  obtain out where o: "rows_loop rule wanted (map word_of_nat [(k + 1) + 1..<(k + 1) + n + 1])
       (nth_row rule seed (k + 1)) ?m = Some out"
    "\<forall>g. out g = (if k + 1 < unat g \<and> unat g \<le> k + 1 + n \<and> wanted g
        then Some (nth_row rule seed (unat g)) else ?m g)"
    using Suc.IH [of "k + 1" ?m] Suc.prems by auto
  have "rows_loop rule wanted (map word_of_nat [k + 1..<k + Suc n + 1]) (nth_row rule seed k) m = Some out"
    unfolding l list.map rows_loop.simps st option.case using o(1) by simp
  moreover have "out x = (if k < unat x \<and> unat x \<le> k + Suc n \<and> wanted x
      then Some (nth_row rule seed (unat x)) else m x)" for x
    using o(2) eqg [of x] by (cases "unat x = k + 1") auto
  ultimately show ?case by blast
qed

lemma computeRows_spec:
  "\<exists>rows. computeRows seed rule wanted highest = Some rows
     \<and> (\<forall>g. rows g = (if g \<le> highest \<and> wanted g then Some (nth_row rule seed (unat g)) else None))"
proof -
  have h: "0 + unat highest < 2 ^ 64" using unsigned_less [of highest] by simp
  have seed: "nth_row rule seed 0 = seed" by (simp add: nth_row_def)
  obtain out where o: "computeRows seed rule wanted highest = Some out"
    "\<forall>g. out g = (if 0 < unat g \<and> unat g \<le> unat highest \<and> wanted g then Some (nth_row rule seed (unat g))
       else (if wanted 0 then [0 \<mapsto> seed] else Map.empty) g)"
    using rows_loop_spec [OF h, of rule wanted seed "if wanted 0 then [0 \<mapsto> seed] else Map.empty"]
    by (auto simp: computeRows_def seed)
  have "out g = (if g \<le> highest \<and> wanted g then Some (nth_row rule seed (unat g)) else None)" for g
    using o(2) seed by (cases "g = 0") (auto simp: word_le_nat_alt unat_gt_0)
  with o(1) show ?thesis by blast
qed

lemma fold_max_ge: "m \<le> fold max gens (m :: u64)"
proof (induction gens arbitrary: m)
  case (Cons x xs)
  have "m \<le> max x m" by simp
  from this Cons.IH have "m \<le> fold max xs (max x m)" by (rule order_trans)
  then show ?case by simp
qed simp

lemma fold_max_mem: "g \<in> set gens \<Longrightarrow> g \<le> fold max gens (m :: u64)"
proof (induction gens arbitrary: m)
  case (Cons x xs)
  show ?case
  proof (cases "g = x")
    case True
    then have "g \<le> max x m" by simp
    from this fold_max_ge have "g \<le> fold max xs (max x m)" by (rule order_trans)
    then show ?thesis by simp
  qed (use Cons in simp)
qed simp

lemma fetch_loop_spec:
  "fetch_loop l tids out = Inr raws \<Longrightarrow> raws tid = Some raw \<Longrightarrow> out tid = Some raw \<or> RawTx l tid = Inr raw"
proof (induction l tids out rule: fetch_loop.induct)
  case (2 l t tids out)
  show ?case
  proof (cases "out t = None")
    case True
    then obtain r where r: "RawTx l t = Inr r" using "2.prems"(1) by (cases "RawTx l t") auto
    then have "fetch_loop l tids (out(t \<mapsto> r)) = Inr raws" using "2.prems"(1) True by simp
    then have "(out(t \<mapsto> r)) tid = Some raw \<or> RawTx l tid = Inr raw"
      using "2.IH"(2) [of r] r True "2.prems"(2) by (simp del: fun_upd_apply)
    then show ?thesis using r by (cases "tid = t") auto
  next
    case False
    then show ?thesis using "2.IH"(1) "2.prems" by simp
  qed
qed simp

lemma tips_loop_spec:
  "tips_loop K c rows raws cls = Inr ps \<Longrightarrow>
   list_all2 (\<lambda>(cell, (gen, tid), p) q. if tid = [] then q = p else \<exists>raw t. raws tid = Some raw
       \<and> DeriveTip K c cell gen (case rows gen of None \<Rightarrow> [] | Some row \<Rightarrow> row) tid raw = Inr t
       \<and> q = p\<lparr>posTip := t\<rparr>) cls ps"
  (is "_ \<Longrightarrow> list_all2 ?P cls ps")
proof (induction cls arbitrary: ps)
  case (Cons x rest)
  obtain cell gen tid p where x: "x = (cell, (gen, tid), p)" by (metis surj_pair)
  show ?case
  proof (cases "tid = []")
    case True
    then obtain qs where "tips_loop K c rows raws rest = Inr qs" "ps = p # qs"
      using Cons.prems x by (auto split: sum.splits)
    then show ?thesis using Cons.IH x True by simp
  next
    case False
    then obtain raw t qs where "raws tid = Some raw"
      "DeriveTip K c cell gen (case rows gen of None \<Rightarrow> [] | Some row \<Rightarrow> row) tid raw = Inr t"
      "tips_loop K c rows raws rest = Inr qs" "ps = p\<lparr>posTip := t\<rparr> # qs"
      using Cons.prems x by (auto split: sum.splits option.splits)
    then show ?thesis using Cons.IH x False by simp
  qed
qed simp

text \<open>What \<open>DeriveTips\<close> answers for one cell, from its classification.\<close>

lemma DeriveTips_cell:
  assumes der: "DeriveTips K l c d s = Inr out" and cell: "0 \<le> cell" "cell < dCells d"
  shows "\<exists>seed records gen tid p. Seed d = Inr seed \<and> CellTips s (dCells d) tipDepth = Inr records
     \<and> length out = nat (dCells d) \<and> classify d s records cell = ((gen, tid), p)
     \<and> (if tid = '''' then out ! nat cell = p else \<exists>raw t. RawTx l tid = Inr raw
         \<and> DeriveTip K c cell gen (nth_row (dRule d) seed (unat gen)) tid raw = Inr t
         \<and> out ! nat cell = p\<lparr>posTip := t\<rparr>)"
proof -
  obtain seed records where s: "Seed d = Inr seed" "CellTips s (dCells d) tipDepth = Inr records"
    using der by (auto simp: DeriveTips_def split: sum.splits)
  define cls where "cls = map (\<lambda>cell. (cell, classify d s records cell)) [0..dCells d - 1]"
  define gens where "gens = map fst (filter (\<lambda>(g, tid). tid \<noteq> '''') (map (fst \<circ> snd) cls))"
  define highest where "highest = fold max gens 0"
  obtain rows where rows: "computeRows seed (dRule d) (\<lambda>g. g \<in> set gens) highest = Some rows"
    "\<forall>g. rows g = (if g \<le> highest \<and> g \<in> set gens then Some (nth_row (dRule d) seed (unat g)) else None)"
    using computeRows_spec by blast
  define tids where "tids = concat (map (\<lambda>(cell, (g, tid), p).
      case HaltReason p of NothingSettled _ _ \<Rightarrow> [] | _ \<Rightarrow> [tid]) cls)"
  have "DeriveTips K l c d s = (case crossCheckRows s rows gens of
        Some g \<Rightarrow> Inl (RowDisagrees g)
      | None \<Rightarrow> (case fetchRaw l tids of Inl e \<Rightarrow> Inl (FetchFailed e) | Inr raws \<Rightarrow> tips_loop K c rows raws cls))"
    unfolding DeriveTips_def s sum.case Let_def cls_def [symmetric] gens_def [symmetric]
      highest_def [symmetric] rows(1) option.case tids_def [symmetric] ..
  then obtain raws where f: "fetchRaw l tids = Inr raws" "tips_loop K c rows raws cls = Inr out"
    using der by (auto split: sum.splits option.splits)
  note t = tips_loop_spec [OF f(2)]
  have len: "length cls = nat (dCells d)" by (simp add: cls_def)
  have nth: "cls ! nat cell = (cell, classify d s records cell)"
    using cell by (simp add: cls_def nth_upto)
  obtain gen tid p where cl: "classify d s records cell = ((gen, tid), p)" by (metis surj_pair)
  have at: "if tid = '''' then out ! nat cell = p else \<exists>raw t. raws tid = Some raw
       \<and> DeriveTip K c cell gen (case rows gen of None \<Rightarrow> [] | Some row \<Rightarrow> row) tid raw = Inr t
       \<and> out ! nat cell = p\<lparr>posTip := t\<rparr>"
    using list_all2_nthD [OF t, of "nat cell"] cell len nth cl by simp
  have "rows gen = Some (nth_row (dRule d) seed (unat gen))" if "tid \<noteq> ''''"
  proof -
    have "(cell, (gen, tid), p) \<in> set cls"
      using nth_mem [of "nat cell" cls] nth cl cell len by simp
    then have "gen \<in> set gens" using that by (force simp: gens_def)
    moreover from this have "gen \<le> highest" unfolding highest_def by (rule fold_max_mem)
    ultimately show ?thesis using rows(2) by simp
  qed
  moreover have "raws tid = Some raw \<Longrightarrow> RawTx l tid = Inr raw" for raw
    using fetch_loop_spec [OF f(1) [unfolded fetchRaw_def]] by auto
  moreover have "length out = nat (dCells d)" using list_all2_lengthD [OF t] len by simp
  ultimately show ?thesis using s cl at by (cases "tid = ''''") auto
qed

subsection \<open>Properties\<close>

lemma position_ok_tip [simp]: "position_ok s c base (p\<lparr>posTip := t\<rparr>) = position_ok s c base p"
  by (simp add: position_ok_def)

lemma DeriveTips_settled:
  assumes k: "keys_ok s" and der: "DeriveTips K l c d s = Inr out" and cell: "0 \<le> cell" "cell < dCells d"
    and t: "newest_where s cell settles t"
  shows "position_ok s cell t (out ! nat cell) \<and> (\<exists>seed raw. Seed d = Inr seed
     \<and> RawTx l (tipTxID t) = Inr raw \<and> DeriveTip K c cell (tipGen t)
         (nth_row (dRule d) seed (unat (tipGen t))) (tipTxID t) raw = Inr (posTip (out ! nat cell)))"
proof -
  obtain seed records gen tid p where e: "Seed d = Inr seed"
    "CellTips s (dCells d) tipDepth = Inr records"
    "classify d s records cell = ((gen, tid), p)"
    "if tid = '''' then out ! nat cell = p else \<exists>raw t. RawTx l tid = Inr raw
         \<and> DeriveTip K c cell gen (nth_row (dRule d) seed (unat gen)) tid raw = Inr t
         \<and> out ! nat cell = p\<lparr>posTip := t\<rparr>"
    using DeriveTips_cell [OF der cell] by blast
  have cl: "(gen, tid) = (tipGen t, tipTxID t)" and ok: "position_ok s cell t p"
    using classify_settled [OF k e(2) cell t, of d] e(3) by auto
  have "tid \<noteq> ''''" using t cl by (simp add: newest_where_def settles_def)
  then obtain raw u where "RawTx l tid = Inr raw"
    "DeriveTip K c cell gen (nth_row (dRule d) seed (unat gen)) tid raw = Inr u"
    "out ! nat cell = p\<lparr>posTip := u\<rparr>" using e(4) by auto
  then show ?thesis using e(1) cl ok by auto
qed

text \<open>Claim C8: a derived position is where the record says and what the bytes prove.  For a cell with a
  settled record (broadcast, seen or mined, naming a transaction) the tip is derived from the newest
  such record, however deep under wreckage it lies, at the row the automaton reaches from the seed
  in that many steps; a cell with no record at all stands, not halted, on its genesis output.\<close>

theorem derived_position_proved:
  assumes "DeriveTips K l c d (run_store pg ops) = Inr out" and "0 \<le> cell" and "cell < dCells d"
    and "GenesisTxID d \<noteq> ''''"
  shows "\<exists>seed. Seed d = Inr seed
     \<and> (\<forall>t. newest_where (run_store pg ops) cell settles t \<longrightarrow> (\<exists>raw. RawTx l (tipTxID t) = Inr raw
          \<and> DeriveTip K c cell (tipGen t) (nth_row (dRule d) seed (unat (tipGen t))) (tipTxID t) raw
              = Inr (posTip (out ! nat cell))))
     \<and> ((\<forall>g. CellAt (run_store pg ops) g cell = None) \<longrightarrow> \<not> Halted (out ! nat cell)
          \<and> (\<exists>raw. RawTx l (GenesisTxID d) = Inr raw
               \<and> DeriveTip K c cell 0 seed (GenesisTxID d) raw = Inr (posTip (out ! nat cell))))"
proof -
  obtain seed records gen tid p where e: "Seed d = Inr seed"
    "CellTips (run_store pg ops) (dCells d) tipDepth = Inr records"
    "classify d (run_store pg ops) records cell = ((gen, tid), p)"
    "if tid = '''' then out ! nat cell = p else \<exists>raw t. RawTx l tid = Inr raw
         \<and> DeriveTip K c cell gen (nth_row (dRule d) seed (unat gen)) tid raw = Inr t
         \<and> out ! nat cell = p\<lparr>posTip := t\<rparr>"
    using DeriveTips_cell [OF assms(1-3)] by blast
  have fresh: "\<not> Halted (out ! nat cell) \<and> (\<exists>raw. RawTx l (GenesisTxID d) = Inr raw
      \<and> DeriveTip K c cell 0 seed (GenesisTxID d) raw = Inr (posTip (out ! nat cell)))"
    if none: "\<forall>g. CellAt (run_store pg ops) g cell = None"
    using classify_fresh [OF keys_ok_run e(2) assms(2,3) none, of d] e(3,4) assms(4)
    by (auto simp: nth_row_def)
  show ?thesis
    using e(1) fresh DeriveTips_settled [OF keys_ok_run assms(1-3)] by auto
qed

text \<open>Claim C9: the halt is reconstructed from the same rows as the tip: a cell is halted exactly when a
  rejection or an unresolved attempt lies above its newest settled record, or when it has records but
  none that settled; in the last case its tip is left empty and no repair is offered.\<close>

theorem derive_halts_exact:
  assumes "DeriveTips K l c d (run_store pg ops) = Inr out" and "0 \<le> cell" and "cell < dCells d"
  shows "let s = run_store pg ops; p = out ! nat cell in
     (\<forall>t. newest_where s cell settles t \<longrightarrow>
        (Halted p \<longleftrightarrow> records_above s cell StatusFailed (tipGen t) \<union> records_above s cell StatusAttempting (tipGen t) \<noteq> {}))
   \<and> ((\<exists>g. CellAt s g cell \<noteq> None) \<and> (\<forall>t. \<not> newest_where s cell settles t) \<longrightarrow>
        Halted p \<and> \<not> Unknown p \<and> \<not> Rejected p \<and> posTip p = no_chain)"
proof -
  define s where "s = run_store pg ops"
  define p where "p = out ! nat cell"
  have k: "keys_ok s" by (simp add: s_def keys_ok_run)
  have settled: "Halted p \<longleftrightarrow> records_above s cell StatusFailed (tipGen t)
      \<union> records_above s cell StatusAttempting (tipGen t) \<noteq> {}" if "newest_where s cell settles t" for t
    using DeriveTips_settled [OF keys_ok_run assms that [unfolded s_def]]
    by (simp add: position_ok_def Let_def s_def p_def)
  have unsettled: "Halted p \<and> \<not> Unknown p \<and> \<not> Rejected p \<and> posTip p = no_chain"
    if some: "CellAt s g cell \<noteq> None" and none: "\<forall>t. \<not> newest_where s cell settles t" for g
  proof -
    obtain records gen tid q where e: "CellTips s (dCells d) tipDepth = Inr records"
      "classify d s records cell = ((gen, tid), q)" "tid = '''' \<Longrightarrow> p = q"
      using DeriveTips_cell [OF assms] unfolding s_def p_def by (metis (no_types, lifting))
    show ?thesis
      using classify_unsettled [OF k e(1) assms(2,3) some, of d] none e(2,3) by auto
  qed
  show ?thesis unfolding Let_def s_def [symmetric] p_def [symmetric] using settled unsettled by blast
qed

text \<open>Claim C10: no repair is offered for a cascade.  A cell reported as rejected or as unknown has at most
  three rejections above its newest settled record, counted over the whole record and not over the
  window; what it reports as rejected is the oldest of them, with its own txid and reason, and what
  it reports as attempted is the tip's successor.\<close>

theorem cascade_withheld:
  assumes "DeriveTips K l c d (run_store pg ops) = Inr out" and "0 \<le> cell" and "cell < dCells d"
    and "newest_where (run_store pg ops) cell settles t"
  shows "let s = run_store pg ops; p = out ! nat cell; failed = records_above s cell StatusFailed (tipGen t) in
     (Rejected p \<or> Unknown p \<longrightarrow> Halted p \<and> card failed \<le> 3)
   \<and> (Rejected p \<longrightarrow> RejectedAt p \<in> failed \<and> (\<forall>g \<in> failed. RejectedAt p \<le> g)
        \<and> CellAt s (RejectedAt p) cell = Some (RejectionTxID p, StatusFailed, RejectionErr p))
   \<and> (Unknown p \<longrightarrow> records_above s cell StatusAttempting (tipGen t) \<noteq> {} \<and> Attempted p = tipGen t + 1)"
  using DeriveTips_settled [OF keys_ok_run assms, THEN conjunct1, unfolded position_ok_def Let_def]
  unfolding Let_def by blast

definition demo_deployment :: deployment where
  "demo_deployment = \<lparr>dCells = 8, dRule = Rule110, GenesisTxID = ''aa'', dSeedHex = ''01'',
     CellSatoshis = 1, legacyTips = []\<rparr>"

definition demo_ops :: "store_op list" where
  "demo_ops = [OpRecordTx 1 \<lparr>txGen = 1, txCell = 0, txTxID = ''bb'', txStatus = StatusSeen, txErr = ''''\<rparr>,
     OpRecordTx 2 \<lparr>txGen = 2, txCell = 0, txTxID = ''cc'', txStatus = StatusFailed, txErr = ''no''\<rparr>]"

definition demo_positions :: "cell_position list" where
  "demo_positions = no_position\<lparr>posTip := demo_next, Halted := True, HaltReason := RejectedOne 2 1 ''no'',
       Rejected := True, RejectedAt := 2, RejectionErr := ''no'', RejectionTxID := ''cc''\<rparr>
     # map (\<lambda>i. no_position\<lparr>posTip := demo_tip i\<rparr>) [1, 2, 3, 4, 5, 6, 7]"

lemma demo_derived:
  "DeriveTips demo_codec (demo_ledger []) demo_compiled demo_deployment (run_store False demo_ops) = Inr demo_positions"
  by code_simp

lemma demo_settled:
  "newest_where (run_store False demo_ops) 0 settles
     \<lparr>tipCell = 0, tipGen = 1, tipTxID = ''bb'', tipStatus = StatusSeen, tipErr = ''''\<rparr>"
proof -
  have "Settled (DeepTip (run_store False demo_ops) 0) =
     Some \<lparr>tipCell = 0, tipGen = 1, tipTxID = ''bb'', tipStatus = StatusSeen, tipErr = ''''\<rparr>"
    by code_simp
  then show ?thesis using deep_settled_where [OF keys_ok_run] by blast
qed

theorem derived_position_proved_witness:
  "\<exists>seed raw. Seed demo_deployment = Inr seed \<and> RawTx (demo_ledger []) ''bb'' = Inr raw
     \<and> DeriveTip demo_codec demo_compiled 0 1 (nth_row Rule110 seed 1) ''bb'' raw = Inr demo_next"
proof -
  have d: "GenesisTxID demo_deployment \<noteq> ''''" "dCells demo_deployment = 8" "dRule demo_deployment = Rule110"
    by (simp_all add: demo_deployment_def)
  have p: "posTip (demo_positions ! nat 0) = demo_next" by (simp add: demo_positions_def)
  show ?thesis
    using derived_position_proved [OF demo_derived, of 0] demo_settled d p by fastforce
qed

theorem derive_halts_exact_witness:
  "Halted (demo_positions ! 0)
   \<and> records_above (run_store False demo_ops) 0 StatusFailed 1
       \<union> records_above (run_store False demo_ops) 0 StatusAttempting 1 \<noteq> {}"
proof -
  have h: "Halted (demo_positions ! nat 0)" by (simp add: demo_positions_def)
  show ?thesis
    using derive_halts_exact [OF demo_derived, of 0] demo_settled h
    by (simp add: demo_deployment_def Let_def)
qed

theorem cascade_withheld_witness:
  "CellAt (run_store False demo_ops) 2 0 = Some (''cc'', StatusFailed, ''no'')
   \<and> card (records_above (run_store False demo_ops) 0 StatusFailed 1) \<le> 3"
  using cascade_withheld [OF demo_derived _ _ demo_settled]
  by (simp add: demo_deployment_def demo_positions_def Let_def)

end
