(* ===== verification/EngineRecovery.thy ===== *)
theory EngineRecovery
  imports Derive
begin

text \<open>
  Recovery as the engine runs it, \<open>internal/engine/recovery.go\<close>: which decision each derived position
  is put to, what applying a decision writes to the record, and the pass over the ring.  The
  decisions themselves are those of \<open>ChainRecover\<close>; the record's own errors are not modelled, so the
  only error left is the store's refusal of a rejection that names no transaction.
\<close>

record recover_options =
  Apply :: bool
  RetryRefused :: bool

type_synonym cell_recovery = "int \<times> recovery"

definition isSpentTip :: "cell_position \<Rightarrow> bool" where
  "isSpentTip p = (Rejected p \<and> IsUTXOSpent (RejectionErr p))"

definition isNeverBroadcast :: "cell_position \<Rightarrow> bool" where
  "isNeverBroadcast p = (Rejected p \<and> IsNotBroadcast (RejectionErr p))"

definition recoverSpentTip :: "tx_codec \<Rightarrow> ledger \<Rightarrow> tx_status option \<Rightarrow> compiled \<Rightarrow> deployment \<Rightarrow> store
    \<Rightarrow> cell_position \<Rightarrow> recovery" where
  "recoverSpentTip K l arcade c d s p =
     (case Row (posTip p) (dCells d) of
        Inl e \<Rightarrow> halt (OfSpent (TipRowUnreadable (Cell (posTip p)) e))
      | Inr row \<Rightarrow>
         (case Step (dRule d) row of
            None \<Rightarrow> halt (OfSpent (TipRowPanicked (Cell (posTip p))))
          | Some nxt \<Rightarrow> RecoverSpentTip K l arcade c (posTip p) (RejectionErr p) nxt (\<lambda>tid. Inr (HasTxID s tid))))"

text \<open>The two explanations of a rejection: a tip of ours already spent by a transaction we lost, or a
  verdict about a parent the cell no longer has.  The second may overrule a halt of the first, never
  an adoption.\<close>

definition explained :: "tx_codec \<Rightarrow> ledger \<Rightarrow> tx_status option \<Rightarrow> compiled \<Rightarrow> deployment \<Rightarrow> store
    \<Rightarrow> cell_position \<Rightarrow> recovery" where
  "explained K l arcade c d s p =
     (let stale = RecoverStaleRejection K l (posTip p) (RejectedAt p) (RejectionTxID p) (RejectionErr p) in
      if \<not> isSpentTip p then stale
      else let r = recoverSpentTip K l arcade c d s p in
        if Verdict r \<noteq> VerdictHalt then r
        else if Verdict stale \<noteq> VerdictResume then r
        else stale)"

definition recoverRejected :: "tx_codec \<Rightarrow> ledger \<Rightarrow> tx_status option \<Rightarrow> compiled \<Rightarrow> deployment \<Rightarrow> store
    \<Rightarrow> cell_position \<Rightarrow> recover_options \<Rightarrow> recovery" where
  "recoverRejected K l arcade c d s p opts =
     (if isNeverBroadcast p
      then RecoverNotBroadcast (posTip p) (RejectedAt p) (RejectionTxID p) (RejectionErr p)
      else let r = explained K l arcade c d s p in
        if Verdict r \<noteq> VerdictHalt \<or> \<not> RetryRefused opts then r
        else let retry = RetryRefusal K l (posTip p) (RejectedAt p) (RejectionTxID p) (RejectionErr p) in
          if Verdict retry \<noteq> VerdictResume then r else retry)"

text \<open>\<open>None\<close> is a cell recovery does not consider.\<close>

definition decideCell :: "tx_codec \<Rightarrow> ledger \<Rightarrow> tx_status option \<Rightarrow> compiled \<Rightarrow> deployment \<Rightarrow> store
    \<Rightarrow> cell_position \<Rightarrow> recover_options \<Rightarrow> recovery option" where
  "decideCell K l arcade c d s p opts =
     (if Unknown p
      then Some (RecoverCell K l c (posTip p) (Attempted p) (dCells d) (dRule d) tipDepth)
      else if Rejected p then Some (recoverRejected K l arcade c d s p opts)
      else None)"

subsection \<open>Applying a decision\<close>

definition record_step :: "int \<Rightarrow> int \<Rightarrow> cell_chain \<Rightarrow> store \<Rightarrow> store" where
  "record_step now cell step s =
     RecordTx (RecordGeneration s (Generation step) (RowHex step)) now
       \<lparr>txGen = Generation step, txCell = cell, txTxID = TxID step, txStatus = StatusBroadcast, txErr = ''''\<rparr>"

definition applyRecovery :: "int \<Rightarrow> store \<Rightarrow> int \<Rightarrow> cell_position \<Rightarrow> recovery \<Rightarrow> history_error + store \<times> cell_position" where
  "applyRecovery now s cell p r =
     (case Verdict r of
        VerdictAdopt \<Rightarrow> Inr (fold (record_step now cell) (Steps r) s, no_position\<lparr>posTip := Tip r\<rparr>)
      | VerdictResume \<Rightarrow>
         (let done = no_position\<lparr>posTip := Tip r\<rparr> in
          if Unknown p then Inr (DeleteAttempt s (Attempted p) cell, done)
          else if Rejected p \<and> RejectionTxID p = '''' then Inr (DeleteUnsignedRejection s (RejectedAt p) cell, done)
          else if Rejected p
          then (case DeleteRejection s (RejectedAt p) cell (RejectionTxID p) of
                  Inl e \<Rightarrow> Inl e
                | Inr s' \<Rightarrow> Inr (s', done))
          else Inr (s, done))
      | VerdictHalt \<Rightarrow> Inr (s, p\<lparr>HaltReason := RecoveryHalt (Reason r)\<rparr>))"

text \<open>The loop of \<open>Recover\<close> over the cells in order: the positions out, the decisions, the store.\<close>

fun recover_loop :: "tx_codec \<Rightarrow> ledger \<Rightarrow> tx_status option \<Rightarrow> compiled \<Rightarrow> deployment \<Rightarrow> recover_options \<Rightarrow> int
    \<Rightarrow> int \<Rightarrow> cell_position list \<Rightarrow> store \<Rightarrow> history_error + store \<times> cell_position list \<times> cell_recovery list" where
  "recover_loop K l arcade c d opts now cell [] s = Inr (s, [], [])"
| "recover_loop K l arcade c d opts now cell (p # ps) s =
     (case decideCell K l arcade c d s p opts of
        None \<Rightarrow>
          (case recover_loop K l arcade c d opts now (cell + 1) ps s of
             Inl e \<Rightarrow> Inl e
           | Inr (s', out, ds) \<Rightarrow> Inr (s', p # out, ds))
      | Some r \<Rightarrow>
          (case (if Apply opts then applyRecovery now s cell p r else Inr (s, p)) of
             Inl e \<Rightarrow> Inl e
           | Inr (s1, q) \<Rightarrow>
              (case recover_loop K l arcade c d opts now (cell + 1) ps s1 of
                 Inl e \<Rightarrow> Inl e
               | Inr (s', out, ds) \<Rightarrow> Inr (s', q # out, (cell, r) # ds))))"

definition Recover :: "tx_codec \<Rightarrow> ledger \<Rightarrow> tx_status option \<Rightarrow> compiled \<Rightarrow> deployment \<Rightarrow> int \<Rightarrow> store
    \<Rightarrow> cell_position list \<Rightarrow> recover_options \<Rightarrow> history_error + store \<times> cell_position list \<times> cell_recovery list" where
  "Recover K l arcade c d now s ps opts = recover_loop K l arcade c d opts now 0 ps s"


subsection \<open>What every decision keeps\<close>

lemma chained_nth:
  "chained K c n rule tip ss \<Longrightarrow> i < length ss \<Longrightarrow>
     Generation (ss ! i) = Generation tip + 1 + of_nat i \<and> Cell (ss ! i) = Cell tip"
proof (induction ss arbitrary: tip i)
  case (Cons s ss)
  have s: "Cell s = Cell tip \<and> Generation s = Generation tip + 1"
    using Cons.prems(1) VerifySuccessor_fields by (auto split: sum.splits)
  show ?case
  proof (cases i)
    case (Suc j)
    then show ?thesis using Cons.IH [of s j] Cons.prems s by (simp add: algebra_simps)
  qed (use s in simp)
qed simp

lemma cell_steps:
  "Verdict (RecoverCell K l c tip attempted n rule maxWalk) = VerdictAdopt \<Longrightarrow>
   i < length (Steps (RecoverCell K l c tip attempted n rule maxWalk)) \<Longrightarrow>
     Generation (Steps (RecoverCell K l c tip attempted n rule maxWalk) ! i) = Generation tip + 1 + of_nat i"
  using recover_cell_ok [of K c n rule tip maxWalk l attempted] chained_nth by (fastforce simp: walk_ok_def)

lemma spent_steps:
  assumes "Verdict (RecoverSpentTip K l orc c tip rejection nxt onRecord) = VerdictAdopt"
    and "i < length (Steps (RecoverSpentTip K l orc c tip rejection nxt onRecord))"
  shows "Generation (Steps (RecoverSpentTip K l orc c tip rejection nxt onRecord) ! i) = Generation tip + 1 + of_nat i"
proof -
  obtain adopted why tid raw where a: "RecoverSpentTip K l orc c tip rejection nxt onRecord =
      \<lparr>Verdict = VerdictAdopt, Tip = adopted, Reason = why, Steps = [adopted]\<rparr>"
    "DeriveTip K c (Cell tip) (Generation tip + 1) nxt tid raw = Inr adopted"
    using assms(1) unfolding spent_adopt by blast
  then show ?thesis using assms(2) DeriveTip_fields [OF a(2)] by simp
qed

text \<open>A decision whose steps can be written to the record: besides the contract of every recovery
  decision, the steps of an adoption are the generations above the tip in order.\<close>

locale recorded_decision = recovery_decision decide for decide :: "cell_chain \<Rightarrow> 'e \<Rightarrow> recovery" +
  assumes step_gen: "Verdict (decide tip e) = VerdictAdopt \<Longrightarrow> i < length (Steps (decide tip e)) \<Longrightarrow>
    Generation (Steps (decide tip e) ! i) = Generation tip + 1 + of_nat i"
begin

lemma step_at:
  assumes "Verdict (decide tip e) = VerdictAdopt" and fits: "unat (Generation tip) + length (Steps (decide tip e)) < 2 ^ 64"
  shows "{k. k < length (Steps (decide tip e)) \<and> Generation (Steps (decide tip e) ! k) = g} =
     (if unat (Generation tip) < unat g \<and> unat g \<le> unat (Generation tip) + length (Steps (decide tip e))
      then {unat g - unat (Generation tip) - 1} else {})"
proof -
  have "unat (Generation (Steps (decide tip e) ! k)) = unat (Generation tip) + 1 + k"
    if "k < length (Steps (decide tip e))" for k
  proof -
    have "unat (Generation tip) + 1 + k < 2 ^ 64" using fits that by simp
    then show ?thesis unfolding step_gen [OF assms(1) that] by (simp add: unat_word_ariths unat_of_nat)
  qed
  then show ?thesis by (auto simp: word_unat_eq_iff)
qed

lemma newest_step:
  assumes "Verdict (decide tip e) = VerdictAdopt" and "unat (Generation tip) + length (Steps (decide tip e)) < 2 ^ 64"
    and "k < length (Steps (decide tip e))"
  shows "Generation tip < Generation (Steps (decide tip e) ! k)
     \<and> Generation (Steps (decide tip e) ! k) \<le> Generation (Tip (decide tip e))"
proof -
  let ?n = "length (Steps (decide tip e))"
  have st: "unat (Generation (Steps (decide tip e) ! j)) = unat (Generation tip) + 1 + j" if "j < ?n" for j
  proof -
    have "unat (Generation tip) + 1 + j < 2 ^ 64" using assms(2) that by simp
    then show ?thesis unfolding step_gen [OF assms(1) that] by (simp add: unat_word_ariths unat_of_nat)
  qed
  have "Tip (decide tip e) = Steps (decide tip e) ! (?n - 1)"
    using adopt_steps [OF assms(1)] by (simp add: last_conv_nth)
  then show ?thesis using st [of k] st [of "?n - 1"] assms(3) by (simp add: word_less_nat_alt word_le_nat_alt)
qed

end

text \<open>What the engine decides for a considered cell, as a function of the tip and the rest.\<close>

definition decided :: "tx_codec \<Rightarrow> ledger \<Rightarrow> tx_status option \<Rightarrow> compiled \<Rightarrow> deployment \<Rightarrow> store
    \<Rightarrow> recover_options \<Rightarrow> cell_chain \<Rightarrow> cell_position \<Rightarrow> recovery" where
  "decided K l arcade c d s opts tip p =
     (if Unknown p then RecoverCell K l c tip (Attempted p) (dCells d) (dRule d) tipDepth
      else recoverRejected K l arcade c d s (p\<lparr>posTip := tip\<rparr>) opts)"

lemma decideCell_decided:
  "decideCell K l arcade c d s p opts =
     (if Unknown p \<or> Rejected p then Some (decided K l arcade c d s opts (posTip p) p) else None)"
  by (simp add: decideCell_def decided_def)

lemma recoverSpentTip_cases:
  obtains (halted) r where "recoverSpentTip K l arcade c d s p = halt r"
  | (asked) nxt row where "Row (posTip p) (dCells d) = Inr row" "Step (dRule d) row = Some nxt"
      "recoverSpentTip K l arcade c d s p =
         RecoverSpentTip K l arcade c (posTip p) (RejectionErr p) nxt (\<lambda>tid. Inr (HasTxID s tid))"
proof (cases "Row (posTip p) (dCells d)")
  case (Inl e)
  then show ?thesis using halted by (simp add: recoverSpentTip_def)
next
  case (Inr row)
  then show ?thesis using halted asked by (cases "Step (dRule d) row") (simp_all add: recoverSpentTip_def)
qed

text \<open>A rejection is resumed by one of three decisions or adopted by the one that looks for a lost
  transaction of ours.\<close>

lemma recoverRejected_cases:
  assumes "Verdict (recoverRejected K l arcade c d s p opts) \<noteq> VerdictHalt"
  obtains (unsigned) "recoverRejected K l arcade c d s p opts =
       RecoverNotBroadcast (posTip p) (RejectedAt p) (RejectionTxID p) (RejectionErr p)"
  | (stale) "recoverRejected K l arcade c d s p opts =
       RecoverStaleRejection K l (posTip p) (RejectedAt p) (RejectionTxID p) (RejectionErr p)"
  | (retried) "RetryRefused opts" "recoverRejected K l arcade c d s p opts =
       RetryRefusal K l (posTip p) (RejectedAt p) (RejectionTxID p) (RejectionErr p)"
  | (spent) nxt row where "Row (posTip p) (dCells d) = Inr row" "Step (dRule d) row = Some nxt"
      "recoverRejected K l arcade c d s p opts =
         RecoverSpentTip K l arcade c (posTip p) (RejectionErr p) nxt (\<lambda>tid. Inr (HasTxID s tid))"
proof (cases "isNeverBroadcast p")
  case True
  then show ?thesis using unsigned by (simp add: recoverRejected_def)
next
  case False
  let ?e = "explained K l arcade c d s p"
  show ?thesis
  proof (cases "Verdict ?e = VerdictHalt")
    case True
    then show ?thesis using assms False retried by (auto simp: recoverRejected_def Let_def split: if_splits)
  next
    case e: False
    then have r: "recoverRejected K l arcade c d s p opts = ?e" using False by (simp add: recoverRejected_def)
    show ?thesis
    proof (cases "isSpentTip p \<and> ?e = recoverSpentTip K l arcade c d s p")
      case True
      then show ?thesis using e r spent by (cases rule: recoverSpentTip_cases [of K l arcade c d s p]) simp_all
    next
      case False
      then show ?thesis using r stale by (auto simp: explained_def Let_def split: if_splits)
    qed
  qed
qed

interpretation engine_decision: recorded_decision "decided K l arcade c d s opts" for K l arcade c d s opts
proof (unfold_locales)
  fix tip p
  let ?r = "decided K l arcade c d s opts tip p"
  have "(Verdict ?r = VerdictResume \<longrightarrow> Tip ?r = tip \<and> Steps ?r = [])
    \<and> (Verdict ?r = VerdictAdopt \<longrightarrow> (Steps ?r \<noteq> [] \<and> Tip ?r = last (Steps ?r))
       \<and> Cell (Tip ?r) = Cell tip \<and> Satoshis_of (Tip ?r) = Satoshis_of tip
          \<and> Generation (Tip ?r) = Generation tip + of_nat (length (Steps ?r))
       \<and> (\<forall>i < length (Steps ?r). Generation (Steps ?r ! i) = Generation tip + 1 + of_nat i))"
  proof (cases "Unknown p")
    case True
    then show ?thesis
      using cell_decision.resume_keeps cell_decision.adopt_steps cell_decision.adopt_keeps cell_steps
      by (simp add: decided_def)
  next
    case False
    then have r: "?r = recoverRejected K l arcade c d s (p\<lparr>posTip := tip\<rparr>) opts" by (simp add: decided_def)
    show ?thesis
    proof (cases "Verdict ?r = VerdictHalt")
      case nh: False
      show ?thesis
        using nh [unfolded r]
      proof (cases rule: recoverRejected_cases)
        case (spent nxt row)
        note rr = r [unfolded spent(3), simplified]
        show ?thesis unfolding rr
          using spent_never_resumes [of K l arcade c tip "RejectionErr p" nxt "\<lambda>tid. Inr (HasTxID s tid)"]
            spent_decision.adopt_steps [where tip = tip and e = "(RejectionErr p, nxt)"]
            spent_decision.adopt_keeps [where tip = tip and e = "(RejectionErr p, nxt)"]
            spent_steps [of K l arcade c tip "RejectionErr p" nxt "\<lambda>tid. Inr (HasTxID s tid)"]
          by simp
      next
        case unsigned
        show ?thesis unfolding r unsigned
          using unsigned_decision.resume_keeps [where tip = tip and e = "(RejectedAt p, RejectionTxID p, RejectionErr p)"]
          by (simp add: rejection_tips)
      next
        case stale
        show ?thesis unfolding r stale
          using stale_decision.resume_keeps [where tip = tip and e = "(RejectedAt p, RejectionTxID p, RejectionErr p)"]
          by (simp add: rejection_tips)
      next
        case retried
        show ?thesis unfolding r retried
          using retry_decision.resume_keeps [where tip = tip and e = "(RejectedAt p, RejectionTxID p, RejectionErr p)"]
          by (simp add: rejection_tips)
      qed
    qed simp
  qed
  note this [rule_format]
  then show "Verdict ?r = VerdictResume \<Longrightarrow> Tip ?r = tip \<and> Steps ?r = []"
    and "Verdict ?r = VerdictAdopt \<Longrightarrow> Steps ?r \<noteq> [] \<and> Tip ?r = last (Steps ?r)"
    and "Verdict ?r = VerdictAdopt \<Longrightarrow> Cell (Tip ?r) = Cell tip \<and> Satoshis_of (Tip ?r) = Satoshis_of tip
          \<and> Generation (Tip ?r) = Generation tip + of_nat (length (Steps ?r))"
    and "\<And>i. Verdict ?r = VerdictAdopt \<Longrightarrow> i < length (Steps ?r) \<Longrightarrow> Generation (Steps ?r ! i) = Generation tip + 1 + of_nat i"
    by blast+
qed

subsection \<open>What applying a decision changes\<close>

lemma CellAt_generation [store_simps]: "CellAt (RecordGeneration s n h) g c = CellAt s g c"
  by (simp add: RecordGeneration_def CellAt_def)

lemma keys_ok_generation: "keys_ok s \<Longrightarrow> keys_ok (RecordGeneration s n h)"
  using keys_ok_step [of s "OpRecordGeneration n h"] by simp

lemma keys_ok_record: "keys_ok s \<Longrightarrow> keys_ok (RecordTx s now t)"
  using keys_ok_step [of s "OpRecordTx now t"] by simp

lemma record_steps:
  "CellAt (fold (record_step now cell) ss s) g c =
     (case find (\<lambda>x. Generation x = g) (rev ss) of
        None \<Rightarrow> CellAt s g c
      | Some x \<Rightarrow> if c = cell then Some (TxID x, StatusBroadcast, '''') else CellAt s g c)"
  by (induction ss rule: rev_induct) (auto simp: record_step_def CellAt_record CellAt_generation split: option.splits)

lemma keys_ok_steps: "keys_ok s \<Longrightarrow> keys_ok (fold (record_step now cell) ss s)"
  by (induction ss arbitrary: s) (auto simp: record_step_def keys_ok_generation keys_ok_record)

text \<open>The row a resume takes back.\<close>

definition retracted_gen :: "cell_position \<Rightarrow> u64" where
  "retracted_gen p = (if Unknown p then Attempted p else RejectedAt p)"

definition retracts :: "cell_position \<Rightarrow> txid \<times> status \<times> string \<Rightarrow> bool" where
  "retracts p v = (if Unknown p then fst (snd v) = StatusAttempting
     else Rejected p \<and> fst (snd v) = StatusFailed \<and> fst v = RejectionTxID p)"

definition applied :: "store \<Rightarrow> store \<Rightarrow> int \<Rightarrow> cell_position \<Rightarrow> recovery \<Rightarrow> cell_position \<Rightarrow> bool" where
  "applied s s' cell p r q = (case Verdict r of
     VerdictHalt \<Rightarrow> q = p\<lparr>HaltReason := RecoveryHalt (Reason r)\<rparr> \<and> (\<forall>g. CellAt s' g cell = CellAt s g cell)
   | VerdictResume \<Rightarrow> q = no_position\<lparr>posTip := posTip p\<rparr>
       \<and> (\<forall>g. CellAt s' g cell = (case CellAt s g cell of None \<Rightarrow> None
            | Some v \<Rightarrow> if g = retracted_gen p \<and> retracts p v then None else Some v))
   | VerdictAdopt \<Rightarrow> q = no_position\<lparr>posTip := last (Steps r)\<rparr>
       \<and> (\<forall>g. CellAt s' g cell = (case find (\<lambda>x. Generation x = g) (rev (Steps r)) of
              None \<Rightarrow> CellAt s g cell
            | Some x \<Rightarrow> Some (TxID x, StatusBroadcast, ''''))))"

lemma apply_recovery:
  assumes k: "keys_ok s" and dec: "decideCell K l arcade c d s1 p opts = Some r"
  obtains s' q where "applyRecovery now s cell p r = Inr (s', q)" "applied s s' cell p r q" "keys_ok s'"
    "\<And>g c'. c' \<noteq> cell \<Longrightarrow> CellAt s' g c' = CellAt s g c'"
proof (cases "Verdict r")
  case VerdictHalt
  then show ?thesis using that [of s] k by (simp add: applyRecovery_def applied_def)
next
  case VerdictAdopt
  have r: "r = decided K l arcade c d s1 opts (posTip p) p" using dec by (auto simp: decideCell_decided split: if_splits)
  show ?thesis
  proof (rule that)
    show "applyRecovery now s cell p r = Inr (fold (record_step now cell) (Steps r) s, no_position\<lparr>posTip := Tip r\<rparr>)"
      using VerdictAdopt by (simp add: applyRecovery_def)
    have "Tip r = last (Steps r)" using engine_decision.adopt_steps VerdictAdopt unfolding r by blast
    then show "applied s (fold (record_step now cell) (Steps r) s) cell p r (no_position\<lparr>posTip := Tip r\<rparr>)"
      using VerdictAdopt by (auto simp: applied_def record_steps split: option.split)
    show "keys_ok (fold (record_step now cell) (Steps r) s)" using k by (rule keys_ok_steps)
    show "CellAt (fold (record_step now cell) (Steps r) s) g c' = CellAt s g c'" if "c' \<noteq> cell" for g c'
      using that by (simp add: record_steps split: option.split)
  qed
next
  case VerdictResume
  have r: "r = decided K l arcade c d s1 opts (posTip p) p" and p: "Unknown p \<or> Rejected p"
    using dec by (auto simp: decideCell_decided split: if_splits)
  have t: "Tip r = posTip p" using engine_decision.resume_keeps VerdictResume unfolding r by blast
  define P where "P = (\<lambda>q :: cell_row. rowGen q = retracted_gen p \<and> rowCell q = cell
     \<and> retracts p (rowTxID q, rowStatus q, rowErr q))"
  have "applyRecovery now s cell p r = Inr (delete_rows P s, no_position\<lparr>posTip := posTip p\<rparr>)"
    using VerdictResume p t
    by (auto simp: applyRecovery_def Let_def P_def retracted_gen_def retracts_def DeleteAttempt_def
        DeleteUnsignedRejection_def DeleteRejection_def conj_commute cong: conj_cong)
  moreover have at: "CellAt (delete_rows P s) g c' = (if g = retracted_gen p \<and> c' = cell then
      (case CellAt s (retracted_gen p) cell of None \<Rightarrow> None | Some v \<Rightarrow> if retracts p v then None else Some v)
    else CellAt s g c')" for g c'
    by (rule CellAt_delete [OF k]) (simp add: P_def)
  moreover have "keys_ok (delete_rows P s)" using k by (rule keys_ok_delete)
  ultimately show ?thesis
    using that VerdictResume by (auto simp: applied_def split: option.split)
qed

subsection \<open>The whole pass\<close>

text \<open>The reference for the decision of a cell: which of the five is asked, as a table of their verdicts.  An unresolved
  attempt is put to \<open>RecoverCell\<close>.  A rejection our own sentinel explains is put to \<open>RecoverNotBroadcast\<close> and no
  other; of the rest, an adoption of the transaction the refusal names comes first, then a stale rejection, then, if
  asked for, the retry; and when nothing frees the cell the more specific halt stands.\<close>

definition rejection_table :: "tx_codec \<Rightarrow> ledger \<Rightarrow> tx_status option \<Rightarrow> compiled \<Rightarrow> deployment \<Rightarrow> store
    \<Rightarrow> cell_position \<Rightarrow> recover_options \<Rightarrow> recovery" where
  "rejection_table K l arcade c d s p opts =
     (let unsigned = RecoverNotBroadcast (posTip p) (RejectedAt p) (RejectionTxID p) (RejectionErr p);
          lost = recoverSpentTip K l arcade c d s p;
          stale = RecoverStaleRejection K l (posTip p) (RejectedAt p) (RejectionTxID p) (RejectionErr p);
          retry = RetryRefusal K l (posTip p) (RejectedAt p) (RejectionTxID p) (RejectionErr p);
          named = IsUTXOSpent (RejectionErr p) in
      if IsNotBroadcast (RejectionErr p) then unsigned
      else if named \<and> Verdict lost = VerdictAdopt then lost
      else if Verdict stale = VerdictResume then stale
      else if RetryRefused opts \<and> Verdict retry = VerdictResume then retry
      else if named then lost else stale)"

definition decision_table :: "tx_codec \<Rightarrow> ledger \<Rightarrow> tx_status option \<Rightarrow> compiled \<Rightarrow> deployment \<Rightarrow> store
    \<Rightarrow> cell_position \<Rightarrow> recover_options \<Rightarrow> recovery" where
  "decision_table K l arcade c d s p opts =
     (if Unknown p then RecoverCell K l c (posTip p) (Attempted p) (dCells d) (dRule d) tipDepth
      else rejection_table K l arcade c d s p opts)"

lemma stale_never_adopts: "Verdict (RecoverStaleRejection K l tip gen tid msg) \<noteq> VerdictAdopt"
  using rejection_tips by blast

lemma spent_tip_verdict: "Verdict (recoverSpentTip K l arcade c d s p) \<noteq> VerdictResume"
  by (cases rule: recoverSpentTip_cases [of K l arcade c d s p]) (simp_all add: spent_never_resumes)

lemma recoverRejected_table: "Rejected p \<Longrightarrow> recoverRejected K l arcade c d s p opts = rejection_table K l arcade c d s p opts"
proof -
  assume p: "Rejected p"
  let ?lost = "recoverSpentTip K l arcade c d s p"
  let ?stale = "RecoverStaleRejection K l (posTip p) (RejectedAt p) (RejectionTxID p) (RejectionErr p)"
  have lost: "(Verdict ?lost \<noteq> VerdictHalt) = (Verdict ?lost = VerdictAdopt)"
    using spent_tip_verdict [of K l arcade c d s p] by (cases "Verdict ?lost") simp_all
  have stale: "(Verdict ?stale \<noteq> VerdictHalt) = (Verdict ?stale = VerdictResume)"
    using stale_never_adopts [of K l "posTip p" "RejectedAt p" "RejectionTxID p" "RejectionErr p"] by (cases "Verdict ?stale") simp_all
  show ?thesis
    unfolding recoverRejected_def explained_def rejection_table_def Let_def isNeverBroadcast_def isSpentTip_def
    using p lost stale by auto
qed

lemma decideCell_table:
  "decideCell K l arcade c d s p opts =
     (if Unknown p \<or> Rejected p then Some (decision_table K l arcade c d s p opts) else None)"
  by (simp add: decideCell_def decision_table_def recoverRejected_table)

text \<open>What one pass does to one cell: the decision is taken on a record that differs from the one the
  pass started from at most in other cells, and only its own rows change, as the decision says.\<close>

definition recovered :: "tx_codec \<Rightarrow> ledger \<Rightarrow> tx_status option \<Rightarrow> compiled \<Rightarrow> deployment \<Rightarrow> recover_options
    \<Rightarrow> store \<Rightarrow> store \<Rightarrow> cell_recovery list \<Rightarrow> int \<Rightarrow> cell_position \<Rightarrow> cell_position \<Rightarrow> bool" where
  "recovered K l arcade c d opts s s' ds i p q = (\<exists>s1. (\<not> Apply opts \<longrightarrow> s1 = s)
     \<and> (\<forall>g. CellAt s1 g i = CellAt s g i)
     \<and> (if Unknown p \<or> Rejected p
        then (i, decision_table K l arcade c d s1 p opts) \<in> set ds
          \<and> (if Apply opts then applied s s' i p (decision_table K l arcade c d s1 p opts) q
             else q = p \<and> (\<forall>g. CellAt s' g i = CellAt s g i))
        else q = p \<and> (\<forall>g. CellAt s' g i = CellAt s g i) \<and> (\<forall>r. (i, r) \<notin> set ds)))"

lemma applied_cong:
  "(\<And>g. CellAt s g i = CellAt t g i) \<Longrightarrow> (\<And>g. CellAt s' g i = CellAt t' g i) \<Longrightarrow>
   applied s s' i p r q = applied t t' i p r q"
  by (simp add: applied_def cong: option.case_cong verdict.case_cong)

lemma recovered_shift:
  assumes "recovered K l arcade c d opts s1 s' ds1 i p q" and dry: "\<not> Apply opts \<Longrightarrow> s1 = s"
    and at: "\<And>g. CellAt s1 g i = CellAt s g i" and ds: "\<And>r. (i, r) \<in> set ds \<longleftrightarrow> (i, r) \<in> set ds1"
  shows "recovered K l arcade c d opts s s' ds i p q"
proof -
  have ap: "applied s1 s' i p r q = applied s s' i p r q" for r by (rule applied_cong) (simp_all add: at)
  show ?thesis
    using assms(1) unfolding recovered_def at ds ap by (elim ex_forward conj_forward) (use dry in simp_all)
qed

lemma recover_loop_decisions:
  "recover_loop K l arcade c d opts now k ps s = Inr (s', out, ds) \<Longrightarrow> (i, r) \<in> set ds \<Longrightarrow> k \<le> i"
  by (induction K l arcade c d opts now k ps s arbitrary: s' out ds rule: recover_loop.induct)
     (fastforce split: option.splits sum.splits prod.splits)+

text \<open>The cells decided are those with an unresolved attempt or a rejection, each once and in the order of the ring.\<close>

lemma recover_loop_cells:
  "recover_loop K l arcade c d opts now k ps s = Inr (s', out, ds) \<Longrightarrow>
     map fst ds = map (\<lambda>i. k + int i) (filter (\<lambda>i. Unknown (ps ! i) \<or> Rejected (ps ! i)) [0..<length ps])"
proof (induction ps arbitrary: k s s' out ds)
  case (Cons p ps)
  let ?P = "\<lambda>i. Unknown ((p # ps) ! i) \<or> Rejected ((p # ps) ! i)"
  have "filter ?P [0..<length (p # ps)] = (if ?P 0 then [0] else []) @ map Suc (filter (?P \<circ> Suc) [0..<length ps])"
    by (simp only: list.size add_Suc_right add_0_right upt_rec [of 0] zero_less_Suc if_True map_Suc_upt [symmetric] filter.simps filter_map) simp
  then have later: "map (\<lambda>i. k + int i) (filter ?P [0..<length (p # ps)]) =
      (if ?P 0 then [k] else []) @ map (\<lambda>i. (k + 1) + int i) (filter (\<lambda>i. Unknown (ps ! i) \<or> Rejected (ps ! i)) [0..<length ps])"
    by (simp add: o_def add.assoc)
  show ?case unfolding later
    using Cons.prems Cons.IH by (auto simp: decideCell_table split: if_splits sum.splits prod.splits)
qed simp

lemma recover_loop_ok:
  "keys_ok s \<Longrightarrow> recover_loop K l arcade c d opts now k ps s = Inr (s', out, ds) \<Longrightarrow>
     keys_ok s' \<and> length out = length ps \<and> (\<not> Apply opts \<longrightarrow> s' = s)
     \<and> (\<forall>g i. i < k \<or> k + int (length ps) \<le> i \<longrightarrow> CellAt s' g i = CellAt s g i)
     \<and> (\<forall>i < length ps. recovered K l arcade c d opts s s' ds (k + int i) (ps ! i) (out ! i))"
proof (induction ps arbitrary: k s out ds)
  case Nil
  then show ?case by simp
next
  case (Cons p ps)
  show ?case
  proof (cases "decideCell K l arcade c d s p opts")
    case None
    obtain o1 where r: "recover_loop K l arcade c d opts now (k + 1) ps s = Inr (s', o1, ds)" "out = p # o1"
      using Cons.prems(2) None by (auto split: sum.splits)
    note ih = Cons.IH [OF Cons.prems(1) r(1)]
    have "recovered K l arcade c d opts s s' ds k p p"
      unfolding recovered_def using None ih recover_loop_decisions [OF r(1)]
      by (intro exI [of _ s]) (force simp: decideCell_table split: if_splits)
    then show ?thesis using ih r(2) by (auto simp: nth_Cons algebra_simps split: nat.split)
  next
    case (Some rr)
    obtain s1 q o1 ds1 where r: "(if Apply opts then applyRecovery now s k p rr else Inr (s, p)) = Inr (s1, q)"
      "recover_loop K l arcade c d opts now (k + 1) ps s1 = Inr (s', o1, ds1)" "out = q # o1" "ds = (k, rr) # ds1"
      using Cons.prems(2) Some by (auto split: sum.splits)
    have s1: "keys_ok s1 \<and> (\<forall>g i. i \<noteq> k \<longrightarrow> CellAt s1 g i = CellAt s g i)
        \<and> (if Apply opts then applied s s1 k p rr q else s1 = s \<and> q = p)"
    proof (cases "Apply opts")
      case True
      obtain s2 q2 where a: "applyRecovery now s k p rr = Inr (s2, q2)" "applied s s2 k p rr q2" "keys_ok s2"
        "\<And>g c'. c' \<noteq> k \<Longrightarrow> CellAt s2 g c' = CellAt s g c'"
        using apply_recovery [OF Cons.prems(1) Some] by blast
      then show ?thesis using r(1) True by auto
    next
      case False
      then show ?thesis using r(1) Cons.prems(1) by simp
    qed
    note ih = Cons.IH [OF conjunct1 [OF s1] r(2)]
    have "recovered K l arcade c d opts s s' ds k p q"
    proof -
      have same: "CellAt s' g k = CellAt s1 g k" for g using ih by simp
      have "if Apply opts then applied s s' k p rr q else q = p \<and> (\<forall>g. CellAt s' g k = CellAt s g k)"
        using s1 same applied_cong [of s k s s1 s' p rr q] by (cases "Apply opts") simp_all
      then show ?thesis unfolding recovered_def r(4) using Some
        by (intro exI [of _ s]) (auto simp: decideCell_table split: if_splits)
    qed
    moreover have "recovered K l arcade c d opts s s' ds (k + 1 + int i) (ps ! i) (o1 ! i)" if "i < length ps" for i
    proof (rule recovered_shift)
      show "recovered K l arcade c d opts s1 s' ds1 (k + 1 + int i) (ps ! i) (o1 ! i)" using ih that by simp
      show "\<not> Apply opts \<Longrightarrow> s1 = s" using s1 by simp
      show "CellAt s1 g (k + 1 + int i) = CellAt s g (k + 1 + int i)" for g using s1 by simp
      show "(k + 1 + int i, r) \<in> set ds \<longleftrightarrow> (k + 1 + int i, r) \<in> set ds1" for r by (simp add: r(4))
    qed
    ultimately have cells: "recovered K l arcade c d opts s s' ds (k + int i) ((p # ps) ! i) (out ! i)"
      if "i < length (p # ps)" for i
      using that r(3) by (cases i) (simp_all add: add.assoc)
    have "CellAt s' g i = CellAt s g i" if "i < k \<or> k + int (length (p # ps)) \<le> i" for g i
    proof -
      have "i \<noteq> k" "i < k + 1 \<or> k + 1 + int (length ps) \<le> i" using that by auto
      then have "CellAt s' g i = CellAt s1 g i" "CellAt s1 g i = CellAt s g i" using ih s1 by blast+
      then show ?thesis by simp
    qed
    then show ?thesis using ih s1 r(3) cells by simp
  qed
qed

text \<open>Claim C11: one pass of \<open>Recover\<close> over a ring decides exactly the unknown and the rejected cells, each once and
  in order, by the table of the five decisions, and a dry run writes nothing.  An applied halt keeps the cell's
  position and rows, with the decision's reason; an applied resume frees the cell on the tip it had and removes
  exactly the attempt or the rejection it was decided on; an applied adoption frees the cell on the last adopted
  transaction and records each of them as broadcast at its generation.  The rows of every other cell stay.\<close>

theorem recover_exact:
  assumes "Recover K l arcade c d now (run_store pg ops) ps opts = Inr (s', out, ds)"
  shows "length out = length ps \<and> (\<not> Apply opts \<longrightarrow> s' = run_store pg ops)
    \<and> map fst ds = map int (filter (\<lambda>i. Unknown (ps ! i) \<or> Rejected (ps ! i)) [0..<length ps])
    \<and> (\<forall>g i. i < 0 \<or> int (length ps) \<le> i \<longrightarrow> CellAt s' g i = CellAt (run_store pg ops) g i)
    \<and> (\<forall>i < length ps. recovered K l arcade c d opts (run_store pg ops) s' ds (int i) (ps ! i) (out ! i))"
  using recover_loop_ok [OF keys_ok_run assms [unfolded Recover_def]] recover_loop_cells [OF assms [unfolded Recover_def]] by simp

text \<open>The demonstration record's rejected cell, retried: the refusal is taken back.\<close>

definition demo_opts :: recover_options where
  "demo_opts = \<lparr>Apply = True, RetryRefused = False\<rparr>"

definition unsigned_ops :: "store_op list" where
  "unsigned_ops = [OpRecordTx 1 \<lparr>txGen = 1, txCell = 0, txTxID = ''bb'', txStatus = StatusSeen, txErr = ''''\<rparr>,
     OpRecordTx 2 \<lparr>txGen = 2, txCell = 0, txTxID = '''', txStatus = StatusFailed,
       txErr = ''chain: not broadcast: boom''\<rparr>]"

definition unsigned_position :: cell_position where
  "unsigned_position = no_position\<lparr>posTip := demo_next, Halted := True,
     HaltReason := RejectedOne 2 1 ''chain: not broadcast: boom'',
     Rejected := True, RejectedAt := 2, RejectionErr := ''chain: not broadcast: boom'', RejectionTxID := ''''\<rparr>"

lemma unsigned_recovered:
  "case Recover demo_codec (demo_ledger []) None demo_compiled demo_deployment 9 (run_store False unsigned_ops)
     [unsigned_position] demo_opts of Inl e \<Rightarrow> False
   | Inr (s', out, ds) \<Rightarrow> out = [no_position\<lparr>posTip := demo_next\<rparr>] \<and> CellAt s' 2 0 = None"
  by code_simp

theorem recover_exact_witness:
  "\<exists>s' ds. Recover demo_codec (demo_ledger []) None demo_compiled demo_deployment 9 (run_store False unsigned_ops)
       [unsigned_position] demo_opts = Inr (s', [no_position\<lparr>posTip := demo_next\<rparr>], ds)
     \<and> recovered demo_codec (demo_ledger []) None demo_compiled demo_deployment demo_opts
         (run_store False unsigned_ops) s' ds 0 unsigned_position (no_position\<lparr>posTip := demo_next\<rparr>)"
proof -
  obtain s' ds where r: "Recover demo_codec (demo_ledger []) None demo_compiled demo_deployment 9
     (run_store False unsigned_ops) [unsigned_position] demo_opts = Inr (s', [no_position\<lparr>posTip := demo_next\<rparr>], ds)"
    using unsigned_recovered by (auto split: sum.splits)
  have "recovered demo_codec (demo_ledger []) None demo_compiled demo_deployment demo_opts
         (run_store False unsigned_ops) s' ds (int 0) ([unsigned_position] ! 0) ([no_position\<lparr>posTip := demo_next\<rparr>] ! 0)"
    using recover_exact [OF r] by simp
  with r show ?thesis by auto
qed

subsection \<open>An adoption is what the next derivation lands on\<close>

lemma nth_row_add: "nth_row rule (nth_row rule seed a) b = nth_row rule seed (a + b)"
  by (simp add: nth_row_def funpow_add add.commute [of a b])

lemma Row_of_Hex: "Row tip n = Inr row \<Longrightarrow> RowHex tip = Hex r \<Longrightarrow> row = r"
  unfolding Row_def by (metis Hex_def SeedHex_Inr hex_decode_encode sum.inject(2))

text \<open>Where the bytes of a step are: the ledger answers them under the step's own txid.\<close>

definition from_ledger :: "ledger \<Rightarrow> cell_chain \<Rightarrow> bool" where
  "from_ledger l x = (TxID x \<noteq> '''' \<and> (\<exists>raw. RawTx l (TxID x) = Inr raw \<and> RawTxHex x = hex_encode raw))"

lemma walk_loop_bytes:
  "list_all (from_ledger l) steps \<Longrightarrow>
   list_all (from_ledger l) (Steps (walk_loop K l c tip byGen newestGen n rule maxWalk gen current steps))"
proof (induction K l c tip byGen newestGen n rule maxWalk gen current steps rule: walk_loop.induct)
  case (1 K l c tip byGen newestGen n rule maxWalk gen current steps)
  show ?case
  proof (cases "\<exists>a raw nxt. gen \<le> newestGen \<and> int (length steps) < maxWalk \<and> byGen gen = Some a \<and> aTxID a \<noteq> ''''
      \<and> aStatus a \<noteq> statusFailed \<and> RawTx l (aTxID a) = Inr raw
      \<and> VerifySuccessor K c current n rule (aTxID a) raw = Inr nxt \<and> agreesWithWallet c a nxt n")
    case True
    then obtain a raw nxt where t: "gen \<le> newestGen" "int (length steps) < maxWalk" "byGen gen = Some a"
      "aTxID a \<noteq> ''''" "aStatus a \<noteq> statusFailed" "RawTx l (aTxID a) = Inr raw"
      "VerifySuccessor K c current n rule (aTxID a) raw = Inr nxt" "agreesWithWallet c a nxt n"
      by blast
    have step: "walk_loop K l c tip byGen newestGen n rule maxWalk gen current steps
        = walk_loop K l c tip byGen newestGen n rule maxWalk (gen + 1) nxt (steps @ [nxt])"
      using t by (simp add: walk_loop.simps [of K l c tip byGen newestGen n rule maxWalk gen])
    have "TxID nxt = aTxID a" "RawTxHex nxt = hex_encode raw" using t(7) by (auto simp: VerifySuccessor_Inr)
    then have "list_all (from_ledger l) (steps @ [nxt])"
      using "1.prems" t by (simp add: from_ledger_def [of l nxt])
    then show ?thesis
      unfolding step using "1.IH" [of a raw nxt] t by simp
  next
    case False
    then show ?thesis
      using "1.prems" unfolding walk_loop.simps [of K l c tip byGen newestGen n rule maxWalk gen]
      by (auto split: option.split sum.split)
  qed
qed

lemma recover_cell_walks:
  "Verdict (RecoverCell K l c tip attempted n rule maxWalk) = VerdictAdopt \<Longrightarrow>
     \<exists>as g m. RecoverCell K l c tip attempted n rule maxWalk = walkForward K l c tip as g n rule m"
  (is "Verdict ?r = _ \<Longrightarrow> _")
proof -
  assume a: "Verdict ?r = VerdictAdopt"
  let ?m = "if maxWalk \<le> 0 then defaultMaxWalk else maxWalk"
  note d = RecoverCell_def Let_def
  have 1: "attempted = Generation tip + 1" using a by (rule contrapos_pp) (simp add: d)
  obtain as tot where 2: "CellActions l (Cell tip) ?m = Inr (as, tot)"
    using a 1 by (cases "CellActions l (Cell tip) ?m") (auto simp: d)
  have 3: "tot \<noteq> 0"
  proof
    assume "tot = 0"
    then show False using a 1 2 by (simp add: d split: if_splits)
  qed
  obtain x where 4: "newestCellAction as = Some x"
    using a 1 2 3 by (cases "newestCellAction as") (auto simp: d)
  have 5: "\<not> aGeneration x < attempted" "\<not> (aGeneration x = attempted \<and> aTxID x = [])"
    using a 1 2 3 4 by (auto simp: d)
  have "?r = walkForward K l c tip as (aGeneration x) n rule ?m" using 1 2 3 4 5 by (auto simp: d)
  then show ?thesis by blast
qed

lemma recover_cell_bytes:
  assumes "Verdict (RecoverCell K l c tip attempted n rule maxWalk) = VerdictAdopt"
  shows "list_all (from_ledger l) (Steps (RecoverCell K l c tip attempted n rule maxWalk))"
proof -
  obtain as g m where "RecoverCell K l c tip attempted n rule maxWalk = walkForward K l c tip as g n rule m"
    using recover_cell_walks [OF assms] by blast
  then show ?thesis by (simp add: walkForward_def walk_loop_bytes)
qed

lemma chained_row:
  "chained K c n rule tip ss \<Longrightarrow> ss \<noteq> [] \<Longrightarrow> RowHex tip = Hex r \<Longrightarrow>
     RowHex (last ss) = Hex (nth_row rule r (length ss))"
proof (induction ss arbitrary: tip r)
  case (Cons s ss)
  obtain raw where v: "VerifySuccessor K c tip n rule (TxID s) raw = Inr s" "chained K c n rule s ss"
    using Cons.prems(1) by (auto split: sum.splits)
  obtain row nxt where r: "Row tip n = Inr row" "Step rule row = Some nxt"
    "s = \<lparr>Cell = Cell tip, TxID = TxID s, Vout = 0, Satoshis_of = Satoshis_of tip,
        Generation = Generation tip + 1, RowHex = Hex nxt, RawTxHex = hex_encode raw, LegacyBEEFHex = ''''\<rparr>"
    using v(1) unfolding VerifySuccessor_Inr by blast
  have hex: "RowHex s = Hex nxt" by (subst r(3)) simp
  have "row = r" using Row_of_Hex [OF r(1) Cons.prems(3)] .
  then have s: "RowHex s = Hex (nth_row rule r 1)" using r(2) hex by (simp add: nth_row_def)
  show ?case
  proof (cases "ss = []")
    case False
    then show ?thesis using Cons.IH [OF v(2) False s] by (simp add: nth_row_add)
  qed (use s in simp)
qed simp

text \<open>Deriving a verified step from its own bytes answers the step, wherever it answers at all.\<close>

lemma derive_verified:
  assumes v: "VerifySuccessor K c prev n rule tid raw = Inr nx" and g: "Generation nx \<noteq> 0"
    and u: "DeriveTip K c (Cell nx) (Generation nx) row tid raw' = Inr u" and same: "raw' = raw"
    and row: "RowHex nx = Hex row"
  shows "u = nx"
proof -
  obtain t nxt want where a: "ParseTx K raw = Inr t" "length (Outputs t) = 2"
    "LockingScript c (Cell prev) nxt = Inr want" "carries (Outputs t ! 0) want"
    "nx = \<lparr>Cell = Cell prev, TxID = tid, Vout = 0, Satoshis_of = Satoshis_of prev,
        Generation = Generation prev + 1, RowHex = Hex nxt, RawTxHex = hex_encode raw, LegacyBEEFHex = ''''\<rparr>"
    "Satoshis (Outputs t ! 0) = Satoshis_of prev"
    using v unfolding VerifySuccessor_Inr by blast
  have "row = nxt" using row a(5) by (metis Hex_def cell_chain.select_convs(6) hex_decode_encode sum.inject(2))
  moreover obtain t' want' f where b: "ParseTx K raw' = Inr t'" "LockingScript c (Cell nx) row = Inr want'"
    "{k. k < length (Outputs t') \<and> carries (Outputs t' ! k) want'} = {f}"
    "u = \<lparr>Cell = Cell nx, TxID = tid, Vout = wantVout (Generation nx) (Cell nx), Satoshis_of = Satoshis (Outputs t' ! f),
            Generation = Generation nx, RowHex = Hex row, RawTxHex = hex_encode raw', LegacyBEEFHex = ''''\<rparr>"
    using u unfolding DeriveTip_Inr by blast
  ultimately have "want' = want" "t' = t" using a same by auto
  then have "0 \<in> {k. k < length (Outputs t') \<and> carries (Outputs t' ! k) want'}" using a by simp
  then have "f = 0" using b(3) by simp
  then show ?thesis using a b \<open>row = nxt\<close> \<open>t' = t\<close> same g by (simp add: wantVout_def)
qed

lemma spentby_named: "SpentBy rejection = Some tid \<Longrightarrow> tid \<noteq> ''''"
proof -
  assume s: "SpentBy rejection = Some tid"
  then have "spent_loop (to_lower rejection) None = Some tid"
    by (simp add: SpentBy_def Let_def split: if_splits)
  then have "names (to_lower rejection) tid" by (simp add: spent_loop_exact)
  then obtain b where "leadingTxID (trim_sep b) = Some tid" by (auto simp: names_def)
  then show ?thesis using leadingTxID_Some by force
qed

lemma DeriveTip_bytes: "DeriveTip K c cell gen row tid raw = Inr u \<Longrightarrow> RawTxHex u = hex_encode raw \<and> RowHex u = Hex row"
  unfolding DeriveTip_Inr by (elim exE conjE) simp

text \<open>What the engine adopts, by the two decisions that adopt.\<close>

lemma decided_adopts:
  assumes dec: "decided K l arcade c d s opts tip p = r" and v: "Verdict r = VerdictAdopt"
  obtains (walked) ss where "chained K c (dCells d) (dRule d) tip (ss @ [Tip r])" "Steps r = ss @ [Tip r]"
      "from_ledger l (Tip r)"
  | (spent) nxt row raw where "Row tip (dCells d) = Inr row" "Step (dRule d) row = Some nxt"
      "RawTx l (TxID (Tip r)) = Inr raw" "Steps r = [Tip r]" "from_ledger l (Tip r)"
      "Generation (Tip r) = Generation tip + 1"
      "DeriveTip K c (Cell tip) (Generation tip + 1) nxt (TxID (Tip r)) raw = Inr (Tip r)"
proof (cases "Unknown p")
  case True
  then have r: "r = RecoverCell K l c tip (Attempted p) (dCells d) (dRule d) tipDepth"
    using dec by (simp add: decided_def)
  note ok = recover_cell_ok [of K c "dCells d" "dRule d" tip tipDepth l "Attempted p", folded r, unfolded walk_ok_def]
  have st: "Steps r \<noteq> []" "Tip r = last (Steps r)" and ch: "chained K c (dCells d) (dRule d) tip (Steps r)"
    using ok v by simp_all
  then obtain ss where ss: "Steps r = ss @ [Tip r]" by (metis append_butlast_last_id)
  have "list_all (from_ledger l) (Steps r)" using recover_cell_bytes v unfolding r by blast
  then have "from_ledger l (Tip r)" unfolding ss by simp
  then show ?thesis using walked ss ch by simp
next
  case False
  note found = spent
  have r: "r = recoverRejected K l arcade c d s (p\<lparr>posTip := tip\<rparr>) opts"
    using dec False by (simp add: decided_def)
  have nh: "Verdict (recoverRejected K l arcade c d s (p\<lparr>posTip := tip\<rparr>) opts) \<noteq> VerdictHalt" using v r by simp
  from nh show ?thesis
  proof (cases rule: recoverRejected_cases)
    case (spent nxt rw)
    have rr: "r = RecoverSpentTip K l arcade c tip (RejectionErr p) nxt (\<lambda>tid. Inr (HasTxID s tid))"
      using r spent(3) by simp
    obtain tid raw0 adopted why where a: "SpentBy (RejectionErr p) = Some tid" "RawTx l tid = Inr raw0"
      "DeriveTip K c (Cell tip) (Generation tip + 1) nxt tid raw0 = Inr adopted"
      "r = \<lparr>Verdict = VerdictAdopt, Tip = adopted, Reason = why, Steps = [adopted]\<rparr>"
      using v unfolding rr spent_adopt by blast
    have t: "TxID (Tip r) = tid" "Generation (Tip r) = Generation tip + 1" "Tip r = adopted" "Steps r = [Tip r]"
      using DeriveTip_fields [OF a(3)] a(4) by simp_all
    have "from_ledger l (Tip r)"
      using DeriveTip_bytes [OF a(3)] spentby_named [OF a(1)] a(2) t by (auto simp: from_ledger_def)
    then show ?thesis using found spent(1,2) a(2,3) t by simp
  qed (use v r in \<open>simp_all add: rejection_tips\<close>)
qed

text \<open>Deriving the adopted transaction at its own row answers the tip adopted.\<close>

lemma adopted_derivable:
  assumes dec: "decided K l arcade c d s opts tip p = r" and v: "Verdict r = VerdictAdopt"
    and g: "Generation (Tip r) \<noteq> 0" and row: "RowHex tip = Hex r0"
    and raw: "RawTx l (TxID (Tip r)) = Inr raw"
    and u: "DeriveTip K c (Cell tip) (Generation (Tip r)) (nth_row (dRule d) r0 (length (Steps r))) (TxID (Tip r)) raw = Inr u"
  shows "u = Tip r"
  using dec v
proof (cases rule: decided_adopts)
  case (walked ss)
  define prev where "prev = (if ss = [] then tip else last ss)"
  have "chained K c (dCells d) (dRule d) prev [Tip r]" using walked(1) unfolding prev_def by (metis chained_snoc)
  moreover have "RawTxHex (Tip r) = hex_encode raw" using walked(3) raw by (auto simp: from_ledger_def)
  ultimately have ver: "VerifySuccessor K c prev (dCells d) (dRule d) (TxID (Tip r)) raw = Inr (Tip r)"
    by (simp add: hex_decode_encode)
  have f: "Cell (Tip r) = Cell tip" using chained_fields [OF walked(1)] by simp
  have hx: "RowHex (Tip r) = Hex (nth_row (dRule d) r0 (length (Steps r)))"
    using chained_row [OF walked(1) _ row] walked(2) by simp
  show ?thesis by (rule derive_verified [OF ver g u [folded f] refl hx])
next
  case (spent nxt rw raw0)
  have "rw = r0" using spent(1) row by (rule Row_of_Hex)
  then have "nth_row (dRule d) r0 (length (Steps r)) = nxt" using spent(2,4) by (simp add: nth_row_def)
  then show ?thesis using u raw spent(3,6,7) by simp
qed

lemma newest_where_put:
  assumes new: "CellAt s' g c = Some (i, st, e)" "Q st i"
    and steps: "\<And>h. CellAt s' h c \<noteq> CellAt s h c \<Longrightarrow> h \<le> g"
    and old: "\<And>h i st e. CellAt s h c = Some (i, st, e) \<Longrightarrow> Q st i \<Longrightarrow> h \<le> g"
  shows "newest_where s' c Q \<lparr>tipCell = c, tipGen = g, tipTxID = i, tipStatus = st, tipErr = e\<rparr>"
proof -
  have "h \<le> g" if "CellAt s' h c = Some (x, y, z)" "Q y x" for h x y z
    using steps [of h] old [of h x y z] that by (cases "CellAt s' h c = CellAt s h c") simp_all
  then show ?thesis using new by (simp add: newest_where_def)
qed

text \<open>Claim C12: an applied adoption is what the next derivation lands on.  When the cell had a settled
  record, its adopted transactions are written as the generations above it, the last of them becomes
  the cell's newest settled record, and deriving the ring again from the record and the bytes puts
  the cell on exactly the tip recovery adopted: the walk's verification and the derivation agree.\<close>

theorem adoption_rederived:
  assumes "DeriveTips K l c d (run_store pg ops) = Inr ps" and "0 \<le> cell" and "cell < dCells d"
    and "newest_where (run_store pg ops) cell settles t"
    and "decideCell K l arcade c d (run_store pg ops) (ps ! nat cell) opts = Some r" and "Verdict r = VerdictAdopt"
    and "applyRecovery now (run_store pg ops) cell (ps ! nat cell) r = Inr (s', q)"
    and "unat (tipGen t) + length (Steps r) < 2 ^ 64"
    and "DeriveTips K l c d s' = Inr ps'"
  shows "posTip q = Tip r \<and> posTip (ps' ! nat cell) = Tip r
     \<and> newest_where s' cell settles \<lparr>tipCell = cell, tipGen = tipGen t + of_nat (length (Steps r)),
          tipTxID = TxID (Tip r), tipStatus = StatusBroadcast, tipErr = ''''\<rparr>"
proof -
  define s where "s = run_store pg ops"
  define p where "p = ps ! nat cell"
  define tip where "tip = posTip p"
  have k: "keys_ok s" by (simp add: s_def keys_ok_run)
  note a = assms [folded s_def p_def]
  obtain seed raw where sd: "Seed d = Inr seed"
    "DeriveTip K c cell (tipGen t) (nth_row (dRule d) seed (unat (tipGen t))) (tipTxID t) raw = Inr tip"
    using DeriveTips_settled [OF k a(1-4)] unfolding tip_def p_def by blast
  have tip: "Cell tip = cell" "Generation tip = tipGen t" "RowHex tip = Hex (nth_row (dRule d) seed (unat (tipGen t)))"
    using DeriveTip_fields [OF sd(2)] DeriveTip_bytes [OF sd(2)] by simp_all
  have dec: "decided K l arcade c d s opts tip p = r"
    using a(5) by (auto simp: decideCell_decided tip_def split: if_splits)
  note ad = a(6) [folded dec]
  have fits: "unat (Generation tip) + length (Steps r) < 2 ^ 64" using a(8) tip by simp
  have st: "Steps r \<noteq> []" "Tip r = last (Steps r)" using engine_decision.adopt_steps [OF ad] dec by simp_all
  have gr: "Generation (Tip r) = tipGen t + of_nat (length (Steps r))" "Cell (Tip r) = cell"
    using engine_decision.adopt_keeps [OF ad] dec tip by simp_all
  have above: "Generation tip < Generation x \<and> Generation x \<le> Generation (Tip r)" if mem: "x \<in> set (Steps r)" for x
  proof -
    obtain i where i: "i < length (Steps r)" "Steps r ! i = x" using mem by (auto simp: in_set_conv_nth)
    show ?thesis using engine_decision.newest_step [OF ad, unfolded dec, OF fits i(1)] i(2) by simp
  qed
  obtain s2 q2 where ap: "applyRecovery now s cell p r = Inr (s2, q2)" "applied s s2 cell p r q2" "keys_ok s2"
    by (rule apply_recovery [OF k a(5), where cell = cell and now = now])
  have eq:
    "s2 = s'" "q2 = q" using ap(1) a(7) by simp_all
  have q: "q = no_position\<lparr>posTip := Tip r\<rparr>"
    and at: "CellAt s' g cell = (case find (\<lambda>x. Generation x = g) (rev (Steps r)) of
        None \<Rightarrow> CellAt s g cell | Some x \<Rightarrow> Some (TxID x, StatusBroadcast, ''''))" for g
    using ap(2) a(6) st(2) unfolding eq applied_def by simp_all
  have "from_ledger l (Tip r)" using dec a(6) by (cases rule: decided_adopts) simp_all
  then have named: "TxID (Tip r) \<noteq> ''''" by (simp add: from_ledger_def)
  obtain xs where xs: "Steps r = xs @ [Tip r]" using st by (metis append_butlast_last_id)
  have top: "CellAt s' (Generation (Tip r)) cell = Some (TxID (Tip r), StatusBroadcast, '''')"
    unfolding at xs by simp
  let ?t = "\<lparr>tipCell = cell, tipGen = Generation (Tip r), tipTxID = TxID (Tip r), tipStatus = StatusBroadcast, tipErr = ''''\<rparr>"
  have new: "newest_where s' cell settles ?t"
  proof (rule newest_where_put [where s = s])
    show "CellAt s' (Generation (Tip r)) cell = Some (TxID (Tip r), StatusBroadcast, '''')" by (rule top)
    show "settles StatusBroadcast (TxID (Tip r))" using named by (simp add: settles_def settled_status_def)
    show "h \<le> Generation (Tip r)" if diff: "CellAt s' h cell \<noteq> CellAt s h cell" for h
    proof -
      obtain x where "find (\<lambda>x. Generation x = h) (rev (Steps r)) = Some x"
        using diff unfolding at by (auto split: option.splits)
      then have "x \<in> set (Steps r)" "Generation x = h" using find_SomeD by force+
      then show ?thesis using above by blast
    qed
    show "h \<le> Generation (Tip r)" if "CellAt s h cell = Some (i, x, e)" "settles x i" for h i x e
    proof -
      have "h \<le> Generation tip" using a(4) that tip by (auto simp: newest_where_def)
      also have "\<dots> \<le> Generation (Tip r)" using above [of "Tip r"] st by simp
      finally show ?thesis .
    qed
  qed
  obtain raw' where r': "RawTx l (TxID (Tip r)) = Inr raw'"
    "DeriveTip K c cell (Generation (Tip r)) (nth_row (dRule d) seed (unat (Generation (Tip r)))) (TxID (Tip r)) raw'
       = Inr (posTip (ps' ! nat cell))"
    using DeriveTips_settled [OF ap(3) [unfolded eq] a(9) a(2,3) new] sd(1) by auto
  have ug: "unat (Generation (Tip r)) = unat (tipGen t) + length (Steps r)"
    unfolding gr(1) using a(8) by (simp add: unat_word_ariths unat_of_nat)
  then have g0: "Generation (Tip r) \<noteq> 0" using st(1) by auto
  have "posTip (ps' ! nat cell) = Tip r"
    by (rule adopted_derivable [OF dec a(6) g0 tip(3) r'(1)]) (use r'(2) ug tip(1) in \<open>simp add: nth_row_add\<close>)
  then show ?thesis using q new gr(1) by simp
qed

lemma case_InrE: "(case x of Inl e \<Rightarrow> False | Inr y \<Rightarrow> P y) \<Longrightarrow> (\<And>y. x = Inr y \<Longrightarrow> P y \<Longrightarrow> R) \<Longrightarrow> R"
  by (cases x) simp_all

lemma case_SomeE: "(case x of None \<Rightarrow> False | Some y \<Rightarrow> P y) \<Longrightarrow> (\<And>y. x = Some y \<Longrightarrow> P y \<Longrightarrow> R) \<Longrightarrow> R"
  by (cases x) simp_all

text \<open>A crash between signing and recording: the cell's genesis record, an unresolved attempt above it,
  and a wallet that signed the transition.\<close>

definition crash_ops :: "store_op list" where
  "crash_ops = [OpRecordTx 1 \<lparr>txGen = 0, txCell = 0, txTxID = ''aa'', txStatus = StatusMined, txErr = ''''\<rparr>,
     OpRecordTx 2 \<lparr>txGen = 1, txCell = 0, txTxID = '''', txStatus = StatusAttempting, txErr = ''''\<rparr>]"

abbreviation crash_ledger :: ledger where "crash_ledger \<equiv> demo_ledger [demo_action 1 ''bb'']"

lemma crash_recovered:
  "case DeriveTips demo_codec crash_ledger demo_compiled demo_deployment (run_store False crash_ops) of
     Inl e \<Rightarrow> False
   | Inr ps \<Rightarrow>
      (case decideCell demo_codec crash_ledger None demo_compiled demo_deployment (run_store False crash_ops)
          (ps ! nat 0) demo_opts of
         None \<Rightarrow> False
       | Some r \<Rightarrow> Verdict r = VerdictAdopt \<and> length (Steps r) = 1 \<and> Tip r = demo_next
          \<and> (case applyRecovery 3 (run_store False crash_ops) 0 (ps ! nat 0) r of
               Inl e \<Rightarrow> False
             | Inr (s', q) \<Rightarrow>
                (case DeriveTips demo_codec crash_ledger demo_compiled demo_deployment s' of
                   Inl e \<Rightarrow> False | Inr ps' \<Rightarrow> True)))"
  by code_simp

lemma crash_settled:
  "newest_where (run_store False crash_ops) 0 settles
     \<lparr>tipCell = 0, tipGen = 0, tipTxID = ''aa'', tipStatus = StatusMined, tipErr = ''''\<rparr>"
proof -
  have "Settled (DeepTip (run_store False crash_ops) 0) =
     Some \<lparr>tipCell = 0, tipGen = 0, tipTxID = ''aa'', tipStatus = StatusMined, tipErr = ''''\<rparr>"
    by code_simp
  then show ?thesis using deep_settled_where [OF keys_ok_run] by blast
qed

theorem adoption_rederived_witness:
  "\<exists>s' ps'. DeriveTips demo_codec crash_ledger demo_compiled demo_deployment s' = Inr ps'
     \<and> posTip (ps' ! nat 0) = demo_next
     \<and> newest_where s' 0 settles \<lparr>tipCell = 0, tipGen = 1, tipTxID = ''bb'', tipStatus = StatusBroadcast, tipErr = ''''\<rparr>"
proof -
  obtain ps r s' q ps' where e:
    "DeriveTips demo_codec crash_ledger demo_compiled demo_deployment (run_store False crash_ops) = Inr ps"
    "decideCell demo_codec crash_ledger None demo_compiled demo_deployment (run_store False crash_ops)
          (ps ! nat 0) demo_opts = Some r" "Verdict r = VerdictAdopt" "length (Steps r) = 1" "Tip r = demo_next"
    "applyRecovery 3 (run_store False crash_ops) 0 (ps ! nat 0) r = Inr (s', q)"
    "DeriveTips demo_codec crash_ledger demo_compiled demo_deployment s' = Inr ps'"
    using crash_recovered by (elim case_InrE case_SomeE conjE case_prodE) simp
  have d: "0 < dCells demo_deployment" by (simp add: demo_deployment_def)
  show ?thesis
    using adoption_rederived [OF e(1) _ d crash_settled e(2,3,6) _ e(7)] e(4,5,7)
    by (auto simp: demo_next_def)
qed

end
