(* ===== verification/Engine.thy ===== *)
theory Engine
  imports Complex_Main EngineRecovery
begin

text \<open>
  The state of the engine and the operations of \<open>internal/engine/engine.go\<close>, with the frontier and the
  depths of \<open>worker.go\<close>.  Every operation is a function from the state to the state; what the code
  does under one hold of the mutex is one function.  The store is a component of the state.
\<close>

subsection \<open>The data the UI sees\<close>

text \<open>\<open>TxAttempting\<close> is not a constant of the code: it is the value \<open>TxState("attempting")\<close> that
  loading a write-ahead row produces, which every switch sends to its default branch.\<close>

datatype tx_state = TxPending | TxBroadcast | TxSeen | TxMined | TxFailed | TxAttempting

datatype mode = ModePaused | ModeRunning | ModeStarved

record cell_view =
  cvCell :: int
  cvTxID :: txid
  cvState :: tx_state
  cvErr :: string

record view_generation =
  Number :: u64
  ViewRowHex :: string
  ViewCells :: "cell_view list"

definition pending_cell :: "int \<Rightarrow> cell_view" where
  "pending_cell i = \<lparr>cvCell = i, cvTxID = '''', cvState = TxPending, cvErr = ''''\<rparr>"

definition pending_cells :: "int \<Rightarrow> cell_view list" where
  "pending_cells n = map pending_cell [0..n - 1]"

definition maxHistory :: nat where "maxHistory = 1024"

definition TailGenerations :: int where "TailGenerations = 8"

subsection \<open>The state of the engine\<close>

record options =
  AutoRecover :: bool
  LockControls :: bool
  optRate :: rat
  Start :: bool

record config =
  MaxLag :: u64
  MaxUnconfirmedDepth :: u64
  MaxUnseenDepth :: u64

record funds =
  Spendable :: u64
  Reserve :: u64
  PoolCoins :: int

record retry_state =
  rsGeneration :: u64
  rsAttempts :: int
  rsFirst :: "int option"

text \<open>Why a cell is halted, one constructor per place that halts.\<close>

datatype halt_cause =
    Derived halt_reason
  | Refused string
  | NotRecorded u64
  | RepairRederive derive_error
  | RepairOutsideRing
  | RepairDecided reason
  | RepairApply history_error
  | RepairStuck nat

datatype engine_note =
    NoNote
  | TipsUnknown nat
  | CellsHalted nat
  | CellHalted int halt_cause
  | OutOfFunds
  | TransitionError string
  | NotRederived derive_error
  | StoreBehind "(int \<times> u64 \<times> u64) list"

text \<open>Go's maps from cells to booleans are sets; a missing entry of \<open>lastMined\<close> or \<open>lastSeen\<close> reads
  as 0.  A zero \<open>time.Time\<close> is \<open>None\<close>; instants and durations are nanoseconds.  The rate is the
  number, without the float's rounding.\<close>

record engine =
  eDeployment :: deployment
  eOpts :: options
  eConfig :: config
  eTips :: "cell_chain list"
  eGeneration :: u64
  eHistory :: "view_generation list"
  eMode :: mode
  eRate :: rat
  eFunds :: funds
  totalTx :: int
  lastError :: engine_note
  eTarget :: u64
  lastMined :: "int \<Rightarrow> u64"
  lastSeen :: "int \<Rightarrow> u64"
  starvedSince :: "int option"
  lastProbe :: "int option"
  leader :: bool
  needsRederive :: bool
  waitingOnCoin :: "int set"
  txIndex :: "txid \<Rightarrow> (u64 \<times> int) option"
  halted :: "int set"
  haltReason :: "int \<Rightarrow> halt_cause option"
  needsRepair :: "int set"
  retries :: "int \<Rightarrow> retry_state option"
  eStore :: store
  statusWrites :: "status_update list"

abbreviation second :: int where "second \<equiv> 1000000000"
abbreviation millisecond :: int where "millisecond \<equiv> 1000000"

subsection \<open>The clock's controls\<close>

definition startMode :: "options \<Rightarrow> mode" where
  "startMode o1 = (if Start o1 \<or> LockControls o1 then ModeRunning else ModePaused)"

definition clampRate :: "rat \<Rightarrow> rat" where
  "clampRate r = min (max r (1 / 20)) 20"

definition startRate :: "options \<Rightarrow> rat" where
  "startRate o1 = (if optRate o1 = 0 then 1 else clampRate (optRate o1))"

text \<open>The newest row every unhalted cell has proved; with every cell halted, the position held.\<close>

fun frontier_loop :: "int set \<Rightarrow> int \<Rightarrow> cell_chain list \<Rightarrow> u64 option \<Rightarrow> u64 option" where
  "frontier_loop hs i [] acc = acc"
| "frontier_loop hs i (c # cs) acc =
     (if i \<in> hs then frontier_loop hs (i + 1) cs acc
      else frontier_loop hs (i + 1) cs
        (case acc of
           None \<Rightarrow> Some (Generation c)
         | Some f \<Rightarrow> if Generation c < f then Some (Generation c) else Some f))"

definition frontierLocked :: "engine \<Rightarrow> u64" where
  "frontierLocked e =
     (case frontier_loop (halted e) 0 (eTips e) None of
        None \<Rightarrow> eGeneration e
      | Some f \<Rightarrow> f)"

text \<open>How far the furthest unhalted cell is ahead of a mark.\<close>

fun deepest_loop :: "int set \<Rightarrow> (int \<Rightarrow> u64) \<Rightarrow> int \<Rightarrow> cell_chain list \<Rightarrow> u64 \<Rightarrow> u64" where
  "deepest_loop hs mark i [] deepest = deepest"
| "deepest_loop hs mark i (c # cs) deepest =
     (if i \<in> hs then deepest_loop hs mark (i + 1) cs deepest
      else deepest_loop hs mark (i + 1) cs
        (if Generation c > mark i
         then (let d = Generation c - mark i in if d > deepest then d else deepest)
         else deepest))"

definition deepestLocked :: "engine \<Rightarrow> u64" where
  "deepestLocked e = deepest_loop (halted e) (lastMined e) 0 (eTips e) 0"

definition deepestUnseenLocked :: "engine \<Rightarrow> u64" where
  "deepestUnseenLocked e = deepest_loop (halted e) (lastSeen e) 0 (eTips e) 0"

definition SetMode :: "mode \<Rightarrow> engine \<Rightarrow> engine" where
  "SetMode m e =
     (if LockControls (eOpts e) then e
      else (let e = (if m = ModeRunning
               then (let e = e\<lparr>starvedSince := None\<rparr>;
                         e = (if eMode e = ModeStarved then e\<lparr>lastError := NoNote\<rparr> else e);
                         f = frontierLocked e in
                     if eTarget e < f then e\<lparr>eTarget := f\<rparr> else e)
               else e) in
            e\<lparr>eMode := m\<rparr>))"

definition SetRate :: "rat \<Rightarrow> engine \<Rightarrow> engine" where
  "SetRate r e = (if LockControls (eOpts e) then e else e\<lparr>eRate := clampRate r\<rparr>)"

definition StepClock :: "engine \<Rightarrow> engine" where
  "StepClock e =
     (if LockControls (eOpts e) then e
      else if eTarget e < frontierLocked e + 1 then e\<lparr>eTarget := frontierLocked e + 1\<rparr>
      else e\<lparr>eTarget := eTarget e + 1\<rparr>)"

subsection \<open>The window of history\<close>

text \<open>The search from the newest end, which stops below the number sought.\<close>

fun index_from_end :: "view_generation list \<Rightarrow> u64 \<Rightarrow> int option" where
  "index_from_end [] number = None"
| "index_from_end (g # rest) number =
     (if Number g = number then Some (int (length rest))
      else if Number g < number then None
      else index_from_end rest number)"

definition indexOfGeneration :: "view_generation list \<Rightarrow> u64 \<Rightarrow> int" where
  "indexOfGeneration gens number =
     (case index_from_end (rev gens) number of None \<Rightarrow> -1 | Some i \<Rightarrow> i)"

definition set_view :: "engine \<Rightarrow> int \<Rightarrow> int \<Rightarrow> cell_view \<Rightarrow> engine" where
  "set_view e i cell v = e\<lparr>eHistory := (eHistory e)[nat i :=
     (eHistory e ! nat i)\<lparr>ViewCells := (ViewCells (eHistory e ! nat i))[nat cell := v]\<rparr>]\<rparr>"

definition state_of_status :: "status \<Rightarrow> tx_state" where
  "state_of_status st = (case st of
      StatusAttempting \<Rightarrow> TxAttempting | StatusBroadcast \<Rightarrow> TxBroadcast | StatusSeen \<Rightarrow> TxSeen
    | StatusMined \<Rightarrow> TxMined | StatusFailed \<Rightarrow> TxFailed)"

definition load_cell :: "int \<Rightarrow> cell_tx \<Rightarrow> cell_view list \<Rightarrow> cell_view list" where
  "load_cell n t vs =
     (if txCell t < 0 \<or> txCell t \<ge> n then vs
      else vs[nat (txCell t) := \<lparr>cvCell = txCell t, cvTxID = txTxID t,
             cvState = state_of_status (txStatus t), cvErr = txErr t\<rparr>])"

definition loadHistory :: "store \<Rightarrow> int \<Rightarrow> u64 \<Rightarrow> view_generation list" where
  "loadHistory s n frontier =
     (let from = (if frontier > of_nat maxHistory then frontier - of_nat maxHistory else 0) in
      map (\<lambda>g. \<lparr>Number = genNumber g, ViewRowHex = genRowHex g,
             ViewCells = fold (load_cell n) (genCells g) (pending_cells n)\<rparr>)
        (Load s from (maxHistory + 1)))"

subsection \<open>Starting up\<close>

definition genesis_cell_tx :: "deployment \<Rightarrow> int \<Rightarrow> cell_tx" where
  "genesis_cell_tx d cell = \<lparr>txGen = 0, txCell = cell, txTxID = GenesisTxID d, txStatus = StatusSeen, txErr = ''''\<rparr>"

definition seedGenesisRecord :: "int \<Rightarrow> store \<Rightarrow> deployment \<Rightarrow> row \<Rightarrow> store" where
  "seedGenesisRecord now s d seed =
     (if RowAt s 0 \<noteq> None then s
      else fold (\<lambda>cell s. RecordTx s now (genesis_cell_tx d cell)) [0..dCells d - 1]
             (RecordGeneration s 0 (Hex seed)))"

definition set_tip :: "int \<Rightarrow> cell_chain \<Rightarrow> engine \<Rightarrow> engine" where
  "set_tip cell t e = e\<lparr>eTips := (eTips e)[nat cell := t]\<rparr>"

fun positions_loop :: "int \<Rightarrow> cell_position list \<Rightarrow> engine \<Rightarrow> engine" where
  "positions_loop cell [] e = e"
| "positions_loop cell (p # ps) e =
     (let e = set_tip cell (posTip p) e;
          e = (if Halted p then e\<lparr>halted := insert cell (halted e),
                 haltReason := (haltReason e)(cell \<mapsto> Derived (HaltReason p))\<rparr> else e);
          e = e\<lparr>lastMined := (lastMined e)(cell := Generation (posTip p)),
                lastSeen := (lastSeen e)(cell := Generation (posTip p))\<rparr> in
      positions_loop (cell + 1) ps e)"

definition applyPositions :: "cell_position list \<Rightarrow> engine \<Rightarrow> engine" where
  "applyPositions ps e =
     (let e = positions_loop 0 ps (e\<lparr>halted := {}, haltReason := (\<lambda>_. None)\<rparr>);
          e = e\<lparr>eGeneration := frontierLocked e\<rparr>;
          e = (if eTarget e < eGeneration e then e\<lparr>eTarget := eGeneration e\<rparr> else e);
          unknown = length (filter Unknown ps) in
      e\<lparr>lastError := (if unknown > 0 then TipsUnknown unknown
                      else if card (halted e) > 0 then CellsHalted (card (halted e))
                      else NoNote)\<rparr>)"

definition indexTx :: "txid \<Rightarrow> u64 \<Rightarrow> int \<Rightarrow> engine \<Rightarrow> engine" where
  "indexTx tid g cell e = e\<lparr>txIndex := (txIndex e)(tid \<mapsto> (g, cell))\<rparr>"

definition new_engine :: "deployment \<Rightarrow> options \<Rightarrow> config \<Rightarrow> store \<Rightarrow> engine" where
  "new_engine d o1 cfg s = \<lparr>eDeployment = d, eOpts = o1, eConfig = cfg,
     eTips = replicate (nat (dCells d)) no_chain, eGeneration = 0, eHistory = [],
     eMode = startMode o1, eRate = startRate o1, eFunds = \<lparr>Spendable = 0, Reserve = 0, PoolCoins = 0\<rparr>,
     totalTx = 0, lastError = NoNote, eTarget = 0, lastMined = (\<lambda>_. 0), lastSeen = (\<lambda>_. 0),
     starvedSince = None, lastProbe = None, leader = False, needsRederive = True,
     waitingOnCoin = {}, txIndex = (\<lambda>_. None), halted = {}, haltReason = (\<lambda>_. None),
     needsRepair = {}, retries = (\<lambda>_. None), eStore = s, statusWrites = []\<rparr>"

datatype start_error =
    StartSeed ca_error
  | StartDerive derive_error
  | StartBehind "(int \<times> u64 \<times> u64) list"

definition New :: "tx_codec \<Rightarrow> ledger \<Rightarrow> tx_status option \<Rightarrow> compiled \<Rightarrow> deployment \<Rightarrow> store \<Rightarrow> options
    \<Rightarrow> config \<Rightarrow> int \<Rightarrow> start_error + engine" where
  "New K l arcade c d s o1 cfg now =
     (case Seed d of
        Inl e \<Rightarrow> Inl (StartSeed e)
      | Inr seed \<Rightarrow>
     (let s = seedGenesisRecord now s d seed in
      case DeriveTips K l c d s of
        Inl e \<Rightarrow> Inl (StartDerive e)
      | Inr ps \<Rightarrow>
     (let behind = CheckMigrationFloor s arcade ps (legacyTips d) in
      if behind \<noteq> [] then Inl (StartBehind behind)
      else let e = applyPositions ps (new_engine d o1 cfg s);
               e = e\<lparr>eHistory := loadHistory s (dCells d) (eGeneration e)\<rparr> in
        Inr (fold (\<lambda>t e. if txTxID t \<noteq> '''' then indexTx (txTxID t) (txGen t) (txCell t) e else e)
               (Unsettled s) e))))"

subsection \<open>The snapshot\<close>

text \<open>Arcade's address and the funding address, constants of the instance, are left out.\<close>

record snapshot =
  snCells :: int
  snRule :: rule
  snMode :: mode
  snRate :: rat
  snGeneration :: u64
  snHistory :: "view_generation list"
  snFunds :: funds
  snTotalTx :: int
  ProvedCells :: nat
  FailedCells :: nat
  snLastError :: engine_note
  snLeader :: bool
  Locked :: bool
  snGenesisTxID :: txid
  HaltedCells :: nat
  Starved :: bool
  Lag :: u64
  Depth :: u64
  UnseenDepth :: u64
  WaitingOnCoin :: nat

definition snapshot_of :: "int \<Rightarrow> engine \<Rightarrow> snapshot" where
  "snapshot_of limit e =
     (let n = int (length (eHistory e));
          from = (if limit > 0 \<and> n > limit then n - limit else if limit < 0 then n else 0);
          newest = (if n > 0 then ViewCells (last (eHistory e)) else []);
          frontier = frontierLocked e in
      \<lparr>snCells = dCells (eDeployment e), snRule = dRule (eDeployment e), snMode = eMode e, snRate = eRate e, snGeneration = frontier,
       snHistory = drop (nat from) (eHistory e), snFunds = eFunds e, snTotalTx = totalTx e,
       ProvedCells = length (filter (\<lambda>v. cvState v = TxSeen \<or> cvState v = TxMined) newest),
       FailedCells = length (filter (\<lambda>v. cvState v = TxFailed) newest),
       snLastError = lastError e, snLeader = leader e, Locked = LockControls (eOpts e),
       snGenesisTxID = GenesisTxID (eDeployment e), HaltedCells = card (halted e), Starved = (eMode e = ModeStarved),
       Lag = eTarget e - min (eTarget e) frontier, Depth = deepestLocked e,
       UnseenDepth = deepestUnseenLocked e, WaitingOnCoin = card (waitingOnCoin e)\<rparr>)"

definition SnapshotTail :: "engine \<Rightarrow> snapshot" where "SnapshotTail = snapshot_of TailGenerations"
definition Snapshot :: "engine \<Rightarrow> snapshot" where "Snapshot = snapshot_of 0"
definition Stats_of :: "engine \<Rightarrow> snapshot" where "Stats_of = snapshot_of (-1)"

subsection \<open>Durable writes and halts\<close>

definition haltCell :: "int \<Rightarrow> halt_cause \<Rightarrow> engine \<Rightarrow> engine" where
  "haltCell cell why e =
     (if cell < 0 \<or> cell \<ge> int (length (eTips e)) \<or> cell \<in> halted e then e
      else e\<lparr>halted := insert cell (halted e), haltReason := (haltReason e)(cell \<mapsto> why),
             lastError := CellHalted cell why\<rparr>)"

definition persistRetries :: nat where "persistRetries = 3"

text \<open>\<open>db k\<close> says whether the store accepts the \<open>k\<close>-th try; a try it refuses leaves it as it was.\<close>

fun persist_loop :: "(nat \<Rightarrow> bool) \<Rightarrow> int \<Rightarrow> cell_tx \<Rightarrow> nat \<Rightarrow> nat \<Rightarrow> engine \<Rightarrow> engine \<times> bool" where
  "persist_loop db now t 0 attempt e = (haltCell (txCell t) (NotRecorded (txGen t)) e, False)"
| "persist_loop db now t (Suc left) attempt e =
     (if db attempt then (e\<lparr>eStore := RecordTx (eStore e) now t\<rparr>, True)
      else persist_loop db now t left (attempt + 1) e)"

definition persist :: "(nat \<Rightarrow> bool) \<Rightarrow> int \<Rightarrow> cell_tx \<Rightarrow> engine \<Rightarrow> engine \<times> bool" where
  "persist db now t e = persist_loop db now t persistRetries 1 e"

definition trackFunds :: "funds option \<Rightarrow> engine \<Rightarrow> engine" where
  "trackFunds answer e = (case answer of None \<Rightarrow> e | Some f \<Rightarrow> e\<lparr>eFunds := f\<rparr>)"

end
