(* ===== verification/Status.thy ===== *)
theory Status
  imports Engine
begin

text \<open>
  Verdicts of the network, \<open>internal/engine/status.go\<close>: which state a verdict means, the batch that
  applies verdicts to the window, the marks and the retry budget of refusals, the queue and the
  collector of the status writer, and the reconciler.  The order in which the reconciler's workers
  answer is a parameter.
\<close>


subsection \<open>States and ranks\<close>

definition stateFor :: "arc_status \<Rightarrow> tx_state option" where
  "stateFor st =
     (if st \<in> {ArcSeenOnNetwork, ArcSeenMultipleNodes, ArcAcceptedByNetwork} then Some TxSeen
      else if st \<in> {ArcMined, ArcImmutable} then Some TxMined
      else if st \<in> {ArcRejected, ArcDoubleSpendAttempted} then Some TxFailed
      else None)"

definition rank :: "tx_state \<Rightarrow> nat" where
  "rank st = (case st of TxPending \<Rightarrow> 0 | TxBroadcast \<Rightarrow> 1 | TxSeen \<Rightarrow> 2 | TxMined \<Rightarrow> 3 | TxFailed \<Rightarrow> 4
    | TxAttempting \<Rightarrow> 0)"

text \<open>The record's status of a state \<open>stateFor\<close> answers.\<close>

definition status_of_state :: "tx_state \<Rightarrow> status" where
  "status_of_state st = (case st of TxSeen \<Rightarrow> StatusSeen | TxMined \<Rightarrow> StatusMined | TxFailed \<Rightarrow> StatusFailed
    | TxBroadcast \<Rightarrow> StatusBroadcast | TxAttempting \<Rightarrow> StatusAttempting | TxPending \<Rightarrow> StatusAttempting)"

text \<open>The wording of a status is arcade's; it is the argument \<open>wording\<close> of the definitions that use it.\<close>

definition rejectionMessage :: "(arc_status \<Rightarrow> string) \<Rightarrow> arc_status \<Rightarrow> string \<Rightarrow> string" where
  "rejectionMessage wording st extra =
     (let msg = ''arcade: '' @ wording st in if extra \<noteq> '''' then msg @ '': '' @ extra else msg)"

subsection \<open>Refusals\<close>

definition maxRetries :: int where "maxRetries = 3"

definition minHaltWindow :: int where "minHaltWindow = 60 * second"

definition maxRebuildPause :: int where "maxRebuildPause = 8 * second"

definition retryPause :: int where "retryPause = 500 * millisecond"

definition rebuildPauseLocked :: "engine \<Rightarrow> int \<Rightarrow> int" where
  "rebuildPauseLocked e cell =
     (case retries e cell of
        None \<Rightarrow> retryPause
      | Some st \<Rightarrow>
         if rsAttempts st \<le> 0 then retryPause
         else min (push_bit (nat (min (rsAttempts st - 1) 8)) retryPause) maxRebuildPause)"

definition isRetryableRejection :: "arc_status \<Rightarrow> string \<Rightarrow> bool" where
  "isRetryableRejection st extra =
     (if st = ArcPendingRetry then True else str_contains (to_lower extra) ''retryable'')"

definition noteRefusalLocked :: "int \<Rightarrow> int \<Rightarrow> u64 \<Rightarrow> arc_status \<Rightarrow> string \<Rightarrow> engine \<Rightarrow> engine" where
  "noteRefusalLocked now cell g st why e =
     (if isRetryableRejection st why then e\<lparr>needsRepair := insert cell (needsRepair e)\<rparr>
      else
        (let r = (case retries e cell of
                    None \<Rightarrow> \<lparr>rsGeneration = 0, rsAttempts = 0, rsFirst = None\<rparr> | Some r \<Rightarrow> r);
             r = (if rsGeneration r \<noteq> g then \<lparr>rsGeneration = g, rsAttempts = 0, rsFirst = Some now\<rparr> else r);
             first = (case rsFirst r of None \<Rightarrow> now | Some t \<Rightarrow> t);
             r = r\<lparr>rsFirst := Some first, rsAttempts := rsAttempts r + 1\<rparr>;
             e = e\<lparr>retries := (retries e)(cell \<mapsto> r)\<rparr> in
         if rsAttempts r > maxRetries \<and> now - first \<ge> minHaltWindow
         then e\<lparr>halted := insert cell (halted e), haltReason := (haltReason e)(cell \<mapsto> Refused why),
                needsRepair := needsRepair e - {cell}\<rparr>
         else e\<lparr>needsRepair := insert cell (needsRepair e)\<rparr>))"

definition clearRetriesLocked :: "int \<Rightarrow> u64 \<Rightarrow> engine \<Rightarrow> engine" where
  "clearRetriesLocked cell g e =
     (case retries e cell of
        None \<Rightarrow> e
      | Some st \<Rightarrow> if g > rsGeneration st then e\<lparr>retries := (retries e)(cell := None)\<rparr> else e)"

subsection \<open>A batch of verdicts\<close>

type_synonym verdict_record = "txid \<times> tx_record"

text \<open>The first pass, under the read lock: the records that are ours and name a state.\<close>

definition status_work :: "engine \<Rightarrow> verdict_record list \<Rightarrow> (txid \<times> tx_record \<times> tx_state) list" where
  "status_work e recs = concat (map (\<lambda>(tid, rec).
     case stateFor (recStatus rec) of
       None \<Rightarrow> []
     | Some nxt \<Rightarrow> if txIndex e tid = None then [] else [(tid, rec, nxt)]) recs)"

record batch_out =
  boWrites :: "status_update list"
  boReasons :: "(txid \<times> int) list"

definition forget_terminal :: "status \<Rightarrow> txid \<Rightarrow> engine \<Rightarrow> engine" where
  "forget_terminal st tid e = (if IsTerminal st then e\<lparr>txIndex := (txIndex e)(tid := None)\<rparr> else e)"

definition raise_marks :: "tx_state \<Rightarrow> u64 \<Rightarrow> int \<Rightarrow> engine \<Rightarrow> engine" where
  "raise_marks nxt g cell e =
     (let e = (if nxt = TxMined \<and> g > lastMined e cell then e\<lparr>lastMined := (lastMined e)(cell := g)\<rparr> else e) in
      if (nxt = TxSeen \<or> nxt = TxMined) \<and> g > lastSeen e cell
      then e\<lparr>lastSeen := (lastSeen e)(cell := g)\<rparr> else e)"

definition apply_status :: "(arc_status \<Rightarrow> string) \<Rightarrow> int \<Rightarrow> txid \<times> tx_record \<times> tx_state
    \<Rightarrow> engine \<times> batch_out \<Rightarrow> engine \<times> batch_out" where
  "apply_status wording now w eo =
     (let (tid, rec, nxt) = w; (e, out) = eo in
      case txIndex e tid of
        None \<Rightarrow> (e, out)
      | Some (g, cell) \<Rightarrow>
         (let st = status_of_state nxt;
              msg = (if nxt = TxFailed then rejectionMessage wording (recStatus rec) (recExtraInfo rec) else '''');
              e = raise_marks nxt g cell e;
              i = indexOfGeneration (eHistory e) g;
              write = out\<lparr>boWrites := boWrites out @ [\<lparr>suTxID = tid, suStatus = st, suErr = msg\<rparr>]\<rparr> in
          if i < 0 \<or> cell \<ge> int (length (ViewCells (eHistory e ! nat i)))
          then (forget_terminal st tid e, write)
          else
            (let v = ViewCells (eHistory e ! nat i) ! nat cell in
             if rank nxt \<le> rank (cvState v) then (e, out)
             else
               (let e = forget_terminal st tid (set_view e i cell (v\<lparr>cvState := nxt\<rparr>)) in
                if nxt = TxFailed
                then (noteRefusalLocked now cell g (recStatus rec) msg
                        (set_view e i cell (v\<lparr>cvState := nxt, cvErr := msg\<rparr>)),
                      if recExtraInfo rec = '''' then write\<lparr>boReasons := boReasons write @ [(tid, cell)]\<rparr>
                      else write)
                else (e, write)))))"

definition statusWriteQueue :: nat where "statusWriteQueue = 8192"

definition enqueueStatusWrites :: "status_update list \<Rightarrow> engine \<Rightarrow> engine" where
  "enqueueStatusWrites ws e = fold (\<lambda>w e.
     if length (statusWrites e) < statusWriteQueue then e\<lparr>statusWrites := statusWrites e @ [w]\<rparr> else e) ws e"

text \<open>The whole batch: the state after it and the refusals whose reason has to be looked up.\<close>

definition applyStatusBatch :: "(arc_status \<Rightarrow> string) \<Rightarrow> int \<Rightarrow> verdict_record list \<Rightarrow> engine
    \<Rightarrow> engine \<times> (txid \<times> int) list" where
  "applyStatusBatch wording now recs e =
     (if recs = [] then (e, [])
      else let work = status_work e recs in
        if work = [] then (e, [])
        else let (e, out) = fold (apply_status wording now) work (e, \<lparr>boWrites = [], boReasons = []\<rparr>) in
          (enqueueStatusWrites (boWrites out) e, boReasons out))"

definition fetchRejectionReason :: "(arc_status \<Rightarrow> string) \<Rightarrow> tx_status \<Rightarrow> int \<Rightarrow> txid \<Rightarrow> int \<Rightarrow> engine \<Rightarrow> engine" where
  "fetchRejectionReason wording ask now tid cell e =
     (case ask tid of
        Inl err \<Rightarrow> e
      | Inr None \<Rightarrow> e
      | Inr (Some rec) \<Rightarrow>
         if recExtraInfo rec = '''' then e
         else
           (let why = rejectionMessage wording (recStatus rec) (recExtraInfo rec);
                e = (case txIndex e tid of
                       None \<Rightarrow> e
                     | Some (g, c) \<Rightarrow>
                        (let i = indexOfGeneration (eHistory e) g in
                         if i \<ge> 0 then set_view e i c ((ViewCells (eHistory e ! nat i) ! nat c)\<lparr>cvErr := why\<rparr>)
                         else e)) in
            e\<lparr>eStore := UpdateStatus (eStore e) now tid StatusFailed why\<rparr>))"

subsection \<open>The status writer\<close>

definition statusWriteMax :: nat where "statusWriteMax = 512"

text \<open>The collector's \<open>add\<close>: the last write of a txid takes the place of the first.\<close>

definition add_write :: "status_update \<Rightarrow> status_update list \<Rightarrow> status_update list" where
  "add_write u batch =
     (if suTxID u \<in> suTxID ` set batch
      then map (\<lambda>b. if suTxID b = suTxID u then u else b) batch
      else batch @ [u])"

text \<open>\<open>avail\<close> is what the channel delivers before the linger or the context ends the wait; the answer is
  the batch and what is left in the channel.\<close>

fun collect_loop :: "status_update list \<Rightarrow> status_update list \<Rightarrow> status_update list \<times> status_update list" where
  "collect_loop [] batch = (batch, [])"
| "collect_loop (u # us) batch =
     (if length batch \<ge> statusWriteMax then (batch, u # us) else collect_loop us (add_write u batch))"

definition collectStatusWrites :: "nat \<Rightarrow> engine \<Rightarrow> status_update list \<times> engine" where
  "collectStatusWrites avail e =
     (let (batch, left) = collect_loop (take avail (statusWrites e)) [] in
      (batch, e\<lparr>statusWrites := left @ drop avail (statusWrites e)\<rparr>))"

definition writeStatuses :: "nat \<Rightarrow> bool \<Rightarrow> int \<Rightarrow> engine \<Rightarrow> engine" where
  "writeStatuses avail ok now e =
     (let (batch, e) = collectStatusWrites avail e in
      if length batch > 0 \<and> ok then e\<lparr>eStore := UpdateStatusBatch (eStore e) batch now\<rparr> else e)"

subsection \<open>Reconciling\<close>

definition reconcileAfter :: int where "reconcileAfter = 90 * second"
definition reconcileLimit :: nat where "reconcileLimit = 512"

text \<open>The workers ask in parallel; the records arrive in some order, \<open>order\<close>.\<close>

definition reconcileBatch :: "(arc_status \<Rightarrow> string) \<Rightarrow> tx_status \<Rightarrow> (verdict_record list \<Rightarrow> verdict_record list)
    \<Rightarrow> int \<Rightarrow> cell_tx list \<Rightarrow> engine \<Rightarrow> engine \<times> (txid \<times> int) list" where
  "reconcileBatch wording ask order now pending e =
     (if pending = [] then (e, [])
      else applyStatusBatch wording now
        (order (concat (map (\<lambda>t. case ask (txTxID t) of
            Inr (Some rec) \<Rightarrow> [(txTxID t, rec)] | _ \<Rightarrow> []) pending))) e)"

definition reconcile_tick :: "(arc_status \<Rightarrow> string) \<Rightarrow> tx_status \<Rightarrow> (verdict_record list \<Rightarrow> verdict_record list)
    \<Rightarrow> int \<Rightarrow> engine \<Rightarrow> engine \<times> (txid \<times> int) list" where
  "reconcile_tick wording ask order now e =
     reconcileBatch wording ask order now (Stale (eStore e) now reconcileAfter reconcileLimit) e"

subsection \<open>The collected batch\<close>

lemma add_write_distinct: "distinct (map suTxID b) \<Longrightarrow> distinct (map suTxID (add_write u b))"
proof -
  have "map suTxID (map (\<lambda>b. if suTxID b = suTxID u then u else b) b) = map suTxID b" by auto
  then show "distinct (map suTxID b) \<Longrightarrow> distinct (map suTxID (add_write u b))"
    by (auto simp: add_write_def simp del: map_map)
qed

lemma add_write_length: "length (add_write u b) \<le> length b + 1"
  by (simp add: add_write_def)

lemma collect_loop_ok:
  "collect_loop us b = (batch, left) \<Longrightarrow> distinct (map suTxID b) \<Longrightarrow> length b \<le> statusWriteMax \<Longrightarrow>
     distinct (map suTxID batch) \<and> length batch \<le> statusWriteMax
     \<and> us = take (length us - length left) us @ left
     \<and> batch = fold add_write (take (length us - length left) us) b"
proof (induction us arbitrary: b)
  case (Cons u us)
  show ?case
  proof (cases "length b \<ge> statusWriteMax")
    case False
    then have r: "collect_loop us (add_write u b) = (batch, left)" using Cons.prems(1) by simp
    have "length (add_write u b) \<le> statusWriteMax" using add_write_length [of u b] False by linarith
    note ih = Cons.IH [OF r add_write_distinct [OF Cons.prems(2)] this]
    have "length left \<le> length us" using ih by (metis length_append le_add2)
    then have tk: "take (length (u # us) - length left) (u # us) = u # take (length us - length left) us"
      by (simp add: Suc_diff_le)
    show ?thesis unfolding tk using ih by (metis append_Cons fold_simps(2))
  qed (use Cons.prems in auto)
qed simp

lemma collect_loop_full:
  "collect_loop us b = (batch, left) \<Longrightarrow> left \<noteq> [] \<Longrightarrow> statusWriteMax \<le> length batch"
  by (induction us b rule: collect_loop.induct) (auto split: if_splits)

text \<open>Updates of one txid: the last wins.\<close>

lemma update_update_same:
  "suTxID u = tid \<Longrightarrow>
   UpdateStatus (UpdateStatus s now tid st msg) now (suTxID u) (suStatus u) (suErr u)
     = UpdateStatus s now (suTxID u) (suStatus u) (suErr u)"
  by (simp add: UpdateStatus_def o_def if_distrib cong: if_cong)

lemma update_update_other:
  "suTxID u \<noteq> tid \<Longrightarrow>
   UpdateStatus (UpdateStatus s now (suTxID u) (suStatus u) (suErr u)) now tid st msg
     = UpdateStatus (UpdateStatus s now tid st msg) now (suTxID u) (suStatus u) (suErr u)"
  by (auto simp: UpdateStatus_def)

abbreviation run_updates :: "status_update list \<Rightarrow> int \<Rightarrow> store \<Rightarrow> store" where
  "run_updates us now \<equiv> fold (\<lambda>u s. UpdateStatus s now (suTxID u) (suStatus u) (suErr u)) us"

lemma run_updates_commute:
  "suTxID u \<notin> suTxID ` set us \<Longrightarrow>
   run_updates us now (UpdateStatus s now (suTxID u) (suStatus u) (suErr u))
     = UpdateStatus (run_updates us now s) now (suTxID u) (suStatus u) (suErr u)"
proof (induction us arbitrary: s)
  case (Cons v us)
  have "suTxID u \<noteq> suTxID v" using Cons.prems by auto
  then show ?case using Cons update_update_other [of u "suTxID v" s now "suStatus v" "suErr v"] by simp
qed simp

lemma run_updates_add:
  assumes "distinct (map suTxID b)"
  shows "run_updates (add_write u b) now s = UpdateStatus (run_updates b now s) now (suTxID u) (suStatus u) (suErr u)"
proof (cases "suTxID u \<in> suTxID ` set b")
  case True
  then obtain xs v ys where b: "b = xs @ v # ys" and v: "suTxID v = suTxID u" by (force dest: split_list)
  have new: "suTxID u \<notin> suTxID ` set ys" "suTxID v \<notin> suTxID ` set ys" "suTxID u \<notin> suTxID ` set xs"
    using assms b v by auto
  have "map (\<lambda>b. if suTxID b = suTxID u then u else b) zs = zs" if "suTxID u \<notin> suTxID ` set zs" for zs
    using that by (intro map_idI) (metis image_eqI)
  then have "add_write u b = xs @ u # ys" using True b v new by (simp add: add_write_def)
  then show ?thesis
    using new b update_update_same [OF v [symmetric]] by (simp add: run_updates_commute)
qed (simp add: add_write_def)

lemma run_updates_collected:
  "distinct (map suTxID b) \<Longrightarrow> run_updates (fold add_write us b) now s = run_updates us now (run_updates b now s)"
proof (induction us arbitrary: b)
  case (Cons u us)
  then show ?case using add_write_distinct [OF Cons.prems] by (simp add: run_updates_add)
qed simp

text \<open>Collecting status writes loses none.  A collected batch names each transaction once and
  holds at most 512 writes, what is not collected stays queued in order, and writing the batch in one
  statement leaves the record exactly as writing every collected update one by one would.\<close>

theorem collected_batch_exact:
  assumes "collectStatusWrites avail e = (batch, e')"
  shows "\<exists>taken. statusWrites e = taken @ statusWrites e' \<and> length taken \<le> avail
     \<and> distinct (map suTxID batch) \<and> length batch \<le> 512
     \<and> (length taken < min avail (length (statusWrites e)) \<longrightarrow> length batch = 512)
     \<and> UpdateStatusBatch (eStore e) batch now
        = fold (\<lambda>u s. UpdateStatus s now (suTxID u) (suStatus u) (suErr u)) taken (eStore e)"
proof -
  let ?us = "take avail (statusWrites e)"
  obtain left where c: "collect_loop ?us [] = (batch, left)"
    and e': "statusWrites e' = left @ drop avail (statusWrites e)"
    using assms by (auto simp: collectStatusWrites_def split: prod.splits)
  define taken where "taken = take (length ?us - length left) ?us"
  have "distinct (map suTxID batch) \<and> length batch \<le> statusWriteMax \<and> ?us = taken @ left
     \<and> batch = fold add_write taken []"
    unfolding taken_def by (rule collect_loop_ok [OF c]) simp_all
  then have ok: "distinct (map suTxID batch)" "length batch \<le> statusWriteMax" "?us = taken @ left"
    "batch = fold add_write taken []" by blast+
  have q: "statusWrites e = taken @ statusWrites e'" using ok(3) e' by (metis append_assoc append_take_drop_id)
  have "UpdateStatusBatch (eStore e) batch now = run_updates batch now (eStore e)"
    using update_batch_sequential [OF ok(1)] by simp
  also have "\<dots> = run_updates taken now (eStore e)" unfolding ok(4) by (simp add: run_updates_collected)
  finally have w: "UpdateStatusBatch (eStore e) batch now = run_updates taken now (eStore e)" .
  have "length taken \<le> length ?us" unfolding ok(3) by simp
  then have "length taken \<le> avail" by simp
  moreover have "length batch = 512" if "length taken < min avail (length (statusWrites e))"
  proof -
    have "left \<noteq> []" using that ok(3) by (metis append_Nil2 length_take min.commute nless_le)
    then show ?thesis using collect_loop_full [OF c] ok(2) by (simp add: statusWriteMax_def)
  qed
  ultimately show ?thesis using q ok(1,2) w by (auto simp: statusWriteMax_def)
qed

definition demo_engine :: engine where
  "demo_engine = new_engine demo_deployment \<lparr>AutoRecover = False, LockControls = False, optRate = 0, Start = True\<rparr>
     \<lparr>MaxLag = 4, MaxUnconfirmedDepth = 0, MaxUnseenDepth = 1\<rparr> (run_store False demo_ops)"

definition demo_queue :: "status_update list" where
  "demo_queue = [\<lparr>suTxID = ''bb'', suStatus = StatusSeen, suErr = ''''\<rparr>,
     \<lparr>suTxID = ''cc'', suStatus = StatusFailed, suErr = ''no''\<rparr>,
     \<lparr>suTxID = ''bb'', suStatus = StatusMined, suErr = ''''\<rparr>]"

theorem collected_batch_exact_witness:
  "let e = enqueueStatusWrites demo_queue demo_engine; (batch, e') = collectStatusWrites 3 e in
     statusWrites e' = [] \<and> length batch = 2
     \<and> UpdateStatusBatch (eStore e) batch 7
        = fold (\<lambda>u s. UpdateStatus s 7 (suTxID u) (suStatus u) (suErr u)) demo_queue (eStore e)"
proof -
  let ?e = "enqueueStatusWrites demo_queue demo_engine"
  obtain batch e' where c: "collectStatusWrites 3 ?e = (batch, e')" by fastforce
  have "statusWrites (snd (collectStatusWrites 3 ?e)) = [] \<and> length (fst (collectStatusWrites 3 ?e)) = 2
      \<and> statusWrites ?e = demo_queue"
    by (simp add: enqueueStatusWrites_def statusWriteQueue_def demo_queue_def demo_engine_def new_engine_def
        collectStatusWrites_def add_write_def statusWriteMax_def)
  then show ?thesis using collected_batch_exact [OF c, of 7] c by (auto simp: Let_def)
qed

subsection \<open>How many refusals halt a cell\<close>

text \<open>A run of refusals of one generation, none of them retryable, at the given instants.\<close>

abbreviation refused_at :: "int \<Rightarrow> u64 \<Rightarrow> arc_status \<Rightarrow> string \<Rightarrow> int list \<Rightarrow> engine \<Rightarrow> engine" where
  "refused_at cell g st why ts \<equiv> fold (\<lambda>t. noteRefusalLocked t cell g st why) ts"

definition run_started :: "u64 \<Rightarrow> retry_state option \<Rightarrow> bool" where
  "run_started g r = (case r of None \<Rightarrow> False | Some st \<Rightarrow> rsGeneration st = g)"

lemma refusal_step:
  assumes "\<not> isRetryableRejection st why"
    and "retries e cell = Some \<lparr>rsGeneration = g, rsAttempts = n, rsFirst = Some t0\<rparr>"
  shows "retries (noteRefusalLocked t cell g st why e) cell
       = Some \<lparr>rsGeneration = g, rsAttempts = n + 1, rsFirst = Some t0\<rparr>
     \<and> (cell \<in> halted (noteRefusalLocked t cell g st why e) \<longleftrightarrow>
          cell \<in> halted e \<or> (n \<ge> 3 \<and> t - t0 \<ge> 60 * second))
     \<and> (cell \<in> needsRepair (noteRefusalLocked t cell g st why e) \<longleftrightarrow> \<not> (n \<ge> 3 \<and> t - t0 \<ge> 60 * second))"
  using assms by (auto simp: noteRefusalLocked_def Let_def maxRetries_def minHaltWindow_def)

lemma first_refusal:
  assumes "\<not> isRetryableRejection st why" and "\<not> run_started g (retries e cell)"
  shows "retries (noteRefusalLocked t cell g st why e) cell
       = Some \<lparr>rsGeneration = g, rsAttempts = 1, rsFirst = Some t\<rparr>
     \<and> halted (noteRefusalLocked t cell g st why e) = halted e
     \<and> cell \<in> needsRepair (noteRefusalLocked t cell g st why e)"
  using assms
  by (auto simp: noteRefusalLocked_def Let_def maxRetries_def run_started_def split: option.splits)

lemma refusal_run:
  assumes "\<not> isRetryableRejection st why"
  shows "retries e cell = Some \<lparr>rsGeneration = g, rsAttempts = n, rsFirst = Some t0\<rparr> \<Longrightarrow>
     retries (refused_at cell g st why ts e) cell
       = Some \<lparr>rsGeneration = g, rsAttempts = n + int (length ts), rsFirst = Some t0\<rparr>
     \<and> (cell \<in> halted (refused_at cell g st why ts e) \<longleftrightarrow>
          cell \<in> halted e \<or> (\<exists>j < length ts. n + int j \<ge> 3 \<and> ts ! j - t0 \<ge> 60 * second))"
proof (induction ts arbitrary: e n)
  case (Cons t ts)
  note s = refusal_step [OF assms Cons.prems, of t]
  note ih = Cons.IH [OF conjunct1 [OF s]]
  have "(\<exists>j < length (t # ts). n + int j \<ge> 3 \<and> (t # ts) ! j - t0 \<ge> 60 * second)
     \<longleftrightarrow> (n \<ge> 3 \<and> t - t0 \<ge> 60 * second) \<or> (\<exists>j < length ts. n + 1 + int j \<ge> 3 \<and> ts ! j - t0 \<ge> 60 * second)"
    by (auto simp: less_Suc_eq_0_disj algebra_simps)
  then show ?case using ih s by (simp add: algebra_simps)
qed simp

lemma pause_bounds:
  "retryPause \<le> rebuildPauseLocked e cell \<and> rebuildPauseLocked e cell \<le> maxRebuildPause"
proof -
  have "(1 :: int) \<le> 2 ^ n" for n by simp
  then have "retryPause \<le> push_bit n retryPause" for n
    by (simp add: push_bit_eq_mult retryPause_def mult_le_cancel_left1)
  then show ?thesis
    by (auto simp: rebuildPauseLocked_def maxRebuildPause_def retryPause_def split: option.split)
qed

text \<open>Claim C13: one bad minute does not cost a cell.  Over a run of refusals of one generation, none of
  them called retryable, an unhalted cell is halted exactly when a fourth or later refusal came at
  least sixty seconds after the first; the wait before each rebuild is between half a second and
  eight seconds, doubling from one refusal to the next.\<close>

theorem refusals_halt_exact:
  assumes "\<not> isRetryableRejection st why" and "\<not> run_started g (retries e cell)" and "cell \<notin> halted e"
  shows "let e' = refused_at cell g st why (t0 # ts) e in
     (cell \<in> halted e' \<longleftrightarrow> (\<exists>j < length ts. 2 \<le> j \<and> ts ! j - t0 \<ge> 60 * second))
     \<and> rebuildPauseLocked e' cell = min (500 * millisecond * 2 ^ min (length ts) 8) (8 * second)
     \<and> 500 * millisecond \<le> rebuildPauseLocked e' cell \<and> rebuildPauseLocked e' cell \<le> 8 * second"
proof -
  define e1 where "e1 = noteRefusalLocked t0 cell g st why e"
  note f = first_refusal [OF assms(1,2), of t0, folded e1_def]
  note r = refusal_run [OF assms(1) conjunct1 [OF f], of ts]
  have "rebuildPauseLocked (refused_at cell g st why ts e1) cell
     = min (push_bit (min (length ts) 8) retryPause) maxRebuildPause"
    using r by (simp add: rebuildPauseLocked_def min_def)
  moreover have "cell \<in> halted (refused_at cell g st why ts e1) \<longleftrightarrow>
      (\<exists>j < length ts. 2 \<le> j \<and> ts ! j - t0 \<ge> 60 * second)"
    using r f assms(3) by auto
  ultimately show ?thesis
    using pause_bounds [of "refused_at cell g st why ts e1" cell]
    by (simp add: e1_def [symmetric] Let_def push_bit_eq_mult retryPause_def maxRebuildPause_def mult.commute)
qed

theorem refusals_halt_exact_witness:
  "let e = refused_at 0 5 ArcRejected ''arcade: REJECTED'' [0, second, 2 * second, 61 * second] demo_engine in
     0 \<in> halted e \<and> rebuildPauseLocked e 0 = 4 * second"
proof -
  have r: "\<not> isRetryableRejection ArcRejected ''arcade: REJECTED''" by code_simp
  have e: "\<not> run_started 5 (retries demo_engine 0)" "0 \<notin> halted demo_engine"
    by (simp_all add: demo_engine_def new_engine_def run_started_def)
  have "\<exists>j < length [second, 2 * second, 61 * second]. 2 \<le> j \<and> [second, 2 * second, 61 * second] ! j - 0 \<ge> 60 * second"
    by (rule exI [of _ 2]) simp
  with refusals_halt_exact [OF r e, of 0 "[second, 2 * second, 61 * second]"]
  show ?thesis unfolding Let_def by (simp only: list.size simp_thms) simp
qed

subsection \<open>The window\<close>

definition window_sorted :: "view_generation list \<Rightarrow> bool" where
  "window_sorted gens = sorted_wrt (\<lambda>a b. Number a < Number b) gens"

lemma window_distinct: "window_sorted gens \<Longrightarrow> i < length gens \<Longrightarrow> j < length gens \<Longrightarrow>
   Number (gens ! i) = Number (gens ! j) \<Longrightarrow> i = j"
  unfolding window_sorted_def by (metis linorder_neqE_nat order_less_irrefl sorted_wrt_nth_less)

lemma index_from_end_sorted:
  "window_sorted gens \<Longrightarrow>
     (case index_from_end (rev gens) n of
        None \<Rightarrow> \<forall>g \<in> set gens. Number g \<noteq> n
      | Some i \<Rightarrow> \<exists>j < length gens. i = int j \<and> Number (gens ! j) = n)"
proof (induction gens rule: rev_induct)
  case (snoc g gens)
  have s: "window_sorted gens" and below: "\<forall>x \<in> set gens. Number x < Number g"
    using snoc.prems by (auto simp: window_sorted_def sorted_wrt_append)
  consider "Number g = n" | "Number g < n" | "\<not> Number g < n" "Number g \<noteq> n" by blast
  then show ?case
  proof cases
    case 1
    then show ?thesis by (auto intro!: exI [of _ "length gens"])
  next
    case 2
    then have "\<forall>x \<in> set gens. Number x \<noteq> n" using below by fastforce
    then show ?thesis using 2 by auto
  next
    case 3
    then show ?thesis using snoc.IH [OF s] by (auto split: option.splits simp: nth_append)
  qed
qed simp

lemma index_found:
  assumes "window_sorted gens"
  shows "indexOfGeneration gens n = int j \<longleftrightarrow> j < length gens \<and> Number (gens ! j) = n"
proof (cases "index_from_end (rev gens) n")
  case None
  then have "\<forall>g \<in> set gens. Number g \<noteq> n" using index_from_end_sorted [OF assms, of n] by simp
  then show ?thesis using None by (auto simp: indexOfGeneration_def)
next
  case (Some i)
  then obtain k where "k < length gens" "i = int k" "Number (gens ! k) = n"
    using index_from_end_sorted [OF assms, of n] by auto
  then show ?thesis using Some window_distinct [OF assms] by (auto simp: indexOfGeneration_def)
qed

lemma index_missing: "window_sorted gens \<Longrightarrow> indexOfGeneration gens n < 0 \<longleftrightarrow> (\<forall>g \<in> set gens. Number g \<noteq> n)"
  using index_from_end_sorted [of gens n]
  by (auto simp: indexOfGeneration_def split: option.splits)

text \<open>What the window shows of a cell at a generation.\<close>

definition view_state :: "engine \<Rightarrow> u64 \<Rightarrow> int \<Rightarrow> tx_state option" where
  "view_state e g c =
     (let i = indexOfGeneration (eHistory e) g in
      if i < 0 \<or> c < 0 \<or> c \<ge> int (length (ViewCells (eHistory e ! nat i))) then None
      else Some (cvState (ViewCells (eHistory e ! nat i) ! nat c)))"

lemma set_view_shape:
  "map Number (eHistory (set_view e i cell v)) = map Number (eHistory e)"
  "length (eHistory (set_view e i cell v)) = length (eHistory e)"
  "length (ViewCells (eHistory (set_view e i cell v) ! k)) = length (ViewCells (eHistory e ! k))"
proof -
  show "map Number (eHistory (set_view e i cell v)) = map Number (eHistory e)"
    by (cases "nat i < length (eHistory e)")
       (simp_all add: set_view_def map_update list_update_same_conv not_less list_update_beyond)
  show "length (eHistory (set_view e i cell v)) = length (eHistory e)" by (simp add: set_view_def)
  show "length (ViewCells (eHistory (set_view e i cell v) ! k)) = length (ViewCells (eHistory e ! k))"
    by (cases "nat i < length (eHistory e)"; cases "k = nat i")
       (simp_all add: set_view_def not_less list_update_beyond)
qed

lemma set_view_kept [simp]:
  "eTips (set_view e i cell v) = eTips e" "lastMined (set_view e i cell v) = lastMined e"
  "lastSeen (set_view e i cell v) = lastSeen e" "eStore (set_view e i cell v) = eStore e"
  "eTarget (set_view e i cell v) = eTarget e" "txIndex (set_view e i cell v) = txIndex e"
  "eDeployment (set_view e i cell v) = eDeployment e" "leader (set_view e i cell v) = leader e"
  "needsRederive (set_view e i cell v) = needsRederive e" "halted (set_view e i cell v) = halted e"
  "eMode (set_view e i cell v) = eMode e" "eConfig (set_view e i cell v) = eConfig e"
  "eGeneration (set_view e i cell v) = eGeneration e" "eOpts (set_view e i cell v) = eOpts e"
  by (simp_all add: set_view_def)

lemma window_sorted_numbers: "map Number a = map Number b \<Longrightarrow> window_sorted a = window_sorted b"
  unfolding window_sorted_def sorted_wrt_map [symmetric] by simp

lemma index_numbers:
  assumes "map Number a = map Number b"
  shows "indexOfGeneration a n = indexOfGeneration b n"
proof -
  have eq: "index_from_end a n = index_from_end b n" if "map Number a = map Number b" for a b
    using that
  proof (induction a arbitrary: b)
    case (Cons x a)
    then obtain y b' where b: "b = y # b'" "Number y = Number x" "map Number a = map Number b'" by (cases b) auto
    then have "length a = length b'" by (rule_tac map_eq_imp_length_eq)
    then show ?case using Cons.IH [OF b(3)] b by simp
  qed simp
  have "map Number (rev a) = map Number (rev b)" using assms by (simp only: rev_map [symmetric])
  from eq [OF this] show ?thesis by (simp add: indexOfGeneration_def)
qed

lemma view_state_set:
  assumes s: "window_sorted (eHistory e)" and i: "indexOfGeneration (eHistory e) g0 = int j" and c0: "0 \<le> c0"
    and in_row: "c0 < int (length (ViewCells (eHistory e ! j)))"
  shows "view_state (set_view e (int j) c0 v) g c
     = (if g = g0 \<and> c = c0 then Some (cvState v) else view_state e g c)"
proof -
  have j: "j < length (eHistory e)" "Number (eHistory e ! j) = g0" using i index_found [OF s] by simp_all
  have ix: "indexOfGeneration (eHistory (set_view e (int j) c0 v)) n = indexOfGeneration (eHistory e) n" for n
    by (rule index_numbers, rule set_view_shape)
  show ?thesis
  proof (cases "indexOfGeneration (eHistory e) g < 0")
    case True
    then show ?thesis using i by (auto simp: view_state_def ix)
  next
    case False
    then obtain k where k: "indexOfGeneration (eHistory e) g = int k"
      by (metis zero_le_imp_eq_int not_less)
    then have kk: "k < length (eHistory e)" "Number (eHistory e ! k) = g" using index_found [OF s] by simp_all
    show ?thesis
    proof (cases "k = j")
      case True
      then have "g = g0" using kk j by simp
      moreover have "eHistory (set_view e (int j) c0 v) ! j =
        (eHistory e ! j)\<lparr>ViewCells := (ViewCells (eHistory e ! j))[nat c0 := v]\<rparr>" using j by (simp add: set_view_def)
      ultimately show ?thesis using k True c0 in_row by (auto simp: view_state_def ix Let_def nth_list_update)
    next
      case other: False
      then have "g \<noteq> g0" using kk j window_distinct [OF s, of k j] by auto
      moreover have "eHistory (set_view e (int j) c0 v) ! k = eHistory e ! k" using other by (simp add: set_view_def)
      ultimately show ?thesis using k by (simp add: view_state_def ix Let_def)
    qed
  qed
qed

subsection \<open>Verdicts only raise\<close>

definition marks_ok :: "engine \<Rightarrow> bool" where
  "marks_ok e = (\<forall>c. lastMined e c \<le> lastSeen e c)"

text \<open>What a batch of verdicts may do to the state: the window keeps its generations, a shown state
  stays or moves to a higher rank, the marks only grow and keep their order, the tips, the store and
  the target stay, and no transaction becomes ours that was not.\<close>

definition risen :: "engine \<Rightarrow> engine \<Rightarrow> bool" where
  "risen e e' \<longleftrightarrow>
     map Number (eHistory e') = map Number (eHistory e)
   \<and> (\<forall>g c. case view_state e g c of
        None \<Rightarrow> view_state e' g c = None
      | Some st \<Rightarrow> \<exists>st'. view_state e' g c = Some st' \<and> (st' = st \<or> rank st < rank st'))
   \<and> (\<forall>c. lastMined e c \<le> lastMined e' c \<and> lastSeen e c \<le> lastSeen e' c)
   \<and> (marks_ok e \<longrightarrow> marks_ok e')
   \<and> eTips e' = eTips e \<and> eStore e' = eStore e \<and> eTarget e' = eTarget e
   \<and> halted e \<subseteq> halted e' \<and> txIndex e' \<subseteq>\<^sub>m txIndex e"

lemma view_state_cong: "eHistory e' = eHistory e \<Longrightarrow> view_state e' g c = view_state e g c"
  by (simp add: view_state_def Let_def)

lemma risen_same_window:
  assumes "eHistory e' = eHistory e" and "\<And>c. lastMined e c \<le> lastMined e' c \<and> lastSeen e c \<le> lastSeen e' c"
    and "marks_ok e \<Longrightarrow> marks_ok e'" and "eTips e' = eTips e" "eStore e' = eStore e" "eTarget e' = eTarget e"
    and "halted e \<subseteq> halted e'" "txIndex e' \<subseteq>\<^sub>m txIndex e"
  shows "risen e e'"
  using assms by (auto simp: risen_def view_state_cong [OF assms(1)] split: option.split)

lemma risen_refl [simp]: "risen e e"
  by (rule risen_same_window) simp_all

lemma risen_trans: "risen a b \<Longrightarrow> risen b c \<Longrightarrow> risen a c"
proof -
  assume r: "risen a b" "risen b c"
  have v: "case view_state a g x of
        None \<Rightarrow> view_state c g x = None
      | Some st \<Rightarrow> \<exists>st'. view_state c g x = Some st' \<and> (st' = st \<or> rank st < rank st')" for g x
  proof -
    have ab: "case view_state a g x of
        None \<Rightarrow> view_state b g x = None
      | Some st \<Rightarrow> \<exists>st'. view_state b g x = Some st' \<and> (st' = st \<or> rank st < rank st')"
      and bc: "case view_state b g x of
        None \<Rightarrow> view_state c g x = None
      | Some st \<Rightarrow> \<exists>st'. view_state c g x = Some st' \<and> (st' = st \<or> rank st < rank st')"
      using r unfolding risen_def by blast+
    show ?thesis
    proof (cases "view_state a g x")
      case None
      then show ?thesis using ab bc by simp
    next
      case (Some st)
      then obtain st' where "view_state b g x = Some st'" "st' = st \<or> rank st < rank st'" using ab by auto
      then show ?thesis using bc Some by auto
    qed
  qed
  have m: "lastMined a x \<le> lastMined c x \<and> lastSeen a x \<le> lastSeen c x" for x
    using r unfolding risen_def by (meson order_trans)
  show ?thesis
    using r v m map_le_trans [of "txIndex c" "txIndex b" "txIndex a"] unfolding risen_def by (auto split: option.splits)
qed

lemma risen_raise: "risen e (raise_marks nxt g cell e)"
  by (rule risen_same_window)
     (auto simp: raise_marks_def Let_def marks_ok_def intro: order_trans less_imp_le)

lemma raise_history: "eHistory (raise_marks nxt g cell e) = eHistory e"
  by (simp add: raise_marks_def Let_def)

lemma risen_forget: "risen e (forget_terminal st tid e)"
  by (rule risen_same_window) (auto simp: forget_terminal_def marks_ok_def map_le_def)

lemma risen_refusal: "risen e (noteRefusalLocked now cell g st why e)"
  by (rule risen_same_window)
     (auto simp: noteRefusalLocked_def Let_def marks_ok_def split: option.splits)

lemma enqueue_kept [simp]:
  "eHistory (enqueueStatusWrites ws e) = eHistory e" "lastMined (enqueueStatusWrites ws e) = lastMined e"
  "lastSeen (enqueueStatusWrites ws e) = lastSeen e" "eTips (enqueueStatusWrites ws e) = eTips e"
  "eStore (enqueueStatusWrites ws e) = eStore e" "eTarget (enqueueStatusWrites ws e) = eTarget e"
  "halted (enqueueStatusWrites ws e) = halted e" "txIndex (enqueueStatusWrites ws e) = txIndex e"
  by (induction ws arbitrary: e) (simp_all add: enqueueStatusWrites_def)

lemma risen_set_view:
  assumes "window_sorted (eHistory e)" and "indexOfGeneration (eHistory e) g0 = int j" and "0 \<le> c0"
    and "c0 < int (length (ViewCells (eHistory e ! j)))"
    and "rank (cvState (ViewCells (eHistory e ! j) ! nat c0)) < rank (cvState v)"
  shows "risen e (set_view e (int j) c0 v)"
proof -
  have "view_state e g0 c0 = Some (cvState (ViewCells (eHistory e ! j) ! nat c0))"
    using assms(2-4) by (simp add: view_state_def)
  then show ?thesis
    using assms(5) view_state_set [OF assms(1-4), of v]
    by (auto simp: risen_def marks_ok_def set_view_shape split: option.split)
qed

definition index_ok :: "engine \<Rightarrow> bool" where
  "index_ok e = (\<forall>tid g c. txIndex e tid = Some (g, c) \<longrightarrow> 0 \<le> c)"

lemma risen_keeps:
  "risen e e' \<Longrightarrow> window_sorted (eHistory e) \<Longrightarrow> window_sorted (eHistory e')"
  "risen e e' \<Longrightarrow> index_ok e \<Longrightarrow> index_ok e'"
proof -
  assume r: "risen e e'"
  then have "map Number (eHistory e') = map Number (eHistory e)" by (simp add: risen_def)
  from window_sorted_numbers [OF this] show "window_sorted (eHistory e) \<Longrightarrow> window_sorted (eHistory e')" by simp
  have "txIndex e' \<subseteq>\<^sub>m txIndex e" using r by (simp add: risen_def)
  then show "index_ok e \<Longrightarrow> index_ok e'" unfolding index_ok_def map_le_def by (metis domI)
qed

lemma set_view_twice:
  "j < length (eHistory e) \<Longrightarrow>
   set_view (forget_terminal st tid (set_view e (int j) c v)) (int j) c w
     = forget_terminal st tid (set_view e (int j) c w)"
  by (simp add: set_view_def forget_terminal_def)

text \<open>The branches of one verdict: not ours, out of the window, not a rise, a rise, a refusal.\<close>

lemma apply_status_cases:
  fixes e out tid rec nxt and wording :: "arc_status \<Rightarrow> string"
  defines "st \<equiv> status_of_state nxt"
    and "msg \<equiv> if nxt = TxFailed then rejectionMessage wording (recStatus rec) (recExtraInfo rec) else ''''"
  defines "write \<equiv> out\<lparr>boWrites := boWrites out @ [\<lparr>suTxID = tid, suStatus = st, suErr = msg\<rparr>]\<rparr>"
  assumes s: "window_sorted (eHistory e)"
  obtains (unknown) "txIndex e tid = None" "apply_status wording now (tid, rec, nxt) (e, out) = (e, out)"
  | (trimmed) g cell where "txIndex e tid = Some (g, cell)"
      "apply_status wording now (tid, rec, nxt) (e, out) = (forget_terminal st tid (raise_marks nxt g cell e), write)"
  | (kept) g cell where "txIndex e tid = Some (g, cell)"
      "apply_status wording now (tid, rec, nxt) (e, out) = (raise_marks nxt g cell e, out)"
  | (raised) g cell j v where "txIndex e tid = Some (g, cell)" "nxt \<noteq> TxFailed"
      "indexOfGeneration (eHistory e) g = int j" "cell < int (length (ViewCells (eHistory e ! j)))"
      "v = ViewCells (eHistory e ! j) ! nat cell" "rank (cvState v) < rank nxt"
      "apply_status wording now (tid, rec, nxt) (e, out) =
         (forget_terminal st tid (set_view (raise_marks nxt g cell e) (int j) cell (v\<lparr>cvState := nxt\<rparr>)), write)"
  | (refused) g cell j v where "txIndex e tid = Some (g, cell)" "nxt = TxFailed"
      "indexOfGeneration (eHistory e) g = int j" "cell < int (length (ViewCells (eHistory e ! j)))"
      "v = ViewCells (eHistory e ! j) ! nat cell" "rank (cvState v) < rank nxt"
      "apply_status wording now (tid, rec, nxt) (e, out) =
         (noteRefusalLocked now cell g (recStatus rec) msg (forget_terminal st tid
            (set_view (raise_marks nxt g cell e) (int j) cell (v\<lparr>cvState := nxt, cvErr := msg\<rparr>))),
          if recExtraInfo rec = '''' then write\<lparr>boReasons := boReasons write @ [(tid, cell)]\<rparr> else write)"
proof (cases "txIndex e tid")
  case None
  then show ?thesis using unknown by (simp add: apply_status_def)
next
  case (Some gc)
  obtain g cell where gc: "gc = (g, cell)" by (metis surj_pair)
  let ?i = "indexOfGeneration (eHistory e) g"
  let ?out = "?i < 0 \<or> cell \<ge> int (length (ViewCells (eHistory e ! nat ?i)))"
  let ?v = "ViewCells (eHistory e ! nat ?i) ! nat cell"
  note d = apply_status_def Let_def raise_history st_def msg_def write_def
  consider ?out | "\<not> ?out" "rank nxt \<le> rank (cvState ?v)" | "\<not> ?out" "\<not> rank nxt \<le> rank (cvState ?v)"
    by blast
  then show ?thesis
  proof cases
    case 1
    show ?thesis using 1 Some gc by (intro trimmed [of g cell]) (auto simp: d)
  next
    case 2
    show ?thesis using 2 Some gc by (intro kept [of g cell]) (auto simp: d)
  next
    case 3
    obtain j where j: "?i = int j" using 3(1) by (metis zero_le_imp_eq_int not_less)
    have len: "j < length (eHistory e)" using j index_found [OF s] by simp
    have tx: "txIndex e tid = Some (g, cell)" using Some gc by simp
    have row: "cell < int (length (ViewCells (eHistory e ! j)))" and rk: "rank (cvState ?v) < rank nxt"
      using 3 j by simp_all
    note c = tx j row rk len
    show ?thesis
    proof (cases "nxt = TxFailed")
      case True
      have "apply_status wording now (tid, rec, nxt) (e, out) =
         (noteRefusalLocked now cell g (recStatus rec) msg (forget_terminal st tid
            (set_view (raise_marks nxt g cell e) (int j) cell
               ((ViewCells (eHistory e ! j) ! nat cell)\<lparr>cvState := nxt, cvErr := msg\<rparr>))),
          if recExtraInfo rec = '''' then write\<lparr>boReasons := boReasons write @ [(tid, cell)]\<rparr> else write)"
        using True c by (simp add: d set_view_twice not_le [symmetric])
      from refused [OF tx True j row refl _ this] rk j show ?thesis by simp
    next
      case False
      have "apply_status wording now (tid, rec, nxt) (e, out) =
         (forget_terminal st tid (set_view (raise_marks nxt g cell e) (int j) cell
            ((ViewCells (eHistory e ! j) ! nat cell)\<lparr>cvState := nxt\<rparr>)), write)"
        using False c by (simp add: d not_le [symmetric])
      from raised [OF tx False j row refl _ this] rk j show ?thesis by simp
    qed
  qed
qed

lemma apply_status_risen:
  assumes s: "window_sorted (eHistory e)" and ix: "index_ok e"
  shows "risen e (fst (apply_status wording now (tid, rec, nxt) (e, out)))"
proof -
  have sv: "risen e (forget_terminal st tid (set_view (raise_marks nxt g cell e) (int j) cell w))"
    if "txIndex e tid = Some (g, cell)" "indexOfGeneration (eHistory e) g = int j"
      "cell < int (length (ViewCells (eHistory e ! j)))"
      "rank (cvState (ViewCells (eHistory e ! j) ! nat cell)) < rank (cvState w)" for st g cell j w
  proof -
    have "0 \<le> cell" using ix that(1) by (auto simp: index_ok_def)
    then have "risen (raise_marks nxt g cell e) (set_view (raise_marks nxt g cell e) (int j) cell w)"
      by (intro risen_set_view [of _ g]) (use s that in \<open>simp_all add: raise_history\<close>)
    then show ?thesis using risen_raise risen_forget risen_trans by meson
  qed
  show ?thesis
    using s
  proof (cases rule: apply_status_cases [where wording = wording and now = now and tid = tid and rec = rec and nxt = nxt and out = out])
    case (trimmed g cell)
    show ?thesis unfolding trimmed(2) fst_conv by (rule risen_trans [OF risen_raise risen_forget])
  next
    case (kept g cell)
    show ?thesis unfolding kept(2) fst_conv by (rule risen_raise)
  next
    case (raised g cell j v)
    show ?thesis unfolding raised(7) fst_conv by (rule sv) (use raised in simp_all)
  next
    case (refused g cell j v)
    show ?thesis unfolding refused(7) fst_conv
      by (rule risen_trans [OF sv risen_refusal]) (use refused in simp_all)
  qed simp
qed

lemma apply_statuses_risen:
  "window_sorted (eHistory e) \<Longrightarrow> index_ok e \<Longrightarrow> risen e (fst (fold (apply_status wording now) ws (e, out)))"
proof (induction ws arbitrary: e out)
  case (Cons w ws)
  obtain tid rec nxt where w: "w = (tid, rec, nxt)" by (metis surj_pair)
  obtain e1 o1 where a: "apply_status wording now w (e, out) = (e1, o1)" by fastforce
  have r: "risen e e1"
    using apply_status_risen [OF Cons.prems, of wording now tid rec nxt out] a w by simp
  show ?case
    using Cons.IH [OF risen_keeps(1) [OF r Cons.prems(1)] risen_keeps(2) [OF r Cons.prems(2)], of o1] a
      risen_trans [OF r] by simp
qed simp

lemma applyStatusBatch_risen:
  assumes "window_sorted (eHistory e)" and "index_ok e"
  shows "risen e (fst (applyStatusBatch wording now recs e))"
proof -
  let ?f = "fold (apply_status wording now) (status_work e recs) (e, \<lparr>boWrites = [], boReasons = []\<rparr>)"
  have q: "risen x (enqueueStatusWrites ws x)" for ws x
    by (rule risen_same_window) (simp_all add: marks_ok_def)
  have "fst (applyStatusBatch wording now recs e) \<in> {e, enqueueStatusWrites (boWrites (snd ?f)) (fst ?f)}"
    by (simp add: applyStatusBatch_def Let_def split: prod.split)
  then show ?thesis
    using apply_statuses_risen [OF assms, of wording now] risen_trans [OF _ q] by auto
qed

text \<open>Claim C14: verdicts only raise.  However a batch mixes, repeats or reorders them, a verdict never
  moves a shown transaction to a lower rank, so a refusal is final and a mined transaction never
  falls back to seen; the mined and seen marks of every cell only grow and the mined mark stays at
  or below the seen one; no batch touches a tip, the target or the store.\<close>

theorem verdicts_only_raise:
  assumes "window_sorted (eHistory e)" and "index_ok e"
  shows "risen e (fst (applyStatusBatch wording now recs e))"
  using assms by (rule applyStatusBatch_risen)

definition demo_running :: engine where
  "demo_running = indexTx ''bb'' 1 0 (demo_engine\<lparr>eHistory := [\<lparr>Number = 1, ViewRowHex = ''03'',
     ViewCells = [\<lparr>cvCell = 0, cvTxID = ''bb'', cvState = TxSeen, cvErr = ''''\<rparr>]\<rparr>]\<rparr>)"

theorem verdicts_only_raise_witness:
  "let e = fst (applyStatusBatch (\<lambda>_. ''X'') 5 [(''bb'', \<lparr>recStatus = ArcMined, recExtraInfo = ''''\<rparr>),
       (''bb'', \<lparr>recStatus = ArcSeenOnNetwork, recExtraInfo = ''''\<rparr>)] demo_running) in
     risen demo_running e \<and> view_state e 1 0 = Some TxMined"
proof -
  have "window_sorted (eHistory demo_running)" "index_ok demo_running"
    by (auto simp: demo_running_def window_sorted_def index_ok_def indexTx_def demo_engine_def new_engine_def
        split: if_splits)
  moreover have "view_state (fst (applyStatusBatch (\<lambda>_. ''X'') 5 [(''bb'', \<lparr>recStatus = ArcMined, recExtraInfo = ''''\<rparr>),
       (''bb'', \<lparr>recStatus = ArcSeenOnNetwork, recExtraInfo = ''''\<rparr>)] demo_running)) 1 0 = Some TxMined"
    by code_simp
  ultimately show ?thesis unfolding Let_def using verdicts_only_raise by blast
qed

subsection \<open>A bare refusal's reason\<close>

text \<open>The index entry of a refused transaction is gone by the time its reason is looked up, so the
  lookup changes the record and never what the window shows.\<close>

lemma forget_index: "txIndex (forget_terminal st tid x) = (if IsTerminal st then (txIndex x)(tid := None) else txIndex x)"
  by (simp add: forget_terminal_def)

lemma refusal_index: "txIndex (noteRefusalLocked now c g st why x) = txIndex x"
  by (simp add: noteRefusalLocked_def Let_def split: option.split)

lemma apply_status_reasons:
  assumes s: "window_sorted (eHistory e)" and ix: "index_ok e"
    and old: "\<forall>(t, c) \<in> set (boReasons out). txIndex e t = None"
    and r: "apply_status wording now w (e, out) = (e', out')"
  shows "\<forall>(t, c) \<in> set (boReasons out'). txIndex e' t = None"
proof -
  obtain tid rec nxt where w: "w = (tid, rec, nxt)" by (metis surj_pair)
  have shrinks: "txIndex e t = None \<Longrightarrow> txIndex e' t = None" for t
  proof -
    have "txIndex e' \<subseteq>\<^sub>m txIndex e"
      using apply_status_risen [OF s ix, of wording now tid rec nxt out] r by (simp add: w risen_def)
    then show "txIndex e t = None \<Longrightarrow> txIndex e' t = None" by (metis domI map_le_def option.exhaust)
  qed
  have new: "boReasons out' = boReasons out
     \<or> (\<exists>c. boReasons out' = boReasons out @ [(tid, c)]) \<and> txIndex e' tid = None"
    using s
  proof (cases rule: apply_status_cases [where wording = wording and now = now and tid = tid and rec = rec and nxt = nxt and out = out])
    case (refused g cell j v)
    have "IsTerminal (status_of_state nxt)" using refused(2) by (simp add: status_of_state_def IsTerminal_def)
    then show ?thesis using r [unfolded w refused(7)]
      by (auto simp: refusal_index forget_index split: if_splits)
  qed (use r in \<open>auto simp: w\<close>)
  have "txIndex e' t = None" if "(t, c) \<in> set (boReasons out')" for t c
  proof (cases "(t, c) \<in> set (boReasons out)")
    case True
    then show ?thesis using old shrinks by blast
  next
    case False
    then show ?thesis using new that by auto
  qed
  then show ?thesis by blast
qed

lemma apply_statuses_reasons:
  "window_sorted (eHistory e) \<Longrightarrow> index_ok e \<Longrightarrow> \<forall>(t, c) \<in> set (boReasons out). txIndex e t = None \<Longrightarrow>
   \<forall>(t, c) \<in> set (boReasons (snd (fold (apply_status wording now) ws (e, out)))).
     txIndex (fst (fold (apply_status wording now) ws (e, out))) t = None"
proof (induction ws arbitrary: e out)
  case (Cons w ws)
  obtain tid rec nxt where w: "w = (tid, rec, nxt)" by (metis surj_pair)
  obtain e1 o1 where a: "apply_status wording now w (e, out) = (e1, o1)" by fastforce
  have r: "risen e e1" using apply_status_risen [OF Cons.prems(1,2), of wording now tid rec nxt out] a w by simp
  show ?case
    using Cons.IH [OF risen_keeps(1) [OF r Cons.prems(1)] risen_keeps(2) [OF r Cons.prems(2)]
        apply_status_reasons [OF Cons.prems a]] a by simp
qed simp

lemma fetched_reason_not_shown:
  assumes "window_sorted (eHistory e)" and "index_ok e"
    and "applyStatusBatch wording now recs e = (e', reasons)" and "(tid, cell) \<in> set reasons"
  shows "eHistory (fetchRejectionReason wording ask later tid cell e') = eHistory e'"
proof -
  obtain e1 o1 where f: "fold (apply_status wording now) (status_work e recs) (e, \<lparr>boWrites = [], boReasons = []\<rparr>) = (e1, o1)"
    by fastforce
  then have e': "e' = enqueueStatusWrites (boWrites o1) e1" "(tid, cell) \<in> set (boReasons o1)"
    using assms(3,4) by (auto simp: applyStatusBatch_def Let_def split: if_splits)
  have "\<forall>(t, c) \<in> set (boReasons o1). txIndex e1 t = None"
    using apply_statuses_reasons [OF assms(1,2), of "\<lparr>boWrites = [], boReasons = []\<rparr>" wording now "status_work e recs"]
    by (simp add: f)
  from bspec [OF this e'(2)] have "txIndex e' tid = None" by (simp add: e'(1))
  then show ?thesis by (simp add: fetchRejectionReason_def Let_def split: sum.split option.split)
qed

end
