(* ===== verification/Repair.thy ===== *)
theory Repair
  imports Status
begin

text \<open>
  Repair inside the running engine, the second half of \<open>internal/engine/recovery.go\<close>: the automatic
  recovery after a lease is taken, and the repair of one refused cell, whose passes each derive the
  ring again from the record and take one row back.  The passes are bounded by the code's own count,
  four, so no fuel is needed.
\<close>


subsection \<open>Repairing one refused cell\<close>

definition adoptRepaired :: "int \<Rightarrow> cell_position \<Rightarrow> engine \<Rightarrow> engine" where
  "adoptRepaired cell p e =
     (let e = set_tip cell (posTip p) e;
          e = (if Halted p
               then e\<lparr>halted := insert cell (halted e), haltReason := (haltReason e)(cell \<mapsto> Derived (HaltReason p))\<rparr>
               else e\<lparr>halted := halted e - {cell}, haltReason := (haltReason e)(cell := None)\<rparr>) in
      e\<lparr>eGeneration := frontierLocked e\<rparr>)"

definition haltRepair :: "int \<Rightarrow> halt_cause \<Rightarrow> engine \<Rightarrow> engine" where
  "haltRepair cell why e = e\<lparr>halted := insert cell (halted e), haltReason := (haltReason e)(cell \<mapsto> why),
     needsRepair := needsRepair e - {cell}\<rparr>"

definition repair_opts :: recover_options where
  "repair_opts = \<lparr>Apply = True, RetryRefused = True\<rparr>"

text \<open>The passes left of the loop \<open>for pass := 0; pass <= maxWreckage; pass++\<close>.\<close>

fun repair_passes :: "tx_codec \<Rightarrow> ledger \<Rightarrow> tx_status option \<Rightarrow> compiled \<Rightarrow> int \<Rightarrow> int \<Rightarrow> nat \<Rightarrow> engine \<Rightarrow> engine" where
  "repair_passes K l arcade c now cell 0 e = haltRepair cell (RepairStuck (maxWreckage + 1)) e"
| "repair_passes K l arcade c now cell (Suc left) e =
     (case DeriveTips K l c (eDeployment e) (eStore e) of
        Inl err \<Rightarrow> haltRepair cell (RepairRederive err) e
      | Inr ps \<Rightarrow>
         if cell \<ge> int (length ps) then haltRepair cell RepairOutsideRing e
         else (let p = ps ! nat cell in
           case decideCell K l arcade c (eDeployment e) (eStore e) p repair_opts of
             None \<Rightarrow> adoptRepaired cell p e
           | Some r \<Rightarrow>
              if Verdict r = VerdictHalt then haltRepair cell (RepairDecided (Reason r)) e
              else case applyRecovery now (eStore e) cell p r of
                     Inl err \<Rightarrow> haltRepair cell (RepairApply err) e
                   | Inr (s', q) \<Rightarrow>
                       repair_passes K l arcade c now cell left (adoptRepaired cell q (e\<lparr>eStore := s'\<rparr>))))"

definition repairCell :: "tx_codec \<Rightarrow> ledger \<Rightarrow> tx_status option \<Rightarrow> compiled \<Rightarrow> int \<Rightarrow> int \<Rightarrow> engine \<Rightarrow> engine" where
  "repairCell K l arcade c now cell e =
     repair_passes K l arcade c now cell (maxWreckage + 1) (e\<lparr>needsRepair := needsRepair e - {cell}\<rparr>)"

text \<open>\<open>recoverUnknown\<close>: a pass that fails part way leaves the positions as they were but keeps what the
  record already took; the store's own errors aside, applying never fails on a derived position, so
  the failing branch keeps the store it started from.\<close>

definition recoverUnknown :: "tx_codec \<Rightarrow> ledger \<Rightarrow> tx_status option \<Rightarrow> compiled \<Rightarrow> int \<Rightarrow> cell_position list
    \<Rightarrow> engine \<Rightarrow> cell_position list \<times> engine" where
  "recoverUnknown K l arcade c now ps e =
     (if filter (\<lambda>p. Unknown p \<or> Rejected p) ps = [] then (ps, e)
      else case Recover K l arcade c (eDeployment e) now (eStore e) ps \<lparr>Apply = True, RetryRefused = False\<rparr> of
             Inl err \<Rightarrow> (ps, e)
           | Inr (s', out, ds) \<Rightarrow> (out, e\<lparr>eStore := s'\<rparr>))"

subsection \<open>Applying never fails\<close>

lemma recover_total:
  "\<exists>s' out ds. keys_ok s \<longrightarrow> recover_loop K l arcade c d opts now k ps s = Inr (s', out, ds)"
proof (induction ps arbitrary: k s)
  case (Cons p ps)
  show ?case
  proof (cases "keys_ok s")
    case k: True
    show ?thesis
    proof (cases "decideCell K l arcade c d s p opts")
      case None
      then show ?thesis using Cons.IH [of s "k + 1"] k by auto
    next
      case (Some r)
      obtain s1 q where a: "applyRecovery now s k p r = Inr (s1, q)" "keys_ok s1"
        by (rule apply_recovery [OF k Some, where cell = k and now = now])
      show ?thesis
        using Cons.IH [of s1 "k + 1"] Cons.IH [of s "k + 1"] a k Some by (cases "Apply opts") auto
    qed
  qed simp
qed simp

subsection \<open>Deriving again after a rejection is taken back\<close>

text \<open>A store that differs from another only in the rows of one cell.\<close>

definition same_but :: "int \<Rightarrow> store \<Rightarrow> store \<Rightarrow> bool" where
  "same_but cell s s' \<longleftrightarrow> generations s' = generations s
     \<and> (\<forall>c. c \<noteq> cell \<longrightarrow> filter (\<lambda>r. rowCell r = c) (cell_txs s') = filter (\<lambda>r. rowCell r = c) (cell_txs s))"

lemma same_but_delete: "(\<And>r. P r \<Longrightarrow> rowCell r = cell) \<Longrightarrow> same_but cell s (delete_rows P s)"
  by (auto simp: same_but_def delete_rows_def intro!: filter_cong)

lemma same_but_refl: "same_but cell s s"
  by (simp add: same_but_def)

lemma newest_first_of_cell:
  "newest_first s c P = rev (sort_key rowGen (filter P (filter (\<lambda>r. rowCell r = c) (cell_txs s))))"
  by (simp add: newest_first_def conj_commute)

lemma same_but_cell:
  assumes "same_but cell s s'" and "c \<noteq> cell"
  shows "newest_first s' c P = newest_first s c P" "cell_tips s' c n = cell_tips s c n" "DeepTip s' c = DeepTip s c"
proof -
  show n: "newest_first s' c P = newest_first s c P" for P
    using assms by (simp add: newest_first_of_cell same_but_def)
  show "cell_tips s' c n = cell_tips s c n" by (simp add: cell_tips_def n)
  show "DeepTip s' c = DeepTip s c" by (simp add: DeepTip_def newest_def n)
qed

lemma classify_other:
  assumes "same_but cell s s'" and "c \<noteq> cell" and "records' c = records c"
  shows "classify d s' records' c = classify d s records c"
  unfolding classify_def assms(3) same_but_cell(3) [OF assms(1,2)] ..

definition nothing_settled :: "halt_reason \<Rightarrow> bool" where
  "nothing_settled r = (case r of NothingSettled _ _ \<Rightarrow> True | _ \<Rightarrow> False)"

lemma classified_reason:
  "\<not> nothing_settled (HaltReason (classify_shallow base rows))"
  "\<not> nothing_settled (HaltReason (classify_deep base deep n))"
  "\<not> nothing_settled (HaltReason no_position)"
  by (auto simp: classify_shallow_def classify_deep_def noteRejection_def unresolved_def no_position_def Let_def
      nothing_settled_def split: option.split)

lemma classify_settled_reason:
  assumes "keys_ok s" and "CellTips s n tipDepth = Inr records" and "0 \<le> c" "c < n"
    and "newest_where s c settles base"
  shows "\<exists>p. classify d s records c = ((tipGen base, tipTxID base), p) \<and> \<not> nothing_settled (HaltReason p)"
proof -
  obtain p where p: "classify d s records c = ((tipGen base, tipTxID base), p)"
    using classify_settled [OF assms] by blast
  have "tipTxID base \<noteq> ''''" using assms(5) by (simp add: newest_where_def settles_def)
  then show ?thesis using p classified_reason
    by (auto simp: classify_def split: option.splits if_splits)
qed

lemma CellTips_total: "0 < n \<Longrightarrow> \<exists>records. CellTips s n tipDepth = Inr records"
  by (simp add: CellTips_def tipDepth_def)

lemma tips_loop_same_claims:
  "list_all2 (\<lambda>(c1, k1, p1) (c2, k2, p2). c1 = c2 \<and> k1 = k2) cls cls' \<Longrightarrow>
   tips_loop K c rows raws cls = Inr ps \<Longrightarrow> \<exists>ps'. tips_loop K c rows raws cls' = Inr ps'"
proof (induction cls cls' arbitrary: ps rule: list_all2_induct)
  case (Cons x xs y ys)
  obtain cell gen tid p where x: "x = (cell, (gen, tid), p)" by (metis surj_pair)
  obtain q where y: "y = (cell, (gen, tid), q)" using Cons.hyps(1) x by (cases y) auto
  obtain qs where rest: "tips_loop K c rows raws xs = Inr qs" using Cons.prems x
    by (auto split: sum.splits option.splits if_splits)
  then obtain qs' where "tips_loop K c rows raws ys = Inr qs'" using Cons.IH by blast
  then show ?case using Cons.prems x y rest by (auto split: sum.splits option.splits if_splits)
qed simp

text \<open>The claims and the fetches of a derivation, before any bytes are looked at.\<close>

lemma DeriveTips_unfold:
  assumes "Seed d = Inr seed" and "CellTips s (dCells d) tipDepth = Inr records"
  defines "cls \<equiv> map (\<lambda>cell. (cell, classify d s records cell)) [0..dCells d - 1]"
  defines "gens \<equiv> map fst (filter (\<lambda>(g, tid). tid \<noteq> '''') (map (fst \<circ> snd) cls))"
  shows "DeriveTips K l c d s =
     (case computeRows seed (dRule d) (\<lambda>g. g \<in> set gens) (fold max gens 0) of
        None \<Rightarrow> Inl RowPanicked
      | Some rows \<Rightarrow>
     (case crossCheckRows s rows gens of
        Some g \<Rightarrow> Inl (RowDisagrees g)
      | None \<Rightarrow>
     (case fetchRaw l (concat (map (\<lambda>(cell, (g, tid), p). if nothing_settled (HaltReason p) then [] else [tid]) cls)) of
        Inl e \<Rightarrow> Inl (FetchFailed e)
      | Inr raws \<Rightarrow> tips_loop K c rows raws cls)))"
proof -
  have t: "(\<lambda>(cell, (g, tid), p). case HaltReason p of NothingSettled _ _ \<Rightarrow> [] | _ \<Rightarrow> [tid])
     = (\<lambda>(cell :: int, (g :: u64, tid :: txid), p). if nothing_settled (HaltReason p) then [] else [tid])"
    by (intro ext) (auto simp: nothing_settled_def split: halt_reason.split)
  show ?thesis unfolding DeriveTips_def assms(1,2) sum.case Let_def cls_def gens_def t ..
qed

lemma DeriveTips_retracted:
  assumes k: "keys_ok s" "keys_ok s'" and b: "same_but cell s s'" and cell: "0 \<le> cell" "cell < dCells d"
    and t: "newest_where s cell settles t" "newest_where s' cell settles t"
    and der: "DeriveTips K l c d s = Inr ps"
  shows "\<exists>ps'. DeriveTips K l c d s' = Inr ps'"
proof -
  obtain seed records where s: "Seed d = Inr seed" "CellTips s (dCells d) tipDepth = Inr records"
    using der by (auto simp: DeriveTips_def split: sum.splits)
  obtain records' where s': "CellTips s' (dCells d) tipDepth = Inr records'"
    using CellTips_total [of "dCells d" s'] cell by auto
  let ?cls = "\<lambda>s records. map (\<lambda>cell. (cell, classify d s records cell)) [0..dCells d - 1]"
  have each: "fst (classify d s' records' x) = fst (classify d s records x)
     \<and> nothing_settled (HaltReason (snd (classify d s' records' x)))
       = nothing_settled (HaltReason (snd (classify d s records x)))" if x: "x \<in> set [0..dCells d - 1]" for x
  proof (cases "x = cell")
    case True
    obtain p p' where "classify d s records cell = ((tipGen t, tipTxID t), p)" "\<not> nothing_settled (HaltReason p)"
      "classify d s' records' cell = ((tipGen t, tipTxID t), p')" "\<not> nothing_settled (HaltReason p')"
      using classify_settled_reason [OF k(1) s(2) cell t(1), of d]
        classify_settled_reason [OF k(2) s' cell t(2), of d] by blast
    then show ?thesis using True by simp
  next
    case False
    have "records' x = records x"
      using s(2) s' same_but_cell(2) [OF b False] by (auto simp: CellTips_def split: if_splits)
    then show ?thesis using classify_other [OF b False, of records' records d] by simp
  qed
  have claims: "map (fst \<circ> snd) (?cls s' records') = map (fst \<circ> snd) (?cls s records)"
    using each by simp
  have tids: "concat (map (\<lambda>(cell, (g, tid), p). if nothing_settled (HaltReason p) then [] else [tid]) (?cls s' records'))
     = concat (map (\<lambda>(cell, (g, tid), p). if nothing_settled (HaltReason p) then [] else [tid]) (?cls s records))"
    unfolding map_map
  proof (intro arg_cong [of _ _ concat] map_cong refl)
    fix x assume "x \<in> set [0..dCells d - 1]"
    from each [OF this] show "((\<lambda>(cell, (g, tid), p). if nothing_settled (HaltReason p) then [] else [tid])
        \<circ> (\<lambda>cell. (cell, classify d s' records' cell))) x
      = ((\<lambda>(cell, (g, tid), p). if nothing_settled (HaltReason p) then [] else [tid])
        \<circ> (\<lambda>cell. (cell, classify d s records cell))) x"
      by (cases "classify d s' records' x"; cases "classify d s records x") auto
  qed
  have check: "crossCheckRows s' rows gens = crossCheckRows s rows gens" for rows gens
  proof -
    have "RowAt s' = RowAt s" using b by (intro ext) (simp add: RowAt_def same_but_def)
    then show ?thesis unfolding crossCheckRows_def by (rule arg_cong)
  qed
  obtain rows raws where d: "tips_loop K c rows raws (?cls s records) = Inr ps"
    "\<And>r. tips_loop K c rows raws (?cls s' records') = r \<Longrightarrow> DeriveTips K l c d s' = r"
    using der unfolding DeriveTips_unfold [OF s] DeriveTips_unfold [OF s(1) s'] claims tids check
    by (auto split: option.splits sum.splits)
  have "list_all2 (\<lambda>(c1, k1, p1) (c2, k2, p2). c1 = c2 \<and> k1 = k2) (?cls s records) (?cls s' records')"
    unfolding list_all2_map1 list_all2_map2
  proof (rule list.rel_refl_strong)
    fix x assume "x \<in> set [0..dCells d - 1]"
    from each [OF this] show "(case (x, classify d s records x) of (c1, k1, p1) \<Rightarrow>
        \<lambda>(c2, k2, p2). c1 = c2 \<and> k1 = k2) (x, classify d s' records' x)"
      by (cases "classify d s' records' x"; cases "classify d s records x") auto
  qed
  from tips_loop_same_claims [OF this d(1)] d(2) show ?thesis by blast
qed

subsection \<open>A pile of rejections clears\<close>

text \<open>Every rejection above the tip, examined on its own, is one recovery takes back.\<close>

definition all_resumable :: "tx_codec \<Rightarrow> ledger \<Rightarrow> tx_status option \<Rightarrow> compiled \<Rightarrow> deployment \<Rightarrow> store
    \<Rightarrow> int \<Rightarrow> cell_chain \<Rightarrow> u64 set \<Rightarrow> bool" where
  "all_resumable K l arcade c d s cell tip gens = (\<forall>s' p. Rejected p \<and> RejectedAt p \<in> gens \<and> posTip p = tip
     \<and> CellAt s (RejectedAt p) cell = Some (RejectionTxID p, StatusFailed, RejectionErr p)
     \<longrightarrow> Verdict (recoverRejected K l arcade c d s' p repair_opts) = VerdictResume)"

lemma position_rejected:
  assumes ok: "position_ok s cell t p" and no_attempt: "records_above s cell StatusAttempting (tipGen t) = {}"
    and few: "card (records_above s cell StatusFailed (tipGen t)) \<le> 3"
    and deep: "Halted p \<Longrightarrow> Rejected p"
  shows "\<not> Unknown p \<and> (Halted p \<longleftrightarrow> records_above s cell StatusFailed (tipGen t) \<noteq> {})
     \<and> (Halted p \<longleftrightarrow> Rejected p)"
  using ok no_attempt deep unfolding position_ok_def Let_def by blast

text \<open>The record names a transaction wherever it says one was sent.\<close>

definition names_sent :: "store \<Rightarrow> int \<Rightarrow> bool" where
  "names_sent s cell = (\<forall>g i st e. CellAt s g cell = Some (i, st, e) \<longrightarrow> settled_status st \<longrightarrow> i \<noteq> '''')"

text \<open>A pile of at most three rejections always fits the window, so the tip lies inside it.\<close>

lemma few_rejections_shallow:
  assumes k: "keys_ok s" and named: "names_sent s cell" and t: "newest_where s cell settles t"
    and no_attempt: "records_above s cell StatusAttempting (tipGen t) = {}"
    and few: "card (records_above s cell StatusFailed (tipGen t)) \<le> 3"
  shows "newestSettled (cell_tips s cell 8) = Some t"
proof (cases "newestSettled (cell_tips s cell 8)")
  case (Some u)
  then show ?thesis using newestSettled_where(1) [OF k Some] newest_where_unique [OF t] by simp
next
  case None
  let ?nf = "newest_first s cell (\<lambda>_. True)"
  let ?w = "cell_tips s cell 8"
  have un: "\<not> settles (tipStatus u) (tipTxID u)" if "u \<in> set ?w" for u
    using None that by (auto simp: newestSettled_def find_None_iff settles_def)
  obtain q where q: "q \<in> set ?nf" "rowGen q = tipGen t" "settles (rowStatus q) (rowTxID q)"
    using t CellAt_Some [OF k, of "tipGen t" cell] by (auto simp: newest_where_def set_newest_first)
  have out: "q \<notin> set (take 8 ?nf)"
  proof
    assume "q \<in> set (take 8 ?nf)"
    then have "row_tip q \<in> set ?w" by (simp add: cell_tips_def)
    then show False using un [of "row_tip q"] q(3) by simp
  qed
  then have qd: "q \<in> set (drop 8 ?nf)" using q(1) by (metis Un_iff append_take_drop_id set_append)
  then have len: "length ?w = 8" by (cases "8 \<le> length ?nf") (simp_all add: cell_tips_def)
  have srt: "sorted_wrt (\<lambda>a b. rowGen b < rowGen a) (take 8 ?nf @ drop 8 ?nf)"
    using newest_first_desc [OF k, of cell "\<lambda>_. True"] by simp
  have above: "tipGen u \<in> records_above s cell StatusFailed (tipGen t)" if u: "u \<in> set ?w" for u
  proof -
    obtain r where r: "r \<in> set (take 8 ?nf)" "u = row_tip r" using u by (auto simp: cell_tips_def)
    have g: "tipGen t < tipGen u" using srt r qd q(2) unfolding sorted_wrt_append by fastforce
    have at: "CellAt s (tipGen u) cell = Some (tipTxID u, tipStatus u, tipErr u)" using window_member [OF k u] by simp
    have "\<not> settled_status (tipStatus u)" using un [OF u] named at by (auto simp: settles_def names_sent_def)
    moreover have "tipStatus u \<noteq> StatusAttempting" using no_attempt g at by (auto simp: records_above_def)
    ultimately have "tipStatus u = StatusFailed" by (cases "tipStatus u") (auto simp: settled_status_def)
    then show ?thesis using g at by (auto simp: records_above_def)
  qed
  have "distinct (map tipGen ?w)"
    using window_sorted [OF k, of cell 8] by (auto simp: sorted_tips_def intro: falling_distinct)
  then have "card (tipGen ` set ?w) = 8" using len by (metis distinct_card length_map set_map)
  moreover have "card (tipGen ` set ?w) \<le> card (records_above s cell StatusFailed (tipGen t))"
    using above by (intro card_mono) auto
  ultimately show ?thesis using few by simp
qed

lemma few_rejections_reported:
  assumes k: "keys_ok s" and named: "names_sent s cell" and t: "newest_where s cell settles t"
    and no_attempt: "records_above s cell StatusAttempting (tipGen t) = {}"
    and few: "card (records_above s cell StatusFailed (tipGen t)) \<le> 3"
    and rec: "CellTips s n tipDepth = Inr records" "0 \<le> cell" "cell < n"
    and cl: "classify d s records cell = (k1, p)"
  shows "\<not> Unknown p \<and> (Halted p \<longleftrightarrow> Rejected p)"
proof -
  let ?w = "cell_tips s cell 8"
  note sh = few_rejections_shallow [OF k named t no_attempt few]
  then have ne: "?w \<noteq> []" by (auto simp: newestSettled_def)
  then have r: "records cell = Some ?w" using CellTips_window [OF rec] by (simp add: tipDepth_def)
  have p: "p = classify_shallow t ?w" using cl sh ne by (simp add: classify_def r)
  have in_w: "t \<in> set ?w" using newestSettled_where(2) [OF k sh] .
  have len: "length (above_with StatusFailed (tipGen t) ?w) \<le> maxWreckage"
    using few above_window(2) [OF k in_w] by (simp add: maxWreckage_def)
  have att: "above_with StatusAttempting (tipGen t) ?w = []"
    using above_window(1) [OF k in_w, of StatusAttempting] no_attempt by simp
  show ?thesis
    unfolding p classify_shallow_spec [OF window_sorted [OF k]] Let_def
    using len att by (simp add: noteRejection_fields)
qed

lemma applied_resume_same_but:
  "Verdict r = VerdictResume \<Longrightarrow> applyRecovery now s cell p r = Inr (s', q) \<Longrightarrow> same_but cell s s'"
  by (auto simp: applyRecovery_def Let_def DeleteAttempt_def DeleteUnsignedRejection_def DeleteRejection_def
      split: if_splits sum.splits intro!: same_but_delete same_but_refl)

lemma adopt_fields [simp]:
  "eStore (adoptRepaired cell p e) = eStore e" "eDeployment (adoptRepaired cell p e) = eDeployment e"
  "length (eTips (adoptRepaired cell p e)) = length (eTips e)"
  "needsRepair (adoptRepaired cell p e) = needsRepair e"
  by (simp_all add: adoptRepaired_def set_tip_def Let_def)

lemma adopt_free:
  "\<not> Halted p \<Longrightarrow> cell \<notin> halted (adoptRepaired cell p e) \<and> haltReason (adoptRepaired cell p e) cell = None"
  by (simp add: adoptRepaired_def set_tip_def Let_def)

lemma adopt_tip: "nat cell < length (eTips e) \<Longrightarrow> eTips (adoptRepaired cell p e) ! nat cell = posTip p"
  by (simp add: adoptRepaired_def set_tip_def Let_def)

text \<open>The situation a repair starts from and each pass restores with one rejection fewer.\<close>

definition pile :: "tx_codec \<Rightarrow> ledger \<Rightarrow> tx_status option \<Rightarrow> compiled \<Rightarrow> deployment \<Rightarrow> store \<Rightarrow> int
    \<Rightarrow> tip \<Rightarrow> cell_chain \<Rightarrow> nat \<Rightarrow> bool" where
  "pile K l arcade c d s cell t tip n \<longleftrightarrow> keys_ok s \<and> names_sent s cell \<and> newest_where s cell settles t
     \<and> records_above s cell StatusAttempting (tipGen t) = {}
     \<and> card (records_above s cell StatusFailed (tipGen t)) = n \<and> n \<le> 3
     \<and> all_resumable K l arcade c d s cell tip (records_above s cell StatusFailed (tipGen t))
     \<and> (\<exists>ps. DeriveTips K l c d s = Inr ps \<and> posTip (ps ! nat cell) = tip)"

lemma pile_position:
  assumes pl: "pile K l arcade c d s cell t tip n" and cell: "0 \<le> cell" "cell < dCells d"
    and der: "DeriveTips K l c d s = Inr ps"
  shows "length ps = nat (dCells d) \<and> posTip (ps ! nat cell) = tip \<and> \<not> Unknown (ps ! nat cell)
     \<and> (Halted (ps ! nat cell) \<longleftrightarrow> n > 0) \<and> (Rejected (ps ! nat cell) \<longleftrightarrow> n > 0)
     \<and> position_ok s cell t (ps ! nat cell)"
proof -
  have k: "keys_ok s" and t: "newest_where s cell settles t"
    and na: "records_above s cell StatusAttempting (tipGen t) = {}" and nm: "names_sent s cell"
    and f: "card (records_above s cell StatusFailed (tipGen t)) = n" "n \<le> 3"
    using pl by (simp_all add: pile_def)
  obtain seed records gen tid p where e: "CellTips s (dCells d) tipDepth = Inr records" "length ps = nat (dCells d)"
    "classify d s records cell = ((gen, tid), p)" "Halted (ps ! nat cell) = Halted p"
    "Rejected (ps ! nat cell) = Rejected p" "Unknown (ps ! nat cell) = Unknown p"
    using DeriveTips_cell [OF der cell] by (auto split: if_splits)
  have sh: "\<not> Unknown p \<and> (Halted p \<longleftrightarrow> Rejected p)"
    using few_rejections_reported [OF k nm t na _ e(1) cell e(3)] f by simp
  have ok: "position_ok s cell t (ps ! nat cell)" using DeriveTips_settled [OF k der cell t] by blast
  have "Halted (ps ! nat cell) \<longleftrightarrow> records_above s cell StatusFailed (tipGen t) \<noteq> {}"
    using ok na by (simp add: position_ok_def Let_def)
  moreover have "records_above s cell StatusFailed (tipGen t) \<noteq> {} \<longleftrightarrow> n > 0"
    using f(1) card_gt_0_iff [of "records_above s cell StatusFailed (tipGen t)"] by simp
  ultimately show ?thesis using sh e(2,4-6) ok pl der by (auto simp: pile_def)
qed

text \<open>One pass over a pile takes one rejection back.\<close>

lemma pile_pass:
  assumes pl: "pile K l arcade c d s cell t tip (Suc n)" and cell: "0 \<le> cell" "cell < dCells d"
    and der: "DeriveTips K l c d s = Inr ps"
  obtains r s' where "decideCell K l arcade c d s (ps ! nat cell) repair_opts = Some r"
    "Verdict r = VerdictResume" "applyRecovery now s cell (ps ! nat cell) r = Inr (s', no_position\<lparr>posTip := tip\<rparr>)"
    "pile K l arcade c d s' cell t tip n" "\<And>g c'. c' \<noteq> cell \<Longrightarrow> CellAt s' g c' = CellAt s g c'"
proof -
  let ?p = "ps ! nat cell"
  let ?F = "records_above s cell StatusFailed (tipGen t)"
  note pos = pile_position [OF pl cell der]
  have k: "keys_ok s" and t: "newest_where s cell settles t" and nm: "names_sent s cell"
    and na: "records_above s cell StatusAttempting (tipGen t) = {}"
    and f: "card ?F = Suc n" "n \<le> 2" and res: "all_resumable K l arcade c d s cell tip ?F"
    using pl by (simp_all add: pile_def)
  have rj: "RejectedAt ?p \<in> ?F" "CellAt s (RejectedAt ?p) cell = Some (RejectionTxID ?p, StatusFailed, RejectionErr ?p)"
    using pos by (simp_all add: position_ok_def Let_def)
  define r where "r = recoverRejected K l arcade c d s ?p repair_opts"
  have dec: "decideCell K l arcade c d s ?p repair_opts = Some r" using pos by (simp add: decideCell_def r_def)
  have v: "Verdict r = VerdictResume" using res rj pos unfolding all_resumable_def r_def by blast
  obtain s' q where a: "applyRecovery now s cell ?p r = Inr (s', q)" "applied s s' cell ?p r q" "keys_ok s'"
    "\<forall>g c'. c' \<noteq> cell \<longrightarrow> CellAt s' g c' = CellAt s g c'"
    by (rule apply_recovery [OF k dec, where cell = cell and now = now]) blast
  have q: "q = no_position\<lparr>posTip := tip\<rparr>" using a(2) v pos by (simp add: applied_def)
  have at: "CellAt s' g cell = (if g = RejectedAt ?p then None else CellAt s g cell)" for g
    using a(2) v pos rj(2) by (auto simp: applied_def retracted_gen_def retracts_def split: option.splits)
  have gt: "tipGen t < RejectedAt ?p" using rj(1) by (simp add: records_above_def)
  have t': "newest_where s' cell settles t" using t gt by (auto simp: newest_where_def at)
  have F': "records_above s' cell StatusFailed (tipGen t) = ?F - {RejectedAt ?p}"
    by (auto simp: records_above_def at)
  obtain ps' where der': "DeriveTips K l c d s' = Inr ps'"
    using DeriveTips_retracted [OF k a(3) applied_resume_same_but [OF v a(1)] cell t t' der] by blast
  have tip': "posTip (ps' ! nat cell) = tip"
    using DeriveTips_settled [OF k der cell t] DeriveTips_settled [OF a(3) der' cell t'] pos by auto
  have "pile K l arcade c d s' cell t tip n"
    unfolding pile_def F'
  proof (intro conjI)
    show "names_sent s' cell" using nm by (auto simp: names_sent_def at)
    show "records_above s' cell StatusAttempting (tipGen t) = {}" using na by (auto simp: records_above_def at)
    show "card (?F - {RejectedAt ?p}) = n" using f(1) rj(1) by simp
    show "all_resumable K l arcade c d s' cell tip (?F - {RejectedAt ?p})"
      using res by (auto simp: all_resumable_def at)
    show "\<exists>ps. DeriveTips K l c d s' = Inr ps \<and> posTip (ps ! nat cell) = tip" using der' tip' by blast
  qed (use a(3) t' f(2) in simp_all)
  with that dec v a(1,4) q show ?thesis by blast
qed

lemma repair_passes_clear:
  "pile K l arcade c (eDeployment e) (eStore e) cell t tip n \<Longrightarrow> 0 \<le> cell \<Longrightarrow> cell < dCells (eDeployment e) \<Longrightarrow>
   length (eTips e) = nat (dCells (eDeployment e)) \<Longrightarrow> n < left \<Longrightarrow>
   cell \<notin> halted (repair_passes K l arcade c now cell left e)
   \<and> haltReason (repair_passes K l arcade c now cell left e) cell = None
   \<and> needsRepair (repair_passes K l arcade c now cell left e) = needsRepair e
   \<and> eTips (repair_passes K l arcade c now cell left e) ! nat cell = tip
   \<and> pile K l arcade c (eDeployment e) (eStore (repair_passes K l arcade c now cell left e)) cell t tip 0
   \<and> (\<forall>g c'. c' \<noteq> cell \<longrightarrow> CellAt (eStore (repair_passes K l arcade c now cell left e)) g c' = CellAt (eStore e) g c')"
proof (induction left arbitrary: e n)
  case (Suc left)
  obtain ps where der: "DeriveTips K l c (eDeployment e) (eStore e) = Inr ps"
    using Suc.prems(1) by (auto simp: pile_def)
  note pos = pile_position [OF Suc.prems(1-3) der]
  have rng: "\<not> cell \<ge> int (length ps)" "nat cell < length (eTips e)" using pos Suc.prems(2-4) by simp_all
  show ?case
  proof (cases n)
    case 0
    then have "repair_passes K l arcade c now cell (Suc left) e = adoptRepaired cell (ps ! nat cell) e"
      using pos rng der by (simp add: decideCell_def Let_def)
    then show ?thesis
      using adopt_free [of "ps ! nat cell" cell e] adopt_tip [OF rng(2), of "ps ! nat cell"] pos 0 Suc.prems(1) by simp
  next
    case (Suc m)
    obtain r s' where p: "decideCell K l arcade c (eDeployment e) (eStore e) (ps ! nat cell) repair_opts = Some r"
      "Verdict r = VerdictResume"
      "applyRecovery now (eStore e) cell (ps ! nat cell) r = Inr (s', no_position\<lparr>posTip := tip\<rparr>)"
      "pile K l arcade c (eDeployment e) s' cell t tip m"
      "\<forall>g c'. c' \<noteq> cell \<longrightarrow> CellAt s' g c' = CellAt (eStore e) g c'"
      by (rule pile_pass [OF Suc.prems(1) [unfolded Suc] Suc.prems(2,3) der, where now = now])
        blast
    let ?e = "adoptRepaired cell (no_position\<lparr>posTip := tip\<rparr>) (e\<lparr>eStore := s'\<rparr>)"
    have step: "repair_passes K l arcade c now cell (Suc left) e = repair_passes K l arcade c now cell left ?e"
      using rng(1) der p(1-3) by (simp add: Let_def)
    have "m < left" using Suc.prems(5) Suc by simp
    then show ?thesis
      unfolding step using Suc.IH [of ?e m] p(4,5) Suc.prems(2-4) by simp
  qed
qed simp

text \<open>Claim C15: a repair ends with the cell running.  On a cell whose record above its newest settled
  record holds no attempt and at most three rejections, each of them one the recovery decisions take
  back on its own, repairing the cell terminates with the cell unhalted on its tip, every one of the
  rejections retracted, the settled record in place and the rows of all other cells untouched.\<close>

theorem repair_clears_pile:
  assumes "eStore e = run_store pg ops" and "0 \<le> cell" and "cell < dCells (eDeployment e)"
    and "length (eTips e) = nat (dCells (eDeployment e))" and "names_sent (eStore e) cell"
    and "newest_where (eStore e) cell settles t"
    and "records_above (eStore e) cell StatusAttempting (tipGen t) = {}"
    and "card (records_above (eStore e) cell StatusFailed (tipGen t)) \<le> 3"
    and "DeriveTips K l c (eDeployment e) (eStore e) = Inr ps"
    and "all_resumable K l arcade c (eDeployment e) (eStore e) cell (posTip (ps ! nat cell))
           (records_above (eStore e) cell StatusFailed (tipGen t))"
  shows "let e' = repairCell K l arcade c now cell e in
     cell \<notin> halted e' \<and> haltReason e' cell = None \<and> cell \<notin> needsRepair e'
     \<and> eTips e' ! nat cell = posTip (ps ! nat cell)
     \<and> newest_where (eStore e') cell settles t
     \<and> records_above (eStore e') cell StatusFailed (tipGen t) = {}
     \<and> (\<forall>g c'. c' \<noteq> cell \<longrightarrow> CellAt (eStore e') g c' = CellAt (eStore e) g c')"
proof -
  let ?e = "e\<lparr>needsRepair := needsRepair e - {cell}\<rparr>"
  let ?n = "card (records_above (eStore e) cell StatusFailed (tipGen t))"
  have "keys_ok (eStore e)" using assms(1) by (simp add: keys_ok_run)
  then have "pile K l arcade c (eDeployment ?e) (eStore ?e) cell t (posTip (ps ! nat cell)) ?n"
    using assms(5-10) by (simp add: pile_def)
  then show ?thesis
    using repair_passes_clear [of K l arcade c ?e cell t "posTip (ps ! nat cell)" ?n "maxWreckage + 1" now] assms(2-4,8)
    by (simp add: repairCell_def Let_def maxWreckage_def pile_def)
qed

definition repair_engine :: "store_op list \<Rightarrow> engine" where
  "repair_engine ops = new_engine demo_deployment \<lparr>AutoRecover = False, LockControls = False, optRate = 0, Start = True\<rparr>
     \<lparr>MaxLag = 4, MaxUnconfirmedDepth = 0, MaxUnseenDepth = 1\<rparr> (run_store False ops)"

lemma repair_engine_fields [simp]:
  "eStore (repair_engine ops) = run_store False ops" "eDeployment (repair_engine ops) = demo_deployment"
  "length (eTips (repair_engine ops)) = nat (dCells demo_deployment)"
  by (simp_all add: repair_engine_def new_engine_def)

lemma unsigned_at:
  "CellAt (run_store False unsigned_ops) g c =
     (if g = 2 \<and> c = 0 then Some ('''', StatusFailed, ''chain: not broadcast: boom'')
      else if g = 1 \<and> c = 0 then Some (''bb'', StatusSeen, '''') else None)"
  by (auto simp: run_store_def unsigned_ops_def CellAt_record empty_store_def CellAt_def [of "\<lparr>generations = [], cell_txs = [], leases = [], postgres = False\<rparr>"])

lemma unsigned_settled:
  "newest_where (run_store False unsigned_ops) 0 settles
     \<lparr>tipCell = 0, tipGen = 1, tipTxID = ''bb'', tipStatus = StatusSeen, tipErr = ''''\<rparr>"
  by (auto simp: newest_where_def unsigned_at settles_def settled_status_def split: if_splits)

lemma unsigned_derived:
  "case DeriveTips demo_codec (demo_ledger []) demo_compiled demo_deployment (run_store False unsigned_ops) of
     Inl err \<Rightarrow> False | Inr ps \<Rightarrow> posTip (ps ! nat 0) = demo_next"
  by code_simp

theorem repair_clears_pile_witness:
  "let e' = repairCell demo_codec (demo_ledger []) None demo_compiled 9 0 (repair_engine unsigned_ops) in
     0 \<notin> halted e' \<and> eTips e' ! 0 = demo_next
     \<and> records_above (eStore e') 0 StatusFailed 1 = {}"
proof -
  let ?s = "run_store False unsigned_ops"
  have F: "records_above ?s 0 StatusFailed 1 = {2}" "records_above ?s 0 StatusAttempting 1 = {}"
    by (auto simp: records_above_def unsigned_at split: if_splits)
  have named: "names_sent ?s 0" by (auto simp: names_sent_def unsigned_at settled_status_def split: if_splits)
  obtain ps where ps: "DeriveTips demo_codec (demo_ledger []) demo_compiled demo_deployment ?s = Inr ps"
    "posTip (ps ! nat 0) = demo_next"
    using unsigned_derived by (elim case_InrE)
  have b: "IsNotBroadcast ''chain: not broadcast: boom''" "\<not> (2 :: u64) \<le> 1" by code_simp+
  have "all_resumable demo_codec (demo_ledger []) None demo_compiled demo_deployment ?s 0 demo_next {2}"
    using b by (auto simp: all_resumable_def unsigned_at recoverRejected_def isNeverBroadcast_def
        RecoverNotBroadcast_def demo_next_def)
  then show ?thesis
    using repair_clears_pile [of "repair_engine unsigned_ops" False unsigned_ops 0, OF _ _ _ _ _ unsigned_settled [folded repair_engine_fields(1)],
        of demo_codec "demo_ledger []" demo_compiled ps None 9] F named ps
    by (simp add: Let_def demo_deployment_def)
qed

subsection \<open>Where a repair does not do what it is for\<close>

text \<open>Four rows to take back, one attempt and three rejections, use up all four passes: the last pass
  leaves the cell clean and free, and the loop then halts it as stuck.\<close>

definition four_rows :: "store_op list" where
  "four_rows = OpRecordTx 1 \<lparr>txGen = 0, txCell = 0, txTxID = ''aa'', txStatus = StatusMined, txErr = ''''\<rparr>
     # OpRecordTx 2 \<lparr>txGen = 1, txCell = 0, txTxID = '''', txStatus = StatusAttempting, txErr = ''''\<rparr>
     # map (\<lambda>g. OpRecordTx 3 \<lparr>txGen = g, txCell = 0, txTxID = '''', txStatus = StatusFailed,
         txErr = ''chain: not broadcast: boom''\<rparr>) [2, 3, 4]"

lemma cleared_yet_halted:
  "let e' = repairCell demo_codec (demo_ledger []) None demo_compiled 9 0 (repair_engine four_rows) in
     0 \<in> halted e' \<and> haltReason e' 0 = Some (RepairStuck 4)
     \<and> length (cell_txs (eStore e')) = 1 \<and> eTips e' ! 0 = demo_tip 0"
  by code_simp

text \<open>The refused row reaches the record through the status writer's queue.  A repair that runs before
  that write derives the refused transaction's own output as the tip and frees the cell on it.\<close>

definition unwritten :: "store_op list" where
  "unwritten = [OpRecordTx 1 \<lparr>txGen = 1, txCell = 0, txTxID = ''bb'', txStatus = StatusBroadcast, txErr = ''''\<rparr>]"

lemma repair_before_the_write:
  "let e = indexTx ''bb'' 1 0 (repair_engine unwritten)\<lparr>eHistory := [\<lparr>Number = 1, ViewRowHex = ''03'',
         ViewCells = [\<lparr>cvCell = 0, cvTxID = ''bb'', cvState = TxBroadcast, cvErr = ''''\<rparr>]\<rparr>]\<rparr>;
       refused = fst (applyStatusBatch (\<lambda>_. ''REJECTED'') 5 [(''bb'', \<lparr>recStatus = ArcRejected, recExtraInfo = ''no''\<rparr>)] e);
       e' = repairCell demo_codec (demo_ledger []) None demo_compiled 9 0 refused in
     0 \<in> needsRepair refused \<and> 0 \<notin> halted e' \<and> 0 \<notin> needsRepair e' \<and> TxID (eTips e' ! 0) = ''bb''"
  by code_simp

end
