(* ===== verification/Worker.thy ===== *)
theory Worker
  imports Repair
begin

text \<open>
  The clock, the gates, the transition and the lease of \<open>internal/engine/worker.go\<close>.  A transition is
  two operations on the state, \<open>beginAdvance\<close> and \<open>endAdvance\<close>, because the wallet call between them
  runs without the mutex and anything else may happen meanwhile.  The answers of the wallet
  (\<open>outcome\<close>) and of the database (\<open>db\<close>, \<open>oeDelete\<close>, \<open>oeGeneration\<close>) are arguments.  The theory ends with
  what the write-ahead record guarantees.
\<close>

subsection \<open>The clock\<close>

definition clock_tick :: "engine \<Rightarrow> engine" where
  "clock_tick e =
     (if eMode e = ModeRunning
      then (let frontier = frontierLocked e;
                e = (if eTarget e < frontier then e\<lparr>eTarget := frontier\<rparr> else e) in
            if eTarget e - frontier < MaxLag (eConfig e) then e\<lparr>eTarget := eTarget e + 1\<rparr> else e)
      else e)"

subsection \<open>Funding\<close>

definition starvationGrace :: int where "starvationGrace = 20 * second"
definition starvationProbe :: int where "starvationProbe = 15 * second"
definition backpressurePause :: int where "backpressurePause = 25 * millisecond"

text \<open>The elapsed time since an instant; since the zero time, more than any duration.\<close>

definition since_at_least :: "int \<Rightarrow> int option \<Rightarrow> int \<Rightarrow> bool" where
  "since_at_least now t d = (case t of None \<Rightarrow> True | Some t \<Rightarrow> now - t \<ge> d)"

definition claimProbe :: "int \<Rightarrow> engine \<Rightarrow> engine \<times> bool" where
  "claimProbe now e =
     (if \<not> since_at_least now (lastProbe e) starvationProbe then (e, False)
      else (e\<lparr>lastProbe := Some now\<rparr>, True))"

definition isFundingShortfall :: "string \<Rightarrow> bool" where
  "isFundingShortfall err = str_contains (to_lower err) ''not enough funds''"

definition enterStarvation :: "engine \<Rightarrow> engine" where
  "enterStarvation e =
     (if eMode e = ModeStarved then e else e\<lparr>eMode := ModeStarved, lastError := OutOfFunds\<rparr>)"

definition onShortfall :: "int \<Rightarrow> int \<Rightarrow> engine \<Rightarrow> engine" where
  "onShortfall now cell e =
     (let first = (case starvedSince e of None \<Rightarrow> now | Some t \<Rightarrow> t);
          alreadyStarved = (eMode e = ModeStarved);
          e = e\<lparr>starvedSince := Some first, waitingOnCoin := insert cell (waitingOnCoin e)\<rparr> in
      if now - first > starvationGrace \<and> \<not> alreadyStarved then enterStarvation e else e)"

definition clearStarvation :: "engine \<Rightarrow> engine" where
  "clearStarvation e =
     (if starvedSince e = None \<and> eMode e \<noteq> ModeStarved then e
      else (let e = e\<lparr>starvedSince := None\<rparr> in
            if eMode e = ModeStarved then e\<lparr>eMode := ModeRunning, lastError := NoNote\<rparr> else e))"

definition doneWaiting :: "int \<Rightarrow> engine \<Rightarrow> engine" where
  "doneWaiting cell e = e\<lparr>waitingOnCoin := waitingOnCoin e - {cell}\<rparr>"

subsection \<open>Whose turn it is\<close>

definition turnReady :: "int \<Rightarrow> int \<Rightarrow> engine \<Rightarrow> engine \<times> bool" where
  "turnReady now cell e =
     (let t = Generation (eTips e ! nat cell); mined = lastMined e cell; seen = lastSeen e cell;
          maxDeep = MaxUnconfirmedDepth (eConfig e); maxUnseen = MaxUnseenDepth (eConfig e) in
      if \<not> leader e then (e, False)
      else if needsRederive e then (e, False)
      else if eMode e = ModeStarved then claimProbe now e
      else if maxDeep > 0 \<and> t - mined \<ge> maxDeep then (e, False)
      else if maxUnseen > 0 \<and> t > seen \<and> t - seen \<ge> maxUnseen then (e, False)
      else (e, t < eTarget e))"

datatype turn = TurnHalted | TurnRepair int | TurnGo | TurnWait

text \<open>One round of \<open>awaitTurn\<close>: a halted cell parks for good, a refused one waits its pause and is
  repaired, another asks whether it may go.\<close>

definition awaitTurn :: "int \<Rightarrow> int \<Rightarrow> engine \<Rightarrow> engine \<times> turn" where
  "awaitTurn now cell e =
     (if cell \<in> halted e then (e, TurnHalted)
      else if cell \<in> needsRepair e then (e, TurnRepair (rebuildPauseLocked e cell))
      else case turnReady now cell e of
             (e, ready) \<Rightarrow> (e, if ready then TurnGo else TurnWait))"

subsection \<open>One transition\<close>

record step_result =
  srGeneration :: u64
  srTxID :: txid
  srRowHex :: string
  srRawTxHex :: string

text \<open>An error of \<open>Chain.AdvanceCell\<close>: its text, and whether it wraps \<open>ErrNotBroadcast\<close>.\<close>

record step_error =
  seNotBroadcast :: bool
  seText :: string

fun sink :: "view_generation \<Rightarrow> view_generation list \<Rightarrow> view_generation list" where
  "sink g [] = [g]"
| "sink g (x # xs) = (if Number x > Number g then x # sink g xs else g # x # xs)"

text \<open>The new generation is appended and swapped down past greater numbers, then the window is cut to
  its newest entries.  \<open>ok\<close> says whether the store takes the generation.\<close>

definition insert_generation :: "view_generation \<Rightarrow> view_generation list \<Rightarrow> view_generation list" where
  "insert_generation g gens = rev (sink g (rev gens))"

definition ensureGeneration :: "bool \<Rightarrow> u64 \<Rightarrow> string \<Rightarrow> engine \<Rightarrow> engine" where
  "ensureGeneration ok number rowHex e =
     (if indexOfGeneration (eHistory e) number \<ge> 0 then e
      else (let g = \<lparr>Number = number, ViewRowHex = rowHex, ViewCells = pending_cells (dCells (eDeployment e))\<rparr>;
                gens = insert_generation g (eHistory e);
                gens = (if length gens > maxHistory then drop (length gens - maxHistory) gens else gens);
                e = e\<lparr>eHistory := gens\<rparr> in
            if ok then e\<lparr>eStore := RecordGeneration (eStore e) number rowHex\<rparr> else e))"

definition noteFailure :: "u64 \<Rightarrow> int \<Rightarrow> string \<Rightarrow> engine \<Rightarrow> engine" where
  "noteFailure g cell err e =
     (let i = indexOfGeneration (eHistory e) g;
          e = (if i \<ge> 0 then set_view e i cell \<lparr>cvCell = cell, cvTxID = '''', cvState = TxFailed, cvErr = err\<rparr>
               else e) in
      e\<lparr>lastError := TransitionError err\<rparr>)"

definition recordFailed :: "(nat \<Rightarrow> bool) \<Rightarrow> int \<Rightarrow> u64 \<Rightarrow> int \<Rightarrow> string \<Rightarrow> engine \<Rightarrow> engine" where
  "recordFailed db now g cell err e =
     fst (persist db now \<lparr>txGen = g, txCell = cell, txTxID = '''', txStatus = StatusFailed, txErr = err\<rparr>
       (noteFailure g cell err e))"

definition next_tip :: "int \<Rightarrow> cell_chain \<Rightarrow> step_result \<Rightarrow> cell_chain" where
  "next_tip cell old res = \<lparr>Cell = cell, TxID = srTxID res, Vout = 0, Satoshis_of = Satoshis_of old,
     Generation = srGeneration res, RowHex = srRowHex res, RawTxHex = srRawTxHex res, LegacyBEEFHex = ''''\<rparr>"

definition recordCell :: "(nat \<Rightarrow> bool) \<Rightarrow> int \<Rightarrow> u64 \<Rightarrow> int \<Rightarrow> step_result \<Rightarrow> engine \<Rightarrow> engine" where
  "recordCell db now g cell res e =
     (let i = indexOfGeneration (eHistory e) g;
          e = (if i \<ge> 0 then set_view e i cell
                 \<lparr>cvCell = cell, cvTxID = srTxID res, cvState = TxBroadcast, cvErr = ''''\<rparr> else e);
          e = indexTx (srTxID res) g cell e;
          e = set_tip cell (next_tip cell (eTips e ! nat cell) res) e;
          e = e\<lparr>eGeneration := frontierLocked e, totalTx := totalTx e + 1\<rparr>;
          e = clearRetriesLocked cell (srGeneration res) e in
      fst (persist db now \<lparr>txGen = g, txCell = cell, txTxID = srTxID res, txStatus = StatusBroadcast, txErr = ''''\<rparr> e))"

definition retractAttempt :: "bool \<Rightarrow> u64 \<Rightarrow> int \<Rightarrow> engine \<Rightarrow> engine" where
  "retractAttempt ok g cell e = (if ok then e\<lparr>eStore := DeleteAttempt (eStore e) g cell\<rparr> else e)"

text \<open>\<open>stopping\<close> is \<open>ctx.Err() != nil\<close>.\<close>

definition transitionFailed :: "bool \<Rightarrow> (nat \<Rightarrow> bool) \<Rightarrow> bool \<Rightarrow> int \<Rightarrow> u64 \<Rightarrow> int \<Rightarrow> step_error \<Rightarrow> engine \<Rightarrow> engine" where
  "transitionFailed ok db stopping now g cell err e =
     (let e = (if seNotBroadcast err then retractAttempt ok g cell e else e) in
      if stopping then e
      else if isFundingShortfall (seText err) then onShortfall now cell e
      else let e = doneWaiting cell e in
        if seNotBroadcast err then noteFailure g cell (seText err) e
        else recordFailed db now g cell (seText err) e)"

text \<open>A transition in two halves, with the wallet and the network between them.  The first half reads the
  tip and writes the intent; the transaction is asked for only if that write went through.\<close>

definition beginAdvance :: "(nat \<Rightarrow> bool) \<Rightarrow> int \<Rightarrow> int \<Rightarrow> engine \<Rightarrow> engine \<times> cell_chain option" where
  "beginAdvance db now cell e =
     (let t = eTips e ! nat cell in
      case persist db now \<lparr>txGen = Generation t + 1, txCell = cell, txTxID = '''', txStatus = StatusAttempting,
             txErr = ''''\<rparr> e of
        (e, ok) \<Rightarrow> (e, if ok then Some t else None))"

record outcome_env =
  oeDelete :: bool
  oeDb :: "nat \<Rightarrow> bool"
  oeGeneration :: bool
  oeStopping :: bool

definition endAdvance :: "outcome_env \<Rightarrow> int \<Rightarrow> int \<Rightarrow> cell_chain \<Rightarrow> step_error + step_result \<Rightarrow> engine \<Rightarrow> engine" where
  "endAdvance env now cell t outcome e =
     (case outcome of
        Inl err \<Rightarrow> transitionFailed (oeDelete env) (oeDb env) (oeStopping env) now (Generation t + 1) cell err e
      | Inr res \<Rightarrow>
         (let e = clearStarvation (doneWaiting cell e);
              e = ensureGeneration (oeGeneration env) (srGeneration res) (srRowHex res) e in
          recordCell (oeDb env) now (srGeneration res) cell res e))"

text \<open>\<open>advanceCell\<close> with nothing else happening in between.\<close>

definition advanceCell :: "(nat \<Rightarrow> bool) \<Rightarrow> outcome_env \<Rightarrow> int \<Rightarrow> (cell_chain \<Rightarrow> step_error + step_result) \<Rightarrow> int
    \<Rightarrow> engine \<Rightarrow> engine" where
  "advanceCell db env now advance cell e =
     (case beginAdvance db now cell e of
        (e, None) \<Rightarrow> e
      | (e, Some t) \<Rightarrow> endAdvance env now cell t (advance t) e)"

subsection \<open>The lease\<close>

definition LeaseName :: string where "LeaseName = ''rule110-engine''"
definition LeaseTTL :: int where "LeaseTTL = 30 * second"
definition LeaseRenew :: int where "LeaseRenew = 10 * second"

definition setLeader :: "bool \<Rightarrow> engine \<Rightarrow> engine" where
  "setLeader held e =
     e\<lparr>leader := held, needsRederive := (if held \<and> \<not> leader e then True else needsRederive e)\<rparr>"

definition rederiveIfNeeded :: "tx_codec \<Rightarrow> ledger \<Rightarrow> tx_status option \<Rightarrow> compiled \<Rightarrow> bool \<Rightarrow> int \<Rightarrow> engine \<Rightarrow> engine" where
  "rederiveIfNeeded K l arcade c stopping now e =
     (if \<not> needsRederive e then e
      else case DeriveTips K l c (eDeployment e) (eStore e) of
        Inl err \<Rightarrow> if stopping then e else e\<lparr>lastError := NotRederived err\<rparr>
      | Inr ps \<Rightarrow>
         (let behind = CheckMigrationFloor (eStore e) arcade ps (legacyTips (eDeployment e)) in
          if behind \<noteq> [] then e\<lparr>lastError := StoreBehind behind\<rparr>
          else let (ps, e) = (if AutoRecover (eOpts e) then recoverUnknown K l arcade c now ps e else (ps, e)) in
            (applyPositions ps e)\<lparr>needsRederive := False\<rparr>))"

text \<open>One renewal: \<open>ok\<close> is false when the store's query fails, which counts as not held.\<close>

definition holdLease :: "tx_codec \<Rightarrow> ledger \<Rightarrow> tx_status option \<Rightarrow> compiled \<Rightarrow> string \<Rightarrow> bool \<Rightarrow> bool \<Rightarrow> int
    \<Rightarrow> engine \<Rightarrow> engine" where
  "holdLease K l arcade c owner ok stopping now e =
     (let (s, held) = (if ok then AcquireLease (eStore e) LeaseName owner LeaseTTL now else (eStore e, False));
          e = setLeader held (e\<lparr>eStore := s\<rparr>) in
      if held then rederiveIfNeeded K l arcade c stopping now e else e)"

definition releaseLease :: "string \<Rightarrow> engine \<Rightarrow> engine" where
  "releaseLease owner e = (if leader e then e\<lparr>eStore := ReleaseLease (eStore e) LeaseName owner\<rparr> else e)"

subsection \<open>What a durable write does\<close>

lemma persist_loop_cases:
  "persist_loop db now t left attempt e =
     (if \<exists>k < left. db (attempt + k) then (e\<lparr>eStore := RecordTx (eStore e) now t\<rparr>, True)
      else (haltCell (txCell t) (NotRecorded (txGen t)) e, False))"
proof (induction left arbitrary: attempt)
  case (Suc left)
  have "(\<exists>k < Suc left. db (attempt + k)) \<longleftrightarrow> db attempt \<or> (\<exists>k < left. db (attempt + 1 + k))"
    by (simp add: Ex_less_Suc2)
  then show ?case using Suc.IH [of "attempt + 1"] by auto
qed simp

lemma persist_cases:
  obtains (written) "persist db now t e = (e\<lparr>eStore := RecordTx (eStore e) now t\<rparr>, True)"
  | (refused) "persist db now t e = (haltCell (txCell t) (NotRecorded (txGen t)) e, False)"
  unfolding persist_def persist_loop_cases by meson

lemma haltCell_kept [simp]:
  "eStore (haltCell cell why e) = eStore e" "eTips (haltCell cell why e) = eTips e"
  "eHistory (haltCell cell why e) = eHistory e" "lastMined (haltCell cell why e) = lastMined e"
  "lastSeen (haltCell cell why e) = lastSeen e" "txIndex (haltCell cell why e) = txIndex e"
  "eDeployment (haltCell cell why e) = eDeployment e" "eConfig (haltCell cell why e) = eConfig e"
  "eTarget (haltCell cell why e) = eTarget e"
  by (simp_all add: haltCell_def)

lemma haltCell_halts: "0 \<le> cell \<Longrightarrow> cell < int (length (eTips e)) \<Longrightarrow> cell \<in> halted (haltCell cell why e)"
  by (simp add: haltCell_def)

lemma noteFailure_kept [simp]:
  "eStore (noteFailure g cell err e) = eStore e" "eTips (noteFailure g cell err e) = eTips e"
  "lastMined (noteFailure g cell err e) = lastMined e" "lastSeen (noteFailure g cell err e) = lastSeen e"
  "txIndex (noteFailure g cell err e) = txIndex e" "eDeployment (noteFailure g cell err e) = eDeployment e"
  "eConfig (noteFailure g cell err e) = eConfig e" "halted (noteFailure g cell err e) = halted e"
  by (simp_all add: noteFailure_def Let_def)

lemma starvation_kept [simp]:
  "eStore (clearStarvation e) = eStore e" "eTips (clearStarvation e) = eTips e"
  "eHistory (clearStarvation e) = eHistory e" "lastMined (clearStarvation e) = lastMined e"
  "lastSeen (clearStarvation e) = lastSeen e" "txIndex (clearStarvation e) = txIndex e"
  "eDeployment (clearStarvation e) = eDeployment e" "eConfig (clearStarvation e) = eConfig e"
  "halted (clearStarvation e) = halted e"
  by (simp_all add: clearStarvation_def Let_def)

lemma waiting_kept [simp]:
  "eStore (doneWaiting cell e) = eStore e" "eTips (doneWaiting cell e) = eTips e"
  "eHistory (doneWaiting cell e) = eHistory e" "lastMined (doneWaiting cell e) = lastMined e"
  "lastSeen (doneWaiting cell e) = lastSeen e" "txIndex (doneWaiting cell e) = txIndex e"
  "eDeployment (doneWaiting cell e) = eDeployment e" "eConfig (doneWaiting cell e) = eConfig e"
  "halted (doneWaiting cell e) = halted e"
  by (simp_all add: doneWaiting_def)

lemma shortfall_kept [simp]:
  "eStore (onShortfall now cell e) = eStore e" "eTips (onShortfall now cell e) = eTips e"
  "eHistory (onShortfall now cell e) = eHistory e" "lastMined (onShortfall now cell e) = lastMined e"
  "lastSeen (onShortfall now cell e) = lastSeen e" "txIndex (onShortfall now cell e) = txIndex e"
  "eDeployment (onShortfall now cell e) = eDeployment e" "eConfig (onShortfall now cell e) = eConfig e"
  "halted (onShortfall now cell e) = halted e"
  by (simp_all add: onShortfall_def enterStarvation_def Let_def)

lemma ensure_kept [simp]:
  "eTips (ensureGeneration ok n h e) = eTips e" "lastMined (ensureGeneration ok n h e) = lastMined e"
  "lastSeen (ensureGeneration ok n h e) = lastSeen e" "txIndex (ensureGeneration ok n h e) = txIndex e"
  "eDeployment (ensureGeneration ok n h e) = eDeployment e" "eConfig (ensureGeneration ok n h e) = eConfig e"
  "halted (ensureGeneration ok n h e) = halted e"
  "CellAt (eStore (ensureGeneration ok n h e)) = CellAt (eStore e)"
  by (auto simp: ensureGeneration_def Let_def CellAt_generation fun_eq_iff)

lemma retract_fields [simp]:
  "eTips (retractAttempt ok g cell e) = eTips e" "eHistory (retractAttempt ok g cell e) = eHistory e"
  "lastMined (retractAttempt ok g cell e) = lastMined e" "lastSeen (retractAttempt ok g cell e) = lastSeen e"
  "txIndex (retractAttempt ok g cell e) = txIndex e" "eDeployment (retractAttempt ok g cell e) = eDeployment e"
  "eConfig (retractAttempt ok g cell e) = eConfig e" "halted (retractAttempt ok g cell e) = halted e"
  by (simp_all add: retractAttempt_def)

lemma clear_kept [simp]:
  "eStore (clearRetriesLocked cell g e) = eStore e" "eTips (clearRetriesLocked cell g e) = eTips e"
  "eHistory (clearRetriesLocked cell g e) = eHistory e" "lastMined (clearRetriesLocked cell g e) = lastMined e"
  "lastSeen (clearRetriesLocked cell g e) = lastSeen e" "txIndex (clearRetriesLocked cell g e) = txIndex e"
  "eDeployment (clearRetriesLocked cell g e) = eDeployment e" "eConfig (clearRetriesLocked cell g e) = eConfig e"
  "halted (clearRetriesLocked cell g e) = halted e"
  by (simp_all add: clearRetriesLocked_def split: option.split)

text \<open>The successful outcome, up to the write.\<close>

lemma recordCell_cases:
  obtains (written) e1 where "recordCell db now g cell res e = e1\<lparr>eStore := RecordTx (eStore e) now
      \<lparr>txGen = g, txCell = cell, txTxID = srTxID res, txStatus = StatusBroadcast, txErr = ''''\<rparr>\<rparr>"
      "eTips e1 = (eTips e)[nat cell := next_tip cell (eTips e ! nat cell) res]" "halted e1 = halted e"
  | (refused) e1 where "recordCell db now g cell res e = haltCell cell (NotRecorded g) e1" "eStore e1 = eStore e"
      "eTips e1 = (eTips e)[nat cell := next_tip cell (eTips e ! nat cell) res]"
proof -
  let ?t = "\<lparr>txGen = g, txCell = cell, txTxID = srTxID res, txStatus = StatusBroadcast, txErr = ''''\<rparr>"
  obtain e1 where e1: "recordCell db now g cell res e = fst (persist db now ?t e1)" "eStore e1 = eStore e"
    "eTips e1 = (eTips e)[nat cell := next_tip cell (eTips e ! nat cell) res]" "halted e1 = halted e"
    by (simp add: recordCell_def Let_def indexTx_def set_tip_def if_distrib [of eTips] if_distrib [of eStore]
        if_distrib [of halted] cong: if_cong)
  show ?thesis
    by (cases rule: persist_cases [of db now ?t e1]) (use e1 written refused in auto)
qed

subsection \<open>The write-ahead record\<close>

text \<open>An unresolved attempt with no rejection beside it always derives as unknown, however deep.\<close>

lemma attempt_unknown:
  assumes k: "keys_ok s" and rec: "CellTips s n tipDepth = Inr records" and c: "0 \<le> c" "c < n"
    and b: "newest_where s c settles base"
    and F: "records_above s c StatusFailed (tipGen base) = {}"
    and A: "records_above s c StatusAttempting (tipGen base) \<noteq> {}"
  shows "\<exists>p. classify d s records c = ((tipGen base, tipTxID base), p)
     \<and> Halted p \<and> Unknown p \<and> \<not> Rejected p \<and> Attempted p = tipGen base + 1"
proof -
  let ?w = "cell_tips s c (nat tipDepth)"
  have "CellAt s (tipGen base) c \<noteq> None" using b by (simp add: newest_where_def)
  then have ne: "?w \<noteq> []" using window_empty [OF k, of "nat tipDepth" c] by (auto simp: tipDepth_def)
  then have r: "records c = Some ?w" using CellTips_window [OF rec c] by simp
  show ?thesis
  proof (cases "newestSettled ?w")
    case None
    have "Settled (DeepTip s c) = Some base" using deep_settled_where [OF k] b by blast
    moreover obtain a where "Failed (DeepTip s c) = None" "Attempt (DeepTip s c) = Some a"
      using deep_above [OF k b] F A by blast
    ultimately show ?thesis using None ne by (simp add: classify_def r classify_deep_def)
  next
    case (Some t)
    note w = newestSettled_where [OF k Some]
    have t: "t = base" using newest_where_unique [OF w(1) b] .
    have "above_with StatusFailed (tipGen base) ?w = []" "above_with StatusAttempting (tipGen base) ?w \<noteq> []"
      using above_window(1) [OF k w(2)] F A unfolding t by (metis image_is_empty set_empty)+
    then have "classify_shallow base ?w = unresolved no_position (tipGen base)
        (tipGen (last (above_with StatusAttempting (tipGen base) ?w)))"
      by (simp add: classify_shallow_spec [OF window_sorted [OF k]] Let_def)
    then show ?thesis using Some ne t by (simp add: classify_def r)
  qed
qed

lemma attempt_derived:
  assumes k: "keys_ok s" and der: "DeriveTips K l c d s = Inr ps" and cell: "0 \<le> cell" "cell < dCells d"
    and b: "newest_where s cell settles t"
    and F: "records_above s cell StatusFailed (tipGen t) = {}"
    and A: "records_above s cell StatusAttempting (tipGen t) \<noteq> {}"
  shows "Halted (ps ! nat cell) \<and> Unknown (ps ! nat cell) \<and> Attempted (ps ! nat cell) = tipGen t + 1
     \<and> TxID (posTip (ps ! nat cell)) = tipTxID t"
proof -
  obtain seed records gen tid p where e: "CellTips s (dCells d) tipDepth = Inr records"
    "classify d s records cell = ((gen, tid), p)"
    "if tid = '''' then ps ! nat cell = p else \<exists>raw u. RawTx l tid = Inr raw
         \<and> DeriveTip K c cell gen (nth_row (dRule d) seed (unat gen)) tid raw = Inr u
         \<and> ps ! nat cell = p\<lparr>posTip := u\<rparr>"
    using DeriveTips_cell [OF der cell] by blast
  have cl: "gen = tipGen t" "tid = tipTxID t" "Halted p" "Unknown p" "Attempted p = tipGen t + 1"
    using attempt_unknown [OF k e(1) cell b F A, of d] e(2) by auto
  have "tid \<noteq> ''''" using b cl(2) by (simp add: newest_where_def settles_def)
  then show ?thesis using e(3) cl DeriveTip_fields by auto
qed

lemma begin_cases:
  assumes "beginAdvance db now cell e = (e1, asked)"
  obtains (written) "asked = Some (eTips e ! nat cell)"
      "e1 = e\<lparr>eStore := RecordTx (eStore e) now \<lparr>txGen = Generation (eTips e ! nat cell) + 1, txCell = cell,
         txTxID = '''', txStatus = StatusAttempting, txErr = ''''\<rparr>\<rparr>"
  | (refused) "asked = None" "e1 = haltCell cell (NotRecorded (Generation (eTips e ! nat cell) + 1)) e"
  using assms
  by (cases rule: persist_cases [of db now "\<lparr>txGen = Generation (eTips e ! nat cell) + 1, txCell = cell,
         txTxID = '''', txStatus = StatusAttempting, txErr = ''''\<rparr>" e])
     (auto simp: beginAdvance_def Let_def)

text \<open>What the record may say of the attempted generation once the outcome is in.\<close>

definition resolved :: "outcome_env \<Rightarrow> step_error + step_result \<Rightarrow> (txid \<times> status \<times> string) option \<Rightarrow> bool \<Rightarrow> bool" where
  "resolved env outcome v is_halted =
     (let open_row = (v = Some ('''', StatusAttempting, '''')) in
      case outcome of
        Inr res \<Rightarrow> v = Some (srTxID res, StatusBroadcast, '''') \<or> (open_row \<and> is_halted)
      | Inl err \<Rightarrow>
          if seNotBroadcast err then (if oeDelete env then v = None else open_row)
          else if oeStopping env \<or> isFundingShortfall (seText err) then open_row
          else v = Some ('''', StatusFailed, seText err) \<or> (open_row \<and> is_halted))"

lemma end_resolves:
  assumes k: "keys_ok (eStore e)" and cell: "0 \<le> cell" "cell < int (length (eTips e))"
    and at: "CellAt (eStore e) (Generation tip + 1) cell = Some ('''', StatusAttempting, '''')"
    and res: "\<And>res. outcome = Inr res \<Longrightarrow> srGeneration res = Generation tip + 1"
  shows "resolved env outcome (CellAt (eStore (endAdvance env now cell tip outcome e)) (Generation tip + 1) cell)
     (cell \<in> halted (endAdvance env now cell tip outcome e))"
proof (cases outcome)
  case (Inr r)
  let ?e = "ensureGeneration (oeGeneration env) (srGeneration r) (srRowHex r) (clearStarvation (doneWaiting cell e))"
  have fin: "endAdvance env now cell tip outcome e = recordCell (oeDb env) now (srGeneration r) cell r ?e"
    using Inr by (simp add: endAdvance_def Let_def)
  have g: "srGeneration r = Generation tip + 1" using res Inr by simp
  show ?thesis
  proof (cases rule: recordCell_cases [of "oeDb env" now "srGeneration r" cell r ?e])
    case (written e1)
    then show ?thesis unfolding fin by (simp add: resolved_def Inr g CellAt_record)
  next
    case (refused e1)
    then show ?thesis unfolding fin using at cell
      by (simp add: resolved_def Inr g haltCell_halts)
  qed
next
  case (Inl err)
  let ?e = "if seNotBroadcast err then retractAttempt (oeDelete env) (Generation tip + 1) cell e else e"
  have st: "CellAt (eStore ?e) (Generation tip + 1) cell =
      (if seNotBroadcast err \<and> oeDelete env then None else Some ('''', StatusAttempting, ''''))"
    using at attempts.look_retract [OF k, of "Generation tip + 1" cell "Generation tip + 1" cell]
    by (auto simp: retractAttempt_def)
  show ?thesis
  proof (cases "oeStopping env \<or> isFundingShortfall (seText err) \<or> seNotBroadcast err")
    case True
    then have "eStore (endAdvance env now cell tip outcome e) = eStore ?e"
      using Inl by (auto simp: endAdvance_def transitionFailed_def Let_def)
    then show ?thesis using st True by (auto simp: resolved_def Inl Let_def)
  next
    case False
    let ?t = "\<lparr>txGen = Generation tip + 1, txCell = cell, txTxID = '''', txStatus = StatusFailed, txErr = seText err\<rparr>"
    let ?f = "noteFailure (Generation tip + 1) cell (seText err) (doneWaiting cell e)"
    have fin: "endAdvance env now cell tip outcome e = fst (persist (oeDb env) now ?t ?f)"
      using Inl False by (simp add: endAdvance_def transitionFailed_def recordFailed_def Let_def)
    show ?thesis
    proof (cases rule: persist_cases [of "oeDb env" now ?t ?f])
      case written
      then show ?thesis unfolding fin using False by (simp add: resolved_def Inl CellAt_record Let_def)
    next
      case refused
      then show ?thesis unfolding fin using False at cell
        by (simp add: resolved_def Inl Let_def haltCell_halts)
    qed
  qed
qed

lemma word_next_greater: "x + 1 \<noteq> 0 \<Longrightarrow> x < x + 1" for x :: u64
proof -
  assume "x + 1 \<noteq> 0"
  then have "unat (x + 1) = Suc (unat x)" by (metis add.commute unatSuc)
  then show "x < x + 1" by (simp add: word_less_nat_alt)
qed

text \<open>Claim C16: intent is durable before anything can be broadcast.  On a cell whose tip is its newest
  settled record with nothing recorded above it, either the intent could not be written, and then
  nothing is asked of the wallet, the record is unchanged and the cell halts; or from then on every
  derivation from the record finds the cell halted and unknown at exactly the attempted generation,
  until the outcome replaces the intent: a success by its transaction, a failure before signing by
  nothing, a refusal by its reason.  A shutdown or a shortfall leaves the intent open, as does a
  retraction the store refuses; a success or a refusal that could not be written leaves it open with
  the cell halted.\<close>

theorem write_ahead_covers:
  assumes "eStore e = run_store pg ops" and "0 \<le> cell" and "cell < int (length (eTips e))"
    and "cell < dCells (eDeployment e)" and "newest_where (eStore e) cell settles t"
    and "Generation (eTips e ! nat cell) = tipGen t" and "\<forall>g. tipGen t < g \<longrightarrow> CellAt (eStore e) g cell = None"
    and "tipGen t + 1 \<noteq> 0" and "beginAdvance db now cell e = (e1, asked)"
  shows "case asked of
       None \<Rightarrow> eStore e1 = eStore e \<and> cell \<in> halted e1
     | Some tip \<Rightarrow> tip = eTips e ! nat cell
         \<and> (\<forall>K l c ps. DeriveTips K l c (eDeployment e) (eStore e1) = Inr ps \<longrightarrow>
              Halted (ps ! nat cell) \<and> Unknown (ps ! nat cell) \<and> Attempted (ps ! nat cell) = tipGen t + 1
              \<and> TxID (posTip (ps ! nat cell)) = tipTxID t)
         \<and> (\<forall>env later outcome. (\<forall>res. outcome = Inr res \<longrightarrow> srGeneration res = tipGen t + 1) \<longrightarrow>
              resolved env outcome (CellAt (eStore (endAdvance env later cell tip outcome e1)) (tipGen t + 1) cell)
                (cell \<in> halted (endAdvance env later cell tip outcome e1)))"
  using assms(9)
proof (cases rule: begin_cases)
  case refused
  then show ?thesis using assms(2,3) by (simp add: haltCell_halts)
next
  case written
  let ?g = "tipGen t + 1"
  have k: "keys_ok (eStore e)" using assms(1) by (simp add: keys_ok_run)
  have s1: "eStore e1 = RecordTx (eStore e) now \<lparr>txGen = ?g, txCell = cell, txTxID = '''',
       txStatus = StatusAttempting, txErr = ''''\<rparr>"
    using written(2) assms(6) by simp
  have k1: "keys_ok (eStore e1)" unfolding s1 by (rule keys_ok_record [OF k])
  have at: "CellAt (eStore e1) g cell = (if g = ?g then Some ('''', StatusAttempting, '''') else CellAt (eStore e) g cell)" for g
    by (simp add: s1 CellAt_record)
  have up: "tipGen t < ?g" using assms(8) by (rule word_next_greater)
  have t1: "newest_where (eStore e1) cell settles t"
    using assms(5) up by (auto simp: newest_where_def at settles_def settled_status_def)
  have F: "records_above (eStore e1) cell StatusFailed (tipGen t) = {}"
    and A: "records_above (eStore e1) cell StatusAttempting (tipGen t) \<noteq> {}"
    using assms(7) up by (auto simp: records_above_def at)
  have fields: "eDeployment e1 = eDeployment e" "length (eTips e1) = length (eTips e)" using written(2) by simp_all
  have "resolved env outcome (CellAt (eStore (endAdvance env later cell (eTips e ! nat cell) outcome e1)) ?g cell)
      (cell \<in> halted (endAdvance env later cell (eTips e ! nat cell) outcome e1))"
    if "\<forall>res. outcome = Inr res \<longrightarrow> srGeneration res = ?g" for env later outcome
    using end_resolves [OF k1 assms(2), of "eTips e ! nat cell" outcome env later] that assms(3,6) fields at
    by simp
  then show ?thesis
    using written(1) attempt_derived [OF k1 _ assms(2,4) t1 F A] by auto
qed

definition demo_ready :: engine where
  "demo_ready = demo_engine\<lparr>eStore := run_store False (take 1 demo_ops), eTips := (eTips demo_engine)[0 := demo_next]\<rparr>"

definition demo_step :: step_result where
  "demo_step = \<lparr>srGeneration = 2, srTxID = ''dd'', srRowHex = ''07'', srRawTxHex = ''''\<rparr>"

lemma demo_ready_settled:
  "newest_where (eStore demo_ready) 0 settles
     \<lparr>tipCell = 0, tipGen = 1, tipTxID = ''bb'', tipStatus = StatusSeen, tipErr = ''''\<rparr>"
proof -
  have "Settled (DeepTip (run_store False (take 1 demo_ops)) 0) =
     Some \<lparr>tipCell = 0, tipGen = 1, tipTxID = ''bb'', tipStatus = StatusSeen, tipErr = ''''\<rparr>"
    by code_simp
  then show ?thesis unfolding demo_ready_def using deep_settled_where [OF keys_ok_run] by simp
qed

lemma demo_ready_above: "\<forall>g. 1 < g \<longrightarrow> CellAt (eStore demo_ready) g 0 = None"
  by (auto simp: demo_ready_def demo_ops_def run_store_def CellAt_record)
     (simp add: CellAt_def empty_store_def)

theorem write_ahead_covers_witness:
  "let (e1, asked) = beginAdvance (\<lambda>k. k = 3) 9 0 demo_ready;
       env = \<lparr>oeDelete = True, oeDb = (\<lambda>_. False), oeGeneration = True, oeStopping = False\<rparr> in
     asked = Some demo_next
     \<and> resolved env (Inr demo_step) (CellAt (eStore (endAdvance env 10 0 demo_next (Inr demo_step) e1)) 2 0)
         (0 \<in> halted (endAdvance env 10 0 demo_next (Inr demo_step) e1))"
proof -
  obtain e1 asked where b: "beginAdvance (\<lambda>k. k = 3) 9 0 demo_ready = (e1, asked)" by fastforce
  have "snd (beginAdvance (\<lambda>k. k = 3) 9 0 demo_ready) = Some demo_next"
    by (simp add: beginAdvance_def persist_def persistRetries_def numeral_3_eq_3 demo_ready_def demo_engine_def
        new_engine_def demo_deployment_def)
  then have a: "asked = Some demo_next" using b by simp
  have h: "eStore demo_ready = run_store False (take 1 demo_ops)" "0 < int (length (eTips demo_ready))"
    "0 < dCells (eDeployment demo_ready)" "Generation (eTips demo_ready ! nat 0) = 1"
    by (simp_all add: demo_ready_def demo_engine_def new_engine_def demo_deployment_def demo_next_def)
  show ?thesis
    using write_ahead_covers [OF h(1) _ h(2,3) demo_ready_settled _ _ _ b] h(4) demo_ready_above a b
    by (simp add: demo_step_def)
qed

end
