(* ===== verification/EngineRun.thy ===== *)
theory EngineRun
  imports Worker
begin

text \<open>
  The running engine as a state machine: one worker per cell beside the clock, the verdicts, the
  status writer, the lease and the controls, every operation one step, in any order and with any
  answer of the wallet, the network and the database.  Another instance on the same record is a step
  that applies any operation of the record.  The theory proves what every reachable state satisfies.
\<close>

subsection \<open>Workers\<close>

datatype worker = Asking | Parked | Pausing | Going | Sent cell_chain

definition after_turn :: "turn \<Rightarrow> worker" where
  "after_turn t = (case t of TurnHalted \<Rightarrow> Parked | TurnRepair pause \<Rightarrow> Pausing | TurnGo \<Rightarrow> Going | TurnWait \<Rightarrow> Asking)"

definition after_begin :: "cell_chain option \<Rightarrow> worker" where
  "after_begin asked = (case asked of None \<Rightarrow> Asking | Some t \<Rightarrow> Sent t)"

type_synonym running = "engine \<times> (int \<Rightarrow> worker)"

definition in_ring :: "engine \<Rightarrow> int \<Rightarrow> bool" where
  "in_ring e cell = (0 \<le> cell \<and> cell < dCells (eDeployment e))"

inductive engine_step :: "running \<Rightarrow> running \<Rightarrow> bool" where
  Ticks: "engine_step (e, w) (clock_tick e, w)"
| Asks: "in_ring e cell \<Longrightarrow> w cell = Asking \<Longrightarrow> awaitTurn now cell e = (e1, t) \<Longrightarrow>
    engine_step (e, w) (e1, w(cell := after_turn t))"
| Repairs: "in_ring e cell \<Longrightarrow> w cell = Pausing \<Longrightarrow>
    engine_step (e, w) (repairCell K l arcade c now cell e, w(cell := Asking))"
| Begins: "in_ring e cell \<Longrightarrow> w cell = Going \<Longrightarrow> beginAdvance db now cell e = (e1, asked) \<Longrightarrow>
    engine_step (e, w) (e1, w(cell := after_begin asked))"
| Ends: "in_ring e cell \<Longrightarrow> w cell = Sent tip \<Longrightarrow>
    engine_step (e, w) (endAdvance env now cell tip outcome e, w(cell := Asking))"
| Verdicts: "applyStatusBatch wording now recs e = (e1, reasons) \<Longrightarrow> engine_step (e, w) (e1, w)"
| Reasons: "engine_step (e, w) (fetchRejectionReason wording ask now tid cell e, w)"
| Writes: "engine_step (e, w) (writeStatuses avail ok now e, w)"
| Leases: "engine_step (e, w) (holdLease K l arcade c owner ok stopping now e, w)"
| Releases: "engine_step (e, w) (releaseLease owner e, w)"
| Modes: "engine_step (e, w) (SetMode m e, w)"
| Rates: "engine_step (e, w) (SetRate r e, w)"
| Steps: "engine_step (e, w) (StepClock e, w)"
| Funds: "engine_step (e, w) (trackFunds answer e, w)"
| Others: "engine_step (e, w) (e\<lparr>eStore := store_step op (eStore e)\<rparr>, w)"

inductive_cases engine_stepE: "engine_step x y"

inductive engine_run :: "engine \<Rightarrow> running \<Rightarrow> bool" for e0 where
  Starts: "engine_run e0 (e0, \<lambda>_. Asking)"
| Runs: "engine_run e0 x \<Longrightarrow> engine_step x y \<Longrightarrow> engine_run e0 y"

subsection \<open>Well-formed states\<close>

definition window_ok :: "int \<Rightarrow> view_generation list \<Rightarrow> bool" where
  "window_ok n gens = (window_sorted gens \<and> length gens \<le> maxHistory + 1
     \<and> (\<forall>g \<in> set gens. int (length (ViewCells g)) = n))"

definition halts_ok :: "int \<Rightarrow> int set \<Rightarrow> (int \<Rightarrow> halt_cause option) \<Rightarrow> bool" where
  "halts_ok n hs why = (hs = dom why \<and> hs \<subseteq> {0..<n})"

lemma halts_insert [simp]: "halts_ok n hs why \<Longrightarrow> 0 \<le> cell \<Longrightarrow> cell < n \<Longrightarrow> halts_ok n (insert cell hs) (why(cell \<mapsto> r))"
  by (auto simp: halts_ok_def)

lemma halts_remove [simp]: "halts_ok n hs why \<Longrightarrow> halts_ok n (hs - {cell}) (why(cell := None))"
  by (auto simp: halts_ok_def)

definition engine_ok :: "engine \<Rightarrow> bool" where
  "engine_ok e = (keys_ok (eStore e) \<and> int (length (eTips e)) = dCells (eDeployment e)
     \<and> window_ok (dCells (eDeployment e)) (eHistory e)
     \<and> halts_ok (dCells (eDeployment e)) (halted e) (haltReason e) \<and> index_ok e \<and> marks_ok e
     \<and> 1 / 20 \<le> eRate e \<and> eRate e \<le> 20 \<and> length (statusWrites e) \<le> statusWriteQueue)"

lemma ok_keys: "engine_ok e \<Longrightarrow> keys_ok (eStore e)"
  by (simp add: engine_ok_def)

lemma engine_ok_store: "engine_ok e \<Longrightarrow> keys_ok s \<Longrightarrow> engine_ok (e\<lparr>eStore := s\<rparr>)"
  by (simp add: engine_ok_def index_ok_def marks_ok_def)

text \<open>The clock, the controls and the funding touch none of it.\<close>

lemma controls_ok [intro]:
  assumes "engine_ok e"
  shows "engine_ok (clock_tick e)" "engine_ok (SetMode m e)" "engine_ok (SetRate r e)" "engine_ok (StepClock e)"
    "engine_ok (trackFunds answer e)" "engine_ok (doneWaiting cell e)" "engine_ok (clearStarvation e)"
    "engine_ok (onShortfall now cell e)" "engine_ok (fst (claimProbe now e))"
  using assms
  by (auto simp: engine_ok_def index_ok_def marks_ok_def clock_tick_def SetMode_def SetRate_def
      StepClock_def clampRate_def trackFunds_def doneWaiting_def clearStarvation_def onShortfall_def
      enterStarvation_def claimProbe_def Let_def split: option.split)

lemma turn_ok: "engine_ok e \<Longrightarrow> awaitTurn now cell e = (e1, t) \<Longrightarrow> engine_ok e1"
  using controls_ok(9) [of e now]
  by (auto simp: awaitTurn_def turnReady_def Let_def split: if_splits prod.splits)

lemma haltCell_ok: "engine_ok e \<Longrightarrow> engine_ok (haltCell cell why e)"
  by (auto simp: engine_ok_def index_ok_def marks_ok_def haltCell_def)

lemma persist_ok: "engine_ok e \<Longrightarrow> persist db now t e = (e1, ok) \<Longrightarrow> engine_ok e1"
  by (cases rule: persist_cases [of db now t e])
     (auto intro!: haltCell_ok engine_ok_store keys_ok_record dest: ok_keys)

lemma begin_ok: "engine_ok e \<Longrightarrow> beginAdvance db now cell e = (e1, asked) \<Longrightarrow> engine_ok e1"
  by (auto simp: beginAdvance_def Let_def split: prod.splits dest: persist_ok)

lemma set_view_ok: "engine_ok e \<Longrightarrow> engine_ok (set_view e i cell v)"
proof -
  assume ok: "engine_ok e"
  have "int (length (ViewCells g)) = dCells (eDeployment e)" if g: "g \<in> set (eHistory (set_view e i cell v))" for g
  proof -
    obtain k where k: "k < length (eHistory (set_view e i cell v))" "g = eHistory (set_view e i cell v) ! k"
      using g by (metis in_set_conv_nth)
    then have "length (ViewCells g) = length (ViewCells (eHistory e ! k))" "k < length (eHistory e)"
      by (simp_all add: set_view_shape)
    then show ?thesis using ok by (simp add: engine_ok_def window_ok_def)
  qed
  moreover have "window_sorted (eHistory (set_view e i cell v)) = window_sorted (eHistory e)"
    by (rule window_sorted_numbers) (rule set_view_shape)
  moreover have "haltReason (set_view e i cell v) = haltReason e" "eRate (set_view e i cell v) = eRate e"
    "statusWrites (set_view e i cell v) = statusWrites e"
    by (simp_all add: set_view_def)
  ultimately show ?thesis
    using ok by (simp add: engine_ok_def index_ok_def marks_ok_def window_ok_def set_view_shape)
qed

subsection \<open>The window grows in order\<close>

lemma sink_set: "set (sink g xs) = insert g (set xs)" and sink_length: "length (sink g xs) = length xs + 1"
  by (induction xs) auto

lemma sink_sorted:
  "sorted_wrt (\<lambda>a b. Number a > Number b) xs \<Longrightarrow> Number g \<notin> Number ` set xs \<Longrightarrow>
   sorted_wrt (\<lambda>a b. Number a > Number b) (sink g xs)"
  by (induction xs) (auto simp: sink_set dest: less_trans)

lemma insert_sorted:
  assumes "window_sorted gens" and "Number g \<notin> Number ` set gens"
  shows "window_sorted (insert_generation g gens)"
  using assms sink_sorted [of "rev gens" g]
  by (simp add: window_sorted_def insert_generation_def sorted_wrt_rev)

lemma sorted_wrt_drop: "sorted_wrt P xs \<Longrightarrow> sorted_wrt P (drop k xs)"
  by (metis append_take_drop_id sorted_wrt_append)

lemma ensure_ok:
  assumes "engine_ok e"
  shows "engine_ok (ensureGeneration ok n h e)"
proof (cases "indexOfGeneration (eHistory e) n \<ge> 0")
  case True
  then show ?thesis using assms by (simp add: ensureGeneration_def)
next
  case False
  let ?d = "dCells (eDeployment e)"
  let ?g = "\<lparr>Number = n, ViewRowHex = h, ViewCells = pending_cells ?d\<rparr>"
  let ?i = "insert_generation ?g (eHistory e)"
  let ?h = "if length ?i > maxHistory then drop (length ?i - maxHistory) ?i else ?i"
  have s: "window_sorted (eHistory e)" using assms by (simp add: engine_ok_def window_ok_def)
  have "Number ?g \<notin> Number ` set (eHistory e)"
    using False index_missing [OF s, of n] by (auto simp: not_le)
  then have "window_sorted ?i" by (rule insert_sorted [OF s])
  then have "window_sorted ?h" by (simp add: window_sorted_def sorted_wrt_drop)
  moreover have "0 \<le> ?d" using assms by (metis engine_ok_def of_nat_0_le_iff)
  then have "int (length (ViewCells x)) = ?d" if "x \<in> set ?i" for x
    using that assms
    by (auto simp: insert_generation_def sink_set engine_ok_def window_ok_def pending_cells_def)
  then have "\<forall>x \<in> set ?h. int (length (ViewCells x)) = ?d" by (auto dest: in_set_dropD)
  moreover have "length ?h \<le> maxHistory + 1" by simp
  ultimately have "window_ok ?d ?h" unfolding window_ok_def by blast
  moreover have "keys_ok (RecordGeneration (eStore e) n h)" using ok_keys [OF assms] by (rule keys_ok_generation)
  ultimately show ?thesis
    using assms False by (auto simp: ensureGeneration_def Let_def engine_ok_def index_ok_def marks_ok_def)
qed

subsection \<open>Transitions\<close>

lemma noteFailure_ok: "engine_ok e \<Longrightarrow> engine_ok (noteFailure g cell err e)"
proof -
  assume "engine_ok e"
  then have "engine_ok (if b then set_view e i cell v else e)" for b i v by (simp add: set_view_ok)
  then show ?thesis
    unfolding noteFailure_def Let_def
    by (simp add: engine_ok_def index_ok_def marks_ok_def)
qed

lemma position_ok_kept:
  assumes "engine_ok e" and "0 \<le> cell"
  shows "engine_ok (indexTx tid g cell e)" "engine_ok (set_tip cell t e)"
    "engine_ok (e\<lparr>eGeneration := n, totalTx := k\<rparr>)" "engine_ok (clearRetriesLocked cell g e)"
proof -
  show "engine_ok (indexTx tid g cell e)" using assms
    by (auto simp: engine_ok_def indexTx_def index_ok_def marks_ok_def)
  show "engine_ok (set_tip cell t e)" using assms
    by (simp add: engine_ok_def set_tip_def index_ok_def marks_ok_def)
  show "engine_ok (e\<lparr>eGeneration := n, totalTx := k\<rparr>)" using assms
    by (simp add: engine_ok_def index_ok_def marks_ok_def)
  show "engine_ok (clearRetriesLocked cell g e)" using assms
    by (simp add: engine_ok_def clearRetriesLocked_def index_ok_def marks_ok_def split: option.split)
qed

lemma recordCell_ok:
  assumes "engine_ok e" and "in_ring e cell"
  shows "engine_ok (recordCell db now g cell res e)"
proof -
  let ?i = "indexOfGeneration (eHistory e) g"
  let ?v = "\<lparr>cvCell = cell, cvTxID = srTxID res, cvState = TxBroadcast, cvErr = ''''\<rparr>"
  let ?e = "if ?i \<ge> 0 then set_view e ?i cell ?v else e"
  have c: "0 \<le> cell" using assms(2) by (simp add: in_ring_def)
  have "engine_ok ?e" using assms(1) by (simp add: set_view_ok)
  note steps = position_ok_kept(1) [OF this c] position_ok_kept(2-4) [OF _ c]
  have p: "engine_ok (fst (persist db now t x))" if "engine_ok x" for t x
    using that by (metis persist_ok prod.collapse)
  show ?thesis
    unfolding recordCell_def Let_def by (intro p steps)
qed

lemma retract_ok: "engine_ok e \<Longrightarrow> engine_ok (retractAttempt ok g cell e)"
  by (auto simp: retractAttempt_def DeleteAttempt_def intro!: engine_ok_store keys_ok_delete dest: ok_keys)

lemma failed_ok:
  assumes "engine_ok e"
  shows "engine_ok (transitionFailed ok db stopping now g cell err e)"
proof -
  have "engine_ok (recordFailed db now g cell why x)" if "engine_ok x" for why x
    unfolding recordFailed_def using that by (metis noteFailure_ok persist_ok prod.collapse)
  then show ?thesis
    using assms by (simp add: transitionFailed_def Let_def retract_ok controls_ok noteFailure_ok)
qed

lemma end_ok:
  assumes "engine_ok e" and "in_ring e cell"
  shows "engine_ok (endAdvance env now cell tip outcome e)"
proof (cases outcome)
  case (Inl err)
  then show ?thesis using assms(1) by (simp add: endAdvance_def failed_ok)
next
  case (Inr res)
  let ?e = "ensureGeneration (oeGeneration env) (srGeneration res) (srRowHex res) (clearStarvation (doneWaiting cell e))"
  have "engine_ok ?e" "in_ring ?e cell" using assms by (auto intro!: ensure_ok simp: in_ring_def)
  then show ?thesis using Inr by (simp add: endAdvance_def Let_def recordCell_ok)
qed

subsection \<open>Verdicts\<close>

lemma raise_ok: "engine_ok e \<Longrightarrow> engine_ok (raise_marks nxt g cell e)"
  by (auto simp: engine_ok_def raise_marks_def index_ok_def marks_ok_def Let_def intro: order_trans less_imp_le)

lemma forget_ok: "engine_ok e \<Longrightarrow> engine_ok (forget_terminal st tid e)"
  by (auto simp: engine_ok_def forget_terminal_def index_ok_def marks_ok_def)

lemma refusal_ok:
  assumes "engine_ok e" and "in_ring e cell"
  shows "engine_ok (noteRefusalLocked now cell g st why e)"
  using assms
  by (simp add: engine_ok_def noteRefusalLocked_def index_ok_def marks_ok_def in_ring_def Let_def split: option.split)

lemma kept_deployment [simp]:
  "eDeployment (raise_marks nxt g cell e) = eDeployment e" "eDeployment (forget_terminal st tid e) = eDeployment e"
  by (simp_all add: raise_marks_def forget_terminal_def Let_def)

lemma view_in_ring:
  assumes "engine_ok e" and "txIndex e tid = Some (g, cell)" and "indexOfGeneration (eHistory e) g = int j"
    and "cell < int (length (ViewCells (eHistory e ! j)))"
  shows "in_ring e cell"
proof -
  have "window_sorted (eHistory e)" using assms(1) by (simp add: engine_ok_def window_ok_def)
  then have "j < length (eHistory e)" using index_found assms(3) by simp
  then have "int (length (ViewCells (eHistory e ! j))) = dCells (eDeployment e)"
    using assms(1) by (simp add: engine_ok_def window_ok_def)
  then show ?thesis using assms(1,2,4) by (auto simp: in_ring_def engine_ok_def index_ok_def)
qed

lemma apply_status_ok:
  assumes ok: "engine_ok e"
  shows "engine_ok (fst (apply_status wording now (tid, rec, nxt) (e, out)))"
proof -
  have "window_sorted (eHistory e)" using ok by (simp add: engine_ok_def window_ok_def)
  then show ?thesis
  proof (cases rule: apply_status_cases [where wording = wording and now = now and tid = tid and rec = rec and nxt = nxt and out = out])
    case (refused g cell j v)
    have "in_ring e cell" by (rule view_in_ring [OF ok refused(1,3,4)])
    then show ?thesis unfolding refused(7) fst_conv
      by (intro refusal_ok forget_ok set_view_ok raise_ok ok) (simp add: in_ring_def)
  qed (simp_all add: ok forget_ok raise_ok set_view_ok)
qed

lemma apply_statuses_ok: "engine_ok e \<Longrightarrow> engine_ok (fst (fold (apply_status wording now) ws (e, out)))"
proof (induction ws arbitrary: e out)
  case (Cons w ws)
  obtain tid rec nxt where w: "w = (tid, rec, nxt)" by (metis surj_pair)
  obtain e1 o1 where a: "apply_status wording now w (e, out) = (e1, o1)" by fastforce
  have "engine_ok e1" using apply_status_ok [OF Cons.prems, of wording now tid rec nxt out] a w by simp
  then show ?case using Cons.IH a by simp
qed simp

lemma enqueue_ok: "engine_ok e \<Longrightarrow> engine_ok (enqueueStatusWrites ws e)"
proof (induction ws arbitrary: e)
  case (Cons w ws)
  let ?e = "if length (statusWrites e) < statusWriteQueue then e\<lparr>statusWrites := statusWrites e @ [w]\<rparr> else e"
  have "engine_ok ?e" using Cons.prems by (simp add: engine_ok_def index_ok_def marks_ok_def)
  then show ?case using Cons.IH by (simp add: enqueueStatusWrites_def)
qed (simp add: enqueueStatusWrites_def)

lemma batch_ok: "engine_ok e \<Longrightarrow> applyStatusBatch wording now recs e = (e1, reasons) \<Longrightarrow> engine_ok e1"
  using apply_statuses_ok [of e wording now "status_work e recs" "\<lparr>boWrites = [], boReasons = []\<rparr>"]
  by (auto simp: applyStatusBatch_def Let_def split: if_splits prod.splits intro: enqueue_ok)

lemma reason_ok: "engine_ok e \<Longrightarrow> engine_ok (fetchRejectionReason wording ask now tid cell e)"
proof -
  assume ok: "engine_ok e"
  have s: "engine_ok (x\<lparr>eStore := UpdateStatus (eStore e) now tid StatusFailed why\<rparr>)" if "engine_ok x" for x why
    by (rule engine_ok_store [OF that]) (simp add: keys_ok_update ok_keys [OF ok])
  show ?thesis
    using ok by (auto simp: fetchRejectionReason_def Let_def split: sum.split option.split intro!: s set_view_ok)
qed

lemma collected_ok: "length b \<le> length ws \<Longrightarrow> engine_ok e \<Longrightarrow> statusWrites e = ws \<Longrightarrow> engine_ok (e\<lparr>statusWrites := b\<rparr>)"
  by (simp add: engine_ok_def index_ok_def marks_ok_def)

lemma collect_left: "collect_loop us batch = (out, left) \<Longrightarrow> length left \<le> length us"
  by (induction us batch rule: collect_loop.induct) (auto split: if_splits)

lemma writes_ok:
  assumes "engine_ok e"
  shows "engine_ok (writeStatuses avail ok now e)"
proof -
  obtain batch left where c: "collect_loop (take avail (statusWrites e)) [] = (batch, left)" by fastforce
  let ?e = "e\<lparr>statusWrites := left @ drop avail (statusWrites e)\<rparr>"
  have "length left + (length (statusWrites e) - avail) \<le> length (statusWrites e)"
    using collect_left [OF c] by (auto simp: min_def split: if_splits)
  then have e: "engine_ok ?e" by (intro collected_ok [OF _ assms refl]) simp
  moreover have "engine_ok (?e\<lparr>eStore := UpdateStatusBatch (eStore ?e) batch now\<rparr>)"
    by (rule engine_ok_store [OF e]) (simp add: keys_ok_batch ok_keys [OF assms])
  ultimately show ?thesis by (simp add: writeStatuses_def collectStatusWrites_def c)
qed

subsection \<open>Repairs and the lease\<close>

lemma tip_kept_ring [simp]: "in_ring (set_tip c t e) cell = in_ring e cell"
  by (simp add: in_ring_def set_tip_def)

lemma adopt_ok:
  assumes "engine_ok e" and "in_ring e cell"
  shows "engine_ok (adoptRepaired cell p e)"
proof -
  have "engine_ok (set_tip cell (posTip p) e)" using position_ok_kept(2) assms by (simp add: in_ring_def)
  then show ?thesis using assms(2)
    by (simp add: adoptRepaired_def engine_ok_def index_ok_def marks_ok_def Let_def in_ring_def set_tip_def)
qed

lemma haltRepair_ok: "engine_ok e \<Longrightarrow> in_ring e cell \<Longrightarrow> engine_ok (haltRepair cell why e)"
  by (simp add: haltRepair_def engine_ok_def index_ok_def marks_ok_def in_ring_def)

lemma repair_passes_ok:
  "engine_ok e \<Longrightarrow> in_ring e cell \<Longrightarrow> engine_ok (repair_passes K l arcade c now cell left e)"
proof (induction left arbitrary: e)
  case 0
  then show ?case by (simp add: haltRepair_ok)
next
  case (Suc left)
  show ?case
  proof (cases "DeriveTips K l c (eDeployment e) (eStore e)")
    case (Inr ps)
    let ?d = "decideCell K l arcade c (eDeployment e) (eStore e) (ps ! nat cell) repair_opts"
    have next_pass: "engine_ok (repair_passes K l arcade c now cell left (adoptRepaired cell q (e\<lparr>eStore := s'\<rparr>)))"
      if a: "?d = Some r" "applyRecovery now (eStore e) cell (ps ! nat cell) r = Inr (s', q)" for r s' q
    proof (rule Suc.IH)
      have "keys_ok s'"
        by (rule apply_recovery [OF ok_keys [OF Suc.prems(1)] a(1), where cell = cell and now = now]) (use a in auto)
      then have "engine_ok (e\<lparr>eStore := s'\<rparr>)" by (rule engine_ok_store [OF Suc.prems(1)])
      moreover have "in_ring (e\<lparr>eStore := s'\<rparr>) cell" using Suc.prems(2) by (simp add: in_ring_def)
      ultimately show "engine_ok (adoptRepaired cell q (e\<lparr>eStore := s'\<rparr>))" by (rule adopt_ok)
      show "in_ring (adoptRepaired cell q (e\<lparr>eStore := s'\<rparr>)) cell"
        using Suc.prems(2) by (simp add: in_ring_def)
    qed
    show ?thesis
      using Suc.prems Inr
      by (auto simp: haltRepair_ok adopt_ok Let_def intro: next_pass split: option.split sum.split)
  qed (use Suc.prems in \<open>simp add: haltRepair_ok\<close>)
qed

lemma repair_ok:
  assumes "engine_ok e" and "in_ring e cell"
  shows "engine_ok (repairCell K l arcade c now cell e)"
  unfolding repairCell_def
  by (rule repair_passes_ok) (use assms in \<open>simp_all add: engine_ok_def index_ok_def marks_ok_def in_ring_def\<close>)

lemma marks_set_ok: "engine_ok e \<Longrightarrow> engine_ok (e\<lparr>lastMined := (lastMined e)(cell := g), lastSeen := (lastSeen e)(cell := g)\<rparr>)"
  by (simp add: engine_ok_def index_ok_def marks_ok_def)

lemma positions_ok:
  "engine_ok e \<Longrightarrow> 0 \<le> cell \<Longrightarrow> cell + int (length ps) \<le> dCells (eDeployment e) \<Longrightarrow>
   engine_ok (positions_loop cell ps e)"
proof (induction ps arbitrary: cell e)
  case (Cons p ps)
  let ?t = "set_tip cell (posTip p) e"
  let ?h = "if Halted p then ?t\<lparr>halted := insert cell (halted ?t),
      haltReason := (haltReason ?t)(cell \<mapsto> Derived (HaltReason p))\<rparr> else ?t"
  let ?m = "?h\<lparr>lastMined := (lastMined ?h)(cell := Generation (posTip p)),
      lastSeen := (lastSeen ?h)(cell := Generation (posTip p))\<rparr>"
  have "engine_ok ?t" using position_ok_kept(2) Cons.prems by simp
  then have h: "engine_ok ?h"
    using Cons.prems by (simp add: engine_ok_def index_ok_def marks_ok_def set_tip_def)
  then have "engine_ok ?m" by (rule marks_set_ok)
  moreover have "eDeployment ?m = eDeployment e" by (simp add: set_tip_def)
  ultimately have "engine_ok (positions_loop (cell + 1) ps ?m)" using Cons.IH [of ?m "cell + 1"] Cons.prems by simp
  then show ?case by (simp only: positions_loop.simps Let_def)
qed simp

lemma apply_positions_ok:
  assumes "engine_ok e" and "int (length ps) = dCells (eDeployment e)"
  shows "engine_ok (applyPositions ps e)"
proof -
  have "engine_ok (e\<lparr>halted := {}, haltReason := (\<lambda>_. None)\<rparr>)"
    using assms(1) by (simp add: engine_ok_def halts_ok_def index_ok_def marks_ok_def)
  then have "engine_ok (positions_loop 0 ps (e\<lparr>halted := {}, haltReason := (\<lambda>_. None)\<rparr>))"
    by (rule positions_ok) (use assms in simp_all)
  then show ?thesis
    by (simp add: applyPositions_def Let_def engine_ok_def index_ok_def marks_ok_def)
qed

lemma derived_length:
  assumes "DeriveTips K l c d s = Inr ps"
  shows "0 < dCells d \<and> length ps = nat (dCells d)"
proof -
  have "0 < dCells d"
    using assms by (auto simp: DeriveTips_def CellTips_def split: sum.splits if_splits)
  then show ?thesis using DeriveTips_cell [OF assms, of 0] by auto
qed

lemma recover_kept:
  assumes "recoverUnknown K l arcade c now ps e = (out, e1)" and "engine_ok e"
  shows "engine_ok e1 \<and> length out = length ps \<and> eDeployment e1 = eDeployment e"
proof -
  have "keys_ok s' \<and> length out' = length ps"
    if "Recover K l arcade c (eDeployment e) now (eStore e) ps o1 = Inr (s', out', ds)" for o1 s' out' ds
    using recover_loop_ok [OF ok_keys [OF assms(2)] that [unfolded Recover_def]] by simp
  then show ?thesis
    using assms by (auto simp: recoverUnknown_def split: if_splits sum.splits prod.splits intro!: engine_ok_store)
qed

lemma rederive_ok:
  assumes "engine_ok e"
  shows "engine_ok (rederiveIfNeeded K l arcade c stopping now e)"
proof -
  have n: "engine_ok (x\<lparr>lastError := what\<rparr>)" "engine_ok (x\<lparr>needsRederive := b\<rparr>)" if "engine_ok x" for x what b
    using that by (simp_all add: engine_ok_def index_ok_def marks_ok_def)
  have p: "engine_ok (applyPositions out e1)"
    if "DeriveTips K l c (eDeployment e) (eStore e) = Inr ps"
      "(if b then recoverUnknown K l arcade c now ps e else (ps, e)) = (out, e1)" for ps out e1 b
  proof (rule apply_positions_ok)
    have k: "engine_ok e1 \<and> length out = length ps \<and> eDeployment e1 = eDeployment e"
      using recover_kept [of K l arcade c now ps e out e1] that(2) assms by (cases b) auto
    then show "engine_ok e1" by simp
    show "int (length out) = dCells (eDeployment e1)" using k derived_length [OF that(1)] by simp
  qed
  show ?thesis
    using assms unfolding rederiveIfNeeded_def Let_def
    by (auto simp only: n split: if_split sum.split prod.split intro!: n p)
qed

lemma lease_ok:
  assumes "engine_ok e"
  shows "engine_ok (holdLease K l arcade c owner ok stopping now e)" "engine_ok (releaseLease owner e)"
proof -
  have l: "engine_ok (setLeader held x)" if "engine_ok x" for held x
    using that by (simp add: setLeader_def engine_ok_def index_ok_def marks_ok_def)
  note s = l [OF engine_ok_store [OF assms]]
  have "keys_ok (fst (AcquireLease (eStore e) LeaseName owner LeaseTTL now))"
    by (rule keys_ok_acquire) (rule ok_keys [OF assms])
  then show "engine_ok (holdLease K l arcade c owner ok stopping now e)"
    using s [of "eStore e"] ok_keys [OF assms]
    by (auto simp: holdLease_def Let_def split: prod.split intro!: s rederive_ok)
  have "keys_ok (ReleaseLease (eStore e) LeaseName owner)"
    using keys_ok_step [OF ok_keys [OF assms], of "OpReleaseLease LeaseName owner"] by simp
  then show "engine_ok (releaseLease owner e)" using assms by (simp add: releaseLease_def engine_ok_store)
qed

lemma step_ok:
  assumes "engine_step (e, w) (e1, w1)" and "engine_ok e"
  shows "engine_ok e1"
  using assms(1)
proof (cases rule: engine_step.cases)
  case (Verdicts wording now recs reasons)
  then show ?thesis using batch_ok assms(2) by blast
qed (use assms(2) in \<open>auto intro: turn_ok repair_ok begin_ok end_ok reason_ok writes_ok lease_ok
      engine_ok_store keys_ok_step ok_keys\<close>)

subsection \<open>Starting\<close>

lemma load_cell_length: "length (fold (load_cell n) ts vs) = length vs"
  by (induction ts arbitrary: vs) (simp_all add: load_cell_def)

lemma loaded_window:
  assumes "keys_ok s" and "0 \<le> n"
  shows "window_ok n (loadHistory s n frontier)"
proof -
  have sorted: "sorted_wrt (\<lambda>a b. fst a < fst b) (take k (sort_key fst (filter P (generations s))))" for k P
  proof -
    let ?l = "take k (sort_key fst (filter P (generations s)))"
    have "distinct (map fst (filter P (generations s)))"
      using assms(1) by (simp add: keys_ok_def distinct_map_filter)
    then have "distinct (map fst (sort_key fst (filter P (generations s))))"
      by (simp add: distinct_map)
    then have "distinct (map fst ?l)" by (simp add: take_map [symmetric])
    moreover have "sorted (map fst ?l)" by (simp add: take_map [symmetric] sorted_wrt_take)
    ultimately have "sorted_wrt (<) (map fst ?l)" by (simp add: strict_sorted_iff)
    then show ?thesis by (simp add: sorted_wrt_map)
  qed
  have "sorted_wrt (\<lambda>a b. genNumber a < genNumber b) (Load s lo k) \<and> length (Load s lo k) \<le> k" for lo k
    unfolding Load_def Let_def using sorted [of k] by (simp add: sorted_wrt_map case_prod_beta)
  then have "window_sorted (loadHistory s n frontier) \<and> length (loadHistory s n frontier) \<le> maxHistory + 1"
    by (simp add: window_sorted_def loadHistory_def Let_def sorted_wrt_map)
  moreover have "int (length (ViewCells g)) = n" if "g \<in> set (loadHistory s n frontier)" for g
    using that assms(2) by (auto simp: loadHistory_def Let_def load_cell_length pending_cells_def)
  ultimately show ?thesis by (simp add: window_ok_def)
qed

definition in_ring_rows :: "store \<Rightarrow> bool" where
  "in_ring_rows s = (\<forall>g c. c < 0 \<longrightarrow> CellAt s g c = None)"

lemma seeded_ok:
  assumes "keys_ok s" and "in_ring_rows s"
  shows "keys_ok (seedGenesisRecord now s d seed) \<and> in_ring_rows (seedGenesisRecord now s d seed)"
proof -
  have "keys_ok (fold (\<lambda>cell s. RecordTx s now (genesis_cell_tx d cell)) cs s0)
      \<and> in_ring_rows (fold (\<lambda>cell s. RecordTx s now (genesis_cell_tx d cell)) cs s0)"
    if "keys_ok s0" "in_ring_rows s0" "\<forall>c \<in> set cs. 0 \<le> c" for cs s0
    using that
    by (induction cs arbitrary: s0) (auto simp: keys_ok_record in_ring_rows_def CellAt_record genesis_cell_tx_def)
  moreover have "keys_ok (RecordGeneration s 0 h)" "in_ring_rows (RecordGeneration s 0 h)" for h
    using assms by (simp_all add: keys_ok_generation in_ring_rows_def CellAt_generation)
  ultimately show ?thesis using assms by (simp add: seedGenesisRecord_def)
qed

lemma unsettled_in_ring:
  assumes "in_ring_rows s" and "t \<in> set (Unsettled s)"
  shows "0 \<le> txCell t"
proof -
  obtain r where r: "r \<in> set (cell_txs s)" "t = row_tx r"
    using assms(2) by (auto simp: Unsettled_def order_by_gen_cell_def)
  then have "CellAt s (rowGen r) (rowCell r) \<noteq> None" by (auto simp: CellAt_def find_None_iff)
  then have "\<not> rowCell r < 0" using assms(1) by (auto simp: in_ring_rows_def)
  then show ?thesis using r(2) by (simp add: row_tx_def)
qed

lemma positions_deployment [simp]: "eDeployment (positions_loop cell ps e) = eDeployment e"
  by (induction ps arbitrary: cell e) (simp_all add: Let_def set_tip_def)

lemma applied_deployment [simp]: "eDeployment (applyPositions ps e) = eDeployment e"
  by (simp add: applyPositions_def Let_def)

lemma start_ok:
  assumes "New K l arcade c d s opts cfg now = Inr e" and "keys_ok s" and "in_ring_rows s"
  shows "engine_ok e"
proof -
  obtain seed ps where n: "Seed d = Inr seed" "DeriveTips K l c d (seedGenesisRecord now s d seed) = Inr ps"
    using assms(1) by (auto simp: New_def Let_def split: sum.splits)
  define s1 where "s1 = seedGenesisRecord now s d seed"
  note s1 = seeded_ok [OF assms(2,3), of now d seed, folded s1_def]
  note len = derived_length [OF n(2)]
  define e1 where "e1 = applyPositions ps (new_engine d opts cfg s1)"
  have "engine_ok (new_engine d opts cfg s1)"
    using s1 len
    by (simp add: engine_ok_def new_engine_def window_ok_def window_sorted_def halts_ok_def index_ok_def marks_ok_def
        startRate_def clampRate_def min_def max_def)
  then have e1: "engine_ok e1"
    unfolding e1_def by (rule apply_positions_ok) (use len in \<open>simp add: new_engine_def\<close>)
  have d1: "eDeployment e1 = d" by (simp add: e1_def new_engine_def)
  let ?e = "e1\<lparr>eHistory := loadHistory s1 (dCells d) (eGeneration e1)\<rparr>"
  have "window_ok (dCells d) (loadHistory s1 (dCells d) (eGeneration e1))"
    by (rule loaded_window) (use s1 len in simp_all)
  then have e2: "engine_ok ?e" using e1 d1 by (simp add: engine_ok_def index_ok_def marks_ok_def)
  have "engine_ok (fold (\<lambda>t e. if txTxID t \<noteq> '''' then indexTx (txTxID t) (txGen t) (txCell t) e else e) ts x)"
    if "engine_ok x" "\<forall>t \<in> set ts. 0 \<le> txCell t" for ts x
    using that by (induction ts arbitrary: x) (simp_all add: position_ok_kept(1))
  then have "engine_ok (fold (\<lambda>t e. if txTxID t \<noteq> '''' then indexTx (txTxID t) (txGen t) (txCell t) e else e)
      (Unsettled s1) ?e)"
    using e2 unsettled_in_ring [of s1] s1 by blast
  moreover have "e = fold (\<lambda>t e. if txTxID t \<noteq> '''' then indexTx (txTxID t) (txGen t) (txCell t) e else e)
      (Unsettled s1) ?e"
    using assms(1) unfolding New_def n(1) sum.case Let_def s1_def [symmetric] n(2) [folded s1_def] e1_def
    by (simp split: if_splits)
  ultimately show ?thesis by simp
qed

lemma run_ok: "engine_run e0 x \<Longrightarrow> engine_ok e0 \<Longrightarrow> engine_ok (fst x)"
proof (induction rule: engine_run.induct)
  case (Runs x y)
  obtain e w e1 w1 where "x = (e, w)" "y = (e1, w1)" by fastforce
  then show ?case using Runs step_ok by auto
qed simp

text \<open>Claim C17: every reachable state of the engine is well formed.  From a start that succeeded, through
  any interleaving of the clock, the workers of every cell with whatever the wallet answers them, the
  verdicts, the late reasons, the status writer, the lease, the repairs, the controls and anything
  other instances write to the shared record: the record keeps its three keys; there is one tip per
  cell; the window is in strictly ascending order, holds at most 1025 generations and shows one
  entry per cell in each; exactly the halted cells have a reason and they are cells of the ring; the
  mined mark of a cell never passes its seen mark; the rate stays between 0.05 and 20; and the status
  queue never exceeds its capacity.\<close>

theorem engine_invariant:
  assumes "New K l arcade c d (run_store pg ops) opts cfg now = Inr e0" and "engine_run e0 (e, w)"
    and "\<forall>g cell. cell < 0 \<longrightarrow> CellAt (run_store pg ops) g cell = None"
  shows "engine_ok e"
proof -
  have "engine_ok e0"
    by (rule start_ok [OF assms(1) keys_ok_run]) (use assms(3) in \<open>simp add: in_ring_rows_def\<close>)
  then show ?thesis using run_ok [OF assms(2)] by simp
qed

definition fresh_start :: "start_error + engine" where
  "fresh_start = New demo_codec (demo_ledger []) None demo_compiled demo_deployment (run_store False [])
     \<lparr>AutoRecover = False, LockControls = False, optRate = 0, Start = True\<rparr>
     \<lparr>MaxLag = 4, MaxUnconfirmedDepth = 0, MaxUnseenDepth = 1\<rparr> 0"

lemma fresh_derived:
  "case Seed demo_deployment of Inl e \<Rightarrow> False
   | Inr seed \<Rightarrow> (case DeriveTips demo_codec (demo_ledger []) demo_compiled demo_deployment
        (seedGenesisRecord 0 (run_store False []) demo_deployment seed) of Inl e \<Rightarrow> False | Inr ps \<Rightarrow> True)"
  by code_simp

lemma fresh_starts: "\<exists>e. fresh_start = Inr e"
proof -
  have "CheckMigrationFloor s a ps (legacyTips demo_deployment) = []" for s a ps
    by (simp add: CheckMigrationFloor_def demo_deployment_def Let_def)
  then show ?thesis
    using fresh_derived by (auto simp: fresh_start_def New_def Let_def split: sum.splits)
qed

theorem engine_invariant_witness:
  "\<exists>e. fresh_start = Inr e \<and> engine_ok (clock_tick e)"
proof -
  obtain e where e: "fresh_start = Inr e" using fresh_starts by blast
  have "engine_run e (clock_tick e, \<lambda>_. Asking)" by (rule Runs [OF Starts Ticks])
  moreover have "\<forall>g cell. cell < 0 \<longrightarrow> CellAt (run_store False []) g cell = None"
    by (simp add: CellAt_def run_store_def empty_store_def)
  ultimately have "engine_ok (clock_tick e)"
    using engine_invariant [OF e [unfolded fresh_start_def]] by blast
  then show ?thesis using e by blast
qed

end
