(* ===== verification/Progress.thy ===== *)
theory Progress
  imports Worker
begin

text \<open>
  What the engine is for: the loop body of \<open>runCell\<close>, one round of the ring, and the theorem that a
  level ring moves on.
\<close>

subsection \<open>One turn of one worker\<close>

text \<open>The body of the loop of \<open>runCell\<close>, with nothing else happening meanwhile.\<close>

definition runCell_pass :: "tx_codec \<Rightarrow> ledger \<Rightarrow> tx_status option \<Rightarrow> compiled \<Rightarrow> (nat \<Rightarrow> bool) \<Rightarrow> outcome_env \<Rightarrow> int
    \<Rightarrow> (cell_chain \<Rightarrow> step_error + step_result) \<Rightarrow> int \<Rightarrow> engine \<Rightarrow> engine" where
  "runCell_pass K l arcade c db env now advance cell e =
     (case awaitTurn now cell e of
        (e, TurnGo) \<Rightarrow> advanceCell db env now advance cell e
      | (e, TurnRepair pause) \<Rightarrow> repairCell K l arcade c (now + pause) cell e
      | (e, TurnHalted) \<Rightarrow> e
      | (e, TurnWait) \<Rightarrow> e)"

definition accepts :: "(nat \<Rightarrow> bool) \<Rightarrow> bool" where
  "accepts db = (db 1 \<or> db 2 \<or> db 3)"

lemma persist_accepted: "accepts db \<Longrightarrow> persist db now t e = (e\<lparr>eStore := RecordTx (eStore e) now t\<rparr>, True)"
  by (auto simp: accepts_def persist_def persistRetries_def numeral_3_eq_3 numeral_2_eq_2)

text \<open>A cell that may go: it is led, derived, unhalted, below the target and behind neither gate.\<close>

definition may_go :: "engine \<Rightarrow> int \<Rightarrow> bool" where
  "may_go e cell = (leader e \<and> \<not> needsRederive e \<and> eMode e \<noteq> ModeStarved \<and> cell \<notin> halted e \<and> cell \<notin> needsRepair e
     \<and> (let t = Generation (eTips e ! nat cell) in t < eTarget e
        \<and> (MaxUnconfirmedDepth (eConfig e) = 0 \<or> t - lastMined e cell < MaxUnconfirmedDepth (eConfig e))
        \<and> (MaxUnseenDepth (eConfig e) = 0 \<or> t \<le> lastSeen e cell \<or> t - lastSeen e cell < MaxUnseenDepth (eConfig e))))"

lemma goes: "may_go e cell \<Longrightarrow> awaitTurn now cell e = (e, TurnGo)"
  by (auto simp: may_go_def awaitTurn_def turnReady_def Let_def)

text \<open>What a transition that goes through leaves behind.\<close>

definition advanced :: "int \<Rightarrow> step_result \<Rightarrow> engine \<Rightarrow> engine \<Rightarrow> bool" where
  "advanced cell res e e' \<longleftrightarrow>
     eTips e' = (eTips e)[nat cell := next_tip cell (eTips e ! nat cell) res]
   \<and> leader e' = leader e \<and> needsRederive e' = needsRederive e \<and> (eMode e \<noteq> ModeStarved \<longrightarrow> eMode e' = eMode e)
   \<and> halted e' = halted e \<and> needsRepair e' = needsRepair e \<and> eTarget e' = eTarget e \<and> eConfig e' = eConfig e
   \<and> lastMined e' = lastMined e \<and> lastSeen e' = lastSeen e \<and> totalTx e' = totalTx e + 1
   \<and> (\<forall>g c. CellAt (eStore e') g c = (if g = srGeneration res \<and> c = cell
        then Some (srTxID res, StatusBroadcast, '''') else CellAt (eStore e) g c))"

lemma ensure_position:
  "leader (ensureGeneration ok n h e) = leader e" "needsRederive (ensureGeneration ok n h e) = needsRederive e"
  "eMode (ensureGeneration ok n h e) = eMode e" "needsRepair (ensureGeneration ok n h e) = needsRepair e"
  "eTarget (ensureGeneration ok n h e) = eTarget e" "totalTx (ensureGeneration ok n h e) = totalTx e"
  by (simp_all add: ensureGeneration_def Let_def)

lemma resumed_position:
  "leader (clearStarvation e) = leader e" "needsRederive (clearStarvation e) = needsRederive e"
  "eMode e \<noteq> ModeStarved \<Longrightarrow> eMode (clearStarvation e) = eMode e" "needsRepair (clearStarvation e) = needsRepair e"
  "eTarget (clearStarvation e) = eTarget e" "totalTx (clearStarvation e) = totalTx e"
  by (simp_all add: clearStarvation_def Let_def)

lemma cleared_position:
  "leader (clearRetriesLocked c g e) = leader e" "needsRederive (clearRetriesLocked c g e) = needsRederive e"
  "eMode (clearRetriesLocked c g e) = eMode e" "needsRepair (clearRetriesLocked c g e) = needsRepair e"
  "eTarget (clearRetriesLocked c g e) = eTarget e" "totalTx (clearRetriesLocked c g e) = totalTx e"
  by (simp_all add: clearRetriesLocked_def split: option.split)

lemma viewed_position: "needsRepair (set_view e i c v) = needsRepair e" "totalTx (set_view e i c v) = totalTx e"
  by (simp_all add: set_view_def)

lemmas position_kept = ensure_position resumed_position cleared_position viewed_position

lemma record_advances:
  assumes "accepts db"
  shows "advanced cell res e (recordCell db now (srGeneration res) cell res e)"
proof -
  have d: "recordCell db now (srGeneration res) cell res e = (let
      i = indexOfGeneration (eHistory e) (srGeneration res);
      x = (if i \<ge> 0 then set_view e i cell \<lparr>cvCell = cell, cvTxID = srTxID res, cvState = TxBroadcast, cvErr = ''''\<rparr> else e);
      y = set_tip cell (next_tip cell (eTips x ! nat cell) res) (indexTx (srTxID res) (srGeneration res) cell x);
      z = clearRetriesLocked cell (srGeneration res) (y\<lparr>eGeneration := frontierLocked y, totalTx := totalTx y + 1\<rparr>) in
      z\<lparr>eStore := RecordTx (eStore z) now \<lparr>txGen = srGeneration res, txCell = cell, txTxID = srTxID res,
          txStatus = StatusBroadcast, txErr = ''''\<rparr>\<rparr>)"
    unfolding recordCell_def persist_accepted [OF assms] by (simp add: Let_def indexTx_def)
  show ?thesis
    unfolding d Let_def
    by (cases "indexOfGeneration (eHistory e) (srGeneration res) \<ge> 0")
       (auto simp: advanced_def position_kept set_tip_def indexTx_def CellAt_record)
qed

lemma advanced_store:
  assumes "advanced cell res e e'" and "eTips e = eTips e0" "leader e = leader e0" "needsRederive e = needsRederive e0"
    "eMode e0 \<noteq> ModeStarved \<longrightarrow> eMode e = eMode e0" "halted e = halted e0" "needsRepair e = needsRepair e0"
    "eTarget e = eTarget e0" "eConfig e = eConfig e0" "lastMined e = lastMined e0" "lastSeen e = lastSeen e0"
    "totalTx e = totalTx e0" "\<forall>g c. g = srGeneration res \<and> c = cell \<or> CellAt (eStore e) g c = CellAt (eStore e0) g c"
  shows "advanced cell res e0 e'"
  using assms unfolding advanced_def by auto

lemma pass_advances:
  assumes go: "may_go e cell" and "accepts db" "accepts (oeDb env)"
    and out: "advance (eTips e ! nat cell) = Inr res" "srGeneration res = Generation (eTips e ! nat cell) + 1"
  shows "advanced cell res e (runCell_pass K l arcade c db env now advance cell e)"
proof -
  let ?tip = "eTips e ! nat cell"
  let ?e1 = "e\<lparr>eStore := RecordTx (eStore e) now \<lparr>txGen = Generation ?tip + 1, txCell = cell, txTxID = '''',
       txStatus = StatusAttempting, txErr = ''''\<rparr>\<rparr>"
  let ?e2 = "ensureGeneration (oeGeneration env) (srGeneration res) (srRowHex res) (clearStarvation (doneWaiting cell ?e1))"
  have run: "runCell_pass K l arcade c db env now advance cell e
      = recordCell (oeDb env) now (srGeneration res) cell res ?e2"
    using out by (simp add: runCell_pass_def goes [OF go] advanceCell_def beginAdvance_def persist_accepted [OF assms(2)]
        endAdvance_def Let_def)
  show ?thesis
    unfolding run
    by (rule advanced_store [OF record_advances [OF assms(3)]])
       (simp_all add: position_kept doneWaiting_def CellAt_record out(2))
qed

subsection \<open>One round of the ring\<close>

definition runCell_round :: "tx_codec \<Rightarrow> ledger \<Rightarrow> tx_status option \<Rightarrow> compiled \<Rightarrow> (nat \<Rightarrow> bool) \<Rightarrow> outcome_env \<Rightarrow> int
    \<Rightarrow> (cell_chain \<Rightarrow> step_error + step_result) \<Rightarrow> int list \<Rightarrow> engine \<Rightarrow> engine" where
  "runCell_round K l arcade c db env now advance order e =
     fold (runCell_pass K l arcade c db env now advance) order e"

text \<open>Every cell of the ring at the same generation, running, and behind neither gate.\<close>

definition level :: "u64 \<Rightarrow> engine \<Rightarrow> bool" where
  "level g e = (leader e \<and> \<not> needsRederive e \<and> eMode e = ModeRunning \<and> halted e = {} \<and> needsRepair e = {}
     \<and> eTips e \<noteq> [] \<and> (\<forall>t \<in> set (eTips e). Generation t = g)
     \<and> (\<forall>cell. 0 \<le> cell \<and> cell < int (length (eTips e)) \<longrightarrow>
          (MaxUnconfirmedDepth (eConfig e) = 0 \<or> g - lastMined e cell < MaxUnconfirmedDepth (eConfig e))
        \<and> (MaxUnseenDepth (eConfig e) = 0 \<or> g \<le> lastSeen e cell \<or> g - lastSeen e cell < MaxUnseenDepth (eConfig e))))"

text \<open>The state after the cells of \<open>D\<close> have had their turn.\<close>

definition part_done :: "engine \<Rightarrow> (int \<Rightarrow> step_result) \<Rightarrow> u64 \<Rightarrow> int set \<Rightarrow> engine \<Rightarrow> bool" where
  "part_done e0 results g D e \<longleftrightarrow>
     leader e \<and> \<not> needsRederive e \<and> eMode e = ModeRunning \<and> halted e = {} \<and> needsRepair e = {}
   \<and> eTarget e = eTarget e0 \<and> eConfig e = eConfig e0 \<and> lastMined e = lastMined e0 \<and> lastSeen e = lastSeen e0
   \<and> length (eTips e) = length (eTips e0) \<and> totalTx e = totalTx e0 + int (card D)
   \<and> (\<forall>cell. 0 \<le> cell \<and> cell < int (length (eTips e0)) \<longrightarrow> eTips e ! nat cell =
        (if cell \<in> D then next_tip cell (eTips e0 ! nat cell) (results cell) else eTips e0 ! nat cell))
   \<and> (\<forall>cell \<in> D. CellAt (eStore e) (g + 1) cell = Some (srTxID (results cell), StatusBroadcast, ''''))"

lemma part_done_step:
  assumes p: "part_done e0 results g D e" and a: "advanced cell (results cell) e e'"
    and c: "0 \<le> cell" "cell < int (length (eTips e0))" "cell \<notin> D" "finite D" "srGeneration (results cell) = g + 1"
  shows "part_done e0 results g (insert cell D) e'"
proof -
  have tip: "eTips e ! nat cell = eTips e0 ! nat cell" using p c by (simp add: part_done_def)
  have "eTips e' ! nat x = (if x \<in> insert cell D then next_tip x (eTips e0 ! nat x) (results x) else eTips e0 ! nat x)"
    if "0 \<le> x" "x < int (length (eTips e0))" for x
  proof (cases "x = cell")
    case True
    then show ?thesis using a p c tip by (simp add: advanced_def part_done_def)
  next
    case False
    then have "nat x \<noteq> nat cell" using that c by (simp add: nat_eq_iff)
    then show ?thesis using a p that False by (simp add: advanced_def part_done_def)
  qed
  then show ?thesis
    using a p c by (simp add: advanced_def part_done_def)
qed

lemma round_done:
  assumes g: "\<forall>t \<in> set (eTips e0). Generation t = g" and up: "g < eTarget e0"
    and acc: "accepts db" "accepts (oeDb env)"
    and gates: "\<forall>cell. 0 \<le> cell \<and> cell < int (length (eTips e0)) \<longrightarrow>
          (MaxUnconfirmedDepth (eConfig e0) = 0 \<or> g - lastMined e0 cell < MaxUnconfirmedDepth (eConfig e0))
        \<and> (MaxUnseenDepth (eConfig e0) = 0 \<or> g \<le> lastSeen e0 cell \<or> g - lastSeen e0 cell < MaxUnseenDepth (eConfig e0))"
    and res: "\<And>cell. 0 \<le> cell \<Longrightarrow> cell < int (length (eTips e0)) \<Longrightarrow>
        advance (eTips e0 ! nat cell) = Inr (results cell) \<and> srGeneration (results cell) = g + 1"
  shows "part_done e0 results g D e \<Longrightarrow> distinct order \<Longrightarrow> finite D \<Longrightarrow> set order \<inter> D = {} \<Longrightarrow>
    set order \<subseteq> {0..<int (length (eTips e0))} \<Longrightarrow>
    part_done e0 results g (set order \<union> D) (runCell_round K l arcade c db env now advance order e)"
proof (induction order arbitrary: e D)
  case Nil
  then show ?case by (simp add: runCell_round_def)
next
  case (Cons cell order)
  have r: "0 \<le> cell" "cell < int (length (eTips e0))" "cell \<notin> D" using Cons.prems(4,5) by auto
  note p = Cons.prems(1)
  have tip: "eTips e ! nat cell = eTips e0 ! nat cell" using p r by (simp add: part_done_def)
  have gen: "Generation (eTips e0 ! nat cell) = g" using g r by simp
  have "may_go e cell" using p gates r up by (simp add: may_go_def part_done_def tip gen Let_def)
  then have "advanced cell (results cell) e (runCell_pass K l arcade c db env now advance cell e)"
    by (rule pass_advances [OF _ acc]) (use res [OF r(1,2)] tip gen in simp_all)
  from part_done_step [OF p this r Cons.prems(3)] res [OF r(1,2)]
  have "part_done e0 results g (insert cell D) (runCell_pass K l arcade c db env now advance cell e)" by simp
  then have "part_done e0 results g (set order \<union> insert cell D)
      (runCell_round K l arcade c db env now advance order (runCell_pass K l arcade c db env now advance cell e))"
    by (rule Cons.IH) (use Cons.prems(2-5) in auto)
  then show ?case by (simp add: runCell_round_def)
qed

lemma frontier_all:
  "ts \<noteq> [] \<or> acc = Some g \<Longrightarrow> acc \<in> {None, Some g} \<Longrightarrow> \<forall>t \<in> set ts. Generation t = g \<Longrightarrow>
   frontier_loop {} i ts acc = Some g"
proof (induction ts arbitrary: i acc)
  case (Cons t ts)
  then have "(case acc of None \<Rightarrow> Some (Generation t) | Some f \<Rightarrow> if Generation t < f then Some (Generation t) else Some f) = Some g"
    by auto
  then show ?case using Cons.IH [of "Some g"] Cons.prems by simp
qed auto

lemma level_frontier: "halted e = {} \<Longrightarrow> eTips e \<noteq> [] \<Longrightarrow> \<forall>t \<in> set (eTips e). Generation t = g \<Longrightarrow> frontierLocked e = g"
  using frontier_all [of "eTips e" None g 0] by (simp add: frontierLocked_def)

lemma tick_asks:
  assumes "level g e" and "0 < MaxLag (eConfig e)" and "g + 1 \<noteq> 0" and "eTarget e + 1 \<noteq> 0"
  shows "g < eTarget (clock_tick e)"
proof -
  have f: "frontierLocked x = g" if "halted x = halted e" "eTips x = eTips e" for x
    using level_frontier [of x g] assms(1) that by (simp add: level_def)
  have m: "eMode e = ModeRunning" using assms(1) by (simp add: level_def)
  consider "eTarget e < g" | "eTarget e = g" | "g < eTarget e" by (rule linorder_cases)
  then show ?thesis
    by cases (use m f word_next_greater [OF assms(3)] word_next_greater [OF assms(4)] assms(2) in
        \<open>auto simp: clock_tick_def Let_def intro: less_trans\<close>)
qed

text \<open>Claim C18: a level ring moves.  When every cell stands at the same generation, led and derived, none
  halted or refused and behind neither gate, one tick of the clock and one turn of each worker, in
  whatever order, with a wallet that delivers and a database that accepts within its tries, bring
  every cell one generation forward: the frontier is the next generation, each cell stands on its
  new transaction, and each is recorded as broadcast.\<close>

theorem level_ring_moves:
  assumes "level g e" and "0 < MaxLag (eConfig e)" and "g + 1 \<noteq> 0" and "eTarget e + 1 \<noteq> 0"
    and "distinct order" and "set order = {0..<int (length (eTips e))}"
    and "accepts db" and "accepts (oeDb env)"
    and "\<And>cell. cell \<in> set order \<Longrightarrow>
      advance (eTips e ! nat cell) = Inr (results cell) \<and> srGeneration (results cell) = g + 1"
  shows "let e' = runCell_round K l arcade c db env now advance order (clock_tick e) in
      frontierLocked e' = g + 1 \<and> halted e' = {} \<and> totalTx e' = totalTx e + int (length order)
    \<and> (\<forall>cell \<in> set order. eTips e' ! nat cell = next_tip cell (eTips e ! nat cell) (results cell)
        \<and> CellAt (eStore e') (g + 1) cell = Some (srTxID (results cell), StatusBroadcast, ''''))"
proof -
  let ?t = "clock_tick e" and ?e' = "runCell_round K l arcade c db env now advance order (clock_tick e)"
  have t: "leader ?t = leader e" "needsRederive ?t = needsRederive e" "eMode ?t = eMode e" "halted ?t = halted e"
    "needsRepair ?t = needsRepair e" "eConfig ?t = eConfig e" "lastMined ?t = lastMined e" "lastSeen ?t = lastSeen e"
    "eTips ?t = eTips e" "totalTx ?t = totalTx e" "eStore ?t = eStore e"
    by (simp_all add: clock_tick_def Let_def)
  have lev: "part_done ?t results g {} ?t" using assms(1) by (simp add: part_done_def level_def t)
  have d: "part_done ?t results g (set order \<union> {}) ?e'"
    by (rule round_done [OF _ tick_asks [OF assms(1-4)] assms(7,8) _ _ lev assms(5)])
       (use assms(1,6,9) in \<open>auto simp: level_def t\<close>)
  have at: "eTips ?e' ! nat cell = next_tip cell (eTips e ! nat cell) (results cell)" if "cell \<in> set order" for cell
    using d that assms(6) by (auto simp: part_done_def t)
  have len: "length (eTips ?e') = length (eTips e)" using d by (simp add: part_done_def t)
  have "Generation x = g + 1" if "x \<in> set (eTips ?e')" for x
  proof -
    obtain i where i: "i < length (eTips e)" "x = eTips ?e' ! i" using \<open>x \<in> _\<close> len by (metis in_set_conv_nth)
    then have "int i \<in> set order" using assms(6) by simp
    then show ?thesis using at [of "int i"] assms(9) [of "int i"] i by (simp add: next_tip_def)
  qed
  moreover have "eTips ?e' \<noteq> []" using len assms(1) by (auto simp: level_def)
  ultimately have "frontierLocked ?e' = g + 1" using d level_frontier by (simp add: part_done_def)
  then show ?thesis
    using d at distinct_card [OF assms(5)] by (simp add: part_done_def t Let_def)
qed

definition level_engine :: engine where
  "level_engine = demo_engine\<lparr>leader := True, needsRederive := False, eTips := map demo_tip [0..7],
     eStore := run_store False []\<rparr>"

definition delivered :: "int \<Rightarrow> step_result" where
  "delivered cell = \<lparr>srGeneration = 1, srTxID = ''dd'', srRowHex = ''07'', srRawTxHex = ''''\<rparr>"

theorem level_ring_moves_witness:
  "let e' = runCell_round demo_codec (demo_ledger []) None demo_compiled (\<lambda>k. k = 2)
       \<lparr>oeDelete = True, oeDb = (\<lambda>k. k = 3), oeGeneration = True, oeStopping = False\<rparr> 9
       (\<lambda>t. Inr (delivered (Cell t))) [7, 0, 1, 6, 5, 4, 3, 2] (clock_tick level_engine) in
     frontierLocked e' = 1 \<and> totalTx e' = 8 \<and> CellAt (eStore e') 1 6 = Some (''dd'', StatusBroadcast, '''')"
proof -
  let ?cells = "[7, 0, 1, 6, 5, 4, 3, 2] :: int list"
  have e: "eTarget level_engine = 0" "totalTx level_engine = 0" "length (eTips level_engine) = 8"
    "MaxLag (eConfig level_engine) = 4"
    by (simp_all add: level_engine_def demo_engine_def new_engine_def)
  have "\<forall>i \<in> set [0..7]. Generation (demo_tip i) = 0" by code_simp
  then have l: "level 0 level_engine"
    by (simp add: level_def level_engine_def demo_engine_def new_engine_def startMode_def)
  have s: "set ?cells = {0..<int (length (eTips level_engine))}" unfolding e(3) by code_simp
  show ?thesis
    using level_ring_moves [OF l, of ?cells "\<lambda>k. k = 2" "\<lparr>oeDelete = True, oeDb = (\<lambda>k. k = 3), oeGeneration = True, oeStopping = False\<rparr>"
        "\<lambda>t. Inr (delivered (Cell t))" delivered demo_codec "demo_ledger []" None demo_compiled 9] s
    by (simp add: e accepts_def delivered_def Let_def)
qed

end
