(* ===== verification/Costs.thy ===== *)
theory Costs
  imports ChainTips Engine Complex_Main
begin

text \<open>
  What things cost: \<open>internal/chain/config.go\<close> (validation, the fuel pool, fees), \<open>cost.go\<close> and
  \<open>fuel.go\<close>.  Fees are computed in Go in double precision; the IEEE operations the code uses are
  written out on exact fractions.  \<open>uint64\<close> sums wrap as the code's do.
\<close>

subsection \<open>Double precision\<close>

text \<open>A non-negative double is a fraction of naturals with a power of two below.  \<open>float_of p q\<close> is the
  double nearest to \<open>p / q\<close>, ties to even.  The values of the program stay far inside the exponent
  range, so neither overflow nor denormal numbers occur.\<close>

fun bit_len :: "nat \<Rightarrow> nat" where
  "bit_len n = (if n = 0 then 0 else Suc (bit_len (n div 2)))"

declare bit_len.simps [simp del]

lemma bit_len_numeral:
  "bit_len 0 = 0" "bit_len (Suc 0) = 1" "bit_len (numeral k) = Suc (bit_len (numeral k div 2))"
  by (simp_all add: bit_len.simps [of "Suc 0"] bit_len.simps [of 0] bit_len.simps [of "numeral k"])

definition round_div :: "nat \<Rightarrow> nat \<Rightarrow> nat" where
  "round_div a b =
     (let q = a div b; r = a mod b in
      if 2 * r < b then q else if 2 * r > b then q + 1 else if even q then q else q + 1)"

definition scaled :: "nat \<Rightarrow> nat \<Rightarrow> int \<Rightarrow> nat \<times> nat" where
  "scaled p q e = (if e \<ge> 0 then (p, q * 2 ^ nat e) else (p * 2 ^ nat (- e), q))"

definition float_of :: "nat \<Rightarrow> nat \<Rightarrow> nat \<times> nat" where
  "float_of p q =
     (if p = 0 then (0, 1)
      else let e = int (bit_len p) - int (bit_len q) - 53;
               e = (case scaled p q e of (a, b) \<Rightarrow> if a div b \<ge> 2 ^ 53 then e + 1 else e);
               m = (case scaled p q e of (a, b) \<Rightarrow> round_div a b) in
        if e \<ge> 0 then (m * 2 ^ nat e, 1) else (m, 2 ^ nat (- e)))"

definition float_mult :: "nat \<times> nat \<Rightarrow> nat \<times> nat \<Rightarrow> nat \<times> nat" where
  "float_mult x y = float_of (fst x * fst y) (snd x * snd y)"

definition float_div :: "nat \<times> nat \<Rightarrow> nat \<times> nat \<Rightarrow> nat \<times> nat" where
  "float_div x y = float_of (fst x * snd y) (snd x * fst y)"

definition float_ceil :: "nat \<times> nat \<Rightarrow> nat" where
  "float_ceil x = (fst x + snd x - 1) div snd x"

definition float_val :: "nat \<times> nat \<Rightarrow> real" where
  "float_val x = of_nat (fst x) / of_nat (snd x)"

lemma bit_len_bounds: "n > 0 \<Longrightarrow> 2 ^ bit_len n \<le> 2 * n \<and> n < 2 ^ bit_len n"
proof (induction n rule: bit_len.induct)
  case (1 n)
  show ?case
  proof (cases "n div 2 = 0")
    case True
    then have "n = 1" using 1 by auto
    then show ?thesis by (simp add: bit_len.simps)
  next
    case False
    then have "2 ^ bit_len (n div 2) \<le> 2 * (n div 2) \<and> n div 2 < 2 ^ bit_len (n div 2)" using 1 by simp
    moreover have "n < 2 * m" if "n div 2 < m" for m using that by linarith
    ultimately show ?thesis using 1(2) by (auto simp: bit_len.simps [of n] intro: order_trans)
  qed
qed

lemma round_div_error:
  assumes "b > 0"
  shows "\<bar>real (round_div a b) - real a / real b\<bar> \<le> 1 / 2"
proof -
  have e: "real a / real b = real (a div b) + real (a mod b) / real b"
  proof -
    have "real a = real b * real (a div b) + real (a mod b)"
      by (metis mult_div_mod_eq of_nat_add of_nat_mult)
    then show ?thesis using assms by (simp add: field_simps)
  qed
  have lt: "a mod b < b" using assms by simp
  show ?thesis unfolding round_div_def Let_def e
    using assms lt by (auto simp: field_simps)
qed

lemma scaled_val:
  assumes "scaled p q e = (a, b)" and "q > 0"
  shows "b > 0 \<and> real a / real b = real p / real q / 2 powr e"
  using assms by (auto simp: scaled_def powr_realpow [symmetric] powr_minus field_simps split: if_splits)

lemma float_of_exact:
  assumes "p > 0" and "q > 0"
  shows "snd (float_of p q) > 0 \<and> \<bar>float_val (float_of p q) - real p / real q\<bar> \<le> real p / real q / 2 ^ 53"
proof -
  let ?x = "real p / real q"
  define e0 where "e0 = int (bit_len p) - int (bit_len q) - 53"
  define e where "e = (case scaled p q e0 of (a, b) \<Rightarrow> if a div b \<ge> 2 ^ 53 then e0 + 1 else e0)"
  obtain a0 b0 where s0: "scaled p q e0 = (a0, b0)" by fastforce
  obtain a b where s: "scaled p q e = (a, b)" by fastforce
  note v0 = scaled_val [OF s0 assms(2)]
  note v = scaled_val [OF s assms(2)]
  have xpos: "?x > 0" using assms by simp
  have lp: "2 ^ bit_len p \<le> 2 * real p" "real q < 2 ^ bit_len q"
    using bit_len_bounds [OF assms(1)] bit_len_bounds [OF assms(2)]
    by (metis of_nat_le_iff of_nat_mult of_nat_numeral of_nat_power, metis of_nat_less_iff of_nat_numeral of_nat_power)
  have low0: "2 powr (e0 + 52) \<le> ?x"
  proof -
    have "2 powr (e0 + 52) = 2 ^ bit_len p / (2 * 2 ^ bit_len q)"
      by (simp add: e0_def powr_diff powr_realpow)
    also have "\<dots> \<le> real p / 2 ^ bit_len q" using lp(1) by (simp add: field_simps)
    also have "\<dots> \<le> ?x" using lp(2) assms by (simp add: frac_le)
    finally show ?thesis .
  qed
  have low: "2 ^ 52 \<le> real a / real b"
  proof (cases "a0 div b0 \<ge> 2 ^ 53")
    case True
    then have e: "e = e0 + 1" by (simp add: e_def s0)
    have "2 ^ 53 \<le> real (a0 div b0)" using True by (metis of_nat_le_iff of_nat_numeral of_nat_power)
    also have "\<dots> \<le> real a0 / real b0" using of_int_floor_le [of "real a0 / real b0"] by (simp add: floor_divide_of_nat_eq)
    finally have "2 ^ 53 \<le> ?x / 2 powr e0" using v0 by simp
    moreover have "real a / real b = (?x / 2 powr e0) / 2" using v e by (simp add: powr_add)
    moreover have "2 ^ 52 \<le> X / 2" if "2 ^ 53 \<le> X" for X :: real using that by simp
    ultimately show ?thesis by metis
  next
    case False
    then have e: "e = e0" by (simp add: e_def s0)
    have "2 ^ 52 * 2 powr e0 \<le> ?x" using low0 by (simp add: powr_add mult.commute)
    then have "2 ^ 52 \<le> ?x / 2 powr e0" by (simp only: pos_le_divide_eq powr_gt_zero zero_neq_numeral [symmetric] simp_thms)
    then show ?thesis using v e by simp
  qed
  define m where "m = round_div a b"
  have fl: "float_of p q = (if e \<ge> 0 then (m * 2 ^ nat e, 1) else (m, 2 ^ nat (- e)))"
    unfolding float_of_def Let_def e0_def [symmetric] e_def [symmetric] s prod.case m_def [symmetric]
    using assms by simp
  have val: "float_val (float_of p q) = real m * 2 powr e"
    by (auto simp: fl float_val_def powr_realpow [symmetric] powr_minus field_simps)
  have "\<bar>real m - real a / real b\<bar> \<le> 1 / 2" unfolding m_def using v by (intro round_div_error) simp
  also have "\<dots> \<le> real a / real b / 2 ^ 53" using low by simp
  finally have "\<bar>real m - ?x / 2 powr e\<bar> \<le> ?x / 2 powr e / 2 ^ 53" using v by simp
  then have "\<bar>real m - ?x / 2 powr e\<bar> * 2 powr e \<le> ?x / 2 powr e / 2 ^ 53 * 2 powr e"
    by (simp only: mult_right_mono powr_ge_zero)
  also have "\<dots> = ?x / 2 ^ 53" by simp
  finally have "\<bar>real m - ?x / 2 powr e\<bar> * 2 powr e \<le> ?x / 2 ^ 53" .
  moreover have "\<bar>real m - ?x / 2 powr e\<bar> * 2 powr e = \<bar>real m * 2 powr e - ?x\<bar>"
  proof -
    have "real m * 2 powr e - ?x = (real m - ?x / 2 powr e) * 2 powr e" by (simp add: left_diff_distrib)
    then show ?thesis by (simp only: abs_mult) simp
  qed
  ultimately show ?thesis using val by (auto simp: fl)
qed

lemma float_ceil_real:
  assumes "snd x > 0"
  shows "int (float_ceil x) = \<lceil>float_val x\<rceil>"
proof -
  let ?a = "fst x" and ?b = "snd x"
  define k where "k = (?a + ?b - 1) div ?b"
  have dm: "?b * k + (?a + ?b - 1) mod ?b = ?a + ?b - 1" unfolding k_def by simp
  have "(?a + ?b - 1) mod ?b < ?b" using assms by simp
  then have "?b * k < ?a + ?b" "?a \<le> ?b * k" using dm assms by linarith+
  then have "real (?b * k) < real (?a + ?b)" "real ?a \<le> real (?b * k)" by linarith+
  then have "\<lceil>float_val x\<rceil> = int k"
    using assms by (intro ceiling_unique) (simp_all add: float_val_def field_simps)
  then show ?thesis by (simp add: float_ceil_def k_def)
qed

subsection \<open>Fees\<close>

text \<open>\<open>math.Ceil(float64(sizeBytes) / 1000 * float64(feeSatPerKB))\<close>, cut to 64 bits.\<close>

definition feeForBytes :: "u64 \<Rightarrow> int \<Rightarrow> u64" where
  "feeForBytes sizeBytes feeSatPerKB =
     (if feeSatPerKB \<le> 0 then 0
      else word_of_nat (float_ceil
        (float_mult (float_div (float_of (unat sizeBytes) 1) (1000, 1)) (float_of (nat feeSatPerKB) 1))))"

definition minSpendBytes :: u64 where "minSpendBytes = 192"

definition dustFloor :: "int \<Rightarrow> u64" where
  "dustFloor feeSatPerKB = 2 * feeForBytes minSpendBytes feeSatPerKB"

lemma float_of_small:
  assumes "n < 2 ^ 53"
  shows "float_val (float_of n 1) = real n \<and> snd (float_of n 1) > 0"
proof (cases "n = 0")
  case True
  then show ?thesis by (simp add: float_of_def float_val_def)
next
  case False
  have b1: "bit_len (Suc 0) = 1" by (simp add: bit_len.simps [of "Suc 0"] bit_len.simps [of 0])
  have bn: "2 ^ bit_len n \<le> 2 * n" "n < 2 ^ bit_len n" using bit_len_bounds [of n] False by auto
  have le: "bit_len n \<le> 53"
  proof (rule ccontr)
    assume "\<not> bit_len n \<le> 53"
    then have "(2 :: nat) ^ 54 \<le> 2 ^ bit_len n" by (intro power_increasing) auto
    then show False using bn(1) assms by simp
  qed
  define k where "k = 54 - bit_len n"
  define e where "e = int (bit_len n) - int (bit_len 1) - 53"
  have e: "e = - int k" using le by (simp add: k_def e_def b1)
  have s: "scaled n 1 e = (n * 2 ^ k, 1)" using le by (simp add: scaled_def e)
  have big: "2 ^ 53 \<le> n * 2 ^ k"
  proof -
    have "(2 :: nat) ^ 54 = 2 ^ bit_len n * 2 ^ k" using le by (simp add: k_def flip: power_add)
    also have "\<dots> \<le> 2 * n * 2 ^ k" using bn(1) by simp
    finally show ?thesis by simp
  qed
  have k1: "k \<ge> 1" using le by (simp add: k_def)
  then have s1: "scaled n 1 (e + 1) = (n * 2 ^ (k - 1), 1)"
  proof (cases "k = 1")
    case False
    then show ?thesis using k1 by (simp add: scaled_def e of_nat_diff nat_diff_distrib)
  qed (simp add: scaled_def e)
  have "float_of n 1 = (if e + 1 \<ge> 0 then (n * 2 ^ (k - 1) * 2 ^ nat (e + 1), 1) else (n * 2 ^ (k - 1), 2 ^ nat (- (e + 1))))"
  proof -
    have "n * 2 ^ k div 1 \<ge> (2 :: nat) ^ 53" using big by simp
    then show ?thesis
      unfolding float_of_def Let_def e_def [symmetric] s prod.case
      using False s1 by (simp add: round_div_def)
  qed
  moreover have "e + 1 \<ge> 0 \<Longrightarrow> k = 1" using e k1 by linarith
  moreover have "nat (- (e + 1)) = k - 1" using e k1 by linarith
  ultimately show ?thesis using e by (auto simp: float_val_def)
qed

text \<open>Within a satoshi above the exact price, and never below it.\<close>

lemma fee_bounds:
  assumes fee: "feeSatPerKB > 0" and small: "unat sizeBytes * nat feeSatPerKB < 2 ^ 50" and size: "sizeBytes \<noteq> 0"
  shows "\<lceil>real (unat sizeBytes) * real_of_int feeSatPerKB / 1000\<rceil> \<le> uint (feeForBytes sizeBytes feeSatPerKB)
     \<and> uint (feeForBytes sizeBytes feeSatPerKB) \<le> \<lceil>real (unat sizeBytes) * real_of_int feeSatPerKB / 1000\<rceil> + 1"
proof -
  define n where "n = unat sizeBytes"
  define f where "f = nat feeSatPerKB"
  have small: "n * f < 2 ^ 50" using small by (simp add: n_def f_def)
  define u :: real where "u = 1 / 2 ^ 53"
  define y where "y = real n / 1000"
  define v where "v = y * real f"
  have pos: "n > 0" "f > 0" using fee size by (simp_all add: unat_gt_0 n_def f_def)
  have lt: "n < 2 ^ 50" "f < 2 ^ 50"
    using small pos by (metis less_le_trans mult.commute mult.right_neutral mult_le_mono2 not_less Suc_leI One_nat_def)+
  let ?s = "float_of n 1" and ?g = "float_of f 1"
  let ?d = "float_div ?s (1000, 1)"
  let ?z = "float_mult ?d ?g"
  have s: "float_val ?s = real n" "snd ?s > 0" and g: "float_val ?g = real f" "snd ?g > 0"
    using lt float_of_small [of n] float_of_small [of f] by simp_all
  have fs: "fst ?s > 0" and fg: "fst ?g > 0"
    using s g pos by (auto simp: float_val_def intro!: Nat.gr0I)
  have sy: "real (fst ?s * 1) / real (snd ?s * 1000) = y" using s by (simp add: float_val_def y_def)
  have d: "snd ?d > 0" "\<bar>float_val ?d - y\<bar> \<le> y * u"
    using float_of_exact [of "fst ?s * 1" "snd ?s * 1000"] fs s(2) unfolding sy float_div_def u_def by simp_all
  have ypos: "y > 0" using pos by (simp add: y_def)
  have "y * u < y" using ypos by (simp add: u_def)
  then have dpos: "float_val ?d > 0" using d(2) by linarith
  then have fd: "fst ?d > 0" using d(1) by (simp add: float_val_def zero_less_divide_iff)
  have dg: "real (fst ?d * fst ?g) / real (snd ?d * snd ?g) = float_val ?d * real f"
    unfolding g(1) [symmetric] float_val_def by (simp add: times_divide_times_eq)
  have z: "snd ?z > 0" "\<bar>float_val ?z - float_val ?d * real f\<bar> \<le> float_val ?d * real f * u"
    using float_of_exact [of "fst ?d * fst ?g" "snd ?d * snd ?g"] fd fg d(1) g(2)
    unfolding dg float_mult_def u_def by simp_all
  have vN: "v = real (n * f) / 1000" by (simp add: v_def y_def)
  have N: "real (n * f) < 2 ^ 50" using small by (metis of_nat_less_iff of_nat_numeral of_nat_power)
  have vpos: "v > 0" using ypos pos by (simp add: v_def)
  have near: "\<bar>float_val ?d * real f - v\<bar> \<le> v * u"
  proof -
    have "\<bar>float_val ?d * real f - v\<bar> = \<bar>float_val ?d - y\<bar> * real f"
      unfolding v_def left_diff_distrib [symmetric] by (simp add: abs_mult)
    also have "\<dots> \<le> y * u * real f" using d(2) by (simp add: mult_right_mono)
    finally show ?thesis by (simp add: v_def mult_ac)
  qed
  have "v * u \<le> v" using vpos by (simp add: u_def)
  then have up: "float_val ?d * real f \<le> 2 * v" using near by linarith
  have "\<bar>float_val ?z - v\<bar> \<le> v * u + 2 * v * u"
  proof -
    have "float_val ?d * real f * u \<le> 2 * v * u" by (rule mult_right_mono [OF up]) (simp add: u_def)
    then show ?thesis using z(2) near by linarith
  qed
  also have "v * u + 2 * v * u = 3 * (v * u)" by simp
  also have "3 * (v * u) < 1 / 1000" using N by (simp add: vN u_def mult.commute [of "real f"])
  finally have zv: "\<bar>float_val ?z - v\<bar> < 1 / 1000" .
  have lo: "\<lceil>v\<rceil> \<le> \<lceil>float_val ?z\<rceil>"
  proof (rule ccontr)
    assume "\<not> \<lceil>v\<rceil> \<le> \<lceil>float_val ?z\<rceil>"
    then have "real_of_int \<lceil>float_val ?z\<rceil> < v" using ceiling_le [of v] by (meson not_le)
    then have "1000 * real_of_int \<lceil>float_val ?z\<rceil> < real (n * f)" by (simp add: vN)
    then have "1000 * \<lceil>float_val ?z\<rceil> < int (n * f)" by linarith
    then have "1000 * \<lceil>float_val ?z\<rceil> + 1 \<le> int (n * f)" by simp
    then have "real_of_int \<lceil>float_val ?z\<rceil> + 1 / 1000 \<le> v" unfolding vN by linarith
    then show False using zv le_of_int_ceiling [of "float_val ?z"] by linarith
  qed
  have hi: "\<lceil>float_val ?z\<rceil> \<le> \<lceil>v\<rceil> + 1"
  proof (rule ceiling_le)
    have "float_val ?z \<le> v + 1" using zv by linarith
    then show "float_val ?z \<le> real_of_int (\<lceil>v\<rceil> + 1)"
      using le_of_int_ceiling [of v] by (simp only: of_int_add of_int_1)
  qed
  have c: "int (float_ceil ?z) = \<lceil>float_val ?z\<rceil>" by (rule float_ceil_real [OF z(1)])
  have "v < 2 ^ 50" using N by (simp add: vN)
  then have v50: "\<lceil>v\<rceil> \<le> 2 ^ 50" by (simp add: ceiling_le_iff)
  have below: "b < 2 ^ 64" if "a \<le> 2 ^ 50" "b \<le> a + 1" for a b :: int using that by simp
  have "int (float_ceil ?z) < 2 ^ 64" unfolding c by (rule below [OF v50 hi])
  then have k: "float_ceil ?z < 2 ^ 64" by (metis of_nat_less_iff of_nat_numeral of_nat_power)
  have "feeForBytes sizeBytes feeSatPerKB = word_of_nat (float_ceil ?z)" using fee by (simp add: feeForBytes_def n_def f_def)
  then have "uint (feeForBytes sizeBytes feeSatPerKB) = \<lceil>float_val ?z\<rceil>"
    using k unfolding c [symmetric] by (simp only: unsigned_of_nat) (simp add: take_bit_nat_eq_self)
  moreover have "real (unat sizeBytes) * real_of_int feeSatPerKB / 1000 = v" using fee by (simp add: v_def y_def n_def f_def)
  ultimately show ?thesis using lo hi by (simp only: simp_thms)
qed

lemma fee_least:
  assumes "feeSatPerKB > 0" and "unat sizeBytes * nat feeSatPerKB < 2 ^ 50" and "sizeBytes \<noteq> 0"
  shows "real (unat sizeBytes) * real_of_int feeSatPerKB / 1000 \<le> real (unat (feeForBytes sizeBytes feeSatPerKB))"
proof -
  let ?x = "real (unat sizeBytes) * real_of_int feeSatPerKB / 1000"
  have "?x \<le> real_of_int \<lceil>?x\<rceil>" by (rule le_of_int_ceiling)
  also have "\<dots> \<le> real_of_int (uint (feeForBytes sizeBytes feeSatPerKB))" using fee_bounds [OF assms] by (simp only: of_int_le_iff)
  finally show ?thesis by simp
qed

subsection \<open>Configuration\<close>

record chain_config = config +
  ArcadeURL :: string
  ChainTracksURL :: string
  EventsURL :: string
  Network :: string
  DataDir :: string
  Originator :: string
  cfCells :: int
  cfRule :: rule
  cfCellSatoshis :: u64
  PostgresDSN :: string
  MaxDBConns :: int
  FeeSatPerKB :: int
  MinBroadcastFeeRate :: int
  FuelDenomination :: u64
  FuelPoolSize :: u64
  Throughput :: bool
  FullStatusUpdates :: bool
  ApplyConcurrency :: int
  Chronicle :: bool
  LockControls :: bool
  PublicFunding :: bool
  MinPaymentSatoshis :: u64
  FirstFuelCoins :: u64

text \<open>The toolbox names the network.\<close>

definition DefaultConfig :: "string \<Rightarrow> chain_config" where
  "DefaultConfig tstn = \<lparr>MaxLag = 32, MaxUnconfirmedDepth = 0, MaxUnseenDepth = 1, ArcadeURL = '''', ChainTracksURL = '''',
     EventsURL = '''', Network = tstn, DataDir = ''./data'', Originator = ''rule110.arcade.local'', cfCells = 256,
     cfRule = Rule110, cfCellSatoshis = 1, PostgresDSN = '''', MaxDBConns = 144, FeeSatPerKB = 125,
     MinBroadcastFeeRate = 100, FuelDenomination = 1000, FuelPoolSize = 60000, Throughput = True,
     FullStatusUpdates = True, ApplyConcurrency = 48, Chronicle = True, LockControls = False, PublicFunding = False,
     MinPaymentSatoshis = 0, FirstFuelCoins = 0\<rparr>"

datatype config_error =
    NoArcadeURL
  | BadArcadeURL string
  | NotHTTP string
  | NoHost string
  | BadCellCount int
  | ZeroCellSatoshis
  | BadFeeRate int
  | BadApplyConcurrency int
  | PaymentBelowCoin u64 u64
  | NoOriginator
  | NoDataDir
  | BadNetwork string

definition trim_slashes :: "string \<Rightarrow> string" where
  "trim_slashes s = rev (dropWhile (\<lambda>c. c = CHR ''/'') (rev s))"

definition trimURLs :: "chain_config \<Rightarrow> chain_config" where
  "trimURLs c = c\<lparr>ArcadeURL := trim_slashes (ArcadeURL c), ChainTracksURL := trim_slashes (ChainTracksURL c),
     EventsURL := trim_slashes (EventsURL c)\<rparr>"

definition fillLag :: "chain_config \<Rightarrow> chain_config" where
  "fillLag c = (if MaxLag c = 0 then c\<lparr>MaxLag := MaxLag (DefaultConfig (Network c))\<rparr> else c)"

definition fillPayments :: "chain_config \<Rightarrow> chain_config" where
  "fillPayments c =
     (let c = (if MinPaymentSatoshis c = 0 then c\<lparr>MinPaymentSatoshis := 10 * FuelDenomination c\<rparr> else c) in
      if FirstFuelCoins c = 0 then c\<lparr>FirstFuelCoins := 2 * word_of_int (cfCells c)\<rparr> else c)"

text \<open>\<open>Validate\<close> normalises as it goes, so it answers the configuration too.  \<open>parse\<close> gives a URL's scheme
  and host; \<open>network\<close> is the toolbox's check of the network's name.\<close>

definition Validate :: "(string \<Rightarrow> string + string \<times> string) \<Rightarrow> (string \<Rightarrow> string option) \<Rightarrow> chain_config
    \<Rightarrow> chain_config \<times> config_error option" where
  "Validate parse network c =
     (if ArcadeURL c = '''' then (c, Some NoArcadeURL)
      else case parse (ArcadeURL c) of
        Inl e \<Rightarrow> (c, Some (BadArcadeURL e))
      | Inr (scheme, host) \<Rightarrow>
         if scheme \<noteq> ''http'' \<and> scheme \<noteq> ''https'' then (c, Some (NotHTTP scheme))
         else if host = '''' then (c, Some (NoHost (ArcadeURL c)))
         else let c = trimURLs c in
         if cfCells c \<le> 0 \<or> cfCells c smod 8 \<noteq> 0 then (c, Some (BadCellCount (cfCells c)))
         else if cfCellSatoshis c = 0 then (c, Some ZeroCellSatoshis)
         else let c = fillLag c in
         if FeeSatPerKB c \<le> 0 then (c, Some (BadFeeRate (FeeSatPerKB c)))
         else if ApplyConcurrency c \<le> 0 then (c, Some (BadApplyConcurrency (ApplyConcurrency c)))
         else let c = fillPayments c in
         if Throughput c \<and> MinPaymentSatoshis c \<le> FuelDenomination c
         then (c, Some (PaymentBelowCoin (MinPaymentSatoshis c) (FuelDenomination c)))
         else if Originator c = '''' then (c, Some NoOriginator)
         else if DataDir c = '''' then (c, Some NoDataDir)
         else (c, map_option BadNetwork (network (Network c))))"

definition eventsURL :: "chain_config \<Rightarrow> string" where
  "eventsURL c = (if EventsURL c \<noteq> '''' then EventsURL c else ArcadeURL c)"

definition chainTracksURL :: "chain_config \<Rightarrow> string" where
  "chainTracksURL c = (if ChainTracksURL c \<noteq> '''' then ChainTracksURL c else ArcadeURL c @ ''/chaintracks/v2'')"

text \<open>The toolbox: the names of its baskets and its check of a pool's denomination and size against a
  fee rate.\<close>

record toolbox =
  PoolBasket :: string
  ReserveBasket :: string
  BasketNameForChange :: string
  umCheck :: "u64 \<Rightarrow> u64 \<Rightarrow> int \<Rightarrow> string option"

text \<open>The funding strategy: none but the toolbox's own, or the pool of identical coins.\<close>

definition utxoManagement :: "toolbox \<Rightarrow> chain_config \<Rightarrow> string + (u64 \<times> u64) option" where
  "utxoManagement tb c =
     (if \<not> Throughput c then Inr None
      else case umCheck tb (FuelDenomination c) (FuelPoolSize c) (FeeSatPerKB c) of
             Some e \<Rightarrow> Inl e
           | None \<Rightarrow> Inr (Some (FuelDenomination c, FuelPoolSize c)))"

definition FuelPool :: "toolbox \<Rightarrow> chain_config \<Rightarrow> string \<times> u64 \<times> u64 \<times> bool" where
  "FuelPool tb c =
     (case utxoManagement tb c of
        Inr (Some _) \<Rightarrow> (PoolBasket tb, FuelDenomination c, FuelPoolSize c, True)
      | _ \<Rightarrow> ('''', 0, 0, False))"

datatype funds_error = ReadFailed string | PoolMisconfigured string

text \<open>\<open>Funds\<close>, over the wallet's balances and coin counts by basket.\<close>

definition Funds :: "toolbox \<Rightarrow> (string \<Rightarrow> string + u64) \<Rightarrow> (string \<Rightarrow> string + int) \<Rightarrow> chain_config \<Rightarrow> funds_error + funds" where
  "Funds tb balance coins c =
     (case FuelPool tb c of (pool, _, _, throughput) \<Rightarrow>
      if \<not> throughput then
        (case balance (BasketNameForChange tb) of
           Inl e \<Rightarrow> Inl (ReadFailed e)
         | Inr spendable \<Rightarrow>
            (case coins (BasketNameForChange tb) of
               Inl e \<Rightarrow> Inl (ReadFailed e)
             | Inr n \<Rightarrow> Inr \<lparr>Spendable = spendable, Reserve = 0, PoolCoins = n\<rparr>))
      else
        (case balance pool of
           Inl e \<Rightarrow> Inl (ReadFailed e)
         | Inr spendable \<Rightarrow>
        (case coins pool of
           Inl e \<Rightarrow> Inl (ReadFailed e)
         | Inr n \<Rightarrow>
        (case balance (BasketNameForChange tb) of
           Inl e \<Rightarrow> Inl (ReadFailed e)
         | Inr change \<Rightarrow>
        (case utxoManagement tb c of
           Inl e \<Rightarrow> Inl (PoolMisconfigured e)
         | Inr _ \<Rightarrow>
        (case balance (ReserveBasket tb) of
           Inl e \<Rightarrow> Inl (ReadFailed e)
         | Inr reserve \<Rightarrow> Inr \<lparr>Spendable = spendable, Reserve = change + reserve, PoolCoins = n\<rparr>))))))"

subsection \<open>The price of a cold start\<close>

definition fanoutPerTx :: u64 where "fanoutPerTx = 100"
definition genesisEnvelopeBytes :: u64 where "genesisEnvelopeBytes = 4 + 4 + 1 + 148 + 3 + 34"
definition leafFanOutBytes :: u64 where "leafFanOutBytes = 8 + 1 + 148 + 3 + (fanoutPerTx + 1) * 34"
definition bootstrapHeadroomPercent :: u64 where "bootstrapHeadroomPercent = 25"

definition varIntLen :: "u64 \<Rightarrow> int" where
  "varIntLen n = (if n < 0xfd then 1 else if n \<le> 0xffff then 3 else if n \<le> 0xffffffff then 5 else 9)"

fun genesis_bytes_loop :: "compiled \<Rightarrow> row \<Rightarrow> int list \<Rightarrow> u64 \<Rightarrow> script_error + u64" where
  "genesis_bytes_loop c seed [] sz = Inr sz"
| "genesis_bytes_loop c seed (cell # cs) sz =
     (case LockingScript c cell seed of
        Inl e \<Rightarrow> Inl e
      | Inr lock \<Rightarrow>
         genesis_bytes_loop c seed cs
           (sz + 8 + word_of_int (varIntLen (word_of_nat (length lock))) + word_of_nat (length lock)))"

datatype cost_error = CostSeedSize int int | CostScript script_error

definition GenesisBytes :: "compiled \<Rightarrow> row \<Rightarrow> cost_error + u64" where
  "GenesisBytes c seed =
     (if Cells seed \<noteq> cells c then Inl (CostSeedSize (Cells seed) (cells c))
      else map_sum CostScript id (genesis_bytes_loop c seed [0..cells c - 1] genesisEnvelopeBytes))"

definition GenesisCost :: "chain_config \<Rightarrow> u64 \<Rightarrow> u64" where
  "GenesisCost c sizeBytes =
     word_of_int (cfCells c) * cfCellSatoshis c + feeForBytes sizeBytes (FeeSatPerKB c) + dustFloor (FeeSatPerKB c)"

definition fanOutCost :: "chain_config \<Rightarrow> u64 \<Rightarrow> u64" where
  "fanOutCost c coins =
     (let rounds = (coins + fanoutPerTx - 1) div fanoutPerTx;
          perRound = feeForBytes leafFanOutBytes (FeeSatPerKB c) + dustFloor (FeeSatPerKB c) in
      coins * FuelDenomination c + rounds * perRound)"

definition BootstrapMinimum :: "chain_config \<Rightarrow> u64 \<Rightarrow> u64" where
  "BootstrapMinimum c genesisSize =
     (let tot = fanOutCost c (FirstFuelCoins c) + GenesisCost c genesisSize in
      tot * (100 + bootstrapHeadroomPercent) div 100)"

definition chunkFeeHeadroom :: "chain_config \<Rightarrow> u64" where
  "chunkFeeHeadroom c = 2 * (feeForBytes leafFanOutBytes (FeeSatPerKB c) + dustFloor (FeeSatPerKB c))"

subsection \<open>Minting fuel\<close>

record shaped_change =
  scCount :: u64
  scSatoshis :: u64
  scBasket :: string
  scSourceBasket :: string

datatype fuel_error =
    ZeroCoins
  | ZeroCoinValue
  | FanOutFailed u64 u64 string

record fuel_result =
  frTxID :: txid
  frCoins :: u64
  frValue :: u64

definition fuelShape :: "toolbox \<Rightarrow> chain_config \<Rightarrow> u64 \<Rightarrow> u64 \<Rightarrow> fuel_error + shaped_change" where
  "fuelShape tb c count satoshis =
     (if count = 0 then Inl ZeroCoins
      else if satoshis = 0 then Inl ZeroCoinValue
      else let basket = (case FuelPool tb c of (pool, _, _, enabled) \<Rightarrow> if enabled then pool else BasketNameForChange tb) in
        Inr \<lparr>scCount = count, scSatoshis = satoshis, scBasket = basket, scSourceBasket = BasketNameForChange tb\<rparr>)"

text \<open>Retrying while the funder reports no usable coin: each attempt's answer, and the time after it.
  Running out of attempts is the caller's context ending.\<close>

definition fundingWait :: int where "fundingWait = 240 * second"

datatype retry_error = CreateRefused string | NeverFunded string nat | RetryCancelled

fun retry_loop :: "int \<Rightarrow> nat \<Rightarrow> ((string + 'a) \<times> int) list \<Rightarrow> retry_error + 'a" where
  "retry_loop deadline attempt [] = Inl RetryCancelled"
| "retry_loop deadline attempt ((answer, now) # rest) =
     (case answer of
        Inr r \<Rightarrow> Inr r
      | Inl e \<Rightarrow>
         if \<not> str_contains e ''not enough funds'' then Inl (CreateRefused e)
         else if now > deadline then Inl (NeverFunded e attempt)
         else retry_loop deadline (attempt + 1) rest)"

definition retryUntilFunded :: "int \<Rightarrow> ((string + 'a) \<times> int) list \<Rightarrow> retry_error + 'a" where
  "retryUntilFunded start answers = retry_loop (start + fundingWait) 1 answers"

text \<open>The rounds of a fan-out.  \<open>mint\<close> is the wallet's answer to the shape of round \<open>k\<close>, retried until
  funded; \<open>say\<close> the text of a refusal.\<close>

function fan_out_loop :: "toolbox \<Rightarrow> chain_config \<Rightarrow> (nat \<Rightarrow> shaped_change \<Rightarrow> string + txid) \<Rightarrow> u64 \<Rightarrow> u64 \<Rightarrow> u64
    \<Rightarrow> fuel_result list \<Rightarrow> fuel_result list \<times> fuel_error option" where
  "fan_out_loop tb c mint count satoshis minted results =
     (if \<not> minted < count then (results, None)
      else let batch = min (count - minted) fanoutPerTx in
        case fuelShape tb c batch satoshis of
          Inl e \<Rightarrow> (results, Some e)
        | Inr shape \<Rightarrow>
           (case mint (length results) shape of
              Inl e \<Rightarrow> (results, Some (FanOutFailed minted count e))
            | Inr tid \<Rightarrow> fan_out_loop tb c mint count satoshis (minted + batch)
                (results @ [\<lparr>frTxID = tid, frCoins = batch, frValue = satoshis\<rparr>])))"
  by pat_completeness auto

lemma batch_step:
  fixes count minted :: u64
  assumes "minted < count"
  defines "batch \<equiv> min (count - minted) fanoutPerTx"
  shows "unat batch = min (unat count - unat minted) 100" "unat (minted + batch) = unat minted + unat batch"
    "minted + batch \<le> count" "batch \<noteq> 0"
proof -
  have lt: "unat minted < unat count" using assms(1) by (simp add: word_less_nat_alt)
  have d: "unat (count - minted) = unat count - unat minted" using assms(1) by (simp add: unat_sub word_le_less_eq)
  have h: "unat fanoutPerTx = 100" by (simp add: fanoutPerTx_def)
  show b: "unat batch = min (unat count - unat minted) 100"
    by (auto simp: batch_def min_def word_le_nat_alt d h)
  then have le: "unat minted + unat batch \<le> unat count" using lt by simp
  then show s: "unat (minted + batch) = unat minted + unat batch"
    using unsigned_less [where 'a=nat and w=count] by (simp add: unat_word_ariths)
  then show "minted + batch \<le> count" using le by (simp add: word_le_nat_alt)
  show "batch \<noteq> 0" using b lt by (auto simp: unat_eq_0 [symmetric])
qed

termination fan_out_loop
proof (relation "measure (\<lambda>(tb, c, mint, count, satoshis, minted, results). unat count - unat minted)")
  fix tb c mint count satoshis minted results batch shape tid
  assume "\<not> \<not> (minted :: u64) < count" "batch = min (count - minted) fanoutPerTx"
  then have "unat (minted + batch) = unat minted + unat batch" "unat batch \<noteq> 0" "unat minted < unat count"
    using batch_step [of minted count] by (simp_all add: word_less_nat_alt unat_eq_0)
  then show "((tb, c, mint, count, satoshis, minted + batch, results @ [\<lparr>frTxID = tid, frCoins = batch, frValue = satoshis\<rparr>]),
      (tb, c, mint, count, satoshis, minted, results))
    \<in> measure (\<lambda>(tb, c, mint, count, satoshis, minted, results). unat count - unat minted)"
    by simp
qed simp

declare fan_out_loop.simps [simp del]

definition FanOutFuel :: "toolbox \<Rightarrow> chain_config \<Rightarrow> (nat \<Rightarrow> shaped_change \<Rightarrow> string + txid) \<Rightarrow> u64 \<Rightarrow> u64
    \<Rightarrow> fuel_result list \<times> fuel_error option" where
  "FanOutFuel tb c mint count satoshis =
     (if count = 0 then ([], Some ZeroCoins)
      else if satoshis = 0 then ([], Some ZeroCoinValue)
      else fan_out_loop tb c mint count satoshis 0 [])"

subsection \<open>Rounds\<close>

definition coins_of :: "fuel_result list \<Rightarrow> nat" where
  "coins_of rs = sum_list (map (\<lambda>r. unat (frCoins r)) rs)"

text \<open>Full rounds so far: that is what every call of the loop starts from.\<close>

lemma fan_out_loop_exact:
  assumes "fan_out_loop tb c mint count satoshis minted results = (rs, err)"
    and "minted \<le> count" and "satoshis \<noteq> 0"
    and "coins_of results = unat minted" and "unat minted = min (100 * length results) (unat count)"
    and "\<forall>r \<in> set results. 0 < unat (frCoins r) \<and> unat (frCoins r) \<le> 100 \<and> frValue r = satoshis"
  shows "(\<forall>r \<in> set rs. 0 < unat (frCoins r) \<and> unat (frCoins r) \<le> 100 \<and> frValue r = satoshis)
    \<and> coins_of rs = min (100 * length rs) (unat count)
    \<and> (case err of None \<Rightarrow> coins_of rs = unat count \<and> length rs = max (length results) ((unat count + 99) div 100)
       | Some e \<Rightarrow> 100 * length rs < unat count \<and> (\<exists>msg. e = FanOutFailed (word_of_nat (coins_of rs)) count msg))"
  using assms
proof (induction tb c mint count satoshis minted results rule: fan_out_loop.induct)
  case (1 tb c mint count satoshis minted results)
  let ?batch = "min (count - minted) fanoutPerTx"
  show ?case
  proof (cases "minted < count")
    case False
    then have m: "minted = count" using 1(3) by simp
    then have "rs = results" "err = None" using 1(2) by (simp_all add: fan_out_loop.simps)
    moreover have "length results \<ge> (unat count + 99) div 100" using 1(6) m by (auto simp: min_def split: if_splits)
    ultimately show ?thesis using 1(5-7) m by (simp add: max_def)
  next
    case True
    note b = batch_step [OF True]
    have lt: "unat minted < unat count" using True by (simp add: word_less_nat_alt)
    then have full: "unat minted = 100 * length results" using 1(6) by (simp add: min_def split: if_splits)
    have shape: "\<exists>shape. fuelShape tb c ?batch satoshis = Inr shape"
      using b(4) 1(4) by (simp add: fuelShape_def)
    then obtain shape where shape: "fuelShape tb c ?batch satoshis = Inr shape" by blast
    show ?thesis
    proof (cases "mint (length results) shape")
      case (Inl e)
      then have r: "rs = results" "err = Some (FanOutFailed minted count e)"
        using 1(2) True shape by (simp_all add: fan_out_loop.simps [of tb c mint count satoshis minted] Let_def)
      have m: "word_of_nat (coins_of results) = minted" using 1(5) by simp
      show ?thesis unfolding r option.case m using 1(5,7) full lt by simp
    next
      case (Inr tid)
      let ?rs = "results @ [\<lparr>frTxID = tid, frCoins = ?batch, frValue = satoshis\<rparr>]"
      have run: "fan_out_loop tb c mint count satoshis (minted + ?batch) ?rs = (rs, err)"
        using 1(2) True shape Inr by (simp add: fan_out_loop.simps [of tb c mint count satoshis minted] Let_def)
      have coins: "coins_of ?rs = unat (minted + ?batch)" using 1(5) b(2) by (simp add: coins_of_def)
      have rounds: "unat (minted + ?batch) = min (100 * length ?rs) (unat count)" using b(1,2) full lt by simp
      have each: "\<forall>r \<in> set ?rs. 0 < unat (frCoins r) \<and> unat (frCoins r) \<le> 100 \<and> frValue r = satoshis"
        using 1(7) b(1) lt by auto
      have le: "length ?rs \<le> (unat count + 99) div 100" "length results \<le> (unat count + 99) div 100"
        using full lt by simp_all
      have "\<not> \<not> minted < count" using True by simp
      note ih = 1(1) [OF this refl shape Inr run b(3) 1(4) coins rounds each]
      show ?thesis using ih unfolding max_absorb2 [OF le(1)] max_absorb2 [OF le(2)] .
    qed
  qed
qed

lemma rounds_word:
  fixes count :: u64
  assumes "unat count + 99 < 2 ^ 64"
  shows "(count + fanoutPerTx - 1) div fanoutPerTx = word_of_nat ((unat count + 99) div 100)"
proof -
  have e: "count + fanoutPerTx - 1 = count + 99" by (simp add: fanoutPerTx_def)
  have u: "unat (count + 99) = unat count + 99" using assms by (simp add: unat_word_ariths)
  have "unat ((count + fanoutPerTx - 1) div fanoutPerTx) = (unat count + 99) div 100"
    unfolding e by (simp add: unat_div u fanoutPerTx_def)
  then have "(word_of_nat (unat ((count + fanoutPerTx - 1) div fanoutPerTx)) :: u64) = word_of_nat ((unat count + 99) div 100)"
    by (simp only:)
  then show ?thesis by simp
qed

subsection \<open>Properties\<close>

text \<open>A fan-out mints what it was asked for, or says how far it got.  Every round mints at most a
  hundred coins of the asked value and at least one; without an error the coins add up to the count and
  the rounds are exactly the ones \<open>fanOutCost\<close> priced; with one, the results are the full rounds
  minted before it and the error carries their sum.\<close>

theorem fan_out_exact:
  assumes "FanOutFuel tb c mint count satoshis = (rs, err)" and "count \<noteq> 0" and "satoshis \<noteq> 0"
  shows "(\<forall>r \<in> set rs. 0 < unat (frCoins r) \<and> unat (frCoins r) \<le> 100 \<and> frValue r = satoshis)
    \<and> (case err of
         None \<Rightarrow> coins_of rs = unat count
           \<and> (unat count + 99 < 2 ^ 64 \<longrightarrow> fanOutCost c count = count * FuelDenomination c
                + word_of_nat (length rs) * (feeForBytes leafFanOutBytes (FeeSatPerKB c) + dustFloor (FeeSatPerKB c)))
       | Some e \<Rightarrow> coins_of rs = 100 * length rs \<and> coins_of rs < unat count
           \<and> (\<exists>msg. e = FanOutFailed (word_of_nat (coins_of rs)) count msg))"
proof -
  have run: "fan_out_loop tb c mint count satoshis 0 [] = (rs, err)"
    using assms by (simp add: FanOutFuel_def)
  have base: "(0 :: u64) \<le> count" "coins_of [] = unat (0 :: u64)" "unat (0 :: u64) = min (100 * length []) (unat count)"
    and none: "\<forall>r \<in> set []. 0 < unat (frCoins r) \<and> unat (frCoins r) \<le> 100 \<and> frValue r = satoshis"
    by (simp_all add: coins_of_def)
  note x = fan_out_loop_exact [OF run base(1) assms(3) base(2,3) none]
  then show ?thesis
  proof (cases err)
    case None
    then show ?thesis using x rounds_word [of count] by (simp add: fanOutCost_def Let_def)
  next
    case (Some e)
    note y = x [unfolded Some option.case]
    then have "coins_of rs = 100 * length rs" "100 * length rs < unat count" by simp_all
    then have "coins_of rs = 100 * length rs" "coins_of rs < unat count" by simp_all
    then show ?thesis unfolding Some option.case using y by blast
  qed
qed

text \<open>The exact cost of a cold start, in whole satoshis and without wrapping.\<close>

definition start_total :: "chain_config \<Rightarrow> u64 \<Rightarrow> nat" where
  "start_total c genesisSize =
     (let fee = FeeSatPerKB c; dust = 2 * unat (feeForBytes minSpendBytes fee) in
      unat (FirstFuelCoins c) * unat (FuelDenomination c)
      + (unat (FirstFuelCoins c) + 99) div 100 * (unat (feeForBytes leafFanOutBytes fee) + dust)
      + nat (cfCells c) * unat (cfCellSatoshis c) + unat (feeForBytes genesisSize fee) + dust)"

text \<open>Claim C26: the payment asked for starts the automaton.  As long as the sums stay in 64 bits,
  \<open>BootstrapMinimum\<close> is the cost of a cold start and a quarter on top, rounded down: at least the coins,
  the satoshis of the cells and, at the configured rate, the fee of every fan-out round and of a genesis
  transaction of the measured size.\<close>

theorem bootstrap_minimum_covers:
  assumes rate: "FeeSatPerKB c > 0" and size: "genesisSize \<noteq> 0" "unat genesisSize * nat (FeeSatPerKB c) < 2 ^ 50"
    and leaf: "unat leafFanOutBytes * nat (FeeSatPerKB c) < 2 ^ 50" and cells: "cfCells c \<ge> 0"
    and fits: "start_total c genesisSize * 125 < 2 ^ 64"
  shows "unat (BootstrapMinimum c genesisSize) = start_total c genesisSize + start_total c genesisSize div 4
    \<and> real (unat (FirstFuelCoins c)) * real (unat (FuelDenomination c))
        + real ((unat (FirstFuelCoins c) + 99) div 100) * (real (unat leafFanOutBytes) * real_of_int (FeeSatPerKB c) / 1000)
        + real_of_int (cfCells c) * real (unat (cfCellSatoshis c))
        + real (unat genesisSize) * real_of_int (FeeSatPerKB c) / 1000
      \<le> real (unat (BootstrapMinimum c genesisSize))"
proof -
  let ?fee = "FeeSatPerKB c"
  define k where "k = unat (FirstFuelCoins c)"
  define d where "d = unat (FuelDenomination c)"
  define w where "w = unat (feeForBytes minSpendBytes ?fee)"
  define l where "l = unat (feeForBytes leafFanOutBytes ?fee)"
  define g where "g = unat (feeForBytes genesisSize ?fee)"
  define m where "m = nat (cfCells c)"
  define s where "s = unat (cfCellSatoshis c)"
  define R where "R = (k + 99) div 100"
  define T where "T = start_total c genesisSize"
  have T: "T = k * d + R * (l + 2 * w) + m * s + g + 2 * w"
    by (simp add: T_def start_total_def Let_def k_def d_def w_def l_def g_def m_def s_def R_def)
  have leaf_size: "unat leafFanOutBytes = 3594" by (simp add: leafFanOutBytes_def fanoutPerTx_def)
  have least: "unat minSpendBytes * nat ?fee < 2 ^ 50" using leaf by (simp add: minSpendBytes_def leaf_size)
  have w: "1 \<le> w"
  proof -
    have "0 < \<lceil>real (unat minSpendBytes) * real_of_int ?fee / 1000\<rceil>" using rate by (simp add: minSpendBytes_def)
    also have "\<dots> \<le> uint (feeForBytes minSpendBytes ?fee)"
      using fee_bounds [OF rate least] by (simp add: minSpendBytes_def)
    finally have "0 < uint (feeForBytes minSpendBytes ?fee)" .
    then have "feeForBytes minSpendBytes ?fee \<noteq> 0" by auto
    then show ?thesis by (simp add: w_def unat_gt_0 Suc_le_eq)
  qed
  have lg: "real (unat leafFanOutBytes) * real_of_int ?fee / 1000 \<le> real l" "real (unat genesisSize) * real_of_int ?fee / 1000 \<le> real g"
  proof -
    have "leafFanOutBytes \<noteq> 0" using leaf_size by auto
    from fee_least [OF rate leaf this] fee_least [OF rate size(2,1)] show
      "real (unat leafFanOutBytes) * real_of_int ?fee / 1000 \<le> real l" "real (unat genesisSize) * real_of_int ?fee / 1000 \<le> real g"
      by (simp_all only: l_def g_def)
  qed
  have k: "k + 99 < 2 ^ 64"
  proof -
    have "k \<le> 100 * R" by (simp add: R_def)
    moreover have "R * 2 \<le> R * (l + 2 * w)" using w by simp
    ultimately have "k \<le> 50 * T" "2 \<le> T" using T w by linarith+
    then show ?thesis using fits T_def by linarith
  qed
  have fan: "fanOutCost c (FirstFuelCoins c) = word_of_nat (k * d + R * (l + 2 * w))"
  proof -
    have r: "(FirstFuelCoins c + fanoutPerTx - 1) div fanoutPerTx = word_of_nat R"
      unfolding R_def k_def by (rule rounds_word) (use k in \<open>simp only: k_def\<close>)
    have "word_of_nat k = FirstFuelCoins c" "word_of_nat d = FuelDenomination c"
      "word_of_nat l = feeForBytes leafFanOutBytes ?fee" "word_of_nat w = feeForBytes minSpendBytes ?fee"
      by (simp_all add: k_def d_def l_def w_def)
    then show ?thesis unfolding fanOutCost_def Let_def r dustFloor_def by (simp only: of_nat_add of_nat_mult of_nat_numeral)
  qed
  have gen: "GenesisCost c genesisSize = word_of_nat (m * s + g + 2 * w)"
  proof -
    have "(word_of_nat (nat (cfCells c)) :: u64) = word_of_int (int (nat (cfCells c)))" by (simp only: of_int_of_nat_eq)
    then have "word_of_nat m = (word_of_int (cfCells c) :: u64)" using cells by (simp only: m_def int_nat_eq if_True)
    moreover have "word_of_nat s = cfCellSatoshis c"
      "word_of_nat g = feeForBytes genesisSize ?fee" "word_of_nat w = feeForBytes minSpendBytes ?fee"
      by (simp_all add: s_def g_def w_def)
    ultimately show ?thesis unfolding GenesisCost_def dustFloor_def by (simp only: of_nat_add of_nat_mult of_nat_numeral)
  qed
  have tot: "fanOutCost c (FirstFuelCoins c) + GenesisCost c genesisSize = word_of_nat T"
    unfolding fan gen T by simp
  have "unat (word_of_nat T * 125 :: u64) = T * 125"
    using fits unfolding T_def [symmetric] by (simp add: unat_word_ariths unsigned_of_nat take_bit_nat_eq_self)
  then have b: "unat (BootstrapMinimum c genesisSize) = T * 125 div 100"
    unfolding BootstrapMinimum_def tot Let_def by (simp add: bootstrapHeadroomPercent_def unat_div)
  have "T * 125 div 100 = T + T div 4" by simp
  moreover have "real k * real d + real R * (real (unat leafFanOutBytes) * real_of_int ?fee / 1000)
      + real m * real s + real (unat genesisSize) * real_of_int ?fee / 1000 \<le> real T"
  proof -
    have "real R * (real (unat leafFanOutBytes) * real_of_int ?fee / 1000) \<le> real (R * (l + 2 * w))"
    proof -
      have "real R * real l \<le> real R * real (l + 2 * w)" by (intro mult_left_mono) simp_all
      then show ?thesis using mult_left_mono [OF lg(1), of "real R"] by (simp only: of_nat_mult) linarith
    qed
    then show ?thesis using lg(2) unfolding T by simp
  qed
  moreover have "real m = real_of_int (cfCells c)" using cells by (simp add: m_def)
  ultimately show ?thesis using b unfolding T_def [symmetric] by (simp add: k_def d_def R_def s_def)
qed

text \<open>The fee never falls short of the rate.  For every size and rate whose product is below
  \<open>2 ^ 50\<close>, the double-precision fee is at least the exact price rounded up, and at most one satoshi
  more; it is one more where the division leaves a remainder the exact price does not have.\<close>

theorem fee_within_a_satoshi:
  assumes "feeSatPerKB > 0" and "unat sizeBytes * nat feeSatPerKB < 2 ^ 50" and "sizeBytes \<noteq> 0"
  shows "\<lceil>real (unat sizeBytes) * real_of_int feeSatPerKB / 1000\<rceil> \<le> uint (feeForBytes sizeBytes feeSatPerKB)
     \<and> uint (feeForBytes sizeBytes feeSatPerKB) \<le> \<lceil>real (unat sizeBytes) * real_of_int feeSatPerKB / 1000\<rceil> + 1"
  by (rule fee_bounds [OF assms])

lemmas fee_eval = feeForBytes_def float_mult_def float_div_def float_of_def scaled_def round_div_def float_ceil_def
  bit_len_numeral Let_def

theorem fee_within_a_satoshi_witness:
  "feeForBytes 1100 100 = 111 \<and> \<lceil>real 1100 * real_of_int 100 / 1000\<rceil> = (110 :: int)
     \<and> uint (feeForBytes 1100 100) \<le> \<lceil>real 1100 * real_of_int 100 / 1000\<rceil> + 1"
proof -
  have "feeForBytes 1100 100 = 111" by (simp add: fee_eval)
  then show ?thesis using fee_within_a_satoshi [of 100 1100] by simp
qed

definition demo_toolbox :: toolbox where
  "demo_toolbox = \<lparr>PoolBasket = ''fuel'', ReserveBasket = ''reserve'', BasketNameForChange = ''default'',
     umCheck = (\<lambda>d n f. None)\<rparr>"

definition demo_config :: chain_config where
  "demo_config = (DefaultConfig ''tstn'')\<lparr>cfCells := 8, FirstFuelCoins := 16\<rparr>"

definition demo_mint :: "nat \<Rightarrow> shaped_change \<Rightarrow> string + txid" where
  "demo_mint k shape = (if k < 2 then Inr ''aa'' else Inl ''database is locked'')"

theorem fan_out_exact_witness:
  "case FanOutFuel demo_toolbox demo_config demo_mint 250 1000 of
     (rs, Some e) \<Rightarrow> coins_of rs = 200 \<and> (\<exists>msg. e = FanOutFailed 200 250 msg) | _ \<Rightarrow> False"
proof -
  let ?r = "FanOutFuel demo_toolbox demo_config demo_mint 250 1000"
  have "length (fst ?r) = 2 \<and> snd ?r \<noteq> None"
    by (simp add: FanOutFuel_def fan_out_loop.simps fuelShape_def demo_mint_def fanoutPerTx_def Let_def min_def)
  then obtain rs e where r: "?r = (rs, Some e)" "length rs = 2" by (cases ?r) auto
  from fan_out_exact [OF r(1)] r(2) show ?thesis unfolding r(1) by auto
qed

theorem bootstrap_minimum_covers_witness:
  "unat (BootstrapMinimum demo_config 9000) = start_total demo_config 9000 + start_total demo_config 9000 div 4"
proof -
  have "feeForBytes 192 125 = 24" "feeForBytes 3594 125 = 450" "feeForBytes 9000 125 = 1125"
    by (simp_all add: fee_eval)
  then have "start_total demo_config 9000 * 125 < 2 ^ 64"
    by (simp add: start_total_def demo_config_def DefaultConfig_def leafFanOutBytes_def fanoutPerTx_def minSpendBytes_def)
  from bootstrap_minimum_covers [OF _ _ _ _ _ this] show ?thesis
    by (simp add: demo_config_def DefaultConfig_def leafFanOutBytes_def fanoutPerTx_def)
qed

text \<open>A configuration that validates is one the engine can run.  The ring is a positive multiple of
  eight below the machine's bound, the lag, the first mint and the cell value are not zero, the rate and
  the appliers are positive, with a pool the smallest payment exceeds one coin, no address ends in a
  slash, and everything else is as it was given.\<close>

theorem validated_config:
  assumes v: "Validate parse network c = (c', None)" and int: "cfCells c < 2 ^ 63"
  shows "0 < cfCells c' \<and> 8 dvd cfCells c' \<and> MaxLag c' \<noteq> 0 \<and> FirstFuelCoins c' \<noteq> 0 \<and> cfCellSatoshis c' \<noteq> 0
    \<and> 0 < FeeSatPerKB c' \<and> 0 < ApplyConcurrency c' \<and> (Throughput c' \<longrightarrow> FuelDenomination c' < MinPaymentSatoshis c')
    \<and> (\<forall>u \<in> {ArcadeURL c', ChainTracksURL c', EventsURL c'}. \<not> has_suffix u ''/'')
    \<and> c' = c\<lparr>ArcadeURL := ArcadeURL c', ChainTracksURL := ChainTracksURL c', EventsURL := EventsURL c', MaxLag := MaxLag c',
          MinPaymentSatoshis := MinPaymentSatoshis c', FirstFuelCoins := FirstFuelCoins c'\<rparr>"
proof -
  have trim: "\<not> has_suffix (trim_slashes u) ''/''" for u
  proof -
    show ?thesis
    proof (cases "dropWhile (\<lambda>c. c = CHR ''/'') (rev u)")
      case Nil
      show ?thesis unfolding trim_slashes_def has_suffix_def Nil by simp
    next
      case (Cons x xs)
      then have "x \<noteq> CHR ''/''" by (simp add: dropWhile_eq_Cons_conv)
      then show ?thesis unfolding trim_slashes_def has_suffix_def Cons by simp
    qed
  qed
  have dvd: "0 < n \<Longrightarrow> n smod 8 = 0 \<Longrightarrow> 8 dvd n" for n :: int
    by (simp add: smod_nonneg dvd_eq_mod_eq_0)
  have coins: "2 * word_of_int n \<noteq> (0 :: u64)" if "0 < n" "n < 2 ^ 63" for n
  proof
    assume "2 * word_of_int n = (0 :: u64)"
    then have "uint (word_of_int (2 * n) :: u64) = 0" by simp
    moreover have "uint (word_of_int (2 * n) :: u64) = 2 * n"
      using that by (simp add: uint_word_of_int_eq take_bit_int_eq_self del: of_int_mult)
    ultimately show False using that by simp
  qed
  let ?c2 = "fillLag (trimURLs c)"
  have ok: "c' = fillPayments ?c2" "0 < cfCells (trimURLs c)" "cfCells (trimURLs c) smod 8 = 0" "cfCellSatoshis (trimURLs c) \<noteq> 0"
    "0 < FeeSatPerKB ?c2" "0 < ApplyConcurrency ?c2" "Throughput c' \<longrightarrow> FuelDenomination c' < MinPaymentSatoshis c'"
    using v by (auto simp: Validate_def Let_def not_le split: if_splits sum.splits prod.splits)
  have lag: "MaxLag ?c2 \<noteq> 0" by (simp add: fillLag_def DefaultConfig_def)
  have keep: "cfCells ?c2 = cfCells c" "cfCellSatoshis ?c2 = cfCellSatoshis c" "cfCells (trimURLs c) = cfCells c"
    "cfCellSatoshis (trimURLs c) = cfCellSatoshis c"
    by (simp_all add: fillLag_def trimURLs_def)
  have pay: "MaxLag (fillPayments d) = MaxLag d \<and> cfCells (fillPayments d) = cfCells d \<and> cfCellSatoshis (fillPayments d) = cfCellSatoshis d
      \<and> FeeSatPerKB (fillPayments d) = FeeSatPerKB d \<and> ApplyConcurrency (fillPayments d) = ApplyConcurrency d
      \<and> ArcadeURL (fillPayments d) = ArcadeURL d \<and> ChainTracksURL (fillPayments d) = ChainTracksURL d \<and> EventsURL (fillPayments d) = EventsURL d
      \<and> FirstFuelCoins (fillPayments d) = (if FirstFuelCoins d = 0 then 2 * word_of_int (cfCells d) else FirstFuelCoins d)" for d
    by (simp add: fillPayments_def Let_def)
  have urls: "ArcadeURL ?c2 = trim_slashes (ArcadeURL c)" "ChainTracksURL ?c2 = trim_slashes (ChainTracksURL c)"
    "EventsURL ?c2 = trim_slashes (EventsURL c)"
    by (simp_all add: fillLag_def trimURLs_def)
  have "c' = c\<lparr>ArcadeURL := ArcadeURL c', ChainTracksURL := ChainTracksURL c', EventsURL := EventsURL c', MaxLag := MaxLag c',
          MinPaymentSatoshis := MinPaymentSatoshis c', FirstFuelCoins := FirstFuelCoins c'\<rparr>"
    unfolding ok(1) by (simp add: fillPayments_def fillLag_def trimURLs_def Let_def)
  moreover have "FirstFuelCoins c' \<noteq> 0" using coins [of "cfCells c"] ok(2) int keep pay unfolding ok(1) by simp
  ultimately show ?thesis
    using ok lag keep pay [of ?c2] dvd [of "cfCells c"] trim urls by simp
qed

theorem validated_config_witness:
  "\<exists>c'. Validate (\<lambda>u. Inr (''https'', ''arcade'')) (\<lambda>n. None) ((DefaultConfig ''tstn'')\<lparr>ArcadeURL := ''https://arcade/''\<rparr>) = (c', None)
     \<and> FuelDenomination c' < MinPaymentSatoshis c' \<and> MaxLag c' \<noteq> 0"
proof -
  let ?c = "(DefaultConfig ''tstn'')\<lparr>ArcadeURL := ''https://arcade/''\<rparr>"
  have "snd (Validate (\<lambda>u. Inr (''https'', ''arcade'')) (\<lambda>n. None) ?c) = None" by code_simp
  then obtain c' where v: "Validate (\<lambda>u. Inr (''https'', ''arcade'')) (\<lambda>n. None) ?c = (c', None)" by (metis prod.collapse)
  have "cfCells ?c < 2 ^ 63" by (simp add: DefaultConfig_def)
  note ok = validated_config [OF v this]
  then have "Throughput c' \<longrightarrow> FuelDenomination c' < MinPaymentSatoshis c'" "MaxLag c' \<noteq> 0" by blast+
  moreover have "Throughput c' = Throughput ?c"
  proof -
    have "c' = ?c\<lparr>ArcadeURL := ArcadeURL c', ChainTracksURL := ChainTracksURL c', EventsURL := EventsURL c',
        MaxLag := MaxLag c', MinPaymentSatoshis := MinPaymentSatoshis c', FirstFuelCoins := FirstFuelCoins c'\<rparr>"
      using ok by blast
    from arg_cong [where f = Throughput, OF this] show ?thesis by simp
  qed
  moreover have "Throughput ?c" by (simp add: DefaultConfig_def)
  ultimately show ?thesis using v by blast
qed

end
