(* ===== verification/ColdStart.thy ===== *)
theory ColdStart
  imports Costs
begin

text \<open>
  The cold start, \<open>internal/boot/boot.go\<close>: waiting for money, minting fuel and creating generation 0
  while the interface is served.  The state holds the bootstrapper, the wallet's state file and a log
  of the calls that spend; one pass of the machine takes what the world answers in it.
\<close>

subsection \<open>State\<close>

datatype phase = PhaseWaiting | PhaseFunding | PhaseFuel | PhaseGenesis | PhaseReady

record boot_options =
  boSeed :: row
  boThroughput :: bool
  boFuelDenomination :: u64
  boFirstFuelCoins :: u64
  boMinBootstrap :: u64
  boNetwork :: string
  boLockControls :: bool

text \<open>The snapshot the interface is given before there is an engine.\<close>

record boot_view =
  bvCells :: int
  bvRule :: rule
  bvMode :: mode
  bvAddress :: string
  bvBalance :: u64
  bvReserve :: u64
  bvPoolCoins :: int
  bvLocked :: bool
  bvPhase :: phase
  bvNetwork :: string
  bvMinSatoshis :: u64
  bvHave :: u64
  bvErr :: string

text \<open>A call that spends: a fan-out with its rounds, a genesis with what \<open>CreateAction\<close> was asked for.\<close>

datatype spending = SpentFuel "fuel_result list" | SpentGenesis "genesis_output list"

text \<open>\<open>bTarget\<close> is the funding address, \<open>bEngine\<close> the adopted engine, \<open>bPublished\<close> the last frame and
  \<open>bWakes\<close> how often the subscribers were woken; \<open>bFile\<close> and \<open>bSpent\<close> belong to the wallet.\<close>

record boot =
  bPhase :: phase
  bFunds :: funds
  bErr :: string
  bTarget :: "string option"
  bEngine :: "engine option"
  bPublished :: "boot_view option"
  bWakes :: nat
  bFile :: state_file
  bSpent :: "spending list"

text \<open>The wallet the cold start is given: the toolbox and configuration behind it, the parser of the
  signed genesis, and the texts of its errors.\<close>

record boot_env =
  beToolbox :: toolbox
  beConfig :: chain_config
  beCompiled :: compiled
  beParseBEEF :: "bytes \<Rightarrow> string + tx"
  beFuelText :: "fuel_error \<Rightarrow> string"
  beGenesisText :: "genesis_error \<Rightarrow> string"
  beOptions :: boot_options

text \<open>What the world answers during one pass.\<close>

record pass_world =
  pwLeader :: bool
  pwFunds :: "string + funds"
  pwMint :: "nat \<Rightarrow> shaped_change \<Rightarrow> string + txid"
  pwCreate :: "genesis_output list \<Rightarrow> string + txid \<times> bytes"

subsection \<open>Publishing\<close>

definition boot_snapshot :: "boot_env \<Rightarrow> boot \<Rightarrow> boot_view" where
  "boot_snapshot E b =
     (let address = (case bTarget b of None \<Rightarrow> '''' | Some a \<Rightarrow> a) in
      \<lparr>bvCells = cells (beCompiled E), bvRule = crule (beCompiled E), bvMode = ModePaused, bvAddress = address,
       bvBalance = Spendable (bFunds b), bvReserve = Reserve (bFunds b), bvPoolCoins = PoolCoins (bFunds b),
       bvLocked = boLockControls (beOptions E), bvPhase = bPhase b, bvNetwork = boNetwork (beOptions E),
       bvMinSatoshis = boMinBootstrap (beOptions E), bvHave = Spendable (bFunds b) + Reserve (bFunds b), bvErr = bErr b\<rparr>)"

definition notify :: "boot \<Rightarrow> boot" where
  "notify b = b\<lparr>bWakes := bWakes b + 1\<rparr>"

definition publish :: "boot_env \<Rightarrow> boot \<Rightarrow> boot" where
  "publish E b = notify (b\<lparr>bPublished := Some (boot_snapshot E b)\<rparr>)"

definition setPhase :: "boot_env \<Rightarrow> phase \<Rightarrow> string \<Rightarrow> boot \<Rightarrow> boot" where
  "setPhase E p msg b =
     (if bPhase b = p \<and> bErr b = msg then b else publish E (b\<lparr>bPhase := p, bErr := msg\<rparr>))"

definition setFunds :: "boot_env \<Rightarrow> funds \<Rightarrow> boot \<Rightarrow> boot" where
  "setFunds E f b = (if bFunds b = f then b else publish E (b\<lparr>bFunds := f\<rparr>))"

definition new_boot :: "boot_env \<Rightarrow> string option \<Rightarrow> state_file \<Rightarrow> boot" where
  "new_boot E target file =
     publish E \<lparr>bPhase = PhaseFunding, bFunds = \<lparr>Spendable = 0, Reserve = 0, PoolCoins = 0\<rparr>, bErr = '''', bTarget = target,
       bEngine = None, bPublished = None, bWakes = 0, bFile = file, bSpent = []\<rparr>"

subsection \<open>The machine\<close>

definition isAlreadyBootstrapped :: "string \<Rightarrow> bool" where
  "isAlreadyBootstrapped err = str_contains err ''already had a genesis''"

text \<open>The wallet's two spending operations, entering their calls in the log.\<close>

definition wallet_FanOutFuel :: "boot_env \<Rightarrow> pass_world \<Rightarrow> boot \<Rightarrow> fuel_error option \<times> boot" where
  "wallet_FanOutFuel E w b =
     (let opts = beOptions E in
      case FanOutFuel (beToolbox E) (beConfig E) (pwMint w) (boFirstFuelCoins opts) (boFuelDenomination opts) of
        (rs, err) \<Rightarrow> (err, b\<lparr>bSpent := bSpent b @ [SpentFuel rs]\<rparr>))"

definition genesis_asked :: "compiled \<Rightarrow> row \<Rightarrow> u64 \<Rightarrow> state_file \<Rightarrow> spending list" where
  "genesis_asked c seed sats file =
     (if Cells seed \<noteq> cells c \<or> file \<noteq> NoState then []
      else case genesis_outputs c seed sats [0..cells c - 1] of Inl _ \<Rightarrow> [] | Inr outs \<Rightarrow> [SpentGenesis outs])"

definition wallet_Genesis :: "boot_env \<Rightarrow> pass_world \<Rightarrow> boot \<Rightarrow> (genesis_error + deployment) \<times> boot" where
  "wallet_Genesis E w b =
     (let c = beCompiled E; seed = boSeed (beOptions E); sats = cfCellSatoshis (beConfig E) in
      case Genesis (pwCreate w) (beParseBEEF E) sats c seed (bFile b) of
        (r, file) \<Rightarrow> (r, b\<lparr>bFile := file, bSpent := bSpent b @ genesis_asked c seed sats (bFile b)\<rparr>))"

definition make_genesis :: "boot_env \<Rightarrow> pass_world \<Rightarrow> boot \<Rightarrow> deployment option \<times> boot" where
  "make_genesis E w b =
     (case wallet_Genesis E w (setPhase E PhaseGenesis '''' b) of
        (Inr d, b) \<Rightarrow> (Some d, b)
      | (Inl e, b) \<Rightarrow>
         if isAlreadyBootstrapped (beGenesisText E e) \<and> LoadDeployment (bFile b) \<noteq> None then (LoadDeployment (bFile b), b)
         else (None, setPhase E PhaseFunding (beGenesisText E e) b))"

text \<open>One pass.  The third component is the error \<open>Run\<close> looks at.\<close>

definition attempt :: "boot_env \<Rightarrow> pass_world \<Rightarrow> boot \<Rightarrow> deployment option \<times> string option \<times> boot" where
  "attempt E w b =
     (let opts = beOptions E in
      if \<not> pwLeader w then (None, None, setPhase E PhaseWaiting '''' b)
      else case pwFunds w of
        Inl e \<Rightarrow> (None, Some e, setPhase E PhaseFunding e b)
      | Inr funds \<Rightarrow>
         (let b = setFunds E funds b in
          if Spendable funds + Reserve funds < boMinBootstrap opts
          then (None, None, setPhase E PhaseFunding '''' b)
          else if boThroughput opts \<and> PoolCoins funds < sint (boFirstFuelCoins opts) then
            (case wallet_FanOutFuel E w (setPhase E PhaseFuel '''' b) of
               (Some e, b) \<Rightarrow> (None, None, setPhase E PhaseFunding (beFuelText E e) b)
             | (None, b) \<Rightarrow> (case make_genesis E w b of (d, b) \<Rightarrow> (d, None, b)))
          else (case make_genesis E w b of (d, b) \<Rightarrow> (d, None, b))))"

text \<open>\<open>Run\<close>: the passes until a deployment exists; running out of them is the context ending.\<close>

fun boot_loop :: "boot_env \<Rightarrow> pass_world list \<Rightarrow> boot \<Rightarrow> deployment option \<times> boot" where
  "boot_loop E [] b = (None, b)"
| "boot_loop E (w # ws) b =
     (case attempt E w b of
        (Some d, err, b) \<Rightarrow> (Some d, setPhase E PhaseReady '''' b)
      | (None, err, b) \<Rightarrow> boot_loop E ws b)"

definition boot_Run :: "boot_env \<Rightarrow> pass_world list \<Rightarrow> boot \<Rightarrow> deployment option \<times> boot" where
  "boot_Run E ws b =
     (case LoadDeployment (bFile b) of
        Some d \<Rightarrow> (Some d, setPhase E PhaseReady '''' b)
      | None \<Rightarrow> boot_loop E ws b)"

subsection \<open>Standing in for the engine\<close>

definition Adopt :: "engine \<Rightarrow> boot \<Rightarrow> boot" where
  "Adopt e b = notify (b\<lparr>bEngine := Some e\<rparr>)"

datatype shown = FromEngine snapshot | FromBoot boot_view

definition boot_Snapshot :: "boot_env \<Rightarrow> boot \<Rightarrow> shown" where
  "boot_Snapshot E b = (case bEngine b of Some e \<Rightarrow> FromEngine (Snapshot e) | None \<Rightarrow> FromBoot (boot_snapshot E b))"

definition boot_SetMode :: "mode \<Rightarrow> boot \<Rightarrow> boot" where
  "boot_SetMode m b = (case bEngine b of Some e \<Rightarrow> b\<lparr>bEngine := Some (SetMode m e)\<rparr> | None \<Rightarrow> b)"

definition boot_SetRate :: "rat \<Rightarrow> boot \<Rightarrow> boot" where
  "boot_SetRate r b = (case bEngine b of Some e \<Rightarrow> b\<lparr>bEngine := Some (SetRate r e)\<rparr> | None \<Rightarrow> b)"

definition boot_Step :: "boot \<Rightarrow> boot" where
  "boot_Step b = (case bEngine b of Some e \<Rightarrow> b\<lparr>bEngine := Some (StepClock e)\<rparr> | None \<Rightarrow> b)"

lemma FanOutFuel_all:
  assumes "FanOutFuel tb c mint count satoshis = (rs, None)" and "count \<noteq> 0" and "satoshis \<noteq> 0"
  shows "coins_of rs = unat count"
proof -
  have run: "fan_out_loop tb c mint count satoshis 0 [] = (rs, None)" using assms by (simp add: FanOutFuel_def)
  have base: "(0 :: u64) \<le> count" "coins_of [] = unat (0 :: u64)" "unat (0 :: u64) = min (100 * length []) (unat count)"
    and none: "\<forall>r \<in> set []. 0 < unat (frCoins r) \<and> unat (frCoins r) \<le> 100 \<and> frValue r = satoshis"
    by (simp_all add: coins_of_def)
  show ?thesis using fan_out_loop_exact [OF run base(1) assms(3) base(2,3) none] by simp
qed

subsection \<open>What a pass can do\<close>

lemma notify_fields [simp]: "bSpent (notify b) = bSpent b" "bFile (notify b) = bFile b" "bPhase (notify b) = bPhase b"
  by (simp_all add: notify_def)

lemma setPhase_fields [simp]: "bSpent (setPhase E p msg b) = bSpent b" "bFile (setPhase E p msg b) = bFile b"
    "bPhase (setPhase E p msg b) = p" "bEngine (setPhase E p msg b) = bEngine b"
  by (simp_all add: setPhase_def publish_def notify_def)

lemma setFunds_fields [simp]: "bSpent (setFunds E f b) = bSpent b" "bFile (setFunds E f b) = bFile b"
    "bEngine (setFunds E f b) = bEngine b"
  by (simp_all add: setFunds_def publish_def notify_def)

lemma Genesis_file:
  assumes "Genesis create parse sats c seed file = (r, file')"
  shows "(file \<noteq> NoState \<longrightarrow> file' = file \<and> (\<exists>e. r = Inl e)) \<and> (\<forall>d. r = Inr d \<longrightarrow> file' = StateOf d \<and> genesis_asked c seed sats file \<noteq> [])
    \<and> (\<forall>e. r = Inl e \<longrightarrow> file' = file)"
  using assms by (auto simp: Genesis_def genesis_asked_def Let_def split: if_splits sum.splits option.splits prod.splits)

text \<open>What creating generation 0 enters in the log, and what it leaves in the file.\<close>

lemma make_genesis_ok:
  assumes "make_genesis E w b = (d, b')"
  shows "bSpent b' = bSpent b @ genesis_asked (beCompiled E) (boSeed (beOptions E)) (cfCellSatoshis (beConfig E)) (bFile b)
    \<and> (d = None \<longrightarrow> bFile b' = bFile b) \<and> (\<forall>x. d = Some x \<longrightarrow> bFile b' = StateOf x)
    \<and> (bFile b' \<noteq> bFile b \<longrightarrow> bFile b = NoState
        \<and> genesis_asked (beCompiled E) (boSeed (beOptions E)) (cfCellSatoshis (beConfig E)) (bFile b) \<noteq> [])"
proof -
  let ?b = "setPhase E PhaseGenesis '''' b"
  let ?c = "beCompiled E" and ?seed = "boSeed (beOptions E)" and ?sats = "cfCellSatoshis (beConfig E)"
  obtain r fl where g: "Genesis (pwCreate w) (beParseBEEF E) ?sats ?c ?seed (bFile b) = (r, fl)" by fastforce
  note f = Genesis_file [OF g]
  have wg: "wallet_Genesis E w ?b = (r, ?b\<lparr>bFile := fl, bSpent := bSpent b @ genesis_asked ?c ?seed ?sats (bFile b)\<rparr>)"
    using g by (simp add: wallet_Genesis_def Let_def)
  show ?thesis
  proof (cases r)
    case (Inr x)
    then show ?thesis using assms wg f by (auto simp: make_genesis_def)
  next
    case (Inl e)
    then have "fl = bFile b" using f by simp
    then show ?thesis using assms wg Inl by (auto simp: make_genesis_def split: if_splits)
  qed
qed

lemma genesis_asked_cases:
  "genesis_asked c seed sats file = [] \<or> file = NoState \<and> Cells seed = cells c
     \<and> (\<exists>outs. genesis_outputs c seed sats [0..cells c - 1] = Inr outs \<and> genesis_asked c seed sats file = [SpentGenesis outs])"
  by (auto simp: genesis_asked_def split: sum.splits)

definition funded :: "boot_env \<Rightarrow> pass_world \<Rightarrow> bool" where
  "funded E w \<longleftrightarrow> pwLeader w \<and> (\<exists>f. pwFunds w = Inr f \<and> boMinBootstrap (beOptions E) \<le> Spendable f + Reserve f)"

text \<open>Whether the pool is filled: by the funds read, or by a fan-out of this very pass.\<close>

definition fuelled :: "boot_env \<Rightarrow> pass_world \<Rightarrow> spending list \<Rightarrow> bool" where
  "fuelled E w fuel \<longleftrightarrow> (\<exists>f. pwFunds w = Inr f \<and> sint (boFirstFuelCoins (beOptions E)) \<le> PoolCoins f)
     \<or> (\<exists>rs. fuel = [SpentFuel rs] \<and> coins_of rs = unat (boFirstFuelCoins (beOptions E)))"

lemma attempt_spends:
  assumes "attempt E w b = (d, err, b')"
  shows "\<exists>fuel gen. bSpent b' = bSpent b @ fuel @ gen
    \<and> (fuel @ gen \<noteq> [] \<longrightarrow> funded E w) \<and> (fuel = [] \<or> (\<exists>rs. fuel = [SpentFuel rs]))
    \<and> (gen \<noteq> [] \<longrightarrow> bFile b = NoState \<and> (\<exists>outs. gen = [SpentGenesis outs]) \<and> (boThroughput (beOptions E) \<longrightarrow> fuelled E w fuel))
    \<and> (\<forall>x. d = Some x \<longrightarrow> bFile b' = StateOf x) \<and> (bFile b' \<noteq> bFile b \<longrightarrow> bFile b = NoState \<and> d \<noteq> None \<and> gen \<noteq> [])"
proof -
  let ?opts = "beOptions E"
  let ?asked = "genesis_asked (beCompiled E) (boSeed ?opts) (cfCellSatoshis (beConfig E)) (bFile b)"
  have none: ?thesis if "bSpent b' = bSpent b" "bFile b' = bFile b" "d = None"
    using that by (intro exI [of _ "[]"]) simp
  show ?thesis
  proof (cases "funded E w")
    case False
    then have "\<not> pwLeader w \<or> (\<exists>e. pwFunds w = Inl e)
      \<or> (\<exists>f. pwFunds w = Inr f \<and> Spendable f + Reserve f < boMinBootstrap ?opts)"
      by (cases "pwFunds w") (auto simp: funded_def not_le)
    then show ?thesis using assms by (intro none) (auto simp: attempt_def Let_def split: if_splits)
  next
    case True
    then obtain f where f: "pwLeader w" "pwFunds w = Inr f" "\<not> Spendable f + Reserve f < boMinBootstrap ?opts"
      by (auto simp: funded_def not_less)
    let ?b = "setFunds E f b"
    have made: ?thesis if g: "make_genesis E w b0 = (d, b')" and s: "bSpent b0 = bSpent b @ fuel" "bFile b0 = bFile b"
      and u: "fuel = [] \<or> (\<exists>rs. fuel = [SpentFuel rs])" "boThroughput ?opts \<longrightarrow> fuelled E w fuel" for b0 fuel
    proof -
      note m = make_genesis_ok [OF g]
      have a: "?asked = [] \<or> bFile b = NoState \<and> (\<exists>outs. ?asked = [SpentGenesis outs])"
        using genesis_asked_cases by blast
      have "d \<noteq> None" if "bFile b' \<noteq> bFile b" using m s(2) that by auto
      then show ?thesis using m s u a True by (intro exI [of _ fuel] exI [of _ ?asked]) (auto simp: s)
    qed
    show ?thesis
    proof (cases "boThroughput ?opts \<and> PoolCoins f < sint (boFirstFuelCoins ?opts)")
      case False
      then have g: "make_genesis E w ?b = (d, b')"
        using assms f by (cases "make_genesis E w ?b") (simp add: attempt_def Let_def del: de_Morgan_conj)
      have "boThroughput ?opts \<longrightarrow> fuelled E w []" using False f by (auto simp: fuelled_def)
      then show ?thesis using made [OF g, of "[]"] by simp
    next
      case mint: True
      obtain rs e where r: "FanOutFuel (beToolbox E) (beConfig E) (pwMint w) (boFirstFuelCoins ?opts) (boFuelDenomination ?opts) = (rs, e)"
        by fastforce
      let ?b1 = "(setPhase E PhaseFuel '''' ?b)\<lparr>bSpent := bSpent b @ [SpentFuel rs]\<rparr>"
      have wf: "wallet_FanOutFuel E w (setPhase E PhaseFuel '''' ?b) = (e, ?b1)" using r by (simp add: wallet_FanOutFuel_def Let_def)
      show ?thesis
      proof (cases e)
        case (Some x)
        then have "d = None" "b' = setPhase E PhaseFunding (beFuelText E x) ?b1"
          using assms f mint wf by (simp_all add: attempt_def Let_def)
        then show ?thesis using True by (intro exI [of _ "[SpentFuel rs]"] exI [of _ "[]"]) simp
      next
        case None
        then have g: "make_genesis E w ?b1 = (d, b')"
          using assms f mint wf by (simp add: attempt_def Let_def split: prod.splits)
        have nz: "boFirstFuelCoins ?opts \<noteq> 0" "boFuelDenomination ?opts \<noteq> 0"
          using r None by (auto simp: FanOutFuel_def split: if_splits)
        have "coins_of rs = unat (boFirstFuelCoins ?opts)" using FanOutFuel_all [OF r [unfolded None] nz] .
        then have "fuelled E w [SpentFuel rs]" by (auto simp: fuelled_def)
        then show ?thesis using made [OF g, of "[SpentFuel rs]"] by simp
      qed
    qed
  qed
qed

text \<open>A run, pass by pass: the passes it took, with the fuel and the genesis each paid for.\<close>

type_synonym boot_part = "pass_world \<times> spending list \<times> spending list"

definition part_ok :: "boot_env \<Rightarrow> boot_part \<Rightarrow> bool" where
  "part_ok E = (\<lambda>(w, fuel, gen). (fuel @ gen \<noteq> [] \<longrightarrow> funded E w) \<and> (fuel = [] \<or> (\<exists>rs. fuel = [SpentFuel rs]))
     \<and> (gen \<noteq> [] \<longrightarrow> (\<exists>outs. gen = [SpentGenesis outs]) \<and> (boThroughput (beOptions E) \<longrightarrow> fuelled E w fuel)))"

definition paid :: "boot_part list \<Rightarrow> spending list" where
  "paid parts = concat (map (\<lambda>(w, fuel, gen). fuel @ gen) parts)"

lemma boot_loop_parts:
  "boot_loop E ws b = (d, b') \<Longrightarrow> LoadDeployment (bFile b) = None \<Longrightarrow>
   \<exists>parts. map fst parts = take (length parts) ws \<and> bSpent b' = bSpent b @ paid parts \<and> list_all (part_ok E) parts
     \<and> (\<forall>x. d = Some x \<longrightarrow> bFile b' = StateOf x \<and> bPhase b' = PhaseReady) \<and> (d = None \<longrightarrow> bFile b' = bFile b)
     \<and> (bFile b \<noteq> NoState \<longrightarrow> d = None \<and> (\<forall>(w, fuel, gen) \<in> set parts. gen = []))"
proof (induction E ws b rule: boot_loop.induct)
  case (1 E b)
  then show ?case by (intro exI [of _ "[]"]) (auto simp: paid_def)
next
  case (2 E w ws b)
  obtain d1 err b1 where a: "attempt E w b = (d1, err, b1)" by (metis prod.exhaust)
  obtain fuel gen where s: "bSpent b1 = bSpent b @ fuel @ gen" "part_ok E (w, fuel, gen)"
    "\<forall>x. d1 = Some x \<longrightarrow> bFile b1 = StateOf x" "bFile b1 \<noteq> bFile b \<longrightarrow> d1 \<noteq> None \<and> bFile b = NoState"
    "gen \<noteq> [] \<longrightarrow> bFile b = NoState"
    using attempt_spends [OF a] unfolding part_ok_def by auto
  show ?case
  proof (cases d1)
    case (Some x)
    then have "d = Some x" "b' = setPhase E PhaseReady '''' b1" using 2(2) a by simp_all
    moreover have "bFile b = NoState" using s(3,4) Some 2(3) by (cases "bFile b1 = bFile b") auto
    ultimately show ?thesis using s Some by (intro exI [of _ "[(w, fuel, gen)]"]) (simp add: paid_def)
  next
    case None
    then have run: "boot_loop E ws b1 = (d, b')" and same: "bFile b1 = bFile b" using 2(2) a s(4) by auto
    then obtain parts where "map fst parts = take (length parts) ws" "bSpent b' = bSpent b1 @ paid parts"
      "list_all (part_ok E) parts" "\<forall>x. d = Some x \<longrightarrow> bFile b' = StateOf x \<and> bPhase b' = PhaseReady" "d = None \<longrightarrow> bFile b' = bFile b1"
      "bFile b1 \<noteq> NoState \<longrightarrow> d = None \<and> (\<forall>(w, fuel, gen) \<in> set parts. gen = [])"
      using 2(1) [OF a [symmetric] None refl run] 2(3) by auto
    then show ?thesis using s same by (intro exI [of _ "(w, fuel, gen) # parts"]) (auto simp: paid_def)
  qed
qed

lemma fan_out_loop_ok:
  assumes "\<forall>k shape. \<exists>tid. mint k shape = Inr tid" and "satoshis \<noteq> 0"
  shows "snd (fan_out_loop tb c mint count satoshis minted results) = None"
  using assms
proof (induction tb c mint count satoshis minted results rule: fan_out_loop.induct)
  case (1 tb c mint count satoshis minted results)
  show ?case
  proof (cases "minted < count")
    case False
    then show ?thesis by (simp add: fan_out_loop.simps)
  next
    case True
    then obtain shape where "fuelShape tb c (min (count - minted) fanoutPerTx) satoshis = Inr shape"
      using batch_step(4) [OF True] 1(3) by (auto simp: fuelShape_def)
    moreover obtain tid where "mint (length results) shape = Inr tid" using 1(2) by blast
    ultimately show ?thesis
      using 1(1) [OF _ refl] True 1(2,3) by (simp add: fan_out_loop.simps [of tb c mint count satoshis minted] Let_def)
  qed
qed

text \<open>A pass in which everything is there: money, a leader, a wallet that mints and creates.\<close>

definition willing :: "boot_env \<Rightarrow> pass_world \<Rightarrow> bool" where
  "willing E w \<longleftrightarrow> (let o' = beOptions E; c = beCompiled E; sats = cfCellSatoshis (beConfig E) in
     funded E w \<and> boFirstFuelCoins o' \<noteq> 0 \<and> boFuelDenomination o' \<noteq> 0 \<and> (\<forall>k shape. \<exists>tid. pwMint w k shape = Inr tid)
   \<and> Cells (boSeed o') = cells c
   \<and> (\<exists>outs tid beef. genesis_outputs c (boSeed o') sats [0..cells c - 1] = Inr outs \<and> pwCreate w outs = Inr (tid, beef)
        \<and> verifyGenesisLayout (beParseBEEF E) beef c (boSeed o') sats = None))"

lemma willing_attempt:
  assumes "willing E w" and "bFile b = NoState"
  shows "\<exists>d err b'. attempt E w b = (Some d, err, b')"
proof -
  note wl = assms(1) [unfolded willing_def Let_def]
  obtain f where f: "pwLeader w" "pwFunds w = Inr f" "\<not> Spendable f + Reserve f < boMinBootstrap (beOptions E)"
    using wl by (auto simp: funded_def not_less)
  have made: "\<exists>d b'. make_genesis E w b0 = (Some d, b')" if "bFile b0 = NoState" for b0
    using wl that by (auto simp: make_genesis_def wallet_Genesis_def Genesis_def Let_def)
  show ?thesis
  proof (cases "boThroughput (beOptions E) \<and> PoolCoins f < sint (boFirstFuelCoins (beOptions E))")
    case False
    obtain d b' where "make_genesis E w (setFunds E f b) = (Some d, b')" using made [of "setFunds E f b"] assms(2) by auto
    then show ?thesis using f False by (simp add: attempt_def Let_def del: de_Morgan_conj)
  next
    case True
    obtain rs where r: "FanOutFuel (beToolbox E) (beConfig E) (pwMint w) (boFirstFuelCoins (beOptions E))
        (boFuelDenomination (beOptions E)) = (rs, None)"
    proof -
      have "snd (FanOutFuel (beToolbox E) (beConfig E) (pwMint w) (boFirstFuelCoins (beOptions E))
        (boFuelDenomination (beOptions E))) = None"
        using wl fan_out_loop_ok [of "pwMint w"] by (simp add: FanOutFuel_def)
      then show ?thesis using that by (metis prod.collapse)
    qed
    let ?b1 = "(setPhase E PhaseFuel '''' (setFunds E f b))\<lparr>bSpent := bSpent b @ [SpentFuel rs]\<rparr>"
    obtain d b' where "make_genesis E w ?b1 = (Some d, b')" using made [of ?b1] assms(2) by auto
    then show ?thesis using f True r by (simp add: attempt_def wallet_FanOutFuel_def Let_def)
  qed
qed

subsection \<open>Properties\<close>

text \<open>Claim C23: a cold start spends only when it should.  A run over a volume whose deployment loads spends
  nothing and returns it.  Otherwise everything it paid for splits into its passes, in order: a pass
  pays only as leader and with the minimum read in its funds, fuel before genesis, and for a genesis
  only when, under the pool strategy, the pool was read full or filled in that pass.  What it returns is
  what the state file holds, and it then reports itself ready; a run that returns nothing leaves the file as it was.
  Over a file that is there but does not load, or cannot be looked at, no run ever pays for a genesis or returns.\<close>

theorem cold_start_spends_safely:
  assumes "boot_Run E ws b = (d, b')"
  shows "(\<forall>x. bFile b = StateOf x \<longrightarrow> d = Some x \<and> bSpent b' = bSpent b)
    \<and> (\<exists>parts. map fst parts = take (length parts) ws \<and> bSpent b' = bSpent b @ paid parts \<and> list_all (part_ok E) parts
        \<and> (bFile b \<noteq> NoState \<longrightarrow> (\<forall>(w, fuel, gen) \<in> set parts. gen = [])))
    \<and> (\<forall>x. d = Some x \<longrightarrow> bFile b' = StateOf x \<and> bPhase b' = PhaseReady) \<and> (d = None \<longrightarrow> bFile b' = bFile b)
    \<and> (bFile b \<noteq> NoState \<and> LoadDeployment (bFile b) = None \<longrightarrow> d = None)"
proof (cases "LoadDeployment (bFile b)")
  case None
  then have "boot_loop E ws b = (d, b')" using assms by (simp add: boot_Run_def)
  from boot_loop_parts [OF this None] show ?thesis using None by auto
next
  case (Some x)
  then show ?thesis using assms by (auto simp: boot_Run_def paid_def intro!: exI [of _ "[]"])
qed

text \<open>Claim C24: money starts the automaton.  Over a volume without a state file, or with one that loads, as soon as a
  run comes to a pass in which this instance leads, the minimum has arrived and the wallet mints and creates as asked,
  if not before, it returns a deployment, recorded in the state file.\<close>

theorem funded_leader_starts:
  assumes "willing E w" and "w \<in> set ws" and "bFile b = NoState \<or> bFile b = StateOf x"
  shows "\<exists>d b'. boot_Run E ws b = (Some d, b') \<and> bFile b' = StateOf d \<and> bPhase b' = PhaseReady"
proof -
  have loop: "w \<in> set ws \<Longrightarrow> bFile b = NoState \<Longrightarrow> \<exists>d b'. boot_loop E ws b = (Some d, b')" for b ws
  proof (induction ws arbitrary: b)
    case (Cons v ws)
    obtain d1 err b1 where a: "attempt E v b = (d1, err, b1)" by (metis prod.exhaust)
    show ?case
    proof (cases d1)
      case (Some x)
      then show ?thesis using a by simp
    next
      case None
      then have "v \<noteq> w" using willing_attempt [OF assms(1) Cons.prems(2)] a by auto
      moreover have "bFile b1 = NoState" using attempt_spends [OF a] None Cons.prems(2) by auto
      ultimately show ?thesis using Cons.IH [of b1] Cons.prems(1) a None by simp
    qed
  qed simp
  show ?thesis
  proof (cases "bFile b = NoState")
    case True
    then obtain d b' where r: "boot_loop E ws b = (Some d, b')" using loop assms(2) by blast
    then show ?thesis using boot_loop_parts [OF r] True by (auto simp: boot_Run_def)
  next
    case False
    then show ?thesis using assms(3) by (simp add: boot_Run_def)
  qed
qed

subsection \<open>A concrete start\<close>

definition demo_options :: boot_options where
  "demo_options = \<lparr>boSeed = [1], boThroughput = True, boFuelDenomination = 1000, boFirstFuelCoins = 16,
     boMinBootstrap = 30000, boNetwork = ''tstn'', boLockControls = False\<rparr>"

definition demo_boot_env :: boot_env where
  "demo_boot_env = \<lparr>beToolbox = demo_toolbox, beConfig = demo_config, beCompiled = demo_compiled,
     beParseBEEF = (\<lambda>b. if b = [1] then Inr demo_genesis else if b = [2] then Inr (demo_genesis\<lparr>Outputs := rev (Outputs demo_genesis)\<rparr>)
        else Inl ''bad beef''),
     beFuelText = (\<lambda>e. ''fuel''), beGenesisText = (\<lambda>e. ''genesis''), beOptions = demo_options\<rparr>"

definition demo_pass :: "bool \<Rightarrow> u64 \<Rightarrow> bytes \<Rightarrow> pass_world" where
  "demo_pass leads money beef = \<lparr>pwLeader = leads, pwFunds = Inr \<lparr>Spendable = 0, Reserve = money, PoolCoins = 0\<rparr>,
     pwMint = (\<lambda>k shape. Inr ''ff''), pwCreate = (\<lambda>outs. Inr (''aa'', beef))\<rparr>"

definition demo_start :: boot where
  "demo_start = new_boot demo_boot_env (Some ''address'') NoState"

lemma demo_willing: "willing demo_boot_env (demo_pass True 50000 [1])"
proof -
  have "case genesis_outputs demo_compiled [1] 1 [0..7] of Inr outs \<Rightarrow> True | _ \<Rightarrow> False" by code_simp
  then obtain outs where "genesis_outputs demo_compiled [1] 1 [0..7] = Inr outs" by (auto split: sum.splits)
  moreover have "verifyGenesisLayout (beParseBEEF demo_boot_env) [1] demo_compiled [1] 1 = None" by code_simp
  ultimately show ?thesis
    by (simp add: willing_def funded_def Let_def demo_boot_env_def demo_options_def demo_pass_def demo_config_def DefaultConfig_def
        demo_compiled_def Cells_def)
qed

theorem funded_leader_starts_witness:
  "\<exists>d b'. boot_Run demo_boot_env [demo_pass False 50000 [1], demo_pass True 100 [1], demo_pass True 50000 [1]] demo_start = (Some d, b')
     \<and> bPhase b' = PhaseReady"
  using funded_leader_starts [OF demo_willing, of "[demo_pass False 50000 [1], demo_pass True 100 [1], demo_pass True 50000 [1]]" demo_start]
  by (auto simp: demo_start_def new_boot_def publish_def notify_def)

theorem cold_start_spends_safely_witness:
  "snd (boot_Run demo_boot_env [demo_pass True 100 [1]] demo_start) \<noteq> demo_start
     \<and> bSpent (snd (boot_Run demo_boot_env [demo_pass True 100 [1]] demo_start)) = []"
proof -
  obtain d b' where r: "boot_Run demo_boot_env [demo_pass True 100 [1]] demo_start = (d, b')" by fastforce
  have start: "bSpent demo_start = []" "bFile demo_start = NoState"
    by (simp_all add: demo_start_def new_boot_def publish_def notify_def)
  have "\<not> funded demo_boot_env (demo_pass True 100 [1])"
    by (simp add: funded_def demo_pass_def demo_boot_env_def demo_options_def)
  moreover obtain parts where p: "map fst parts = take (length parts) [demo_pass True 100 [1]]" "bSpent b' = paid parts"
    "list_all (part_ok demo_boot_env) parts"
    using cold_start_spends_safely [OF r] start by auto
  ultimately have "paid parts = []"
    by (cases parts; cases "tl parts") (auto simp: paid_def part_ok_def)
  moreover have "bFunds b' \<noteq> bFunds demo_start"
  proof -
    have "case boot_Run demo_boot_env [demo_pass True 100 [1]] demo_start of (d, b') \<Rightarrow> Reserve (bFunds b') = 100" by code_simp
    then show ?thesis using r by (auto simp: demo_start_def new_boot_def publish_def notify_def)
  qed
  ultimately show ?thesis using r p(2) by auto
qed

text \<open>A genesis whose transaction went out but whose layout check failed leaves no file, so the next pass
  creates another: two generation-0 transactions are paid for.\<close>

lemma genesis_paid_twice:
  "length (filter (\<lambda>s. case s of SpentGenesis _ \<Rightarrow> True | _ \<Rightarrow> False)
     (bSpent (snd (boot_Run demo_boot_env [demo_pass True 50000 [2], demo_pass True 50000 [2]] demo_start)))) = 2"
  by code_simp

text \<open>A payment of exactly the quoted minimum pays for the fan-out, but the check of the minimum is made again on
  every pass: when the genesis after it fails once, what is left lies below the minimum by the fan-out's
  fees, and the wallet waits for more money although its pool is full and the genesis would succeed.\<close>

definition demo_unlucky :: pass_world where
  "demo_unlucky = (demo_pass True 30000 [1])\<lparr>pwCreate := \<lambda>outs. Inl ''timeout''\<rparr>"

definition demo_minted :: pass_world where
  "demo_minted = (demo_pass True 0 [1])\<lparr>pwFunds := Inr \<lparr>Spendable = 16000, Reserve = 13500, PoolCoins = 16\<rparr>\<rparr>"

lemma exact_payment_stranded:
  "case boot_Run demo_boot_env [demo_unlucky, demo_minted, demo_minted] demo_start of (d, b) \<Rightarrow>
     d = None \<and> bPhase b = PhaseFunding \<and> length (bSpent b) = 2 \<and> fst (make_genesis demo_boot_env demo_minted b) \<noteq> None"
  by code_simp

text \<open>A state file that does not load: every pass that finds the pool short mints the first fuel again, for a ring that
  exists but cannot be run, and genesis then refuses.\<close>

lemma broken_state_mints_fuel:
  "case boot_Run demo_boot_env [demo_pass True 50000 [1], demo_pass True 50000 [1]] (demo_start\<lparr>bFile := BrokenState\<rparr>) of (d, b) \<Rightarrow>
     d = None \<and> bFile b = BrokenState \<and> map (\<lambda>s. case s of SpentFuel rs \<Rightarrow> coins_of rs | SpentGenesis _ \<Rightarrow> 0) (bSpent b) = [16, 16]"
  by code_simp

end
