(* ===== verification/Payments.thy ===== *)
theory Payments
  imports ChainRecover
begin

text \<open>
  Paying a deployment, \<open>internal/chain/payment.go\<close> and \<open>funding.go\<close>, with the key file's part of
  \<open>identity.go\<close>: which outputs of a stranger's transaction pay us, and what has to hold before they are
  credited.  Key derivation, BEEF, the broadcast and the wallet are third-party: fields of a record.  The
  calls that reach the network or the wallet are a log.
\<close>

subsection \<open>Base64\<close>

text \<open>\<open>base64.StdEncoding\<close>: the decoder skips line breaks, wants padding, and ignores the bits the padding
  leaves over.\<close>

definition b64_char :: "nat \<Rightarrow> char" where
  "b64_char k = char_of (if k < 26 then k + 65 else if k < 52 then k - 26 + 97 else if k < 62 then k - 52 + 48
     else if k = 62 then 43 else (47 :: nat))"

definition b64_value :: "char \<Rightarrow> nat option" where
  "b64_value c = (let k = (of_char c :: nat) in
     if 65 \<le> k \<and> k \<le> 90 then Some (k - 65) else if 97 \<le> k \<and> k \<le> 122 then Some (k - 97 + 26)
     else if 48 \<le> k \<and> k \<le> 57 then Some (k - 48 + 52) else if k = 43 then Some 62 else if k = 47 then Some 63 else None)"

fun b64_encode :: "bytes \<Rightarrow> string" where
  "b64_encode [] = []"
| "b64_encode [a] = [b64_char (unat a div 4), b64_char (unat a mod 4 * 16), CHR ''='', CHR ''='']"
| "b64_encode [a, b] =
     [b64_char (unat a div 4), b64_char (unat a mod 4 * 16 + unat b div 16), b64_char (unat b mod 16 * 4), CHR ''='']"
| "b64_encode (a # b # c # bs) =
     b64_char (unat a div 4) # b64_char (unat a mod 4 * 16 + unat b div 16) # b64_char (unat b mod 16 * 4 + unat c div 64)
       # b64_char (unat c mod 64) # b64_encode bs"

fun b64_quanta :: "string \<Rightarrow> bytes option" where
  "b64_quanta [] = Some []"
| "b64_quanta (p # q # r # s # cs) =
     (case (b64_value p, b64_value q) of
        (Some x, Some y) \<Rightarrow>
          (if r = CHR ''='' then
             (if s = CHR ''='' \<and> cs = [] then Some [word_of_nat (x * 4 + y div 16)] else None)
           else case b64_value r of
             None \<Rightarrow> None
           | Some z \<Rightarrow>
              (if s = CHR ''='' then
                 (if cs = [] then Some [word_of_nat (x * 4 + y div 16), word_of_nat (y mod 16 * 16 + z div 4)] else None)
               else case b64_value s of
                 None \<Rightarrow> None
               | Some w \<Rightarrow> map_option (\<lambda>bs. word_of_nat (x * 4 + y div 16) # word_of_nat (y mod 16 * 16 + z div 4)
                     # word_of_nat (z mod 4 * 64 + w) # bs) (b64_quanta cs)))
      | _ \<Rightarrow> None)"
| "b64_quanta _ = None"

definition b64_decode :: "string \<Rightarrow> bytes option" where
  "b64_decode s = b64_quanta (filter (\<lambda>c. c \<noteq> char_of (10 :: nat) \<and> c \<noteq> char_of (13 :: nat)) s)"

lemma b64_char_value: "k < 64 \<Longrightarrow> b64_value (b64_char k) = Some k"
  by (auto simp: b64_value_def b64_char_def Let_def)

lemma b64_char_plain:
  "k < 64 \<Longrightarrow> b64_char k \<noteq> CHR ''='' \<and> b64_char k \<noteq> char_of (10 :: nat) \<and> b64_char k \<noteq> char_of (13 :: nat)"
proof -
  assume k: "k < 64"
  have no: "b64_value CHR ''='' = None" "b64_value (char_of (10 :: nat)) = None" "b64_value (char_of (13 :: nat)) = None"
    by code_simp+
  show ?thesis using b64_char_value [OF k] no by (metis option.distinct(1))
qed

lemma unat_byte: "unat (a :: u8) < 256"
  using unsigned_less [of a] by simp

text \<open>A byte is put together again from the two pieces it was cut into.\<close>

lemma b64_pieces:
  fixes a b c :: u8
  defines "x \<equiv> unat a div 4" and "y \<equiv> unat a mod 4 * 16 + unat b div 16" and "z \<equiv> unat b mod 16 * 4 + unat c div 64"
    and "w \<equiv> unat c mod 64"
  shows "x < 64 \<and> y < 64 \<and> z < 64 \<and> w < 64 \<and> word_of_nat (x * 4 + y div 16) = a \<and> word_of_nat (y mod 16 * 16 + z div 4) = b
    \<and> word_of_nat (z mod 4 * 64 + w) = c"
proof -
  have again: "word_of_nat (unat v) = v" for v :: u8 by simp
  have l: "unat a < 256" "unat b < 256" "unat c < 256" by (rule unat_byte)+
  then have "x < 64" "y < 64" "z < 64" "w < 64" by (simp_all add: x_def y_def z_def w_def)
  have "y div 16 = unat a mod 4" "y mod 16 = unat b div 16" "z div 4 = unat b mod 16" "z mod 4 = unat c div 64"
    using l by (simp_all add: y_def z_def)
  then have "x * 4 + y div 16 = unat a" "y mod 16 * 16 + z div 4 = unat b" "z mod 4 * 64 + w = unat c"
    by (simp_all add: x_def w_def)
  then have "word_of_nat (x * 4 + y div 16) = a" "word_of_nat (y mod 16 * 16 + z div 4) = b" "word_of_nat (z mod 4 * 64 + w) = c"
    by (simp_all only: again)
  then show ?thesis using \<open>x < 64\<close> \<open>y < 64\<close> \<open>z < 64\<close> \<open>w < 64\<close> by blast
qed

lemma b64_round: "b64_quanta (b64_encode bs) = Some bs"
proof (induction bs rule: b64_encode.induct)
  case (2 a)
  then show ?case using b64_pieces [of a 0 0] by (simp add: b64_char_value b64_char_plain del: of_nat_add)
next
  case (3 a b)
  then show ?case using b64_pieces [of a b 0] by (simp add: b64_char_value b64_char_plain del: of_nat_add)
next
  case (4 a b c bs)
  then show ?case using b64_pieces [of a b c] by (simp add: b64_char_value b64_char_plain del: of_nat_add)
qed simp

definition line_break :: "char \<Rightarrow> bool" where
  "line_break c \<longleftrightarrow> c = char_of (10 :: nat) \<or> c = char_of (13 :: nat)"

lemma b64_line: "k < 64 \<Longrightarrow> \<not> line_break (b64_char k)" "\<not> line_break CHR ''=''"
proof -
  show "k < 64 \<Longrightarrow> \<not> line_break (b64_char k)" using b64_char_plain by (simp add: line_break_def)
  show "\<not> line_break CHR ''=''" by code_simp
qed

lemma b64_encode_lines: "\<forall>c \<in> set (b64_encode bs). \<not> line_break c"
proof (induction bs rule: b64_encode.induct)
  case (2 a)
  then show ?case using b64_pieces [of a 0 0] by (simp add: b64_line)
next
  case (3 a b)
  then show ?case using b64_pieces [of a b 0] by (simp add: b64_line)
next
  case (4 a b c bs)
  then show ?case using b64_pieces [of a b c] by (simp add: b64_line)
qed simp

lemma b64_decode_encode: "b64_decode (b64_encode bs) = Some bs"
proof -
  have "filter (\<lambda>c. c \<noteq> char_of (10 :: nat) \<and> c \<noteq> char_of (13 :: nat)) (b64_encode bs) = b64_encode bs"
    using b64_encode_lines [of bs] by (simp add: filter_id_conv line_break_def)
  then show ?thesis by (simp only: b64_decode_def b64_round)
qed

subsection \<open>The key file and the funding target\<close>

record identity =
  WalletKeyHex :: string
  FunderKeyHex :: string
  DerivationPrefix :: string
  DerivationSuffix :: string

text \<open>A private key's hex gives its compressed public key; the other two derive the funding address and the
  script it encodes from the funder's key, the key id and the wallet's public key.\<close>

record key_library =
  PublicOf :: "string \<Rightarrow> string + bytes"
  AddressFor :: "string \<Rightarrow> string \<times> string \<Rightarrow> string \<Rightarrow> bool \<Rightarrow> string + string"
  LockFor :: "string \<Rightarrow> string \<times> string \<Rightarrow> string \<Rightarrow> string + bytes"

datatype payment_error =
    BadWalletKey string
  | BadFunderKey string
  | BadDerivationPrefix
  | BadDerivationSuffix
  | AddressFailed string
  | LockFailed string
  | NoPaymentOutput
  | PaymentTooSmall u64 u64
  | PaymentKnown txid
  | PaymentRefused string
  | BadPayment string
  | InternalizeFailed string
  | NotAccepted
  | FundingUnparsed string
  | FundingIndex u32 nat
  | PaysElsewhere u32
  | BumpUnparsed string
  | ProofRefused string
  | NoAtomicBEEF string

definition WalletPublicKeyHex :: "key_library \<Rightarrow> identity \<Rightarrow> payment_error + string" where
  "WalletPublicKeyHex L d = (case PublicOf L (WalletKeyHex d) of Inl e \<Rightarrow> Inl (BadWalletKey e) | Inr pub \<Rightarrow> Inr (hex_encode pub))"

definition FunderKey :: "key_library \<Rightarrow> identity \<Rightarrow> payment_error + bytes" where
  "FunderKey L d = map_sum BadFunderKey id (PublicOf L (FunderKeyHex d))"

definition DerivationBytes :: "identity \<Rightarrow> payment_error + bytes \<times> bytes" where
  "DerivationBytes d =
     (case b64_decode (DerivationPrefix d) of
        None \<Rightarrow> Inl BadDerivationPrefix
      | Some p \<Rightarrow>
         (case b64_decode (DerivationSuffix d) of
            None \<Rightarrow> Inl BadDerivationSuffix
          | Some s \<Rightarrow> Inr (p, s)))"

text \<open>Loading the key file, or making it: what is on disk, the randomness, and whether the two writes succeed.\<close>

datatype key_file = NoKeyFile | KeyFileUnreadable string | KeyFile "string + identity"

datatype identity_error =
    DataDirFailed string
  | KeysUnparsed string
  | KeysMissing
  | KeysUnreadable string
  | NoRandomness string
  | KeysNotWritten string
  | KeysNotInstalled string

record key_world =
  kwMkdir :: "string option"
  kwFresh :: "string + bytes \<times> bytes \<times> bytes \<times> bytes"
  kwWrite :: "string option"
  kwRename :: "string option"

definition LoadOrCreateIdentity :: "key_world \<Rightarrow> key_file \<Rightarrow> (identity_error + identity) \<times> key_file" where
  "LoadOrCreateIdentity W f =
     (case kwMkdir W of
        Some e \<Rightarrow> (Inl (DataDirFailed e), f)
      | None \<Rightarrow>
     (case f of
        KeyFile (Inl e) \<Rightarrow> (Inl (KeysUnparsed e), f)
      | KeyFile (Inr d) \<Rightarrow> if WalletKeyHex d = [] \<or> FunderKeyHex d = [] then (Inl KeysMissing, f) else (Inr d, f)
      | KeyFileUnreadable e \<Rightarrow> (Inl (KeysUnreadable e), f)
      | NoKeyFile \<Rightarrow>
         (case kwFresh W of
            Inl e \<Rightarrow> (Inl (NoRandomness e), f)
          | Inr (walletKey, funderKey, p, s) \<Rightarrow>
             (let d = \<lparr>WalletKeyHex = hex_encode walletKey, FunderKeyHex = hex_encode funderKey,
                    DerivationPrefix = b64_encode p, DerivationSuffix = b64_encode s\<rparr> in
              case kwWrite W of
                Some e \<Rightarrow> (Inl (KeysNotWritten e), f)
              | None \<Rightarrow> (case kwRename W of
                  Some e \<Rightarrow> (Inl (KeysNotInstalled e), f)
                | None \<Rightarrow> (Inr d, KeyFile (Inr d)))))))"

text \<open>The token of the event stream, from the wallet's public key through SHA-256.\<close>

definition CallbackToken :: "key_library \<Rightarrow> (bytes \<Rightarrow> bytes) \<Rightarrow> identity \<Rightarrow> payment_error + string" where
  "CallbackToken L sha256 d =
     (case WalletPublicKeyHex L d of
        Inl e \<Rightarrow> Inl e
      | Inr pub \<Rightarrow> Inr (hex_encode (take 16 (sha256 (map of_char (''rule110-callback:'' @ pub))))))"

text \<open>The key material is made once: what the first start answers, every later start answers, whatever else happens on
  it, and its derivation bytes are the random ones it was made of.\<close>

lemma hex_encode_Nil: "hex_encode bs = [] \<longleftrightarrow> bs = []"
  by (cases bs) simp_all

lemma identity_persistent:
  assumes "LoadOrCreateIdentity W f = (Inr d, f')"
    and "\<And>wk fk p s. kwFresh W = Inr (wk, fk, p, s) \<Longrightarrow> wk \<noteq> [] \<and> fk \<noteq> []" and "kwMkdir W' = None"
  shows "LoadOrCreateIdentity W' f' = (Inr d, f')"
  using assms
  by (auto simp: LoadOrCreateIdentity_def hex_encode_Nil Let_def split: option.splits key_file.splits sum.splits if_splits)

lemma identity_derivation:
  assumes "LoadOrCreateIdentity W NoKeyFile = (Inr d, f')"
  shows "\<exists>wk fk p s. kwFresh W = Inr (wk, fk, p, s) \<and> DerivationBytes d = Inr (p, s)"
  using assms
  by (auto simp: LoadOrCreateIdentity_def DerivationBytes_def b64_decode_encode Let_def split: option.splits sum.splits)

record funding_target =
  ftAddress :: string
  ftLockingScriptHex :: string
  ftSenderPublicKeyHex :: string
  ftPrefix :: string
  ftSuffix :: string

definition FundingAddress :: "key_library \<Rightarrow> identity \<Rightarrow> bool \<Rightarrow> payment_error + funding_target" where
  "FundingAddress L d mainnet =
     (case WalletPublicKeyHex L d of
        Inl e \<Rightarrow> Inl e
      | Inr walletPub \<Rightarrow>
     (case FunderKey L d of
        Inl e \<Rightarrow> Inl e
      | Inr funderPub \<Rightarrow>
     (case AddressFor L (FunderKeyHex d) (DerivationPrefix d, DerivationSuffix d) walletPub mainnet of
        Inl e \<Rightarrow> Inl (AddressFailed e)
      | Inr addr \<Rightarrow>
     (case LockFor L (FunderKeyHex d) (DerivationPrefix d, DerivationSuffix d) walletPub of
        Inl e \<Rightarrow> Inl (LockFailed e)
      | Inr lock \<Rightarrow>
         Inr \<lparr>ftAddress = addr, ftLockingScriptHex = hex_encode lock, ftSenderPublicKeyHex = hex_encode funderPub,
              ftPrefix = DerivationPrefix d, ftSuffix = DerivationSuffix d\<rparr>))))"

text \<open>Which outputs pay us, found by their script.\<close>

fun match_outputs :: "string \<Rightarrow> nat \<Rightarrow> tx_output list \<Rightarrow> u32 list \<times> u64 \<Rightarrow> u32 list \<times> u64" where
  "match_outputs want i [] acc = acc"
| "match_outputs want i (out # outs) (indices, satoshis) =
     (case OutScript out of
        None \<Rightarrow> match_outputs want (i + 1) outs (indices, satoshis)
      | Some s \<Rightarrow>
         if hex_encode s \<noteq> want then match_outputs want (i + 1) outs (indices, satoshis)
         else match_outputs want (i + 1) outs (indices @ [word_of_nat i], satoshis + Satoshis out))"

definition MatchFundingOutputs :: "tx \<Rightarrow> funding_target \<Rightarrow> u32 list \<times> u64" where
  "MatchFundingOutputs t target = match_outputs (ftLockingScriptHex target) 0 (Outputs t) ([], 0)"

subsection \<open>Crediting\<close>

text \<open>A transaction as the library hands it over: its id and whether a merkle path comes with it.  \<open>Signing\<close>
  finds the subject of a BEEF wired for broadcast, with its extended form; \<open>Broadcast\<close> answers a
  rejection's text, or nothing.\<close>

record remittance =
  rmIndex :: u32
  rmPrefix :: bytes
  rmSuffix :: bytes
  rmSender :: bytes

record subject =
  sTx :: tx
  sTxID :: txid
  sMined :: bool

record pay_env =
  ParseBeef :: "bytes \<Rightarrow> string + subject option"
  AtomicBytes :: "bytes \<Rightarrow> txid \<Rightarrow> string + bytes"
  Signing :: "bytes \<Rightarrow> txid \<Rightarrow> (bool \<times> (string + bytes)) option"
  Broadcast :: "txid \<Rightarrow> bytes \<Rightarrow> string + string option"
  LookupRaw :: "txid \<Rightarrow> raw_error + bytes"
  InternalizeAction :: "bytes \<Rightarrow> remittance list \<Rightarrow> string \<Rightarrow> string + bool"

datatype pay_call = CallBroadcast txid bytes | CallInternalize txid bytes "remittance list"

record internalize_result =
  irTxID :: txid
  irOutputs :: "u32 list"
  irSatoshis :: u64
  irMined :: bool

definition internalizeOutputs :: "key_library \<Rightarrow> identity \<Rightarrow> pay_env \<Rightarrow> bytes \<Rightarrow> subject \<Rightarrow> u32 list \<Rightarrow> u64 \<Rightarrow> string
    \<Rightarrow> (payment_error + internalize_result) \<times> pay_call list" where
  "internalizeOutputs L d E atomic t indices satoshis description =
     (if indices = [] then (Inl NoPaymentOutput, [])
      else case DerivationBytes d of
        Inl e \<Rightarrow> (Inl e, [])
      | Inr (p, s) \<Rightarrow>
     (case FunderKey L d of
        Inl e \<Rightarrow> (Inl e, [])
      | Inr funder \<Rightarrow>
         (let outs = map (\<lambda>vout. \<lparr>rmIndex = vout, rmPrefix = p, rmSuffix = s, rmSender = funder\<rparr>) indices;
              calls = [CallInternalize (sTxID t) atomic outs] in
          case InternalizeAction E atomic outs description of
            Inl e \<Rightarrow> (Inl (InternalizeFailed e), calls)
          | Inr accepted \<Rightarrow>
             if \<not> accepted then (Inl NotAccepted, calls)
             else (Inr \<lparr>irTxID = sTxID t, irOutputs = indices, irSatoshis = satoshis, irMined = sMined t\<rparr>, calls))))"

definition KnowsTx :: "pay_env \<Rightarrow> txid \<Rightarrow> bool" where
  "KnowsTx E tid = (case LookupRaw E tid of Inl _ \<Rightarrow> False | Inr raw \<Rightarrow> length raw > 0)"

definition BroadcastForeign :: "pay_env \<Rightarrow> bytes \<Rightarrow> txid \<Rightarrow> payment_error option \<times> pay_call list" where
  "BroadcastForeign E beef tid =
     (case Signing E beef tid of
        None \<Rightarrow> (Some (BadPayment (''transaction '' @ tid @ '' is not in the supplied BEEF'')), [])
      | Some (mined, ef) \<Rightarrow>
         if mined then (None, [])
         else case ef of
           Inl e \<Rightarrow> (Some (BadPayment (''your wallet returned a transaction without its input history, '' @
             ''so it cannot be broadcast: '' @ e)), [])
         | Inr ef \<Rightarrow>
            (case Broadcast E tid ef of
               Inl e \<Rightarrow> (Some (PaymentRefused e), [CallBroadcast tid ef])
             | Inr (Some extra) \<Rightarrow> (Some (PaymentRefused extra), [CallBroadcast tid ef])
             | Inr None \<Rightarrow> (None, [CallBroadcast tid ef])))"

definition AcceptPayment :: "key_library \<Rightarrow> identity \<Rightarrow> bool \<Rightarrow> pay_env \<Rightarrow> bytes \<Rightarrow> u64
    \<Rightarrow> (payment_error + internalize_result) \<times> pay_call list" where
  "AcceptPayment L d mainnet E beef minSatoshis =
     (case FundingAddress L d mainnet of
        Inl e \<Rightarrow> (Inl e, [])
      | Inr target \<Rightarrow>
     (case ParseBeef E beef of
        Inl e \<Rightarrow> (Inl (BadPayment e), [])
      | Inr None \<Rightarrow> (Inl (BadPayment ''the BEEF names no subject transaction''), [])
      | Inr (Some t) \<Rightarrow>
         (let (indices, satoshis) = MatchFundingOutputs (sTx t) target in
          if length indices = 0 then (Inl NoPaymentOutput, [])
          else if satoshis < minSatoshis then (Inl (PaymentTooSmall satoshis minSatoshis), [])
          else case AtomicBytes E beef (sTxID t) of
            Inl e \<Rightarrow> (Inl (BadPayment e), [])
          | Inr atomic \<Rightarrow>
             if KnowsTx E (sTxID t) then (Inl (PaymentKnown (sTxID t)), [])
             else case BroadcastForeign E beef (sTxID t) of
               (Some e, calls) \<Rightarrow> (Inl e, calls)
             | (None, calls) \<Rightarrow>
                (case internalizeOutputs L d E atomic t indices satoshis (''public funding via '' @ take 16 (sTxID t)) of
                   (r, credit) \<Rightarrow> (r, calls @ credit)))))"

text \<open>The operator's path: a raw transaction with its merkle proof, one output named.\<close>

record proof_env =
  ParseFunding :: "string \<Rightarrow> string + subject"
  ParseBump :: "string \<Rightarrow> string + bytes"
  AddMerkleProof :: "subject \<Rightarrow> bytes \<Rightarrow> string option"
  AtomicBEEF :: "subject \<Rightarrow> bytes \<Rightarrow> string + bytes"

definition is_space :: "char \<Rightarrow> bool" where
  "is_space c = (let k = (of_char c :: nat) in k = 32 \<or> 9 \<le> k \<and> k \<le> 13)"

definition trim_space :: "string \<Rightarrow> string" where
  "trim_space s = rev (dropWhile is_space (rev (dropWhile is_space s)))"

definition Internalize :: "key_library \<Rightarrow> identity \<Rightarrow> bool \<Rightarrow> pay_env \<Rightarrow> proof_env \<Rightarrow> string \<Rightarrow> string \<Rightarrow> u32 \<Rightarrow> string
    \<Rightarrow> payment_error option \<times> pay_call list" where
  "Internalize L d mainnet E P rawTxHex bumpHex outputIndex description =
     (case ParseFunding P (trim_space rawTxHex) of
        Inl e \<Rightarrow> (Some (FundingUnparsed e), [])
      | Inr t \<Rightarrow>
     (if unat outputIndex \<ge> length (Outputs (sTx t)) then (Some (FundingIndex outputIndex (length (Outputs (sTx t)))), [])
      else case FundingAddress L d mainnet of
        Inl e \<Rightarrow> (Some e, [])
      | Inr target \<Rightarrow>
     (if outputIndex \<notin> set (fst (MatchFundingOutputs (sTx t) target)) then (Some (PaysElsewhere outputIndex), [])
      else case ParseBump P (trim_space bumpHex) of
        Inl e \<Rightarrow> (Some (BumpUnparsed e), [])
      | Inr mp \<Rightarrow>
     (case AddMerkleProof P t mp of
        Some e \<Rightarrow> (Some (ProofRefused e), [])
      | None \<Rightarrow>
     (case AtomicBEEF P t mp of
        Inl e \<Rightarrow> (Some (NoAtomicBEEF e), [])
      | Inr atomic \<Rightarrow>
         (case internalizeOutputs L d E atomic (t\<lparr>sMined := True\<rparr>) [outputIndex]
             (Satoshis (Outputs (sTx t) ! unat outputIndex)) description of
            (Inl e, calls) \<Rightarrow> (Some e, calls)
          | (Inr _, calls) \<Rightarrow> (None, calls)))))))"

subsection \<open>Which outputs pay\<close>

definition pays :: "funding_target \<Rightarrow> tx_output \<Rightarrow> bool" where
  "pays target out = (case OutScript out of None \<Rightarrow> False | Some s \<Rightarrow> hex_encode s = ftLockingScriptHex target)"

definition paying :: "funding_target \<Rightarrow> tx \<Rightarrow> nat list" where
  "paying target t = filter (\<lambda>i. pays target (Outputs t ! i)) [0..<length (Outputs t)]"

definition paid_value :: "funding_target \<Rightarrow> tx \<Rightarrow> u64" where
  "paid_value target t = sum_list (map (\<lambda>i. Satoshis (Outputs t ! i)) (paying target t))"

lemma match_outputs_step:
  "match_outputs (ftLockingScriptHex target) i (out # outs) (is, s) =
     (if pays target out then match_outputs (ftLockingScriptHex target) (i + 1) outs (is @ [word_of_nat i], s + Satoshis out)
      else match_outputs (ftLockingScriptHex target) (i + 1) outs (is, s))"
  by (auto simp: pays_def split: option.splits)

lemma match_outputs_all:
  "match_outputs (ftLockingScriptHex target) i outs (is, s) =
     (is @ map (\<lambda>j. word_of_nat (i + j)) (filter (\<lambda>j. pays target (outs ! j)) [0..<length outs]),
      s + sum_list (map (\<lambda>j. Satoshis (outs ! j)) (filter (\<lambda>j. pays target (outs ! j)) [0..<length outs])))"
proof (induction outs arbitrary: i "is" s)
  case (Cons out outs)
  have shift: "[0..<length (out # outs)] = 0 # map Suc [0..<length outs]"
    by (simp add: upt_conv_Cons map_Suc_upt del: upt_Suc)
  have rest: "filter (\<lambda>j. pays target ((out # outs) ! j)) (map Suc [0..<length outs]) =
      map Suc (filter (\<lambda>j. pays target (outs ! j)) [0..<length outs])"
    by (simp add: filter_map o_def)
  have next': "(\<lambda>j. word_of_nat (i + 1 + j)) = (\<lambda>j. word_of_nat (i + Suc j) :: u32)" by simp
  show ?case
  proof (cases "pays target out")
    case True
    then show ?thesis unfolding match_outputs_step shift Cons.IH next'
      by (simp only: if_True filter.simps nth_Cons_0 rest list.map map_map o_def nth_Cons_Suc sum_list.Cons append_assoc add.assoc
          append_Cons append_Nil add_0_right)
  next
    case False
    then show ?thesis unfolding match_outputs_step shift Cons.IH next'
      by (simp only: if_False filter.simps nth_Cons_0 rest list.map map_map o_def nth_Cons_Suc simp_thms)
  qed
qed simp

lemma MatchFundingOutputs_exact:
  "MatchFundingOutputs t target = (map word_of_nat (paying target t), paid_value target t)"
  by (simp add: MatchFundingOutputs_def match_outputs_all paying_def paid_value_def)

subsection \<open>What is credited\<close>

text \<open>The broadcast that lets a payment be credited: none when it is mined, one the network took otherwise.\<close>

definition broadcast_ok :: "pay_env \<Rightarrow> bytes \<Rightarrow> txid \<Rightarrow> pay_call list \<Rightarrow> bool" where
  "broadcast_ok E beef tid calls \<longleftrightarrow>
     (\<exists>ef. Signing E beef tid = Some (True, ef) \<and> calls = [])
   \<or> (\<exists>ef. Signing E beef tid = Some (False, Inr ef) \<and> Broadcast E tid ef = Inr None \<and> calls = [CallBroadcast tid ef])"

lemma BroadcastForeign_ok: "BroadcastForeign E beef tid = (None, calls) \<longleftrightarrow> broadcast_ok E beef tid calls"
  by (auto simp: BroadcastForeign_def broadcast_ok_def split: option.splits sum.splits bool.splits if_splits)

definition remit :: "bytes \<Rightarrow> bytes \<Rightarrow> bytes \<Rightarrow> u32 list \<Rightarrow> remittance list" where
  "remit p s funder indices = map (\<lambda>vout. \<lparr>rmIndex = vout, rmPrefix = p, rmSuffix = s, rmSender = funder\<rparr>) indices"

lemma internalizeOutputs_ok:
  "internalizeOutputs L d E atomic t indices satoshis description = (Inr res, calls) \<longleftrightarrow>
     indices \<noteq> [] \<and> (\<exists>p s funder. DerivationBytes d = Inr (p, s) \<and> FunderKey L d = Inr funder
       \<and> InternalizeAction E atomic (remit p s funder indices) description = Inr True
       \<and> calls = [CallInternalize (sTxID t) atomic (remit p s funder indices)])
     \<and> res = \<lparr>irTxID = sTxID t, irOutputs = indices, irSatoshis = satoshis, irMined = sMined t\<rparr>"
  by (auto simp: internalizeOutputs_def remit_def Let_def split: sum.splits if_splits)

lemma accept_not_known:
  "AcceptPayment L d mainnet E beef m = (Inr res, calls) \<Longrightarrow> \<not> KnowsTx E (irTxID res)"
  by (auto simp: AcceptPayment_def MatchFundingOutputs_exact internalizeOutputs_ok Let_def
      split: sum.splits option.splits if_splits prod.splits)

text \<open>Claim C27: what a public payment has to be to be credited, and what is credited then.  \<open>AcceptPayment\<close>
  succeeds exactly for a BEEF whose subject has outputs that carry the script of the deployment's funding
  address, worth the minimum together, that the wallet does not know, and that is mined or that the network
  has taken on this deployment's own broadcast; and the wallet is then asked, after the broadcast, to credit all
  of those outputs and no other, with the key material that makes them spendable.\<close>

theorem accept_payment_exact:
  "AcceptPayment L d mainnet E beef minSatoshis = (Inr res, calls) \<longleftrightarrow>
     (\<exists>target t atomic sent p s funder.
        FundingAddress L d mainnet = Inr target \<and> ParseBeef E beef = Inr (Some t) \<and> paying target (sTx t) \<noteq> []
      \<and> minSatoshis \<le> paid_value target (sTx t) \<and> AtomicBytes E beef (sTxID t) = Inr atomic \<and> \<not> KnowsTx E (sTxID t)
      \<and> broadcast_ok E beef (sTxID t) sent \<and> DerivationBytes d = Inr (p, s) \<and> FunderKey L d = Inr funder
      \<and> InternalizeAction E atomic (remit p s funder (map word_of_nat (paying target (sTx t))))
          (''public funding via '' @ take 16 (sTxID t)) = Inr True
      \<and> calls = sent @ [CallInternalize (sTxID t) atomic (remit p s funder (map word_of_nat (paying target (sTx t))))]
      \<and> res = \<lparr>irTxID = sTxID t, irOutputs = map word_of_nat (paying target (sTx t)),
          irSatoshis = paid_value target (sTx t), irMined = sMined t\<rparr>)" (is "?l \<longleftrightarrow> ?r")
proof
  assume l: ?l
  obtain target t where a: "FundingAddress L d mainnet = Inr target" "ParseBeef E beef = Inr (Some t)"
    "paying target (sTx t) \<noteq> []" "\<not> paid_value target (sTx t) < minSatoshis"
    using l by (auto simp: AcceptPayment_def MatchFundingOutputs_exact Let_def split: sum.splits option.splits if_splits)
  then obtain atomic where b: "AtomicBytes E beef (sTxID t) = Inr atomic" "\<not> KnowsTx E (sTxID t)"
    using l by (auto simp: AcceptPayment_def MatchFundingOutputs_exact Let_def split: sum.splits if_splits)
  obtain e sent where f: "BroadcastForeign E beef (sTxID t) = (e, sent)" by fastforce
  have e: "e = None" using l a b f by (auto simp: AcceptPayment_def MatchFundingOutputs_exact Let_def split: option.splits)
  obtain credit where c: "internalizeOutputs L d E atomic t (map word_of_nat (paying target (sTx t))) (paid_value target (sTx t))
      (''public funding via '' @ take 16 (sTxID t)) = (Inr res, credit)" "calls = sent @ credit"
    using l a b f e by (auto simp: AcceptPayment_def MatchFundingOutputs_exact Let_def split: prod.splits)
  then show ?r using a b f e by (auto simp: internalizeOutputs_ok BroadcastForeign_ok not_less)
next
  assume ?r
  then obtain target t atomic sent p s funder where r: "FundingAddress L d mainnet = Inr target" "ParseBeef E beef = Inr (Some t)"
    "paying target (sTx t) \<noteq> []" "minSatoshis \<le> paid_value target (sTx t)" "AtomicBytes E beef (sTxID t) = Inr atomic"
    "\<not> KnowsTx E (sTxID t)" "broadcast_ok E beef (sTxID t) sent" "DerivationBytes d = Inr (p, s)" "FunderKey L d = Inr funder"
    "InternalizeAction E atomic (remit p s funder (map word_of_nat (paying target (sTx t))))
          (''public funding via '' @ take 16 (sTxID t)) = Inr True"
    "calls = sent @ [CallInternalize (sTxID t) atomic (remit p s funder (map word_of_nat (paying target (sTx t))))]"
    "res = \<lparr>irTxID = sTxID t, irOutputs = map word_of_nat (paying target (sTx t)),
          irSatoshis = paid_value target (sTx t), irMined = sMined t\<rparr>"
    by blast
  have "internalizeOutputs L d E atomic t (map word_of_nat (paying target (sTx t))) (paid_value target (sTx t))
      (''public funding via '' @ take 16 (sTxID t))
    = (Inr res, [CallInternalize (sTxID t) atomic (remit p s funder (map word_of_nat (paying target (sTx t))))])"
    using r by (simp add: internalizeOutputs_ok)
  moreover have "BroadcastForeign E beef (sTxID t) = (None, sent)" using r(7) by (simp add: BroadcastForeign_ok)
  ultimately show ?l using r(1-6,11) by (simp add: AcceptPayment_def MatchFundingOutputs_exact Let_def not_less)
qed

subsection \<open>One payment after another\<close>

text \<open>The mutex of \<open>AcceptPayment\<close> makes a sequence of the posts.  \<open>env\<close> is what the world answers once the
  payments in its argument have been credited.\<close>

fun accept_all :: "key_library \<Rightarrow> identity \<Rightarrow> bool \<Rightarrow> u64 \<Rightarrow> (internalize_result list \<Rightarrow> pay_env) \<Rightarrow> bytes list
    \<Rightarrow> internalize_result list \<Rightarrow> (payment_error + internalize_result) list \<times> internalize_result list" where
  "accept_all L d mainnet m env [] credited = ([], credited)"
| "accept_all L d mainnet m env (beef # beefs) credited =
     (let r = fst (AcceptPayment L d mainnet (env credited) beef m);
          credited' = (case r of Inl _ \<Rightarrow> credited | Inr res \<Rightarrow> credited @ [res]) in
      case accept_all L d mainnet m env beefs credited' of (rs, all) \<Rightarrow> (r # rs, all))"

text \<open>A wallet keeps the bytes of what it credited and finds them.\<close>

definition wallet_keeps :: "(internalize_result list \<Rightarrow> pay_env) \<Rightarrow> bool" where
  "wallet_keeps env \<longleftrightarrow>
     (\<forall>done. \<forall>res \<in> set done. \<exists>raw. raw \<noteq> [] \<and> LookupRaw (env done) (irTxID res) = Inr raw)"

text \<open>Claim C28: no payment is credited twice.  As long as the wallet finds the bytes of every transaction it has
  credited, any sequence of posts, with anything answered otherwise, credits each transaction at most
  once.\<close>

theorem credited_once:
  assumes "wallet_keeps env" and "accept_all L d mainnet m env beefs [] = (rs, credited)"
  shows "distinct (map irTxID credited)"
proof -
  have "distinct (map irTxID before) \<Longrightarrow> accept_all L d mainnet m env beefs before = (rs, credited)
      \<Longrightarrow> distinct (map irTxID credited)" for before rs credited
  proof (induction beefs arbitrary: before rs)
    case (Cons beef beefs)
    obtain r calls where r: "AcceptPayment L d mainnet (env before) beef m = (r, calls)" by fastforce
    show ?case
    proof (cases r)
      case (Inl e)
      then show ?thesis using Cons r by (auto simp: Let_def split: prod.splits)
    next
      case (Inr res)
      then have "\<not> KnowsTx (env before) (irTxID res)" using r accept_not_known by blast
      then have "irTxID res \<notin> irTxID ` set before"
        using assms(1) by (fastforce simp: wallet_keeps_def KnowsTx_def)
      then have "distinct (map irTxID (before @ [res]))" using Cons.prems(1) by simp
      then show ?thesis using Cons.IH [of "before @ [res]"] Cons.prems(2) r Inr by (auto simp: Let_def split: prod.splits)
    qed
  qed simp
  from this [of "[]"] assms(2) show ?thesis by simp
qed

subsection \<open>A concrete deployment\<close>

definition demo_identity :: identity where
  "demo_identity = \<lparr>WalletKeyHex = ''01'', FunderKeyHex = ''02'', DerivationPrefix = b64_encode [1], DerivationSuffix = b64_encode [2]\<rparr>"

definition demo_keys :: key_library where
  "demo_keys = \<lparr>PublicOf = (\<lambda>k. Inr [2, 3]), AddressFor = (\<lambda>f k w mainnet. Inr ''address''), LockFor = (\<lambda>f k w. Inr [0x76, 0xa9])\<rparr>"

definition demo_payment :: subject where
  "demo_payment = \<lparr>sTx = \<lparr>Inputs = [], Outputs = [\<lparr>OutScript = Some [1], Satoshis = 7\<rparr>,
      \<lparr>OutScript = Some [0x76, 0xa9], Satoshis = 600\<rparr>, \<lparr>OutScript = Some [0x76, 0xa9], Satoshis = 500\<rparr>]\<rparr>,
    sTxID = ''aa'', sMined = False\<rparr>"

text \<open>\<open>lookup\<close> is the wallet's answer for bytes, \<open>takes\<close> whether it accepts a credit.\<close>

definition demo_pay :: "(txid \<Rightarrow> raw_error + bytes) \<Rightarrow> string + bool \<Rightarrow> pay_env" where
  "demo_pay lookup takes = \<lparr>ParseBeef = (\<lambda>b. if b = [1] then Inr (Some demo_payment) else Inl ''bad beef''),
     AtomicBytes = (\<lambda>b tid. Inr b), Signing = (\<lambda>b tid. Some (False, Inr [9])), Broadcast = (\<lambda>tid ef. Inr None),
     LookupRaw = lookup, InternalizeAction = (\<lambda>b outs description. takes)\<rparr>"

definition demo_env :: "internalize_result list \<Rightarrow> pay_env" where
  "demo_env done = demo_pay (\<lambda>tid. if tid \<in> irTxID ` set done then Inr [9] else Inl NobodyHasBytes) (Inr True)"

lemma credited_once_witness:
  "case accept_all demo_keys demo_identity False 1000 demo_env [[1], [2], [1]] [] of (rs, credited) \<Rightarrow>
     distinct (map irTxID credited) \<and> map irSatoshis credited = [1100] \<and> map irOutputs credited = [[1, 2]]"
proof -
  obtain rs credited where r: "accept_all demo_keys demo_identity False 1000 demo_env [[1], [2], [1]] [] = (rs, credited)"
    by fastforce
  have "wallet_keeps demo_env" by (auto simp: wallet_keeps_def demo_env_def demo_pay_def)
  from credited_once [OF this r] have "distinct (map irTxID credited)" .
  moreover have "case accept_all demo_keys demo_identity False 1000 demo_env [[1], [2], [1]] [] of (rs, credited) \<Rightarrow>
     map irSatoshis credited = [1100] \<and> map irOutputs credited = [[1, 2]]" by code_simp
  ultimately show ?thesis using r by simp
qed

text \<open>The check for a duplicate reads a failed lookup as an unknown transaction: while the wallet's database
  cannot be read, the same payment is credited again and again.\<close>

lemma lookup_failure_credits_twice:
  "map irTxID (snd (accept_all demo_keys demo_identity False 1000
     (\<lambda>_. demo_pay (\<lambda>tid. Inl (WalletReadFailed ''database is locked'')) (Inr True)) [[1], [1]] [])) = [''aa'', ''aa'']"
  by code_simp

text \<open>And it asks \<open>Chain.RawTx\<close>, which answers from arcade what the wallet does not hold.  A payment this deployment has
  broadcast, but whose credit failed, is from then on \<open>already credited\<close>: no later post credits it.\<close>

lemma uncredited_payment_refused:
  "case accept_all demo_keys demo_identity False 1000
     (\<lambda>_. demo_pay (Chain_RawTx (Some (\<lambda>tid. Inr None)) (\<lambda>tid. Inr (Some [9]))) (Inr True)) [[1], [1]] [] of
     (rs, credited) \<Rightarrow> rs = [Inl (PaymentKnown ''aa''), Inl (PaymentKnown ''aa'')] \<and> credited = []"
  by code_simp

lemma failed_credit_stays:
  "AcceptPayment demo_keys demo_identity False
     (demo_pay (Chain_RawTx (Some (\<lambda>tid. Inr None)) (\<lambda>tid. Inr None)) (Inl ''timeout'')) [1] 1000 =
   (Inl (InternalizeFailed ''timeout''), [CallBroadcast ''aa'' [9], CallInternalize ''aa'' [1]
      [\<lparr>rmIndex = 1, rmPrefix = [1], rmSuffix = [2], rmSender = [2, 3]\<rparr>, \<lparr>rmIndex = 2, rmPrefix = [1], rmSuffix = [2], rmSender = [2, 3]\<rparr>]])"
  by code_simp

text \<open>The operator's path never asks: a transaction the wallet has already credited is credited again.\<close>

definition demo_proof :: proof_env where
  "demo_proof = \<lparr>ParseFunding = (\<lambda>s. Inr demo_payment), ParseBump = (\<lambda>s. Inr [5]), AddMerkleProof = (\<lambda>t mp. None),
     AtomicBEEF = (\<lambda>t mp. Inr [1])\<rparr>"

lemma operator_credits_known:
  "case Internalize demo_keys demo_identity False (demo_pay (\<lambda>tid. Inr [9]) (Inr True)) demo_proof ''00'' ''00'' 1 ''funding'' of
     (err, calls) \<Rightarrow> err = None \<and> length calls = 1"
  by code_simp

end
