(* ===== verification/Transition.thy ===== *)
theory Transition
  imports Worker
begin

text \<open>
  One cell transition through the wallet, \<open>internal/chain/step.go\<close>.  The wallet, its BEEF container
  and the Script interpreter are third-party: fields of a record.  The calls that reach the wallet are
  a log, since signing is what broadcasts; error prose is constructors.
\<close>

subsection \<open>Errors and results\<close>

datatype advance_error =
    CellOutOfRange int
  | TipRow int ca_error
  | AdvancePanicked
  | AdvanceScript script_error
  | TipRawTx int
  | TipWrap int string
  | TipTxid int string
  | CreateStepFailed int string
  | NotSignable int
  | SignableUnreadable int string
  | NotTwoOutputsYet int nat
  | ChangeNotP2PKH int nat
  | CovenantRejected int string
  | SignStepFailed int string
  | SignedUnreadable int string

record chain_step = step_result +
  srCell :: int
  srSizeBytes :: nat

text \<open>What \<open>AdvanceCell\<close> asks of \<open>CreateAction\<close>: the arguments that differ from call to call.\<close>

record step_args =
  saCell :: int
  saGeneration :: u64
  saInputBEEF :: bytes
  saTxid :: txid
  saVout :: u32
  saUnlockingLength :: u32
  saOutput :: genesis_output
  saLabels :: "string list"

record step_wallet =
  wCreate :: "step_args \<Rightarrow> string + (string \<times> bytes) option"
  wSign :: "string \<Rightarrow> bytes \<Rightarrow> string + txid \<times> bytes"
  wParseBEEF :: "bytes \<Rightarrow> string + tx"
  wWrapRaw :: "bytes \<Rightarrow> string + bytes"
  wNewHash :: "txid \<Rightarrow> string + txid"
  wVerifyInput :: "tx \<Rightarrow> nat \<Rightarrow> string option"
  wBytes :: "tx \<Rightarrow> bytes"

datatype wallet_call = CallCreate step_args | CallSign string bytes

subsection \<open>The pieces\<close>

text \<open>The opcodes of a P2PKH script.\<close>

definition OpDUP :: u8 where "OpDUP = 0x76"
definition OpHASH160 :: u8 where "OpHASH160 = 0xa9"
definition OpEQUALVERIFY :: u8 where "OpEQUALVERIFY = 0x88"
definition OpCHECKSIG :: u8 where "OpCHECKSIG = 0xac"

definition p2pkhHash :: "bytes \<Rightarrow> nat + bytes" where
  "p2pkhHash s =
     (let p2pkhLen = 25 in
      if length s \<noteq> p2pkhLen \<or> s ! 0 \<noteq> OpDUP \<or> s ! 1 \<noteq> OpHASH160 \<or> s ! 2 \<noteq> 20
        \<or> s ! 23 \<noteq> OpEQUALVERIFY \<or> s ! 24 \<noteq> OpCHECKSIG
      then Inl (length s)
      else Inr (take 20 (drop 3 s)))"

text \<open>A parsed output has a script.\<close>

definition script_of :: "tx_output \<Rightarrow> bytes" where
  "script_of out = (case OutScript out of None \<Rightarrow> [] | Some s \<Rightarrow> s)"

definition singleChangeOutput :: "int \<Rightarrow> tx \<Rightarrow> advance_error + bytes \<times> u64" where
  "singleChangeOutput cell t =
     (if length (Outputs t) \<noteq> 2 then Inl (NotTwoOutputsYet cell (length (Outputs t)))
      else let out = Outputs t ! 1 in
        case p2pkhHash (script_of out) of
          Inl n \<Rightarrow> Inl (ChangeNotP2PKH cell n)
        | Inr pkh \<Rightarrow> Inr (pkh, Satoshis out))"

text \<open>The estimate is an \<open>int\<close> sum cut to 32 bits.\<close>

definition unlockingScriptEstimate :: "compiled \<Rightarrow> int \<Rightarrow> row \<Rightarrow> u32" where
  "unlockingScriptEstimate c cell row =
     (case CodePart c cell row of
        Inl _ \<Rightarrow> 4096
      | Inr codePart \<Rightarrow>
         (case LockingScript c cell row of
            Inl _ \<Rightarrow> 4096
          | Inr lock \<Rightarrow>
             (let pre = 156 + (int (length lock) - 2) + 5;
                  total = (int (length codePart) + 5) + (int (length row) + 2) + 22 + 6 + 6 + (pre + 5) in
              word_of_int total)))"

definition digit :: "nat \<Rightarrow> char" where "digit k = char_of (48 + k)"

text \<open>The decimal numeral of a number, and \<open>%03d\<close> of a cell, which is not negative.\<close>

fun decimal :: "nat \<Rightarrow> string" where
  "decimal n = (if n < 10 then [digit n] else decimal (n div 10) @ [digit (n mod 10)])"

declare decimal.simps [simp del]

definition padded :: "nat \<Rightarrow> string \<Rightarrow> string" where
  "padded w s = replicate (w - length s) CHR ''0'' @ s"

definition CellLabel :: "int \<Rightarrow> string" where
  "CellLabel cell = ''rule110-cell-'' @ padded 3 (decimal (nat cell))"

definition tipBEEF :: "step_wallet \<Rightarrow> cell_chain \<Rightarrow> advance_error + bytes" where
  "tipBEEF W tip =
     (case hex_decode (RawTxHex tip) of
        Inl _ \<Rightarrow> Inl (TipRawTx (Cell tip))
      | Inr raw \<Rightarrow>
         (case wWrapRaw W raw of
            Inl e \<Rightarrow> Inl (TipWrap (Cell tip) e)
          | Inr beef \<Rightarrow> Inr beef))"

subsection \<open>The transition\<close>

text \<open>Everything before the wallet is asked: the tip's row, its successor and the arguments.\<close>

definition stepArgs :: "step_wallet \<Rightarrow> compiled \<Rightarrow> cell_chain \<Rightarrow> int \<Rightarrow> rule \<Rightarrow> advance_error + row \<times> row \<times> step_args" where
  "stepArgs W c tip n rule =
     (let cell = Cell tip in
      if cell < 0 \<or> cell \<ge> n then Inl (CellOutOfRange cell)
      else case Row tip n of
        Inl e \<Rightarrow> Inl (TipRow cell e)
      | Inr cur \<Rightarrow>
     (case Step rule cur of
        None \<Rightarrow> Inl AdvancePanicked
      | Some nxt \<Rightarrow>
     (case LockingScript c cell nxt of
        Inl e \<Rightarrow> Inl (AdvanceScript e)
      | Inr nextLock \<Rightarrow>
     (case tipBEEF W tip of
        Inl e \<Rightarrow> Inl e
      | Inr inputBEEF \<Rightarrow>
     (case wNewHash W (TxID tip) of
        Inl e \<Rightarrow> Inl (TipTxid cell e)
      | Inr tid \<Rightarrow>
         (let nextGen = Generation tip + 1 in
          Inr (cur, nxt, \<lparr>saCell = cell, saGeneration = nextGen, saInputBEEF = inputBEEF, saTxid = tid,
            saVout = Vout tip, saUnlockingLength = unlockingScriptEstimate c cell cur,
            saOutput = \<lparr>goScript = nextLock, goSatoshis = Satoshis_of tip, goCell = cell, goGeneration = nextGen\<rparr>,
            saLabels = [''rule110'', CellLabel cell]\<rparr>)))))))"

text \<open>The unlocking script against the assembled transaction, run by the interpreter before anything is sent.\<close>

definition stepUnlock :: "step_wallet \<Rightarrow> runar_sdk \<Rightarrow> compiled \<Rightarrow> cell_chain \<Rightarrow> row \<Rightarrow> row \<Rightarrow> bytes \<Rightarrow> advance_error + bytes" where
  "stepUnlock W K c tip cur nxt signable =
     (let cell = Cell tip in
      case wParseBEEF W signable of
        Inl e \<Rightarrow> Inl (SignableUnreadable cell e)
      | Inr t \<Rightarrow>
     (case singleChangeOutput cell t of
        Inl e \<Rightarrow> Inl e
      | Inr (changePKH, changeAmount) \<Rightarrow>
     (case UnlockingScript K c \<lparr>CellIndex = cell, CurrentRow = cur, NextRow = nxt, SpendTx = Some t, InputIndex = 0,
          PrevSatoshis = Satoshis_of tip, ChangePKH = changePKH, ChangeAmount = changeAmount,
          NewAmount = Satoshis_of tip\<rparr> of
        Inl e \<Rightarrow> Inl (AdvanceScript e)
      | Inr unlock \<Rightarrow>
         (case wVerifyInput W (t\<lparr>Inputs := (Inputs t)[0 := (Inputs t ! 0)\<lparr>UnlockScript := unlock\<rparr>]\<rparr>) 0 of
            Some e \<Rightarrow> Inl (CovenantRejected cell e)
          | None \<Rightarrow> Inr unlock))))"

text \<open>\<open>AdvanceCell\<close>: the result and the calls made.  An error keeps the flag \<open>broadcast\<close>.\<close>

definition AdvanceCell :: "step_wallet \<Rightarrow> runar_sdk \<Rightarrow> compiled \<Rightarrow> cell_chain \<Rightarrow> int \<Rightarrow> rule
    \<Rightarrow> (advance_error \<times> bool + chain_step) \<times> wallet_call list" where
  "AdvanceCell W K c tip n rule =
     (let broadcast = False; cell = Cell tip in
      case stepArgs W c tip n rule of
        Inl e \<Rightarrow> (Inl (e, broadcast), [])
      | Inr (cur, nxt, args) \<Rightarrow>
     (case wCreate W args of
        Inl e \<Rightarrow> (Inl (CreateStepFailed cell e, broadcast), [CallCreate args])
      | Inr None \<Rightarrow> (Inl (NotSignable cell, broadcast), [CallCreate args])
      | Inr (Some (reference, signable)) \<Rightarrow>
     (case stepUnlock W K c tip cur nxt signable of
        Inl e \<Rightarrow> (Inl (e, broadcast), [CallCreate args])
      | Inr unlock \<Rightarrow>
         (let broadcast = True; calls = [CallCreate args, CallSign reference unlock] in
          case wSign W reference unlock of
            Inl e \<Rightarrow> (Inl (SignStepFailed cell e, broadcast), calls)
          | Inr (tid, final_beef) \<Rightarrow>
             (case wParseBEEF W final_beef of
                Inl e \<Rightarrow> (Inl (SignedUnreadable cell e, broadcast), calls)
              | Inr final \<Rightarrow>
                 (Inr \<lparr>srGeneration = Generation tip + 1, srTxID = tid, srRowHex = Hex nxt,
                    srRawTxHex = hex_encode (wBytes W final), srCell = cell, srSizeBytes = length (wBytes W final)\<rparr>,
                  calls))))))"

text \<open>What an error reads.  Written out for the two errors that follow the signing, because whether their
  text passes for an error of an attempt that was not broadcast depends on it; \<open>prose\<close> is the text of the
  others.\<close>

definition advance_text :: "(advance_error \<Rightarrow> string) \<Rightarrow> advance_error \<Rightarrow> string" where
  "advance_text prose e =
     (case e of
        SignStepFailed cell m \<Rightarrow> ''chain: sign step action for cell '' @ decimal (nat cell) @ '': '' @ m
      | SignedUnreadable cell m \<Rightarrow> ''chain: parse signed transaction for cell '' @ decimal (nat cell) @ '': '' @ m
      | _ \<Rightarrow> prose e)"

text \<open>The error the caller sees: the deferred wrap puts the sentinel before every error of an attempt
  that was not broadcast.\<close>

definition advance_result :: "(advance_error \<Rightarrow> string) \<Rightarrow> advance_error \<times> bool + chain_step \<Rightarrow> step_error + step_result" where
  "advance_result prose r =
     (case r of
        Inl (e, broadcast) \<Rightarrow>
          Inl (if broadcast then \<lparr>seNotBroadcast = False, seText = advance_text prose e\<rparr>
               else \<lparr>seNotBroadcast = True, seText = notBroadcastPrefix @ advance_text prose e\<rparr>)
      | Inr res \<Rightarrow> Inr (step_result.truncate res))"

subsection \<open>Labels\<close>

definition numeral_value :: "string \<Rightarrow> nat" where
  "numeral_value s = foldl (\<lambda>a c. 10 * a + (of_char c - 48)) 0 s"

lemma digit_value: "k < 10 \<Longrightarrow> of_char (digit k) - 48 = k"
  by (simp add: digit_def)

lemma decimal_value: "numeral_value (decimal n) = n"
proof (induction n rule: decimal.induct)
  case (1 n)
  then show ?case by (subst decimal.simps) (auto simp: numeral_value_def digit_value)
qed

lemma padded_value: "numeral_value (padded w s) = numeral_value s"
proof -
  have "foldl (\<lambda>a c. 10 * a + (of_char c - 48)) 0 (replicate k CHR ''0'') = (0 :: nat)" for k
    by (induction k) simp_all
  then show ?thesis by (simp add: numeral_value_def padded_def)
qed

lemma decimal_length: "n < 1000 \<Longrightarrow> length (decimal n) \<le> 3"
  by (simp add: decimal.simps [of n] decimal.simps [of "n div 10"] decimal.simps [of "n div 100"] div_mult2_eq [symmetric])

lemma CellLabel_inj: "0 \<le> i \<Longrightarrow> 0 \<le> j \<Longrightarrow> CellLabel i = CellLabel j \<Longrightarrow> i = j"
  unfolding CellLabel_def using padded_value decimal_value by (metis append_same_eq eq_nat_nat_iff same_append_eq)

lemma CellLabel_prefix:
  assumes "0 \<le> i" "i < 1000" "0 \<le> j" "j < 1000" and "prefix (CellLabel i) (CellLabel j)"
  shows "i = j"
proof -
  have "length (CellLabel k) = 16" if "0 \<le> k" "k < 1000" for k
  proof -
    have "nat k < 1000" using that by linarith
    then show ?thesis using decimal_length [of "nat k"] by (simp add: CellLabel_def padded_def)
  qed
  then have "CellLabel i = CellLabel j" using assms by (metis prefix_order.eq_iff not_equal_is_parallel parallel_def)
  then show ?thesis using CellLabel_inj assms by blast
qed

subsection \<open>What a wallet does\<close>

text \<open>The documented behaviour of the wallet and the transaction library: \<open>CreateAction\<close> without
  reordering assembles a transaction with the requested input and output first, \<open>SignAction\<close> returns
  the same transaction signed, under its hash, and bytes parse to what they were written from.\<close>

definition wallet_faithful :: "step_wallet \<Rightarrow> tx_codec \<Rightarrow> bool" where
  "wallet_faithful W K \<longleftrightarrow>
     (\<forall>args reference beef t. wCreate W args = Inr (Some (reference, beef)) \<longrightarrow> wParseBEEF W beef = Inr t \<longrightarrow>
        Inputs t \<noteq> [] \<and> SourceTXID (Inputs t ! 0) = Some (saTxid args) \<and> SourceTxOutIndex (Inputs t ! 0) = saVout args
      \<and> Outputs t \<noteq> [] \<and> Outputs t ! 0 = \<lparr>OutScript = Some (goScript (saOutput args)), Satoshis = goSatoshis (saOutput args)\<rparr>
      \<and> (\<forall>unlock tid beef' f. wSign W reference unlock = Inr (tid, beef') \<longrightarrow> wParseBEEF W beef' = Inr f \<longrightarrow>
          Outputs f = Outputs t \<and> TxIDOf K f = tid
        \<and> map (\<lambda>i. (SourceTXID i, SourceTxOutIndex i)) (Inputs f) = map (\<lambda>i. (SourceTXID i, SourceTxOutIndex i)) (Inputs t)
        \<and> wBytes W f \<noteq> [] \<and> ParseTx K (wBytes W f) = Inr f))"

lemma same_outpoints:
  assumes "map (\<lambda>i. (SourceTXID i, SourceTxOutIndex i)) is = map (\<lambda>i. (SourceTXID i, SourceTxOutIndex i)) js" and "js \<noteq> []"
  shows "is \<noteq> [] \<and> SourceTXID (is ! 0) = SourceTXID (js ! 0) \<and> SourceTxOutIndex (is ! 0) = SourceTxOutIndex (js ! 0)"
  using assms by (cases "is"; cases js) simp_all

lemma stepArgs_ok:
  assumes "stepArgs W c tip n rule = Inr (cur, nxt, args)"
  shows "Row tip n = Inr cur" "Step rule cur = Some nxt" "LockingScript c (Cell tip) nxt = Inr (goScript (saOutput args))"
    "goSatoshis (saOutput args) = Satoshis_of tip" "wNewHash W (TxID tip) = Inr (saTxid args)" "saVout args = Vout tip"
    "0 \<le> Cell tip" "Cell tip < n" "saGeneration args = Generation tip + 1" "CellLabel (Cell tip) \<in> set (saLabels args)"
  using assms by (auto simp: stepArgs_def Let_def split: if_splits sum.splits option.splits)

lemma stepUnlock_ok:
  assumes "stepUnlock W K c tip cur nxt signable = Inr unlock"
  shows "\<exists>t. wParseBEEF W signable = Inr t \<and> length (Outputs t) = 2
     \<and> wVerifyInput W (t\<lparr>Inputs := (Inputs t)[0 := (Inputs t ! 0)\<lparr>UnlockScript := unlock\<rparr>]\<rparr>) 0 = None"
  using assms
  by (auto simp: stepUnlock_def singleChangeOutput_def Let_def split: sum.splits if_splits option.splits)

lemma AdvanceCell_calls:
  assumes "AdvanceCell W K c tip n rule = (r, calls)"
  shows "(calls = [] \<or> (\<exists>args. calls = [CallCreate args])) \<and> (\<exists>e. r = Inl (e, False))
     \<or> (\<exists>cur nxt args reference signable unlock. stepArgs W c tip n rule = Inr (cur, nxt, args)
          \<and> wCreate W args = Inr (Some (reference, signable)) \<and> stepUnlock W K c tip cur nxt signable = Inr unlock
          \<and> calls = [CallCreate args, CallSign reference unlock] \<and> (\<forall>e b. r = Inl (e, b) \<longrightarrow> b))"
  using assms
  by (auto simp: AdvanceCell_def Let_def split: sum.splits option.splits prod.splits)

lemma signed_error:
  assumes "AdvanceCell W K c tip n rule = (Inl (e, True), calls)"
  shows "\<exists>cell m. e = SignStepFailed cell m \<or> e = SignedUnreadable cell m"
  using assms
  by (auto simp: AdvanceCell_def Let_def split: sum.splits option.splits prod.splits)

text \<open>The text of an error after the signing is never taken for one of an attempt that was not broadcast.\<close>

lemma signed_text:
  "\<not> IsNotBroadcast (advance_text prose (SignStepFailed cell m))"
  "\<not> IsNotBroadcast (advance_text prose (SignedUnreadable cell m))"
  by (simp_all add: advance_text_def IsNotBroadcast_def notBroadcastPrefix_def)

lemma unsigned_text: "IsNotBroadcast (notBroadcastPrefix @ t)"
  by (simp add: IsNotBroadcast_def)

subsection \<open>Properties\<close>

text \<open>Claim C22: an error says whether anything can have been broadcast.  \<open>AdvanceCell\<close> makes at most one
  \<open>CreateAction\<close> call and after it at most one \<open>SignAction\<close> call, the latter only with an unlocking
  script the interpreter accepted in the assembled transaction of two outputs.  Its error is marked
  not-broadcast exactly when nothing was signed, and its text is recognised as such by the recovery exactly
  when nothing was signed, whatever the wallet says and however the other errors read.\<close>

theorem not_broadcast_exact:
  assumes "AdvanceCell W K c tip n rule = (r, calls)"
  shows "(\<forall>err. advance_result prose r = Inl err \<longrightarrow>
        seNotBroadcast err = (\<forall>reference unlock. CallSign reference unlock \<notin> set calls)
      \<and> IsNotBroadcast (seText err) = (\<forall>reference unlock. CallSign reference unlock \<notin> set calls))
    \<and> (\<forall>res. advance_result prose r = Inr res \<longrightarrow> (\<exists>args reference unlock. calls = [CallCreate args, CallSign reference unlock]))
    \<and> (\<forall>reference unlock. CallSign reference unlock \<in> set calls \<longrightarrow>
        (\<exists>args signable t. calls = [CallCreate args, CallSign reference unlock]
          \<and> wCreate W args = Inr (Some (reference, signable)) \<and> wParseBEEF W signable = Inr t \<and> length (Outputs t) = 2
          \<and> wVerifyInput W (t\<lparr>Inputs := (Inputs t)[0 := (Inputs t ! 0)\<lparr>UnlockScript := unlock\<rparr>]\<rparr>) 0 = None))"
  using AdvanceCell_calls [OF assms]
proof (elim disjE exE conjE)
  fix e
  assume "calls = []" "r = Inl (e, False)"
  then show ?thesis by (simp add: advance_result_def unsigned_text)
next
  fix e args
  assume "calls = [CallCreate args]" "r = Inl (e, False)"
  then show ?thesis by (simp add: advance_result_def unsigned_text)
next
  fix cur nxt args reference signable unlock
  assume c: "wCreate W args = Inr (Some (reference, signable))" "stepUnlock W K c tip cur nxt signable = Inr unlock"
    "calls = [CallCreate args, CallSign reference unlock]"  and b: "\<forall>e b. r = Inl (e, b) \<longrightarrow> b"
  show ?thesis
  proof (cases r)
    case (Inl eb)
    with b obtain e where e: "eb = (e, True)" by (cases eb) auto
    moreover have "\<exists>cell m. e = SignStepFailed cell m \<or> e = SignedUnreadable cell m"
      using signed_error assms Inl e by blast
    ultimately show ?thesis using stepUnlock_ok [OF c(2)] c Inl by (auto simp: advance_result_def signed_text)
  next
    case (Inr res)
    then show ?thesis using stepUnlock_ok [OF c(2)] c by (auto simp: advance_result_def)
  qed
qed

text \<open>Claim C21: what a transition reports is what recovery would find.  With a wallet and a transaction
  library that behave as documented, the bytes a successful \<open>AdvanceCell\<close> returns pass
  \<open>VerifySuccessor\<close> against the tip it was given, and the tip verified from them is the one the
  engine stands the cell on.\<close>

theorem advance_is_successor:
  assumes "AdvanceCell W R c tip n rule = (Inr res, calls)" and "wallet_faithful W K"
    and "wNewHash W (TxID tip) = Inr (TxID tip)"
  shows "\<exists>raw. srRawTxHex res = hex_encode raw
     \<and> VerifySuccessor K c tip n rule (srTxID res) raw = Inr (next_tip (Cell tip) tip (step_result.truncate res))"
proof -
  obtain cur nxt args reference signable unlock tid beef f where
    a: "stepArgs W c tip n rule = Inr (cur, nxt, args)" "wCreate W args = Inr (Some (reference, signable))"
      "stepUnlock W R c tip cur nxt signable = Inr unlock" "wSign W reference unlock = Inr (tid, beef)"
      "wParseBEEF W beef = Inr f"
    and res: "res = \<lparr>srGeneration = Generation tip + 1, srTxID = tid, srRowHex = Hex nxt,
       srRawTxHex = hex_encode (wBytes W f), srCell = Cell tip, srSizeBytes = length (wBytes W f)\<rparr>"
    using assms(1) by (auto simp: AdvanceCell_def Let_def split: sum.splits option.splits prod.splits)
  note s = stepArgs_ok [OF a(1)]
  obtain t where t: "wParseBEEF W signable = Inr t" "length (Outputs t) = 2" using stepUnlock_ok [OF a(3)] by blast
  note w = assms(2) [unfolded wallet_faithful_def, rule_format, OF a(2) t(1)]
  have tid: "saTxid args = TxID tip" using s(5) assms(3) by simp
  have sf: "Outputs f = Outputs t \<and> TxIDOf K f = tid
      \<and> map (\<lambda>i. (SourceTXID i, SourceTxOutIndex i)) (Inputs f) = map (\<lambda>i. (SourceTXID i, SourceTxOutIndex i)) (Inputs t)
      \<and> wBytes W f \<noteq> [] \<and> ParseTx K (wBytes W f) = Inr f"
    using w a(4,5) by blast
  have f: "Outputs f = Outputs t" "TxIDOf K f = tid" "wBytes W f \<noteq> []" "ParseTx K (wBytes W f) = Inr f"
    "Inputs f \<noteq> []" "SourceTXID (Inputs f ! 0) = Some (TxID tip)" "SourceTxOutIndex (Inputs f ! 0) = Vout tip"
    using w tid s(6) sf same_outpoints [of "Inputs f" "Inputs t"] by simp_all
  have "input_spends tip (Inputs f ! 0)" using f by (simp add: input_spends_def)
  then have "spends_tip tip f" unfolding spends_tip_def list_ex_iff using f(5) by (meson length_greater_0_conv nth_mem)
  then have "VerifySuccessor K c tip n rule tid (wBytes W f) = Inr (next_tip (Cell tip) tip (step_result.truncate res))"
    using f w s t
    by (simp add: VerifySuccessor_def parseTip_def Let_def carries_def next_tip_def res step_result.truncate_def)
  then show ?thesis by (intro exI [of _ "wBytes W f"]) (simp add: res)
qed

subsection \<open>A concrete transition\<close>

definition step_tx :: tx where
  "step_tx = \<lparr>Inputs = [\<lparr>SourceTXID = Some ''aa'', SourceTxOutIndex = 0, UnlockScript = []\<rparr>],
     Outputs = [\<lparr>OutScript = Some (demo_code 0 @ [0x6a, 1, 3]), Satoshis = 1\<rparr>,
                \<lparr>OutScript = Some ([OpDUP, OpHASH160, 20] @ replicate 20 7 @ [OpEQUALVERIFY, OpCHECKSIG]), Satoshis = 9\<rparr>]\<rparr>"

definition step_codec :: tx_codec where
  "step_codec = \<lparr>ParseTx = (\<lambda>raw. if raw = [2] then Inr step_tx else Inl ''unknown''), TxIDOf = (\<lambda>t. ''bb''), RawOf = (\<lambda>t. [2])\<rparr>"

definition step_sdk :: runar_sdk where
  "step_sdk = \<lparr>ComputeOpPushTx = (\<lambda>t i lock sats off. Inr [5]), EncodePushData = id, EncodeScriptInt = (\<lambda>i. '''')\<rparr>"

definition demo_wallet :: step_wallet where
  "demo_wallet = \<lparr>wCreate = (\<lambda>a. if saTxid a = ''aa'' \<and> saVout a = 0 \<and> goScript (saOutput a) = demo_code 0 @ [0x6a, 1, 3]
         \<and> goSatoshis (saOutput a) = 1 then Inr (Some (''ref'', [2])) else Inl ''not enough funds''),
     wSign = (\<lambda>reference u. Inr (''bb'', [2])), wParseBEEF = (\<lambda>b. if b = [2] then Inr step_tx else Inl ''unknown''),
     wWrapRaw = Inr, wNewHash = Inr, wVerifyInput = (\<lambda>t i. None), wBytes = (\<lambda>t. [2])\<rparr>"

lemma demo_wallet_faithful: "wallet_faithful demo_wallet step_codec"
  by (auto simp: wallet_faithful_def demo_wallet_def step_codec_def step_tx_def split: if_splits)

definition demo_advance :: "(advance_error \<times> bool + chain_step) \<times> wallet_call list" where
  "demo_advance = AdvanceCell demo_wallet step_sdk demo_compiled (demo_tip 0) 8 Rule110"

lemma demo_advance_ok:
  "case demo_advance of (Inr res, calls) \<Rightarrow> srTxID res = ''bb'' \<and> srRowHex res = ''03'' \<and> length calls = 2 | _ \<Rightarrow> False"
  by code_simp

theorem advance_is_successor_witness:
  "\<exists>raw nxt. VerifySuccessor step_codec demo_compiled (demo_tip 0) 8 Rule110 ''bb'' raw = Inr nxt \<and> RowHex nxt = ''03''"
proof -
  obtain res calls where r: "demo_advance = (Inr res, calls)" "srTxID res = ''bb''" "srRowHex res = ''03''"
    using demo_advance_ok by (auto split: prod.splits sum.splits)
  have "wNewHash demo_wallet (TxID (demo_tip 0)) = Inr (TxID (demo_tip 0))" by (simp add: demo_wallet_def)
  from advance_is_successor [OF r(1) [unfolded demo_advance_def] demo_wallet_faithful this]
  obtain raw where "VerifySuccessor step_codec demo_compiled (demo_tip 0) 8 Rule110 ''bb'' raw
      = Inr (next_tip (Cell (demo_tip 0)) (demo_tip 0) (step_result.truncate res))"
    unfolding r(2) by blast
  moreover have "RowHex (next_tip (Cell (demo_tip 0)) (demo_tip 0) (step_result.truncate res)) = ''03''"
    by (simp add: next_tip_def step_result.truncate_def r(3))
  ultimately show ?thesis by blast
qed

text \<open>A shortfall at \<open>CreateAction\<close>: nothing was signed and the error says so.  A wallet that fails while
  signing and words its own error like the sentinel is not believed.\<close>

theorem not_broadcast_exact_witness:
  "(let r = AdvanceCell demo_wallet step_sdk demo_compiled (demo_tip 1) 8 Rule110 in
     \<exists>err. advance_result (\<lambda>e. ''create'') (fst r) = Inl err \<and> seNotBroadcast err \<and> IsNotBroadcast (seText err))
   \<and> (let r = AdvanceCell (demo_wallet\<lparr>wSign := \<lambda>reference u. Inl (notBroadcastPrefix @ ''timeout'')\<rparr>)
        step_sdk demo_compiled (demo_tip 0) 8 Rule110 in
     \<exists>err. advance_result (\<lambda>e. ''create'') (fst r) = Inl err \<and> \<not> seNotBroadcast err \<and> \<not> IsNotBroadcast (seText err))"
proof -
  define W where "W = demo_wallet\<lparr>wSign := \<lambda>reference u. Inl (notBroadcastPrefix @ ''timeout'')\<rparr>"
  define r s where "r = AdvanceCell demo_wallet step_sdk demo_compiled (demo_tip 1) 8 Rule110"
    and "s = AdvanceCell W step_sdk demo_compiled (demo_tip 0) 8 Rule110"
  have f: "case fst r of Inl e \<Rightarrow> True | Inr _ \<Rightarrow> False" "case fst s of Inl e \<Rightarrow> True | Inr _ \<Rightarrow> False"
    and none: "list_all (\<lambda>k. case k of CallSign _ _ \<Rightarrow> False | CallCreate _ \<Rightarrow> True) (snd r)"
    and signed: "list_ex (\<lambda>k. case k of CallSign _ _ \<Rightarrow> True | CallCreate _ \<Rightarrow> False) (snd s)"
    unfolding r_def s_def W_def by code_simp+
  obtain err err' where err: "advance_result (\<lambda>e. ''create'') (fst r) = Inl err"
    and err': "advance_result (\<lambda>e. ''create'') (fst s) = Inl err'"
    using f by (auto simp: advance_result_def split: sum.splits prod.splits)
  have e: "CallSign reference unlock \<notin> set (snd r)" for reference unlock
    using none by (auto simp: list_all_iff)
  obtain k where k: "k \<in> set (snd s)" "case k of CallSign _ _ \<Rightarrow> True | CallCreate _ \<Rightarrow> False"
    using signed unfolding list_ex_iff by blast
  have "\<exists>reference unlock. k = CallSign reference unlock" using k(2) by (cases k) simp_all
  then have e': "\<exists>reference unlock. CallSign reference unlock \<in> set (snd s)" using k(1) by blast
  have "AdvanceCell demo_wallet step_sdk demo_compiled (demo_tip 1) 8 Rule110 = (fst r, snd r)"
    and "AdvanceCell W step_sdk demo_compiled (demo_tip 0) 8 Rule110 = (fst s, snd s)" by (simp_all add: r_def s_def)
  note this [THEN not_broadcast_exact, of "\<lambda>e. ''create''"]
  with err err' e e' show ?thesis
    unfolding W_def [symmetric] r_def [symmetric] s_def [symmetric] Let_def by auto
qed

end
