(* ===== verification/Web.thy ===== *)
theory Web
  imports ColdStart Payments Transition
begin

text \<open>
  The web interface, \<open>internal/web\<close>: the funding endpoint with its rate limit and its messages (\<open>fund.go\<close>), the
  archive with its caching (\<open>archive.go\<close>) and the controls (\<open>server.go\<close>), joined to the chain and the record by
  \<open>cmd/rule110/funder.go\<close> and \<open>archive.go\<close>.  A handler is a function from the request to the status, the
  caching it declares and the body; JSON, gzip and the event stream's transport are not modelled.
\<close>

datatype caching = Unstated | NoCache | Immutable

datatype 'a response = Reply 'a caching | Refuse nat string

subsection \<open>Numbers in a query\<close>

text \<open>\<open>strconv.ParseUint\<close> in base ten: a syntax error answers zero, a value out of range the largest.\<close>

definition is_digit :: "char \<Rightarrow> bool" where
  "is_digit c = (let k = (of_char c :: nat) in 48 \<le> k \<and> k \<le> 57)"

definition ParseUint :: "string \<Rightarrow> u64 \<times> bool" where
  "ParseUint s =
     (if s = [] \<or> \<not> list_all is_digit s then (0, False)
      else if numeral_value s < 2 ^ 64 then (word_of_nat (numeral_value s), True) else (- 1, False))"

text \<open>\<open>strconv.Atoi\<close>, in 64 bits.\<close>

definition Atoi :: "string \<Rightarrow> int option" where
  "Atoi s =
     (let neg = (s \<noteq> [] \<and> hd s = CHR ''-'');
          ds = (if s \<noteq> [] \<and> (hd s = CHR ''-'' \<or> hd s = CHR ''+'') then tl s else s) in
      if ds = [] \<or> \<not> list_all is_digit ds then None
      else let k = int (numeral_value ds); v = (if neg then - k else k) in
        if - (2 ^ 63) \<le> v \<and> v < 2 ^ 63 then Some v else None)"

subsection \<open>The rate limit\<close>

text \<open>The code counts tokens in \<open>float64\<close>; here they are exact fractions.  Times are nanoseconds.\<close>

record bucket =
  bkTokens :: rat
  bkLast :: int
  bkBurst :: rat
  bkRefill :: int

definition maxFundBody :: nat where "maxFundBody = 2 ^ 20"
definition fundBurst :: rat where "fundBurst = 3"
definition fundRefill :: int where "fundRefill = 5 * second"

definition newBucket :: "rat \<Rightarrow> int \<Rightarrow> int \<Rightarrow> bucket" where
  "newBucket burst refill now = \<lparr>bkTokens = burst, bkLast = now, bkBurst = burst, bkRefill = refill\<rparr>"

definition allow :: "int \<Rightarrow> bucket \<Rightarrow> bool \<times> bucket" where
  "allow t b =
     (let tokens = min (bkBurst b) (bkTokens b + of_int (t - bkLast b) / of_int (bkRefill b));
          b = b\<lparr>bkTokens := tokens, bkLast := t\<rparr> in
      if tokens < 1 then (False, b) else (True, b\<lparr>bkTokens := tokens - 1\<rparr>))"

subsection \<open>Funding\<close>

text \<open>The chain's errors as the web's: a sentinel and a text, or an error nobody outside is told about.\<close>

datatype sentinel = ErrNoPaymentOutput | ErrPaymentTooSmall | ErrPaymentKnown | ErrPaymentRefused | ErrBadPayment

definition chain_sentinel :: "payment_error \<Rightarrow> (sentinel \<times> string) option" where
  "chain_sentinel e =
     (case e of
        NoPaymentOutput \<Rightarrow> Some (ErrNoPaymentOutput, '''')
      | PaymentTooSmall got least \<Rightarrow> Some (ErrPaymentTooSmall,
          '': '' @ decimal (unat got) @ '' satoshis, minimum is '' @ decimal (unat least))
      | PaymentKnown tid \<Rightarrow> Some (ErrPaymentKnown, '': '' @ tid)
      | PaymentRefused x \<Rightarrow> Some (ErrPaymentRefused, '': '' @ x)
      | BadPayment x \<Rightarrow> Some (ErrBadPayment, '': '' @ x)
      | _ \<Rightarrow> None)"

definition chain_text :: "sentinel \<Rightarrow> string" where
  "chain_text s =
     (case s of
        ErrNoPaymentOutput \<Rightarrow> ''chain: no output in this transaction pays this deployment''
      | ErrPaymentTooSmall \<Rightarrow> ''chain: payment below the minimum''
      | ErrPaymentKnown \<Rightarrow> ''chain: this payment has already been credited''
      | ErrPaymentRefused \<Rightarrow> ''chain: the network refused this payment''
      | ErrBadPayment \<Rightarrow> ''chain: the payment could not be parsed'')"

definition web_text :: "sentinel \<Rightarrow> string" where
  "web_text s =
     (case s of
        ErrNoPaymentOutput \<Rightarrow> ''no output pays this deployment''
      | ErrPaymentTooSmall \<Rightarrow> ''payment below the minimum''
      | ErrPaymentKnown \<Rightarrow> ''payment already credited''
      | ErrPaymentRefused \<Rightarrow> ''the network refused this payment''
      | ErrBadPayment \<Rightarrow> ''the payment could not be parsed'')"

definition trimPrefix :: "string \<Rightarrow> string \<Rightarrow> string" where
  "trimPrefix msg p =
     (if length msg > length p + 2 \<and> take (length p) msg = p then drop (length p + 2) msg else msg)"

definition translate :: "payment_error \<Rightarrow> (sentinel \<times> string) option" where
  "translate e =
     (case chain_sentinel e of
        None \<Rightarrow> None
      | Some (s, details) \<Rightarrow> Some (s, web_text s @ '': '' @ trimPrefix (chain_text s @ details) (chain_text s)))"

definition writeFundError :: "(sentinel \<times> string) option \<Rightarrow> nat \<times> string" where
  "writeFundError e =
     (case e of
        Some (ErrNoPaymentOutput, text') \<Rightarrow> (400, ''no output in that transaction pays this deployment'')
      | Some (ErrPaymentTooSmall, text') \<Rightarrow> (400, text')
      | Some (ErrBadPayment, text') \<Rightarrow> (400, text')
      | Some (ErrPaymentKnown, text') \<Rightarrow> (409, ''that payment has already been credited'')
      | Some (ErrPaymentRefused, text') \<Rightarrow> (502, text')
      | None \<Rightarrow> (500, ''the payment could not be processed''))"

text \<open>What the JSON decoder makes of a body behind the size limit.\<close>

datatype fund_body = BodyTooLarge | BodyUnreadable | BodyBEEF string

text \<open>The handler: whether a funder is configured, whether a payment is in flight, the time.  It answers the
  response, the bucket and the calls that reached the network or the wallet.\<close>

definition handleFund :: "(bytes \<Rightarrow> (payment_error + internalize_result) \<times> pay_call list) \<Rightarrow> bool \<Rightarrow> bool \<Rightarrow> int \<Rightarrow> fund_body
    \<Rightarrow> bucket \<Rightarrow> internalize_result response \<times> bucket \<times> pay_call list" where
  "handleFund accept configured busy now body b =
     (if \<not> configured then (Refuse 404 ''404 page not found'', b, [])
      else if busy then (Refuse 429 ''another payment is being processed; try again in a moment'', b, [])
      else case allow now b of
        (False, b) \<Rightarrow> (Refuse 429 ''too many funding attempts; try again in a moment'', b, [])
      | (True, b) \<Rightarrow>
         (case body of
            BodyTooLarge \<Rightarrow> (Refuse 413 ''payment too large'', b, [])
          | BodyUnreadable \<Rightarrow> (Refuse 400 ''bad request body'', b, [])
          | BodyBEEF beef \<Rightarrow>
             if beef = '''' then (Refuse 400 ''send a beef: this deployment is funded from a BRC-100 wallet'', b, [])
             else case b64_decode beef of
               None \<Rightarrow> (Refuse 400 ''the payment is not valid base64'', b, [])
             | Some raw \<Rightarrow>
                (case accept raw of
                   (Inr res, calls) \<Rightarrow> (Reply res Unstated, b, calls)
                 | (Inl e, calls) \<Rightarrow> (case writeFundError (translate e) of (st, msg) \<Rightarrow> (Refuse st msg, b, calls)))))"

record web_target =
  wtLockingScriptHex :: string
  wtNetwork :: string
  wtMinSatoshis :: u64
  wtSuggestedSatoshis :: u64

definition handleFundingTarget :: "(payment_error + funding_target) \<Rightarrow> string \<Rightarrow> u64 \<Rightarrow> u64 \<Rightarrow> bool \<Rightarrow> web_target response" where
  "handleFundingTarget target network least suggested configured =
     (if \<not> configured then Refuse 404 ''404 page not found''
      else case target of
        Inl e \<Rightarrow> Refuse 500 ''funding is unavailable''
      | Inr t \<Rightarrow> Reply \<lparr>wtLockingScriptHex = ftLockingScriptHex t, wtNetwork = network, wtMinSatoshis = least,
          wtSuggestedSatoshis = suggested\<rparr> Unstated)"

subsection \<open>Controls\<close>

text \<open>The request's action, or none when the body cannot be read; the refusal of an unknown one quotes it.  The automaton is the bootstrapper, which stands
  in for the engine until it adopts one.\<close>

definition boot_Locked :: "boot_env \<Rightarrow> boot \<Rightarrow> bool" where
  "boot_Locked E b = (case bEngine b of Some e \<Rightarrow> Locked (Stats_of e) | None \<Rightarrow> bvLocked (boot_snapshot E b))"

definition boot_SnapshotTail :: "boot_env \<Rightarrow> boot \<Rightarrow> shown" where
  "boot_SnapshotTail E b = (case bEngine b of Some e \<Rightarrow> FromEngine (SnapshotTail e) | None \<Rightarrow> FromBoot (boot_snapshot E b))"

definition handleControl :: "boot_env \<Rightarrow> (string \<times> rat) option \<Rightarrow> boot \<Rightarrow> shown response \<times> boot" where
  "handleControl E req b =
     (if boot_Locked E b then (Refuse 403 ''the clock is fixed for this deployment'', b)
      else case req of
        None \<Rightarrow> (Refuse 400 ''bad request body'', b)
      | Some (action, rate) \<Rightarrow>
         if action = ''play'' then (let b = boot_SetMode ModeRunning b in (Reply (boot_SnapshotTail E b) Unstated, b))
         else if action = ''pause'' then (let b = boot_SetMode ModePaused b in (Reply (boot_SnapshotTail E b) Unstated, b))
         else if action = ''step'' then (let b = boot_Step (boot_SetMode ModePaused b) in (Reply (boot_SnapshotTail E b) Unstated, b))
         else if action = ''rate'' then (let b = boot_SetRate rate b in (Reply (boot_SnapshotTail E b) Unstated, b))
         else (Refuse 400 ''unknown action'', b))"

subsection \<open>The archive\<close>

definition maxWindow :: int where "maxWindow = 1024"
definition defaultWindow :: int where "defaultWindow = 256"
definition settledMargin :: u64 where "settledMargin = 2000"

definition window_count :: "string \<Rightarrow> int" where
  "window_count s = (case Atoi s of None \<Rightarrow> defaultWindow | Some n \<Rightarrow> if n > 0 then min n maxWindow else defaultWindow)"

definition window_settled :: "u64 \<Rightarrow> u64 \<Rightarrow> int \<Rightarrow> bool" where
  "window_settled frontier from count =
     (let last = from + word_of_int count - 1 in frontier > settledMargin \<and> last < frontier - settledMargin)"

text \<open>\<open>window\<close> is the archive's answer; \<open>n\<close> and \<open>frontier\<close> are the ring size and the newest generation of the automaton's
  statistics.\<close>

definition handleHistory :: "(u64 \<Rightarrow> int \<Rightarrow> int \<Rightarrow> string + compact_generation list) option \<Rightarrow> int \<Rightarrow> u64 \<Rightarrow> string \<Rightarrow> string
    \<Rightarrow> (u64 \<times> compact_generation list) response" where
  "handleHistory archive n frontier fromText countText =
     (case archive of
        None \<Rightarrow> Refuse 404 ''404 page not found''
      | Some window \<Rightarrow>
         (let from = fst (ParseUint fromText); count = window_count countText in
          case window from count n of
            Inl e \<Rightarrow> Refuse 500 ''could not read history''
          | Inr gens \<Rightarrow> Reply (from, gens) (if window_settled frontier from count then Immutable else NoCache)))"

record extent_response =
  exOldest :: u64
  exNewest :: u64
  exCount :: u64
  exEmpty :: bool

definition handleExtent :: "(string + (u64 \<times> u64) option) option \<Rightarrow> extent_response response" where
  "handleExtent archive =
     (case archive of
        None \<Rightarrow> Refuse 404 ''404 page not found''
      | Some (Inl e) \<Rightarrow> Refuse 500 ''could not read history extent''
      | Some (Inr None) \<Rightarrow> Reply \<lparr>exOldest = 0, exNewest = 0, exCount = 0, exEmpty = True\<rparr> Unstated
      | Some (Inr (Some (lo, hi))) \<Rightarrow>
          Reply \<lparr>exOldest = lo, exNewest = hi, exCount = hi - lo + 1, exEmpty = False\<rparr> Unstated)"

definition handleTx :: "(u64 \<Rightarrow> int \<Rightarrow> string + (txid \<times> status \<times> string) option) option \<Rightarrow> string \<Rightarrow> string
    \<Rightarrow> (u64 \<times> int \<times> txid \<times> status \<times> string) response" where
  "handleTx archive generationText cellText =
     (case archive of
        None \<Rightarrow> Refuse 404 ''404 page not found''
      | Some lookup \<Rightarrow>
     (case ParseUint generationText of
        (_, False) \<Rightarrow> Refuse 400 ''generation is required''
      | (generation, True) \<Rightarrow>
     (case Atoi cellText of
        None \<Rightarrow> Refuse 400 ''cell is required''
      | Some cell \<Rightarrow>
         if cell < 0 then Refuse 400 ''cell is required''
         else case lookup generation cell of
           Inl e \<Rightarrow> Refuse 500 ''could not read the transaction''
         | Inr None \<Rightarrow> Refuse 404 ''404 page not found''
         | Inr (Some (tid, st, err)) \<Rightarrow> Reply (generation, cell, tid, st, err) Unstated)))"

text \<open>The adapter of \<open>cmd/rule110/archive.go\<close> over the durable record.\<close>

definition store_Window :: "store \<Rightarrow> u64 \<Rightarrow> int \<Rightarrow> int \<Rightarrow> string + compact_generation list" where
  "store_Window s from count n = Inr (LoadCompact s from count n)"

definition store_Extent :: "store \<Rightarrow> string + (u64 \<times> u64) option" where
  "store_Extent s = Inr (Extent s)"

definition store_Cell :: "store \<Rightarrow> u64 \<Rightarrow> int \<Rightarrow> string + (txid \<times> status \<times> string) option" where
  "store_Cell s g c = Inr (CellAt s g c)"

subsection \<open>The rate limit holds\<close>

text \<open>A service that meters its work: every step that does work costs a token, and tokens come in no faster than
  one per \<open>refill\<close>.  The bound over a run of requests in the order of their times follows once for all.\<close>

fun work_count :: "('req \<Rightarrow> 's \<Rightarrow> bool \<times> 's) \<Rightarrow> 'req list \<Rightarrow> 's \<Rightarrow> nat" where
  "work_count step [] s = 0"
| "work_count step (r # rs) s = (case step r s of (worked, s) \<Rightarrow> (if worked then 1 else 0) + work_count step rs s)"

locale metered =
  fixes step :: "'req \<Rightarrow> 's \<Rightarrow> bool \<times> 's" and time :: "'req \<Rightarrow> int" and clock :: "'s \<Rightarrow> int"
    and tokens :: "'s \<Rightarrow> rat" and ok :: "'s \<Rightarrow> bool" and refill :: int
  assumes refill_pos: "0 < refill"
    and tokens_nonneg: "ok s \<Longrightarrow> 0 \<le> tokens s"
    and step_ok: "ok s \<Longrightarrow> clock s \<le> time r \<Longrightarrow> ok (snd (step r s))"
    and step_clock: "ok s \<Longrightarrow> clock s \<le> time r \<Longrightarrow> clock s \<le> clock (snd (step r s)) \<and> clock (snd (step r s)) \<le> time r"
    and step_budget: "ok s \<Longrightarrow> clock s \<le> time r \<Longrightarrow> (if fst (step r s) then 1 else 0) + tokens (snd (step r s))
      \<le> tokens s + of_int (clock (snd (step r s)) - clock s) / of_int refill"
begin

lemma run_budget:
  "ok s \<Longrightarrow> sorted (clock s # map time rs) \<Longrightarrow>
     of_nat (work_count step rs s) \<le> tokens s + of_int (last (clock s # map time rs) - clock s) / of_int refill"
proof (induction rs arbitrary: s)
  case Nil
  then show ?case using tokens_nonneg by simp
next
  case (Cons r rs)
  obtain w t where st: "step r s = (w, t)" by fastforce
  let ?until = "last (time r # map time rs)" and ?r = "of_int refill :: rat"
  have le: "clock s \<le> time r" using Cons.prems(2) by simp
  have t: "ok t" "clock s \<le> clock t" "clock t \<le> time r"
    and b: "(if w then 1 else 0) + tokens t \<le> tokens s + of_int (clock t - clock s) / ?r"
    using step_ok [OF Cons.prems(1) le] step_clock [OF Cons.prems(1) le] step_budget [OF Cons.prems(1) le] by (simp_all add: st)
  have "sorted (clock t # map time rs)" using Cons.prems(2) t(3) by auto
  then have ih: "of_nat (work_count step rs t) \<le> tokens t + of_int (last (clock t # map time rs) - clock t) / ?r"
    by (rule Cons.IH [OF t(1)])
  have later: "of_int (last (clock t # map time rs) - clock t) / ?r \<le> of_int (?until - clock t) / ?r"
    using t(3) refill_pos by (intro divide_right_mono) simp_all
  have n: "of_nat (work_count step (r # rs) s) = (if w then 1 else 0) + (of_nat (work_count step rs t) :: rat)"
    by (simp add: st)
  have "of_nat (work_count step (r # rs) s) \<le> (if w then 1 else 0) + (tokens t + of_int (?until - clock t) / ?r)"
    unfolding n using ih later by (intro add_left_mono) (rule order_trans, assumption, rule add_left_mono)
  also have "\<dots> = ((if w then 1 else 0) + tokens t) + of_int (?until - clock t) / ?r" by (rule add.assoc [symmetric])
  also have "\<dots> \<le> (tokens s + of_int (clock t - clock s) / ?r) + of_int (?until - clock t) / ?r" by (rule add_right_mono [OF b])
  also have "\<dots> = tokens s + (of_int (clock t - clock s) / ?r + of_int (?until - clock t) / ?r)" by (rule add.assoc)
  also have "of_int (clock t - clock s) / ?r + of_int (?until - clock t) / ?r = of_int (?until - clock s) / ?r"
    unfolding add_divide_distrib [symmetric] by simp
  finally show ?case by (simp only: last.simps list.map list.distinct if_False)
qed

end

definition bucket_ok :: "bucket \<Rightarrow> bool" where
  "bucket_ok b \<longleftrightarrow> bkRefill b = fundRefill \<and> bkBurst b = fundBurst \<and> 0 \<le> bkTokens b"

interpretation attempts_meter: metered allow "\<lambda>t. t" bkLast bkTokens bucket_ok fundRefill
  by unfold_locales (auto simp: allow_def bucket_ok_def fundRefill_def fundBurst_def Let_def not_less)

text \<open>A post: its time, whether a payment is in flight, the body.  Work is a call that reaches the network or the
  wallet.\<close>

definition fund_step :: "(bytes \<Rightarrow> (payment_error + internalize_result) \<times> pay_call list) \<Rightarrow> bool \<Rightarrow> int \<times> bool \<times> fund_body \<Rightarrow> bucket
    \<Rightarrow> bool \<times> bucket" where
  "fund_step accept configured post b =
     (case post of (now, busy, body) \<Rightarrow>
      case handleFund accept configured busy now body b of (r, b, calls) \<Rightarrow> (calls \<noteq> [], b))"

lemma fund_step_cases:
  obtains "fund_step accept configured (now, busy, body) b = (False, b)"
  | worked c where "fund_step accept configured (now, busy, body) b = (worked, c)" "allow now b = (True, c)"
  | c where "fund_step accept configured (now, busy, body) b = (False, c)" "allow now b = (False, c)"
proof (cases "configured \<and> \<not> busy")
  case False
  then show ?thesis using that(1) by (auto simp: fund_step_def handleFund_def)
next
  case True
  obtain ok c where a: "allow now b = (ok, c)" by fastforce
  show ?thesis
  proof (cases ok)
    case False
    then show ?thesis using True a that(3) by (simp add: fund_step_def handleFund_def)
  next
    case ok: True
    have "snd (fund_step accept configured (now, busy, body) b) = c"
      using True a ok by (auto simp: fund_step_def handleFund_def split: fund_body.splits option.splits prod.splits sum.splits)
    then show ?thesis using a ok that(2) by (metis prod.collapse)
  qed
qed

interpretation fund_meter: metered "fund_step accept configured" fst bkLast bkTokens bucket_ok fundRefill for accept configured
proof
  show "0 < fundRefill" by (rule attempts_meter.refill_pos)
  fix s assume ok: "bucket_ok s"
  show "0 \<le> bkTokens s" by (rule attempts_meter.tokens_nonneg [OF ok])
  fix post :: "int \<times> bool \<times> fund_body" assume le: "bkLast s \<le> fst post"
  obtain now busy body where p: "post = (now, busy, body)" by (cases post)
  note law = attempts_meter.step_ok [OF ok, of now] attempts_meter.step_clock [OF ok, of now] attempts_meter.step_budget [OF ok, of now]
  show "bucket_ok (snd (fund_step accept configured post s))"
    using law(1) ok le unfolding p by (cases rule: fund_step_cases [of accept configured now busy body s]) simp_all
  show "bkLast s \<le> bkLast (snd (fund_step accept configured post s)) \<and> bkLast (snd (fund_step accept configured post s)) \<le> fst post"
    using law(2) le unfolding p by (cases rule: fund_step_cases [of accept configured now busy body s]) simp_all
  show "(if fst (fund_step accept configured post s) then 1 else 0) + bkTokens (snd (fund_step accept configured post s))
      \<le> bkTokens s + of_int (bkLast (snd (fund_step accept configured post s)) - bkLast s) / of_int fundRefill"
    using law(3) le unfolding p by (cases rule: fund_step_cases [of accept configured now busy body s]) (auto split: if_splits)
qed

text \<open>Claim C29: the public endpoint's budget.  However many posts arrive, at whatever times and with whatever bodies, of
  those within a stretch that begins with a full bucket at most three, and one more for every five seconds elapsed,
  make the deployment call the network or its wallet.\<close>

theorem fund_work_bounded:
  assumes "sorted (start # map fst posts)"
  shows "of_nat (work_count (fund_step accept configured) posts (newBucket fundBurst fundRefill start))
    \<le> 3 + (of_int (last (start # map fst posts) - start) :: rat) / (5 * 10 ^ 9)"
proof -
  have "bucket_ok (newBucket fundBurst fundRefill start)" by (simp add: bucket_ok_def newBucket_def fundBurst_def)
  from fund_meter.run_budget [OF this, of posts accept configured] show ?thesis
    using assms by (simp add: newBucket_def fundBurst_def fundRefill_def)
qed

text \<open>What a payer is told.  A post that reaches the chain and is refused there is answered with the status and
  the words of its own case: 400 when nothing in it pays us, when it is below the minimum (naming both amounts) or
  cannot be read, 409 when it is already credited, 502 with the network's own reason when the network
  refused it; and everything else is the same opaque 500, whatever went wrong inside.\<close>

theorem fund_refusals_told:
  assumes "fst (allow now b)" and "beef \<noteq> []" and "b64_decode beef = Some raw" and "accept raw = (Inl e, calls)"
  shows "fst (handleFund accept True False now (BodyBEEF beef) b) =
    (case e of
       NoPaymentOutput \<Rightarrow> Refuse 400 ''no output in that transaction pays this deployment''
     | PaymentTooSmall got least \<Rightarrow> Refuse 400 (''payment below the minimum: '' @ decimal (unat got) @
         '' satoshis, minimum is '' @ decimal (unat least))
     | BadPayment x \<Rightarrow> if x = [] then Refuse 400 ''the payment could not be parsed: chain: the payment could not be parsed: ''
         else Refuse 400 (''the payment could not be parsed: '' @ x)
     | PaymentKnown tid \<Rightarrow> Refuse 409 ''that payment has already been credited''
     | PaymentRefused x \<Rightarrow> if x = [] then Refuse 502 ''the network refused this payment: chain: the network refused this payment: ''
         else Refuse 502 (''the network refused this payment: '' @ x)
     | _ \<Rightarrow> Refuse 500 ''the payment could not be processed'')"
proof -
  obtain c where a: "allow now b = (True, c)" using assms(1) by (metis prod.collapse)
  have h: "fst (handleFund accept True False now (BodyBEEF beef) b) = (case writeFundError (translate e) of (st, msg) \<Rightarrow> Refuse st msg)"
    using a assms(2-4) by (simp add: handleFund_def split: prod.splits)
  have trim: "trimPrefix (p @ '': '' @ x) p = (if x = [] then p @ '': '' else x)" for p x
    by (cases x) (simp_all add: trimPrefix_def)
  show ?thesis unfolding h
    by (cases e) (simp_all only: translate_def chain_sentinel_def payment_error.case option.case prod.case writeFundError_def
        sentinel.case trim web_text_def chain_text_def, simp_all add: trimPrefix_def)
qed

subsection \<open>The archive's promises\<close>

lemma window_count_bounds: "0 < window_count s \<and> window_count s \<le> 1024"
  by (auto simp: window_count_def defaultWindow_def maxWindow_def split: option.splits)

lemma history_window_bounded:
  "handleHistory (Some (store_Window s)) n frontier fromText countText = Reply (from, gens) c \<Longrightarrow> length gens \<le> 1024"
proof -
  assume "handleHistory (Some (store_Window s)) n frontier fromText countText = Reply (from, gens) c"
  then have "gens = LoadCompact s from (window_count countText) n" by (auto simp: handleHistory_def store_Window_def Let_def)
  then have "length gens \<le> nat (window_count countText)" by (simp add: LoadCompact_def Let_def)
  then show ?thesis using window_count_bounds [of countText] by linarith
qed

text \<open>The first \<open>k\<close> keys of a sorted list that holds \<open>k\<close> consecutive ones are no larger than the last of those.\<close>

lemma sorted_prefix_bound:
  fixes ks :: "nat list"
  assumes "sorted ks" and "{a..<a + k} \<subseteq> set ks" and "x \<in> set (take k ks)"
  shows "x < a + k"
proof (rule ccontr)
  assume no: "\<not> x < a + k"
  obtain i where i: "i < k" "i < length ks" "ks ! i = x" using assms(3) by (auto simp: in_set_conv_nth)
  have "\<exists>j < i. ks ! j = y" if "y \<in> {a..<a + k}" for y
  proof -
    have "y \<in> set ks" using assms(2) that by blast
    then obtain j where j: "j < length ks" "ks ! j = y" unfolding in_set_conv_nth by blast
    have "j < i"
    proof (rule ccontr)
      assume "\<not> j < i"
      then have "ks ! i \<le> ks ! j" using assms(1) j(1) by (simp add: sorted_nth_mono)
      then show False using i(3) j(2) that no by simp
    qed
    then show ?thesis using j(2) by blast
  qed
  then have "{a..<a + k} \<subseteq> (\<lambda>j. ks ! j) ` {..<i}" by (blast intro: image_eqI [OF sym])
  then have "card {a..<a + k} \<le> card ((\<lambda>j. ks ! j) ` {..<i})" by (intro card_mono) simp_all
  also have "\<dots> \<le> i" using card_image_le [of "{..<i}" "\<lambda>j. ks ! j"] by simp
  finally show False using i(1) by simp
qed

lemma LoadCompact_within:
  assumes "0 \<le> count" and "\<forall>g. from \<le> g \<and> unat g < unat from + nat count \<longrightarrow> g \<in> fst ` set (generations s)"
    and "unat from + nat count \<le> 2 ^ 64" and "c \<in> set (LoadCompact s from count n)"
  shows "unat (cgNumber c) < unat from + nat count"
proof -
  let ?gens = "sort_key fst (filter (\<lambda>(k, h). k \<ge> from) (generations s))"
  let ?ks = "map (\<lambda>g. unat (fst g)) ?gens"
  have "cgNumber c \<in> fst ` set (take (nat count) ?gens)"
    using assms(4) by (auto simp: LoadCompact_def Let_def intro: rev_image_eqI split: if_splits)
  then have c: "unat (cgNumber c) \<in> set (take (nat count) ?ks)" by (force simp: take_map)
  have "sorted (map fst ?gens)" by simp
  then have srt: "sorted ?ks" by (simp add: sorted_map word_le_nat_alt)
  have "{unat from..<unat from + nat count} \<subseteq> set ?ks"
  proof
    fix y assume y: "y \<in> {unat from..<unat from + nat count}"
    then have u: "unat (word_of_nat y :: u64) = y" using assms(3) by (simp add: unsigned_of_nat take_bit_nat_eq_self)
    then have "from \<le> word_of_nat y" using y by (simp add: word_le_nat_alt)
    then have "word_of_nat y \<in> fst ` set (generations s)" using assms(2) y u by simp
    then obtain h where "(word_of_nat y, h) \<in> set (generations s)" by force
    then have "(word_of_nat y, h) \<in> set ?gens" using \<open>from \<le> word_of_nat y\<close> by simp
    then show "y \<in> set ?ks" using u by (force simp: image_iff)
  qed
  then show ?thesis by (rule sorted_prefix_bound [OF srt _ c])
qed

text \<open>Claim C30: a window declared immutable is settled.  When the record holds every generation of the window a request
  asks for, and the window does not run past the last 64-bit generation, a response that may be cached for
  ever holds only generations more than \<open>settledMargin\<close> behind the frontier.\<close>

theorem immutable_window_settled:
  assumes "handleHistory (Some (store_Window s)) n frontier fromText countText = Reply (from, gens) Immutable"
    and "\<forall>g. from \<le> g \<and> unat g < unat from + nat (window_count countText) \<longrightarrow> g \<in> fst ` set (generations s)"
    and "unat from + nat (window_count countText) \<le> 2 ^ 64"
  shows "\<forall>c \<in> set gens. unat (cgNumber c) + 2000 < unat frontier"
proof
  fix c assume c: "c \<in> set gens"
  let ?k = "window_count countText" and ?last = "from + word_of_int (window_count countText) - 1"
  have k: "0 < ?k" "?k \<le> 1024" using window_count_bounds by simp_all
  have gens: "gens = LoadCompact s from ?k n" and settled: "frontier > settledMargin" "?last < frontier - settledMargin"
    using assms(1) by (auto simp: handleHistory_def store_Window_def window_settled_def Let_def split: if_splits)
  define m where "m = nat ?k - 1"
  have m: "?k - 1 = int m" "m < 1024" using k by (simp_all add: m_def)
  have "unat (word_of_int (?k - 1) :: u64) = m" using m by (simp add: unsigned_of_nat take_bit_nat_eq_self)
  moreover have l: "?last = from + word_of_int (?k - 1)" by simp
  moreover have plus: "unat (from + w) = unat from + unat w" if "unat from + unat w < 2 ^ 64" for w :: u64
    using that by (simp add: unat_word_ariths)
  moreover have "unat from + m < 2 ^ 64" using assms(3) k by (simp add: m_def)
  ultimately have last: "unat ?last = unat from + (nat ?k - 1)"
    unfolding l m_def [symmetric] using plus [of "word_of_int (?k - 1)"] by (simp only:)
  have "unat (frontier - settledMargin) = unat frontier - 2000"
    using settled(1) by (simp add: settledMargin_def unat_sub word_le_less_eq)
  then have "unat from + (nat ?k - 1) < unat frontier - 2000" using settled(2) last by (simp only: word_less_nat_alt)
  moreover have "unat (cgNumber c) < unat from + nat ?k"
    using LoadCompact_within [OF _ assms(2,3)] c k(1) gens by simp
  ultimately show "unat (cgNumber c) + 2000 < unat frontier" by linarith
qed

subsection \<open>The lock on the controls\<close>

text \<open>A locked deployment answers every control with a refusal and stays as it is; and should a request get past the handler,
  the engine's own operations do nothing.\<close>

lemma locked_controls:
  assumes "boLockControls (beOptions E)" and "\<And>e. bEngine b = Some e \<Longrightarrow> options.LockControls (eOpts e)"
  shows "handleControl E req b = (Refuse 403 ''the clock is fixed for this deployment'', b)"
    and "boot_SetMode m b = b" "boot_SetRate r b = b" "boot_Step b = b"
proof -
  have "boot_Locked E b"
    using assms by (cases "bEngine b") (simp_all add: boot_Locked_def boot_snapshot_def Stats_of_def snapshot_of_def Let_def)
  then show "handleControl E req b = (Refuse 403 ''the clock is fixed for this deployment'', b)" by (simp add: handleControl_def)
  show "boot_SetMode m b = b" "boot_SetRate r b = b" "boot_Step b = b"
    using assms(2) by (cases "bEngine b"; simp add: boot_SetMode_def SetMode_def boot_SetRate_def SetRate_def boot_Step_def StepClock_def)+
qed

text \<open>Unlocked, a step request leaves the engine paused with its target past where it was and past the frontier, so exactly the
  cells behind it move.\<close>

lemma step_request:
  assumes "bEngine b = Some e" and "\<not> options.LockControls (eOpts e)" and "eTarget e < - 1" and "frontierLocked e < - 1"
  shows "\<exists>e'. bEngine (snd (handleControl E (Some (''step'', r)) b)) = Some e' \<and> eMode e' = ModePaused \<and> eTarget e < eTarget e'
    \<and> frontierLocked e < eTarget e'"
proof -
  have f: "frontierLocked (SetMode ModePaused e) = frontierLocked e" "eTarget (SetMode ModePaused e) = eTarget e"
    "eMode (SetMode ModePaused e) = ModePaused" "options.LockControls (eOpts (SetMode ModePaused e)) = options.LockControls (eOpts e)"
    using assms(2) by (simp_all add: SetMode_def frontierLocked_def split: option.split)
  have up: "w < w + 1" if "w < - 1" for w :: u64 proof -
    have "w \<noteq> - 1" using that by auto
    then have "1 + w \<noteq> 0" by (metis add.inverse_inverse add_eq_0_iff neg_equal_iff_equal)
    then have "unat (w + 1) = unat w + 1" by (simp add: add.commute [of w] unatSuc)
    then show ?thesis by (simp add: word_less_nat_alt)
  qed
  have "\<not> boot_Locked E b" using assms(1,2) by (simp add: boot_Locked_def Stats_of_def snapshot_of_def Let_def)
  then show ?thesis
    using assms(1,2) f up [OF assms(3)] up [OF assms(4)]
    by (auto simp: handleControl_def boot_SetMode_def boot_Step_def StepClock_def Let_def)
qed

subsection \<open>Witnesses and divergences\<close>

definition accept_any :: "bytes \<Rightarrow> (payment_error + internalize_result) \<times> pay_call list" where
  "accept_any raw = (Inl (PaymentTooSmall 5 1000), [CallBroadcast [] raw])"

definition demo_posts :: "(int \<times> bool \<times> fund_body) list" where
  "demo_posts = [(0, False, BodyBEEF ''AAAA''), (1, False, BodyBEEF ''AAAA''), (2, False, BodyBEEF ''AAAA''),
     (3, False, BodyBEEF ''AAAA''), (5 * second, False, BodyBEEF ''AAAA'')]"

lemma ParseUint_zero: "ParseUint ''0'' = (0, True)"
  by (simp add: ParseUint_def is_digit_def numeral_value_def)

text \<open>Four posts at once and one five seconds on: three and one of them are worked.\<close>

theorem fund_work_bounded_witness:
  "work_count (fund_step accept_any True) demo_posts (newBucket fundBurst fundRefill 0) = 4 \<and>
   of_nat (work_count (fund_step accept_any True) demo_posts (newBucket fundBurst fundRefill 0))
     \<le> 3 + (of_int (last (0 # map fst demo_posts) - 0) :: rat) / (5 * 10 ^ 9)"
proof
  show "work_count (fund_step accept_any True) demo_posts (newBucket fundBurst fundRefill 0) = 4" by code_simp
  show "of_nat (work_count (fund_step accept_any True) demo_posts (newBucket fundBurst fundRefill 0))
     \<le> 3 + (of_int (last (0 # map fst demo_posts) - 0) :: rat) / (5 * 10 ^ 9)"
    by (rule fund_work_bounded) code_simp
qed

theorem fund_refusals_told_witness:
  "fst (handleFund accept_any True False 0 (BodyBEEF ''AAAA'') (newBucket fundBurst fundRefill 0)) =
     Refuse 400 ''payment below the minimum: 5 satoshis, minimum is 1000''"
proof -
  have "fst (allow 0 (newBucket fundBurst fundRefill 0))" by code_simp
  moreover have "b64_decode ''AAAA'' = Some [0, 0, 0]" by code_simp
  moreover have "accept_any [0, 0, 0] = (Inl (PaymentTooSmall 5 1000), [CallBroadcast [] [0, 0, 0]])" by (simp add: accept_any_def)
  ultimately have "fst (handleFund accept_any True False 0 (BodyBEEF ''AAAA'') (newBucket fundBurst fundRefill 0)) =
     Refuse 400 (''payment below the minimum: '' @ decimal (unat (5 :: u64)) @ '' satoshis, minimum is '' @ decimal (unat (1000 :: u64)))"
    using fund_refusals_told [of 0 "newBucket fundBurst fundRefill 0" "''AAAA''" "[0, 0, 0]" accept_any "PaymentTooSmall 5 1000"
      "[CallBroadcast [] [0, 0, 0]]"] by simp
  also have "\<dots> = Refuse 400 ''payment below the minimum: 5 satoshis, minimum is 1000''" by code_simp
  finally show ?thesis .
qed

definition full_record :: store where
  "full_record = \<lparr>generations = [(0, ''80''), (1, ''81'')], cell_txs = [], leases = [], postgres = False\<rparr>"

theorem immutable_window_settled_witness:
  "\<exists>gens. handleHistory (Some (store_Window full_record)) 8 9000 ''0'' ''2'' = Reply (0, gens) Immutable \<and> length gens = 2
     \<and> (\<forall>c \<in> set gens. unat (cgNumber c) + 2000 < unat (9000 :: u64))"
proof -
  let ?gens = "LoadCompact full_record 0 2 8"
  have k: "window_count ''2'' = 2" by code_simp
  have settled: "window_settled 9000 0 2" by code_simp
  have r: "handleHistory (Some (store_Window full_record)) 8 9000 ''0'' ''2'' = Reply (0, ?gens) Immutable"
    by (simp only: handleHistory_def option.case ParseUint_zero fst_conv Let_def k store_Window_def sum.case settled if_True)
  have "\<forall>g. (0 :: u64) \<le> g \<and> unat g < unat (0 :: u64) + nat (window_count ''2'') \<longrightarrow> g \<in> fst ` set (generations full_record)"
  proof (intro allI impI)
    fix g :: u64
    assume "0 \<le> g \<and> unat g < unat (0 :: u64) + nat (window_count ''2'')"
    then have "unat g = unat (0 :: u64) \<or> unat g = unat (1 :: u64)" by (auto simp: k)
    then have "g = 0 \<or> g = 1" unfolding word_unat_eq_iff .
    then show "g \<in> fst ` set (generations full_record)" by (auto simp: full_record_def)
  qed
  moreover have "unat (0 :: u64) + nat (window_count ''2'') \<le> 2 ^ 64" by (simp add: k)
  moreover have "length ?gens = 2" by code_simp
  ultimately show ?thesis using immutable_window_settled [OF r] r by blast
qed

text \<open>Without a complete record the promise fails: the reader answers the next \<open>count\<close> generations it holds, however far on
  they lie, and the window is judged by the range that was asked for.  Here the newest generation of all is handed
  out to be kept for a year.\<close>

definition gap_record :: store where
  "gap_record = \<lparr>generations = [(9000, ''80''), (9001, ''81'')], cell_txs = [], leases = [], postgres = False\<rparr>"

lemma immutable_window_of_a_gap:
  "\<exists>gens. handleHistory (Some (store_Window gap_record)) 8 9001 ''0'' [] = Reply (0, gens) Immutable \<and> map cgNumber gens = [9000, 9001]"
proof -
  have "window_count [] = 256" by code_simp
  moreover have "window_settled 9001 0 256" by code_simp
  moreover have "map cgNumber (LoadCompact gap_record 0 256 8) = [9000, 9001]"
    by (simp add: LoadCompact_def gap_record_def)
  ultimately show ?thesis by (simp add: handleHistory_def ParseUint_zero store_Window_def)
qed

end
