(* ===== verification/HistoryAudit.thy ===== *)
theory HistoryAudit
  imports Derive
begin

text \<open>
  The audit, \<open>internal/audit/audit.go\<close>: from the record and the bytes alone, whether what ran was the
  rule.  The code mutates one report; here every operation is a function of the auditor's state.  The
  prose of findings and gaps is constructors, one per place that reports.  A panic is \<open>None\<close>.  The
  theory ends with what a clean report establishes.
\<close>

subsection \<open>What an audit reports\<close>

datatype check =
    CheckContinuity | CheckIdentity | CheckLinkage | CheckBinding | CheckCovenant
  | CheckNeighbourhood | CheckCarriedRow | CheckRule | CheckSuccessor

text \<open>Why bytes could not be had (a gap) or are not the transaction asked for (a failure).\<close>

datatype tx_problem =
    SourceFailed string
  | EmptyBytes txid
  | Unparsed txid string
  | OtherHash txid txid

datatype preimage_error =
    PreimageTooShort nat
  | ScriptCodeUnreadable
  | ScriptCodeMisfits u64 nat

datatype detail =
    RowNotImage row row
  | SeedDiffers row row
  | BadTx tx_problem
  | BadParentTx tx_problem
  | GenesisTooFew nat
  | NotDecoded script_error
  | OtherCell int
  | OtherRow row
  | NotSpent txid u32
  | NoSuchOutput nat
  | BadUnlocking script_error
  | NoPreimage script_error
  | BadPreimage preimage_error
  | OtherScript
  | OtherSpend nat
  | ReadWrong "int list"
  | CarriesOther row
  | NoOutputs
  | ContinuationCell int
  | ContinuationRow row row
  | ContinuationBit row
  | WrongBit int int int

record failure =
  failGeneration :: u64
  failCell :: int
  failCheck :: check
  failDetail :: detail

datatype gap_reason =
    NoRowRecorded
  | NoPredecessor u64
  | SeedUnknown
  | NoRecord
  | NoTxidYet status
  | NetworkRefused txid
  | NoParentRecorded u64
  | NoBytesHad tx_problem

record gap =
  gapGeneration :: u64
  gapCell :: int
  gapReason :: gap_reason

record report =
  From :: u64
  To :: u64
  repGenerations :: nat
  Transactions :: nat
  Passed :: "check \<Rightarrow> nat"
  Failures :: "failure list"
  Gaps :: "gap list"
  Truncated :: bool

definition OK :: "report \<Rightarrow> bool" where
  "OK r = (length (Failures r) = 0)"

definition checkOrder :: "check list" where
  "checkOrder = [CheckContinuity, CheckIdentity, CheckLinkage, CheckBinding, CheckCovenant,
     CheckNeighbourhood, CheckCarriedRow, CheckRule, CheckSuccessor]"

definition PassedTotal :: "report \<Rightarrow> nat" where
  "PassedTotal r = sum_list (map (Passed r) checkOrder)"

definition Counts :: "report \<Rightarrow> (check \<times> nat) list" where
  "Counts r = filter (\<lambda>(c, n). n > 0) (map (\<lambda>c. (c, Passed r c)) checkOrder)"

subsection \<open>The auditor\<close>

text \<open>What an audit is given: the compiled contract, the record, the source of bytes and the options,
  with the third-party parser and hasher, preimage computation and script splitter.\<close>

record audit_env =
  aeCompiled :: compiled
  aeStore :: store
  aeSource :: "txid \<Rightarrow> string + bytes"
  aeCodec :: tx_codec
  aeSdk :: runar_sdk
  aeChunks :: "bytes \<Rightarrow> string + chunk list"
  aeFrom :: u64
  aeTo :: u64
  aeSeed :: "row option"
  aeMaxFailures :: int

record audit_generation =
  agNumber :: u64
  agRow :: row
  agCellTx :: "int \<Rightarrow> cell_tx option"

text \<open>The report so far and the two transaction caches, of this generation and the one before.\<close>

record auditor =
  rep :: report
  txs :: "txid \<Rightarrow> tx option"
  prevTxs :: "txid \<Rightarrow> tx option"

definition pass :: "check \<Rightarrow> auditor \<Rightarrow> auditor" where
  "pass c a = a\<lparr>rep := (rep a)\<lparr>Passed := (Passed (rep a))(c := Passed (rep a) c + 1)\<rparr>\<rparr>"

definition fail :: "u64 \<Rightarrow> int \<Rightarrow> check \<Rightarrow> detail \<Rightarrow> auditor \<Rightarrow> auditor" where
  "fail g cell c d a = a\<lparr>rep := (rep a)\<lparr>Failures := Failures (rep a) @
     [\<lparr>failGeneration = g, failCell = cell, failCheck = c, failDetail = d\<rparr>]\<rparr>\<rparr>"

definition gap_at :: "u64 \<Rightarrow> int \<Rightarrow> gap_reason \<Rightarrow> auditor \<Rightarrow> auditor" where
  "gap_at g cell why a = a\<lparr>rep := (rep a)\<lparr>Gaps := Gaps (rep a) @
     [\<lparr>gapGeneration = g, gapCell = cell, gapReason = why\<rparr>]\<rparr>\<rparr>"

definition checked_tx :: "auditor \<Rightarrow> auditor" where
  "checked_tx a = a\<lparr>rep := (rep a)\<lparr>Transactions := Transactions (rep a) + 1\<rparr>\<rparr>"

definition stop :: "audit_env \<Rightarrow> auditor \<Rightarrow> bool" where
  "stop env a = (aeMaxFailures env > 0 \<and> int (length (Failures (rep a))) \<ge> aeMaxFailures env)"

definition rotate_txs :: "auditor \<Rightarrow> auditor" where
  "rotate_txs a = a\<lparr>prevTxs := txs a, txs := Map.empty\<rparr>"

definition is_missing :: "tx_problem \<Rightarrow> bool" where
  "is_missing p = (case p of SourceFailed _ \<Rightarrow> True | EmptyBytes _ \<Rightarrow> True | _ \<Rightarrow> False)"

definition fetch_tx :: "audit_env \<Rightarrow> txid \<Rightarrow> auditor \<Rightarrow> (tx_problem + tx) \<times> auditor" where
  "fetch_tx env tid a =
     (case txs a tid of
        Some t \<Rightarrow> (Inr t, a)
      | None \<Rightarrow>
     (case prevTxs a tid of
        Some t \<Rightarrow> (Inr t, a\<lparr>txs := (txs a)(tid \<mapsto> t)\<rparr>)
      | None \<Rightarrow>
     (case aeSource env tid of
        Inl msg \<Rightarrow> (Inl (SourceFailed msg), a)
      | Inr raw \<Rightarrow>
         if length raw = 0 then (Inl (EmptyBytes tid), a)
         else case ParseTx (aeCodec env) raw of
                Inl msg \<Rightarrow> (Inl (Unparsed tid msg), a)
              | Inr t \<Rightarrow>
                 if TxIDOf (aeCodec env) t \<noteq> tid then (Inl (OtherHash tid (TxIDOf (aeCodec env) t)), a)
                 else (Inr t, a\<lparr>txs := (txs a)(tid \<mapsto> t)\<rparr>))))"

definition report_tx :: "u64 \<Rightarrow> int \<Rightarrow> tx_problem \<Rightarrow> detail \<Rightarrow> auditor \<Rightarrow> auditor" where
  "report_tx g cell p d a =
     (if is_missing p then gap_at g cell (NoBytesHad p) a else fail g cell CheckIdentity d a)"

definition load :: "audit_env \<Rightarrow> u64 \<Rightarrow> ca_error + audit_generation option" where
  "load env number =
     (let gens = Load (aeStore env) number 1; n = cells (aeCompiled env) in
      if length gens = 0 \<or> genNumber (hd gens) \<noteq> number then Inr None
      else case SeedHex n (genRowHex (hd gens)) of
             Inl e \<Rightarrow> Inl e
           | Inr row \<Rightarrow> Inr (Some \<lparr>agNumber = number, agRow = row,
               agCellTx = fold (\<lambda>t m. if txCell t < 0 \<or> txCell t \<ge> n then m else m(txCell t \<mapsto> t))
                 (genCells (hd gens)) Map.empty\<rparr>))"

subsection \<open>The preimage\<close>

definition varInt :: "bytes \<Rightarrow> u64 \<times> nat" where
  "varInt b =
     (if length b = 0 then (0, 0)
      else if b ! 0 < 0xfd then (ucast (b ! 0), 1)
      else if b ! 0 = 0xfd \<and> length b \<ge> 3 then (ucast (b ! 1) OR push_bit 8 (ucast (b ! 2)), 3)
      else if b ! 0 = 0xfe \<and> length b \<ge> 5
        then (ucast (b ! 1) OR push_bit 8 (ucast (b ! 2)) OR push_bit 16 (ucast (b ! 3)) OR push_bit 24 (ucast (b ! 4)), 5)
      else if b ! 0 = 0xff \<and> length b \<ge> 9
        then (fold (\<lambda>i n. push_bit 8 n OR ucast (b ! i)) [8, 7, 6, 5, 4, 3, 2, 1] 0, 9)
      else (0, 0))"

text \<open>The sum \<open>start + int(n) + trailer\<close> is a 64-bit signed sum: \<open>end\<close> wraps, and is compared
  only after \<open>n\<close> is known to be at most the length.\<close>

definition preimageScriptCode :: "bytes \<Rightarrow> preimage_error + bytes" where
  "preimageScriptCode p =
     (let offset = 104; trailer = 52 in
      if length p \<le> offset + trailer then Inl (PreimageTooShort (length p))
      else case varInt (drop offset p) of
        (n, width) \<Rightarrow>
          if width = 0 then Inl ScriptCodeUnreadable
          else let start = offset + width in
            if unat n > length p \<or> start + unat n + trailer \<noteq> length p
            then Inl (ScriptCodeMisfits n (length p))
            else Inr (take (unat n) (drop start p)))"

text \<open>A parsed transaction's outputs all have a script.\<close>

definition out_bytes :: "tx_output \<Rightarrow> bytes" where
  "out_bytes out = (case OutScript out of None \<Rightarrow> [] | Some s \<Rightarrow> s)"

definition checkPreimage :: "audit_env \<Rightarrow> u64 \<Rightarrow> int \<Rightarrow> tx \<Rightarrow> nat \<Rightarrow> tx_output \<Rightarrow> unlock \<Rightarrow> auditor \<Rightarrow> auditor \<times> bool" where
  "checkPreimage env g cell t input parentOut u a =
     (let c = aeCompiled env; prevLock = out_bytes parentOut in
      case Preimage (aeSdk env) c (Some t) (int input) prevLock (Satoshis parentOut) of
        Inl e \<Rightarrow> (fail g cell CheckCovenant (NoPreimage e) a, False)
      | Inr want \<Rightarrow>
         if want = uPreimage u then (a, True)
         else case ScriptCode c prevLock of
           Inl e \<Rightarrow> (fail g cell CheckCovenant (NoPreimage e) a, False)
         | Inr wantCode \<Rightarrow>
            (case preimageScriptCode (uPreimage u) of
               Inl e \<Rightarrow> (fail g cell CheckCovenant (BadPreimage e) a, False)
             | Inr gotCode \<Rightarrow>
                if wantCode \<noteq> gotCode then (fail g cell CheckCovenant OtherScript a, False)
                else (fail g cell CheckCovenant (OtherSpend (length (uPreimage u))) a, False)))"

subsection \<open>One cell\<close>

definition bit_int :: "row \<Rightarrow> int \<Rightarrow> int option" where
  "bit_int row i = map_option bool_int (Get row i)"

text \<open>Generation 0: output \<open>cell\<close> of the genesis transaction is this cell's covenant with the row.\<close>

definition auditGenesisCell :: "audit_env \<Rightarrow> audit_generation \<Rightarrow> int \<Rightarrow> cell_tx \<Rightarrow> auditor \<Rightarrow> auditor" where
  "auditGenesisCell env cur cell t a =
     (case fetch_tx env (txTxID t) a of
        (Inl p, a) \<Rightarrow> report_tx 0 cell p (BadTx p) a
      | (Inr g, a) \<Rightarrow>
         (let a = pass CheckIdentity a in
          if cell \<ge> int (length (Outputs g)) then fail 0 cell CheckBinding (GenesisTooFew (length (Outputs g))) a
          else case Decode (aeCompiled env) (out_bytes (Outputs g ! nat cell)) of
                 Inl e \<Rightarrow> fail 0 cell CheckBinding (NotDecoded e) a
               | Inr b \<Rightarrow>
                  if bCell b \<noteq> cell then fail 0 cell CheckBinding (OtherCell (bCell b)) a
                  else if \<not> Equal (bRow b) (agRow cur) then fail 0 cell CheckBinding (OtherRow (bRow b)) a
                  else checked_tx (pass CheckBinding a)))"

text \<open>The first input that spends the parent's output.\<close>

definition spends_input :: "txid \<Rightarrow> u32 \<Rightarrow> tx \<Rightarrow> nat option" where
  "spends_input tid vout t =
     find (\<lambda>i. SourceTXID (Inputs t ! i) = Some tid \<and> SourceTxOutIndex (Inputs t ! i) = vout) [0..<length (Inputs t)]"

text \<open>The continuation and the rule; \<open>None\<close> is a panic.\<close>

definition auditSuccessor :: "audit_env \<Rightarrow> audit_generation \<Rightarrow> int \<Rightarrow> tx \<Rightarrow> unlock \<Rightarrow> int \<Rightarrow> int \<Rightarrow> int
    \<Rightarrow> auditor \<Rightarrow> auditor option" where
  "auditSuccessor env cur cell t u l c r a =
     (let gen = agNumber cur in
      if length (Outputs t) = 0 then Some (fail gen cell CheckSuccessor NoOutputs a)
      else case Decode (aeCompiled env) (out_bytes (Outputs t ! 0)) of
        Inl e \<Rightarrow> Some (fail gen cell CheckSuccessor (NotDecoded e) a)
      | Inr nxt \<Rightarrow>
         if bCell nxt \<noteq> cell then Some (fail gen cell CheckSuccessor (ContinuationCell (bCell nxt)) a)
         else if \<not> Equal (bRow nxt) (uNextRow u)
           then Some (fail gen cell CheckSuccessor (ContinuationRow (uNextRow u) (bRow nxt)) a)
         else case (bit_int (bRow nxt) cell, bit_int (agRow cur) cell) of
           (Some b, Some w) \<Rightarrow>
             if b \<noteq> w then Some (fail gen cell CheckSuccessor (ContinuationBit (bRow nxt)) a)
             else (case Next (crule (aeCompiled env)) l c r of
                None \<Rightarrow> None
              | Some want \<Rightarrow>
                 (let a = pass CheckSuccessor a in
                  if want \<noteq> b then Some (fail gen cell CheckRule (WrongBit l c r) a)
                  else Some (checked_tx (pass CheckRule a))))
         | _ \<Rightarrow> None)"

text \<open>The neighbourhood the covenant read against the recorded row.\<close>

definition auditRead :: "audit_env \<Rightarrow> audit_generation \<Rightarrow> audit_generation \<Rightarrow> int \<Rightarrow> tx \<Rightarrow> row \<Rightarrow> unlock
    \<Rightarrow> auditor \<Rightarrow> auditor option" where
  "auditRead env cur prev cell t row u a =
     (let n = cells (aeCompiled env); gen = agNumber cur; left = LeftIndex n cell; right = RightIndex n cell in
      case (bit_int row left, bit_int row cell, bit_int row right) of
        (Some l, Some c, Some r) \<Rightarrow>
          (case (bit_int (agRow prev) left, bit_int (agRow prev) cell, bit_int (agRow prev) right) of
             (Some pl, Some pc, Some pr) \<Rightarrow>
               (let wrong = (if l \<noteq> pl then [left] else []) @ (if c \<noteq> pc then [cell] else [])
                      @ (if r \<noteq> pr then [right] else []) in
                if length wrong > 0 then Some (fail gen cell CheckNeighbourhood (ReadWrong wrong) a)
                else let a = pass CheckNeighbourhood a in
                  if \<not> Equal row (agRow prev) then Some (fail gen cell CheckCarriedRow (CarriesOther row) a)
                  else auditSuccessor env cur cell t u l c r (pass CheckCarriedRow a))
           | _ \<Rightarrow> None)
      | _ \<Rightarrow> None)"

text \<open>What is spent: this cell's covenant, by an unlocking script whose preimage describes this spend.\<close>

definition auditSpend :: "audit_env \<Rightarrow> audit_generation \<Rightarrow> audit_generation \<Rightarrow> int \<Rightarrow> tx \<Rightarrow> nat \<Rightarrow> tx_output
    \<Rightarrow> auditor \<Rightarrow> auditor option" where
  "auditSpend env cur prev cell t input parentOut a =
     (let gen = agNumber cur; c = aeCompiled env in
      case Decode c (out_bytes parentOut) of
        Inl e \<Rightarrow> Some (fail gen cell CheckBinding (NotDecoded e) a)
      | Inr b \<Rightarrow>
         if bCell b \<noteq> cell then Some (fail gen cell CheckBinding (OtherCell (bCell b)) a)
         else let a = pass CheckBinding a in
           case DecodeUnlocking c (aeChunks env (UnlockScript (Inputs t ! input))) of
             Inl e \<Rightarrow> Some (fail gen cell CheckCovenant (BadUnlocking e) a)
           | Inr u \<Rightarrow>
              (case checkPreimage env gen cell t input parentOut u a of
                 (a, False) \<Rightarrow> Some a
               | (a, True) \<Rightarrow> auditRead env cur prev cell t (bRow b) u (pass CheckCovenant a)))"

definition auditCell :: "audit_env \<Rightarrow> audit_generation \<Rightarrow> audit_generation \<Rightarrow> int \<Rightarrow> cell_tx \<Rightarrow> auditor \<Rightarrow> auditor option" where
  "auditCell env cur prev cell t a =
     (let gen = agNumber cur in
      case agCellTx prev cell of
        None \<Rightarrow> Some (gap_at gen cell (NoParentRecorded (agNumber prev)) a)
      | Some parent \<Rightarrow>
         if txTxID parent = '''' then Some (gap_at gen cell (NoParentRecorded (agNumber prev)) a)
         else let vout = (if agNumber prev = 0 then word_of_int cell else 0) in
           case fetch_tx env (txTxID t) a of
             (Inl p, a) \<Rightarrow> Some (report_tx gen cell p (BadTx p) a)
           | (Inr x, a) \<Rightarrow>
              (case fetch_tx env (txTxID parent) (pass CheckIdentity a) of
                 (Inl p, a) \<Rightarrow> Some (report_tx gen cell p (BadParentTx p) a)
               | (Inr px, a) \<Rightarrow>
                  (case spends_input (txTxID parent) vout x of
                     None \<Rightarrow> Some (fail gen cell CheckLinkage (NotSpent (txTxID parent) vout) a)
                   | Some input \<Rightarrow>
                      if unat vout \<ge> length (Outputs px)
                      then Some (fail gen cell CheckLinkage (NoSuchOutput (length (Outputs px))) a)
                      else auditSpend env cur prev cell x input (Outputs px ! unat vout) (pass CheckLinkage a))))"

subsection \<open>One generation\<close>

definition auditSeedRow :: "audit_env \<Rightarrow> audit_generation \<Rightarrow> auditor \<Rightarrow> auditor" where
  "auditSeedRow env cur a =
     (case aeSeed env of
        None \<Rightarrow> gap_at 0 (-1) SeedUnknown a
      | Some seed \<Rightarrow>
         if \<not> Equal seed (agRow cur) then fail 0 (-1) CheckContinuity (SeedDiffers (agRow cur) seed) a
         else pass CheckContinuity a)"

text \<open>One cell of the loop, after the stop test.\<close>

definition auditRecord :: "audit_env \<Rightarrow> audit_generation \<Rightarrow> audit_generation option \<Rightarrow> int \<Rightarrow> auditor \<Rightarrow> auditor option" where
  "auditRecord env cur prev cell a =
     (case agCellTx cur cell of
        None \<Rightarrow> Some (gap_at (agNumber cur) cell NoRecord a)
      | Some t \<Rightarrow>
         if txTxID t = '''' then Some (gap_at (agNumber cur) cell (NoTxidYet (txStatus t)) a)
         else if txStatus t = StatusFailed then Some (gap_at (agNumber cur) cell (NetworkRefused (txTxID t)) a)
         else if agNumber cur = 0 then Some (auditGenesisCell env cur cell t a)
         else case prev of None \<Rightarrow> None | Some p \<Rightarrow> auditCell env cur p cell t a)"

fun cells_loop :: "audit_env \<Rightarrow> audit_generation \<Rightarrow> audit_generation option \<Rightarrow> int list \<Rightarrow> auditor \<Rightarrow> auditor option" where
  "cells_loop env cur prev [] a = Some a"
| "cells_loop env cur prev (cell # rest) a =
     (if stop env a then Some a
      else case auditRecord env cur prev cell a of
             None \<Rightarrow> None
           | Some a \<Rightarrow> cells_loop env cur prev rest a)"

definition auditGeneration :: "audit_env \<Rightarrow> audit_generation \<Rightarrow> audit_generation option \<Rightarrow> auditor \<Rightarrow> auditor option" where
  "auditGeneration env cur prev a =
     (let ring = [0..cells (aeCompiled env) - 1]; gen = agNumber cur in
      if gen = 0 then cells_loop env cur prev ring (auditSeedRow env cur a)
      else case prev of
        None \<Rightarrow> Some (gap_at gen (-1) (NoPredecessor (gen - 1)) a)
      | Some p \<Rightarrow>
         if agNumber p \<noteq> gen - 1 then Some (gap_at gen (-1) (NoPredecessor (gen - 1)) a)
         else case Step (crule (aeCompiled env)) (agRow p) of
                None \<Rightarrow> None
              | Some want \<Rightarrow>
                 cells_loop env cur prev ring
                   (if \<not> Equal want (agRow cur) then fail gen (-1) CheckContinuity (RowNotImage want (agRow cur)) a
                    else pass CheckContinuity a))"

subsection \<open>The whole audit\<close>

datatype audit_error =
    EmptyRange u64 u64
  | BadRecordedRow u64 ca_error
  | AuditPanicked

text \<open>The loop \<open>for g := From; g <= To; g++\<close>.  At \<open>To = 2^64 - 1\<close> the counter wraps and the loop does
  not end, so the whole is a partial function: \<open>None\<close> is not returning.\<close>

definition predecessor :: "audit_env \<Rightarrow> u64 \<Rightarrow> audit_generation option \<Rightarrow> audit_error + audit_generation option" where
  "predecessor env g prev =
     (if prev = None \<and> g > 0
      then (case load env (g - 1) of Inl e \<Rightarrow> Inl (BadRecordedRow (g - 1) e) | Inr p \<Rightarrow> Inr p)
      else Inr prev)"

partial_function (option) run_loop :: "audit_env \<Rightarrow> u64 \<Rightarrow> audit_generation option \<Rightarrow> auditor
    \<Rightarrow> (audit_error + auditor) option" where
  "run_loop env g prev a =
     (if g > aeTo env then Some (Inr a)
      else case predecessor env g prev of
        Inl e \<Rightarrow> Some (Inl e)
      | Inr prev \<Rightarrow>
     (case load env g of
        Inl e \<Rightarrow> Some (Inl (BadRecordedRow g e))
      | Inr None \<Rightarrow> run_loop env (g + 1) None (rotate_txs (gap_at g (-1) NoRowRecorded a))
      | Inr (Some cur) \<Rightarrow>
         (case auditGeneration env cur prev
            (a\<lparr>rep := (rep a)\<lparr>repGenerations := repGenerations (rep a) + 1\<rparr>\<rparr>) of
            None \<Rightarrow> Some (Inl AuditPanicked)
          | Some a \<Rightarrow>
             if stop env a then Some (Inr (a\<lparr>rep := (rep a)\<lparr>Truncated := True\<rparr>\<rparr>))
             else run_loop env (g + 1) (Some cur) (rotate_txs a))))"

definition new_auditor :: "audit_env \<Rightarrow> auditor" where
  "new_auditor env = \<lparr>rep = \<lparr>From = aeFrom env, To = aeTo env, repGenerations = 0, Transactions = 0,
     Passed = (\<lambda>_. 0), Failures = [], Gaps = [], Truncated = False\<rparr>, txs = Map.empty, prevTxs = Map.empty\<rparr>"

definition Run :: "audit_env \<Rightarrow> (audit_error + report) option" where
  "Run env =
     (if aeTo env < aeFrom env then Some (Inl (EmptyRange (aeFrom env) (aeTo env)))
      else map_option (map_sum id rep) (run_loop env (aeFrom env) None (new_auditor env)))"

subsection \<open>What a clean audit saw\<close>

definition clean :: "auditor \<Rightarrow> bool" where
  "clean a = (Failures (rep a) = [] \<and> Gaps (rep a) = [])"

definition fetched :: "audit_env \<Rightarrow> txid \<Rightarrow> tx \<Rightarrow> bool" where
  "fetched env tid t = (\<exists>raw. aeSource env tid = Inr raw \<and> raw \<noteq> [] \<and> ParseTx (aeCodec env) raw = Inr t
     \<and> TxIDOf (aeCodec env) t = tid)"

text \<open>The caches hold what the source answered, and no early stop has been filed.\<close>

definition cache_ok :: "audit_env \<Rightarrow> auditor \<Rightarrow> bool" where
  "cache_ok env a = (\<not> Truncated (rep a) \<and> (\<forall>tid t. txs a tid = Some t \<or> prevTxs a tid = Some t \<longrightarrow> fetched env tid t))"

lemma clean_simps [simp]:
  "clean (pass c a) = clean a" "clean (checked_tx a) = clean a" "clean (rotate_txs a) = clean a"
  "\<not> clean (fail g cell c d a)" "\<not> clean (gap_at g cell why a)" "\<not> clean (report_tx g cell p d a)"
  by (simp_all add: clean_def pass_def checked_tx_def rotate_txs_def fail_def gap_at_def report_tx_def)

lemma cache_simps [simp]:
  "cache_ok env (pass c a) = cache_ok env a" "cache_ok env (checked_tx a) = cache_ok env a"
  "cache_ok env a \<Longrightarrow> cache_ok env (rotate_txs a)"
  "cache_ok env (fail g cell c d a) = cache_ok env a" "cache_ok env (gap_at g cell why a) = cache_ok env a"
  "cache_ok env (a\<lparr>rep := (rep a)\<lparr>repGenerations := n\<rparr>\<rparr>) = cache_ok env a"
  by (simp_all add: cache_ok_def pass_def checked_tx_def rotate_txs_def fail_def gap_at_def)

lemma stop_clean: "clean a \<Longrightarrow> \<not> stop env a"
  by (simp add: clean_def stop_def)

lemma fetch_ok:
  assumes "fetch_tx env tid a = (out, a')" and "cache_ok env a"
  shows "cache_ok env a' \<and> rep a' = rep a \<and> (\<forall>t. out = Inr t \<longrightarrow> fetched env tid t)"
  using assms
  by (auto simp: fetch_tx_def cache_ok_def fetched_def split: option.splits sum.splits if_splits)

lemma fetch_clean: "fetch_tx env tid a = (out, a') \<Longrightarrow> clean a' = clean a"
  by (auto simp: fetch_tx_def clean_def split: option.splits sum.splits if_splits)

definition genesis_proved :: "audit_env \<Rightarrow> audit_generation \<Rightarrow> int \<Rightarrow> cell_tx \<Rightarrow> bool" where
  "genesis_proved env cur cell t \<longleftrightarrow> (\<exists>x. fetched env (txTxID t) x
     \<and> cell < int (length (Outputs x))
     \<and> Decode (aeCompiled env) (out_bytes (Outputs x ! nat cell)) = Inr \<lparr>bCell = cell, bRow = agRow cur\<rparr>)"

text \<open>The evidence for one transition: a fetched transaction whose first input spending the fetched
  parent's output of this cell, which carries this cell's covenant at the whole recorded row of the
  generation before, does so by an unlocking script whose preimage is that of this spend; and a
  continuation that is this cell's covenant at the presented row, whose bit of this cell is the
  recorded one.\<close>

definition step_proved :: "audit_env \<Rightarrow> audit_generation \<Rightarrow> audit_generation \<Rightarrow> int \<Rightarrow> cell_tx \<Rightarrow> bool" where
  "step_proved env prev cur cell t \<longleftrightarrow> (\<exists>parent x px input u.
     let c = aeCompiled env; vout = (if agNumber prev = 0 then word_of_int cell else 0) in
       agCellTx prev cell = Some parent \<and> txTxID parent \<noteq> ''''
     \<and> fetched env (txTxID t) x \<and> fetched env (txTxID parent) px
     \<and> spends_input (txTxID parent) vout x = Some input \<and> unat vout < length (Outputs px)
     \<and> Decode c (out_bytes (Outputs px ! unat vout)) = Inr \<lparr>bCell = cell, bRow = agRow prev\<rparr>
     \<and> DecodeUnlocking c (aeChunks env (UnlockScript (Inputs x ! input))) = Inr u
     \<and> Preimage (aeSdk env) c (Some x) (int input) (out_bytes (Outputs px ! unat vout))
          (Satoshis (Outputs px ! unat vout)) = Inr (uPreimage u)
     \<and> Outputs x \<noteq> [] \<and> Decode c (out_bytes (Outputs x ! 0)) = Inr \<lparr>bCell = cell, bRow = uNextRow u\<rparr>
     \<and> Get (uNextRow u) cell = Get (agRow cur) cell)"

lemma genesis_ok:
  assumes "cache_ok env a" and "clean (auditGenesisCell env cur cell t a)"
  shows "clean a \<and> cache_ok env (auditGenesisCell env cur cell t a) \<and> genesis_proved env cur cell t"
proof -
  obtain out a1 where f: "fetch_tx env (txTxID t) a = (out, a1)" by fastforce
  note ok = fetch_ok [OF f assms(1)] fetch_clean [OF f]
  obtain x where x: "out = Inr x" using assms(2) f by (cases out) (simp_all add: auditGenesisCell_def)
  obtain b where b: "cell < int (length (Outputs x))" "Decode (aeCompiled env) (out_bytes (Outputs x ! nat cell)) = Inr b"
    "bCell b = cell" "bRow b = agRow cur" "clean a1"
    using assms(2) f x by (auto simp: auditGenesisCell_def Let_def Equal_iff split: if_splits sum.splits)
  have "auditGenesisCell env cur cell t a = checked_tx (pass CheckBinding (pass CheckIdentity a1))"
    using f x b by (simp add: auditGenesisCell_def Equal_iff)
  moreover have "genesis_proved env cur cell t"
    unfolding genesis_proved_def using ok(1) x b
    by (intro exI [of _ x]) (simp add: binding.equality)
  ultimately show ?thesis using ok b(5) by simp
qed

lemma successor_ok:
  assumes "auditSuccessor env cur cell t u l c r a = Some a'" and "clean a'"
  shows "clean a \<and> (cache_ok env a \<longrightarrow> cache_ok env a') \<and> Outputs t \<noteq> []
     \<and> Decode (aeCompiled env) (out_bytes (Outputs t ! 0)) = Inr \<lparr>bCell = cell, bRow = uNextRow u\<rparr>
     \<and> Get (uNextRow u) cell = Get (agRow cur) cell"
proof -
  have inj: "map_option bool_int x = map_option bool_int y \<Longrightarrow> x = y" for x y
    by (cases x; cases y) (auto simp: bool_int_def split: if_splits)
  obtain nxt where n: "Outputs t \<noteq> []" "Decode (aeCompiled env) (out_bytes (Outputs t ! 0)) = Inr nxt"
    "bCell nxt = cell" "bRow nxt = uNextRow u"
    using assms by (auto simp: auditSuccessor_def Let_def Equal_iff split: if_splits sum.splits)
  moreover have "bit_int (uNextRow u) cell = bit_int (agRow cur) cell \<and> clean a \<and> (cache_ok env a \<longrightarrow> cache_ok env a')"
    using assms n by (auto simp: auditSuccessor_def Let_def Equal_iff split: if_splits option.splits)
  ultimately show ?thesis by (auto simp: bit_int_def intro: inj)
qed

lemma read_ok:
  assumes "auditRead env cur prev cell t row u a = Some a'" and "clean a'"
  shows "row = agRow prev \<and> (\<exists>l c r. auditSuccessor env cur cell t u l c r
      (pass CheckCarriedRow (pass CheckNeighbourhood a)) = Some a')"
  using assms by (auto simp: auditRead_def Let_def Equal_iff split: option.splits if_splits)

lemma preimage_ok:
  assumes "checkPreimage env g cell t input out u a = (a', ok)"
  shows "ok \<Longrightarrow> a' = a \<and> Preimage (aeSdk env) (aeCompiled env) (Some t) (int input) (out_bytes out) (Satoshis out)
      = Inr (uPreimage u)" "\<not> ok \<Longrightarrow> \<not> clean a'"
  using assms by (auto simp: checkPreimage_def Let_def split: sum.splits if_splits)

lemma spend_ok:
  assumes "auditSpend env cur prev cell t input out a = Some a'" and "clean a'"
  shows "\<exists>u l c r. Decode (aeCompiled env) (out_bytes out) = Inr \<lparr>bCell = cell, bRow = agRow prev\<rparr>
     \<and> DecodeUnlocking (aeCompiled env) (aeChunks env (UnlockScript (Inputs t ! input))) = Inr u
     \<and> Preimage (aeSdk env) (aeCompiled env) (Some t) (int input) (out_bytes out) (Satoshis out) = Inr (uPreimage u)
     \<and> auditSuccessor env cur cell t u l c r
          (pass CheckCarriedRow (pass CheckNeighbourhood (pass CheckCovenant (pass CheckBinding a)))) = Some a'"
proof -
  let ?a = "pass CheckBinding a"
  obtain b u where b: "Decode (aeCompiled env) (out_bytes out) = Inr b" "bCell b = cell"
    "DecodeUnlocking (aeCompiled env) (aeChunks env (UnlockScript (Inputs t ! input))) = Inr u"
    using assms by (auto simp: auditSpend_def Let_def split: sum.splits if_splits)
  obtain a1 ok where p: "checkPreimage env (agNumber cur) cell t input out u ?a = (a1, ok)" by fastforce
  have ok: ok using assms preimage_ok(2) [OF p] b p by (auto simp: auditSpend_def Let_def split: if_splits bool.splits)
  then have r: "auditRead env cur prev cell t (bRow b) u (pass CheckCovenant ?a) = Some a'"
    using assms b p preimage_ok(1) [OF p] by (simp add: auditSpend_def Let_def)
  from read_ok [OF this assms(2)] preimage_ok(1) [OF p ok] b show ?thesis
    by (metis binding.surjective old.unit.exhaust)
qed

lemma cell_ok:
  assumes run: "auditCell env cur prev cell t a = Some a'" and "clean a'" and "cache_ok env a"
  shows "clean a \<and> cache_ok env a' \<and> step_proved env prev cur cell t"
proof -
  define vout :: u32 where "vout = (if agNumber prev = 0 then word_of_int cell else 0)"
  obtain parent where p: "agCellTx prev cell = Some parent" "txTxID parent \<noteq> ''''"
    using run assms(2) by (auto simp: auditCell_def Let_def split: option.splits if_splits)
  obtain o1 a1 where f1: "fetch_tx env (txTxID t) a = (o1, a1)" by fastforce
  obtain x where x: "o1 = Inr x" using run assms(2) p f1 by (cases o1) (auto simp: auditCell_def)
  obtain o2 a2 where f2: "fetch_tx env (txTxID parent) (pass CheckIdentity a1) = (o2, a2)" by fastforce
  obtain px where px: "o2 = Inr px" using run assms(2) p f1 x f2 by (cases o2) (auto simp: auditCell_def)
  obtain input where i: "spends_input (txTxID parent) vout x = Some input" "unat vout < length (Outputs px)"
    "auditSpend env cur prev cell x input (Outputs px ! unat vout) (pass CheckLinkage a2) = Some a'"
    using run assms(2) p f1 x f2 px
    by (auto simp: auditCell_def Let_def vout_def [symmetric] split: option.splits if_splits)
  note k1 = fetch_ok [OF f1 assms(3)] fetch_clean [OF f1]
  have k2: "cache_ok env a2 \<and> fetched env (txTxID parent) px" "clean a2 = clean a1"
    using fetch_ok [OF f2] fetch_clean [OF f2] k1 px by simp_all
  obtain u l c r where s: "Decode (aeCompiled env) (out_bytes (Outputs px ! unat vout)) = Inr \<lparr>bCell = cell, bRow = agRow prev\<rparr>"
    "DecodeUnlocking (aeCompiled env) (aeChunks env (UnlockScript (Inputs x ! input))) = Inr u"
    "Preimage (aeSdk env) (aeCompiled env) (Some x) (int input) (out_bytes (Outputs px ! unat vout))
       (Satoshis (Outputs px ! unat vout)) = Inr (uPreimage u)"
    "auditSuccessor env cur cell x u l c r
       (pass CheckCarriedRow (pass CheckNeighbourhood (pass CheckCovenant (pass CheckBinding (pass CheckLinkage a2))))) = Some a'"
    using spend_ok [OF i(3) assms(2)] by blast
  note n = successor_ok [OF s(4) assms(2)]
  have "step_proved env prev cur cell t"
    unfolding step_proved_def Let_def vout_def [symmetric]
    using p k1(1) x k2(1) i(1,2) s(1-3) n by blast
  then show ?thesis using n k1 k2 by simp
qed

definition cell_proved :: "audit_env \<Rightarrow> audit_generation option \<Rightarrow> audit_generation \<Rightarrow> int \<Rightarrow> bool" where
  "cell_proved env prev cur cell =
     (\<exists>t. agCellTx cur cell = Some t \<and> txTxID t \<noteq> '''' \<and> txStatus t \<noteq> StatusFailed
        \<and> (if agNumber cur = 0 then genesis_proved env cur cell t
           else case prev of None \<Rightarrow> False | Some p \<Rightarrow> step_proved env p cur cell t))"

lemma record_ok:
  assumes "auditRecord env cur prev cell a = Some a'" and "clean a'" and "cache_ok env a"
  shows "clean a \<and> cache_ok env a' \<and> cell_proved env prev cur cell"
proof -
  obtain t where t: "agCellTx cur cell = Some t" "txStatus t \<noteq> StatusFailed" "txTxID t \<noteq> ''''"
    using assms by (auto simp: auditRecord_def split: option.splits if_splits)
  show ?thesis
  proof (cases "agNumber cur = 0")
    case True
    then have a': "a' = auditGenesisCell env cur cell t a"
      using assms(1,2) t by (auto simp: auditRecord_def split: if_splits)
    show ?thesis using genesis_ok [OF assms(3)] assms(2) True t by (simp add: cell_proved_def a')
  next
    case False
    then obtain p where p: "prev = Some p" "auditCell env cur p cell t a = Some a'"
      using assms(1,2) t by (auto simp: auditRecord_def split: if_splits option.splits)
    show ?thesis using cell_ok [OF p(2) assms(2,3)] False p(1) t by (simp add: cell_proved_def)
  qed
qed

text \<open>The caches stay right whatever the audit finds.\<close>

lemma report_cache [simp]: "cache_ok env (report_tx g cell p d a) = cache_ok env a"
  by (simp add: report_tx_def)

lemma genesis_cache: "cache_ok env a \<Longrightarrow> cache_ok env (auditGenesisCell env cur cell t a)"
  by (auto simp: auditGenesisCell_def Let_def split: prod.split sum.split dest: fetch_ok)

lemma spend_cache: "auditSpend env cur prev cell t input out a = Some a' \<Longrightarrow> cache_ok env a \<Longrightarrow> cache_ok env a'"
  by (auto simp: auditSpend_def checkPreimage_def auditRead_def auditSuccessor_def Let_def
      split: sum.splits if_splits option.splits)

lemma cell_cache: "auditCell env cur prev cell t a = Some a' \<Longrightarrow> cache_ok env a \<Longrightarrow> cache_ok env a'"
  by (auto simp: auditCell_def Let_def split: option.splits if_splits prod.splits sum.splits
      dest!: fetch_ok intro: spend_cache)

lemma record_cache: "auditRecord env cur prev cell a = Some a' \<Longrightarrow> cache_ok env a \<Longrightarrow> cache_ok env a'"
  by (auto simp: auditRecord_def split: option.splits if_splits intro: cell_cache genesis_cache)

lemma cells_ok:
  "cells_loop env cur prev ring a = Some a' \<Longrightarrow> clean a' \<Longrightarrow> cache_ok env a \<Longrightarrow>
   clean a \<and> cache_ok env a' \<and> (\<forall>cell \<in> set ring. cell_proved env prev cur cell)"
proof (induction ring arbitrary: a)
  case (Cons cell ring)
  show ?case
  proof (cases "stop env a")
    case True
    then show ?thesis using Cons.prems stop_clean by fastforce
  next
    case False
    then obtain a1 where a1: "auditRecord env cur prev cell a = Some a1" "cells_loop env cur prev ring a1 = Some a'"
      using Cons.prems(1) by (auto split: option.splits)
    have k: "cache_ok env a1" by (rule record_cache [OF a1(1) Cons.prems(3)])
    show ?thesis using Cons.IH [OF a1(2) Cons.prems(2) k] record_ok [OF a1(1) _ Cons.prems(3)] by simp
  qed
qed simp

definition rows_follow :: "audit_env \<Rightarrow> audit_generation option \<Rightarrow> audit_generation \<Rightarrow> bool" where
  "rows_follow env prev cur =
     (if agNumber cur = 0 then aeSeed env = Some (agRow cur)
      else case prev of None \<Rightarrow> False
        | Some p \<Rightarrow> Step (crule (aeCompiled env)) (agRow p) = Some (agRow cur))"

lemma seed_ok:
  "clean (auditSeedRow env cur a) \<Longrightarrow> clean a \<and> aeSeed env = Some (agRow cur)"
  "cache_ok env (auditSeedRow env cur a) = cache_ok env a"
  by (auto simp: auditSeedRow_def Equal_iff split: option.splits if_splits)

lemma generation_ok:
  assumes run: "auditGeneration env cur prev a = Some a'" and clean: "clean a'" and cache: "cache_ok env a"
  shows "clean a \<and> cache_ok env a' \<and> rows_follow env prev cur
     \<and> (\<forall>cell. 0 \<le> cell \<and> cell < cells (aeCompiled env) \<longrightarrow> cell_proved env prev cur cell)"
proof -
  let ?ring = "[0..cells (aeCompiled env) - 1]"
  have ring: "set ?ring = {cell. 0 \<le> cell \<and> cell < cells (aeCompiled env)}" by auto
  obtain a1 where a1: "cells_loop env cur prev ?ring a1 = Some a'" "cache_ok env a1"
    "clean a1 \<longrightarrow> clean a \<and> rows_follow env prev cur"
  proof (cases "agNumber cur = 0")
    case True
    then have "cells_loop env cur prev ?ring (auditSeedRow env cur a) = Some a'"
      using run by (simp add: auditGeneration_def Let_def)
    then show ?thesis using that cache seed_ok True by (simp add: rows_follow_def)
  next
    case False
    obtain p where p: "prev = Some p" "agNumber p = agNumber cur - 1"
    proof (cases prev)
      case None
      then show ?thesis using run clean False by (auto simp: auditGeneration_def Let_def)
    next
      case (Some p)
      then show ?thesis using run clean False that [of p]
        by (cases "agNumber p = agNumber cur - 1") (auto simp: auditGeneration_def Let_def)
    qed
    obtain want where w: "Step (crule (aeCompiled env)) (agRow p) = Some want" using Step_total by blast
    have "cells_loop env cur prev ?ring
         (if \<not> Equal want (agRow cur) then fail (agNumber cur) (-1) CheckContinuity (RowNotImage want (agRow cur)) a
          else pass CheckContinuity a) = Some a'"
      using run by (simp only: auditGeneration_def Let_def False if_False p option.case w) simp
    then show ?thesis using that cache False p(1) w by (cases "Equal want (agRow cur)") (simp_all add: rows_follow_def Equal_iff)
  qed
  from cells_ok [OF a1(1) clean a1(2)] a1(3) show ?thesis unfolding ring by blast
qed

lemma generation_cache:
  assumes "auditGeneration env cur prev a = Some a'" and "cache_ok env a"
  shows "cache_ok env a'"
proof -
  have c: "cells_loop env cur prev ring x = Some y \<Longrightarrow> cache_ok env x \<Longrightarrow> cache_ok env y" for ring x y
    by (induction ring arbitrary: x) (auto split: if_splits option.splits dest: record_cache)
  show ?thesis
  proof (cases "agNumber cur = 0")
    case True
    then show ?thesis using assms c by (simp add: auditGeneration_def Let_def seed_ok(2))
  next
    case False
    show ?thesis
    proof (cases prev)
      case None
      then show ?thesis using assms False by (auto simp: auditGeneration_def Let_def)
    next
      case (Some p)
      obtain want where w: "Step (crule (aeCompiled env)) (agRow p) = Some want" using Step_total by blast
      show ?thesis
        using assms False Some w c
        by (cases "agNumber p = agNumber cur - 1"; cases "Equal want (agRow cur)") (auto simp: auditGeneration_def Let_def)
    qed
  qed
qed

lemma load_number: "load env g = Inr (Some cur) \<Longrightarrow> agNumber cur = g"
  by (auto simp: load_def Let_def split: if_splits sum.splits)

text \<open>What the audit establishes of one generation.\<close>

definition generation_proved :: "audit_env \<Rightarrow> u64 \<Rightarrow> bool" where
  "generation_proved env g \<longleftrightarrow> (\<exists>cur prev. load env g = Inr (Some cur)
     \<and> (g \<noteq> 0 \<longrightarrow> load env (g - 1) = Inr prev) \<and> rows_follow env prev cur
     \<and> (\<forall>cell. 0 \<le> cell \<and> cell < cells (aeCompiled env) \<longrightarrow> cell_proved env prev cur cell))"

lemma u64_between: "g \<le> h \<Longrightarrow> h \<noteq> g \<Longrightarrow> g + 1 \<le> h" for g h :: u64
  by (metis add.commute inc_le order_le_imp_less_or_eq)

lemma run_loop_ok:
  "run_loop env g prev a = Some out \<Longrightarrow> out = Inr a' \<Longrightarrow> clean a' \<Longrightarrow> cache_ok env a \<Longrightarrow>
   prev = None \<or> load env (g - 1) = Inr prev \<Longrightarrow>
   clean a \<and> cache_ok env a' \<and> (\<forall>h. g \<le> h \<and> h \<le> aeTo env \<longrightarrow> generation_proved env h)"
proof (induction arbitrary: a' rule: run_loop.raw_induct [rotated, consumes 1, case_names 1])
  case (1 loop env g prev a out)
  show ?case
  proof (cases "g > aeTo env")
    case True
    then have "a' = a" using 1(2,3) by simp
    then show ?thesis using True 1(4,5) by auto
  next
    case False
    obtain p where p: "predecessor env g prev = Inr p" using 1(2,3) False by (auto split: sum.splits)
    have lp: "g \<noteq> 0 \<longrightarrow> load env (g - 1) = Inr p"
      using p 1(6) by (auto simp: predecessor_def word_gt_0 split: if_splits sum.splits)
    have body: "(case load env g of
        Inl e \<Rightarrow> Some (Inl (BadRecordedRow g e))
      | Inr None \<Rightarrow> loop env (g + 1) None (rotate_txs (gap_at g (-1) NoRowRecorded a))
      | Inr (Some cur) \<Rightarrow>
         (case auditGeneration env cur p (a\<lparr>rep := (rep a)\<lparr>repGenerations := repGenerations (rep a) + 1\<rparr>\<rparr>) of
            None \<Rightarrow> Some (Inl AuditPanicked)
          | Some a \<Rightarrow>
             if stop env a then Some (Inr (a\<lparr>rep := (rep a)\<lparr>Truncated := True\<rparr>\<rparr>))
             else loop env (g + 1) (Some cur) (rotate_txs a))) = Some (Inr a')"
      using 1(2,3) False by (simp add: p)
    have unclean: "load env g \<noteq> Inr None"
      using body 1(1) [OF _ refl 1(4)] 1(5) by fastforce
    then obtain cur a2 where cur: "load env g = Inr (Some cur)"
      "auditGeneration env cur p (a\<lparr>rep := (rep a)\<lparr>repGenerations := repGenerations (rep a) + 1\<rparr>\<rparr>) = Some a2"
      using body by (auto split: sum.splits option.splits)
    have c2: "cache_ok env a2" by (rule generation_cache [OF cur(2)]) (use 1(5) in simp)
    have go: "\<not> stop env a2"
    proof
      assume "stop env a2"
      then have "clean a2" using body cur 1(4) by (auto simp: clean_def)
      then show False using \<open>stop env a2\<close> stop_clean by blast
    qed
    then have "loop env (g + 1) (Some cur) (rotate_txs a2) = Some (Inr a')" using body cur by simp
    note ih = 1(1) [OF this refl 1(4)]
    have rest: "clean a2 \<and> cache_ok env a' \<and> (\<forall>h. g + 1 \<le> h \<and> h \<le> aeTo env \<longrightarrow> generation_proved env h)"
      using ih cur(1) c2 by simp
    have "clean (a\<lparr>rep := (rep a)\<lparr>repGenerations := repGenerations (rep a) + 1\<rparr>\<rparr>) \<and> rows_follow env p cur
        \<and> (\<forall>cell. 0 \<le> cell \<and> cell < cells (aeCompiled env) \<longrightarrow> cell_proved env p cur cell)"
      using generation_ok [OF cur(2)] rest 1(5) by simp
    then have "clean a" "generation_proved env g"
      unfolding generation_proved_def using cur(1) lp by (auto simp: clean_def)
    then show ?thesis using rest u64_between by metis
  qed
qed

text \<open>What was loaded is what the record says.\<close>

lemma load_row:
  assumes "keys_ok (aeStore env)" and "load env g = Inr (Some cur)"
  shows "\<exists>h. RowAt (aeStore env) g = Some h \<and> SeedHex (cells (aeCompiled env)) h = Inr (agRow cur)"
proof -
  let ?gens = "take 1 (sort_key fst (filter (\<lambda>(n, h). n \<ge> g) (generations (aeStore env))))"
  obtain h where h: "?gens = [(g, h)]" "SeedHex (cells (aeCompiled env)) h = Inr (agRow cur)"
  proof -
    have "?gens = [] \<or> (\<exists>x. ?gens = [x])" by (cases "sort_key fst (filter (\<lambda>(n, h). n \<ge> g) (generations (aeStore env)))") simp_all
    then obtain k h where x: "?gens = [(k, h)]" using assms(2) by (auto simp: load_def Load_def)
    then have "k = g \<and> SeedHex (cells (aeCompiled env)) h = Inr (agRow cur)"
      using assms(2) by (auto simp: load_def Load_def Let_def split: if_splits sum.splits)
    then show ?thesis using that x by blast
  qed
  have "(g, h) \<in> set ?gens" using h(1) by simp
  then have "(g, h) \<in> set (generations (aeStore env))" by (auto dest: in_set_takeD)
  then have "RowAt (aeStore env) g = Some h"
    using assms(1) by (simp add: RowAt_def keys_ok_def)
  then show ?thesis using h(2) by blast
qed

lemma fold_put_cells:
  "fold (\<lambda>t m. if txCell t < 0 \<or> txCell t \<ge> n then m else m(txCell t \<mapsto> t)) ts m cell = Some t \<Longrightarrow>
   m cell = Some t \<or> t \<in> set ts \<and> txCell t = cell"
proof (induction ts arbitrary: m)
  case (Cons a ts)
  let ?m = "if txCell a < 0 \<or> txCell a \<ge> n then m else m(txCell a \<mapsto> a)"
  have "?m cell = Some t \<or> t \<in> set ts \<and> txCell t = cell" by (rule Cons.IH) (use Cons.prems in simp)
  then show ?case by (auto split: if_splits)
qed simp

lemma loaded_cell:
  assumes "keys_ok (aeStore env)" and "load env g = Inr (Some cur)" and "agCellTx cur cell = Some t"
  shows "CellAt (aeStore env) g cell = Some (txTxID t, txStatus t, txErr t)"
proof -
  let ?g0 = "hd (Load (aeStore env) g 1)"
  have l: "Load (aeStore env) g 1 \<noteq> []" "genNumber ?g0 = g"
    "agCellTx cur = fold (\<lambda>t m. if txCell t < 0 \<or> txCell t \<ge> cells (aeCompiled env) then m else m(txCell t \<mapsto> t))
      (genCells ?g0) Map.empty"
    using assms(2) by (auto simp: load_def Let_def split: if_splits sum.splits)
  have t: "t \<in> set (genCells ?g0)" "txCell t = cell" using fold_put_cells assms(3) unfolding l(3) by force+
  have "\<exists>r \<in> set (cell_txs (aeStore env)). t = row_tx r \<and> rowGen r = g"
    using t(1) l(1,2) by (auto simp: Load_def Let_def order_by_gen_cell_def hd_map split: if_splits prod.splits)
  then obtain r where r: "r \<in> set (cell_txs (aeStore env))" "t = row_tx r" "rowGen r = g" by blast
  then have "row_at (aeStore env) g cell = Some r" using row_at_unique [OF assms(1)] t(2) by (simp add: row_tx_def)
  then show ?thesis using r(2) by (simp add: CellAt_row row_tx_def)
qed

lemma run_clean:
  assumes "Run env = Some (Inr r)" and "OK r" and "Gaps r = []"
  shows "\<not> Truncated r \<and> (\<forall>g. aeFrom env \<le> g \<and> g \<le> aeTo env \<longrightarrow> generation_proved env g)"
proof -
  obtain z where z: "run_loop env (aeFrom env) None (new_auditor env) = Some z" "map_sum id rep z = Inr r"
    using assms(1) by (auto simp: Run_def split: if_splits)
  then obtain a where a: "run_loop env (aeFrom env) None (new_auditor env) = Some (Inr a)" "r = rep a"
    by (cases z) simp_all
  have "clean a" using assms(2,3) a(2) by (simp add: clean_def OK_def)
  moreover have "cache_ok env (new_auditor env)" by (simp add: cache_ok_def new_auditor_def)
  ultimately show ?thesis using run_loop_ok [OF a(1) refl] a(2) unfolding cache_ok_def by blast
qed

end
