(* ===== verification/AuditExact.thy ===== *)
theory AuditExact
  imports HistoryAudit
begin

text \<open>
  What an audit of \<open>internal/audit/audit.go\<close> is worth: it comes back clean exactly when every
  generation of its range is proved by the record and the bytes, and a history it clears from
  generation 0 on is the reference automaton's.
\<close>

subsection \<open>What is proved passes\<close>

lemma fetch_complete:
  assumes "fetched env tid t" and "cache_ok env a"
  shows "\<exists>a'. fetch_tx env tid a = (Inr t, a') \<and> cache_ok env a' \<and> clean a' = clean a"
proof -
  obtain out a' where f: "fetch_tx env tid a = (out, a')" by fastforce
  obtain raw where raw: "aeSource env tid = Inr raw" "raw \<noteq> []" "ParseTx (aeCodec env) raw = Inr t"
    "TxIDOf (aeCodec env) t = tid"
    using assms(1) by (auto simp: fetched_def)
  have cached: "u = t" if "txs a tid = Some u \<or> prevTxs a tid = Some u" for u
    using that assms(2) raw unfolding cache_ok_def fetched_def by (metis Inr_inject)
  have "out = Inr t"
  proof (cases "txs a tid")
    case None
    then show ?thesis using f raw cached by (cases "prevTxs a tid") (simp_all add: fetch_tx_def)
  next
    case (Some u)
    then show ?thesis using f cached [of u] by (auto simp: fetch_tx_def)
  qed
  then show ?thesis using f fetch_ok [OF f assms(2)] fetch_clean [OF f] by simp
qed

lemma genesis_complete:
  assumes "genesis_proved env cur cell t" and "cache_ok env a" and "clean a"
  shows "clean (auditGenesisCell env cur cell t a)"
proof -
  obtain x where x: "fetched env (txTxID t) x" "cell < int (length (Outputs x))"
    "Decode (aeCompiled env) (out_bytes (Outputs x ! nat cell)) = Inr \<lparr>bCell = cell, bRow = agRow cur\<rparr>"
    using assms(1) by (auto simp: genesis_proved_def)
  obtain a' where a': "fetch_tx env (txTxID t) a = (Inr x, a')" "clean a'"
    using fetch_complete [OF x(1) assms(2)] assms(3) by blast
  then show ?thesis using x by (simp add: auditGenesisCell_def Let_def Equal_iff)
qed

text \<open>A row of the ring gives its bits, and the rule's image of it the rule's answer.\<close>

lemma bit_int_row: "0 \<le> cell \<Longrightarrow> cell < Cells row \<Longrightarrow> bit_int row cell = Some (bool_int (alive row cell))"
  by (simp add: bit_int_def Get_eq)

lemma bit_Next:
  assumes "Step rule row = Some res" and "0 \<le> cell" and "cell < Cells row"
  shows "Next rule (bool_int (alive row (LeftIndex (Cells row) cell))) (bool_int (alive row cell))
      (bool_int (alive row (RightIndex (Cells row) cell))) = Some (bool_int (alive res cell))"
proof -
  have "alive res cell = next_alive rule row cell" using Step_spec [of rule row] assms by auto
  then show ?thesis unfolding Next_nbhd by (simp add: next_alive_def bool_int_def)
qed

lemma successor_complete:
  assumes "Outputs t \<noteq> []" and "Decode (aeCompiled env) (out_bytes (Outputs t ! 0)) = Inr \<lparr>bCell = cell, bRow = uNextRow u\<rparr>"
    and "Get (uNextRow u) cell = Get (agRow cur) cell" and "Get (agRow cur) cell = Some b"
    and "Next (crule (aeCompiled env)) l c r = Some (bool_int b)" and "clean a"
  shows "\<exists>a'. auditSuccessor env cur cell t u l c r a = Some a' \<and> clean a'"
  using assms by (simp add: auditSuccessor_def Let_def Equal_iff bit_int_def)

lemma read_complete:
  assumes s: "Step (crule (aeCompiled env)) (agRow prev) = Some (agRow cur)"
    and n: "Cells (agRow prev) = cells (aeCompiled env)" and c: "0 \<le> cell" "cell < cells (aeCompiled env)"
    and o: "Outputs t \<noteq> []" "Decode (aeCompiled env) (out_bytes (Outputs t ! 0)) = Inr \<lparr>bCell = cell, bRow = uNextRow u\<rparr>"
    and g: "Get (uNextRow u) cell = Get (agRow cur) cell" and "clean a"
  shows "\<exists>a'. auditRead env cur prev cell t (agRow prev) u a = Some a' \<and> clean a'"
proof -
  let ?row = "agRow prev" and ?n = "cells (aeCompiled env)"
  have r: "0 \<le> LeftIndex ?n cell" "LeftIndex ?n cell < ?n" "0 \<le> RightIndex ?n cell" "RightIndex ?n cell < ?n"
    using LeftIndex_range [of ?n cell] RightIndex_range [of ?n cell] c by auto
  have bits: "bit_int ?row i = Some (bool_int (alive ?row i))" if "0 \<le> i" "i < ?n" for i
    using bit_int_row that n by simp
  have "Cells (agRow cur) = ?n" using Step_spec [of "crule (aeCompiled env)" ?row] s n by (auto simp: Cells_def)
  then have b: "Get (agRow cur) cell = Some (alive (agRow cur) cell)" using c by (simp add: Get_eq)
  have "Next (crule (aeCompiled env)) (bool_int (alive ?row (LeftIndex ?n cell))) (bool_int (alive ?row cell))
      (bool_int (alive ?row (RightIndex ?n cell))) = Some (bool_int (alive (agRow cur) cell))"
    using bit_Next [OF s, of cell] c n by simp
  from successor_complete [where a = "pass CheckCarriedRow (pass CheckNeighbourhood a)", OF o g b this]
  show ?thesis using \<open>clean a\<close> bits r c by (simp add: auditRead_def Let_def Equal_iff)
qed

lemma cell_complete:
  assumes p: "step_proved env prev cur cell t" and s: "Step (crule (aeCompiled env)) (agRow prev) = Some (agRow cur)"
    and n: "Cells (agRow prev) = cells (aeCompiled env)" and c: "0 \<le> cell" "cell < cells (aeCompiled env)"
    and a: "cache_ok env a" "clean a"
  shows "\<exists>a'. auditCell env cur prev cell t a = Some a' \<and> clean a'"
proof -
  define vout :: u32 where "vout = (if agNumber prev = 0 then word_of_int cell else 0)"
  obtain parent x px input u where e: "agCellTx prev cell = Some parent" "txTxID parent \<noteq> ''''"
    "fetched env (txTxID t) x" "fetched env (txTxID parent) px"
    "spends_input (txTxID parent) vout x = Some input" "unat vout < length (Outputs px)"
    "Decode (aeCompiled env) (out_bytes (Outputs px ! unat vout)) = Inr \<lparr>bCell = cell, bRow = agRow prev\<rparr>"
    "DecodeUnlocking (aeCompiled env) (aeChunks env (UnlockScript (Inputs x ! input))) = Inr u"
    "Preimage (aeSdk env) (aeCompiled env) (Some x) (int input) (out_bytes (Outputs px ! unat vout))
       (Satoshis (Outputs px ! unat vout)) = Inr (uPreimage u)"
    "Outputs x \<noteq> []" "Decode (aeCompiled env) (out_bytes (Outputs x ! 0)) = Inr \<lparr>bCell = cell, bRow = uNextRow u\<rparr>"
    "Get (uNextRow u) cell = Get (agRow cur) cell"
    using p unfolding step_proved_def Let_def vout_def [symmetric] by blast
  obtain a1 where a1: "fetch_tx env (txTxID t) a = (Inr x, a1)" "cache_ok env a1" "clean a1"
    using fetch_complete [OF e(3) a(1)] a(2) by blast
  obtain a2 where a2: "fetch_tx env (txTxID parent) (pass CheckIdentity a1) = (Inr px, a2)" "clean a2"
    using fetch_complete [OF e(4), of "pass CheckIdentity a1"] a1 by auto
  let ?a = "pass CheckBinding (pass CheckLinkage a2)"
  have "checkPreimage env (agNumber cur) cell x input (Outputs px ! unat vout) u ?a = (?a, True)"
    using e(9) by (simp add: checkPreimage_def)
  then have spend: "auditSpend env cur prev cell x input (Outputs px ! unat vout) (pass CheckLinkage a2)
      = auditRead env cur prev cell x (agRow prev) u (pass CheckCovenant ?a)"
    using e(7,8) by (simp add: auditSpend_def Let_def)
  have "auditCell env cur prev cell t a = auditRead env cur prev cell x (agRow prev) u (pass CheckCovenant ?a)"
    unfolding auditCell_def Let_def vout_def [symmetric] e(1) option.case a1(1) prod.case sum.case a2(1) e(5)
    using e(2,6) spend by simp
  then show ?thesis using read_complete [OF s n c e(10-12), of "pass CheckCovenant ?a"] a2(2) by simp
qed

lemma record_complete:
  assumes p: "cell_proved env prev cur cell" and f: "rows_follow env prev cur"
    and n: "\<And>q. agNumber cur \<noteq> 0 \<Longrightarrow> prev = Some q \<Longrightarrow> Cells (agRow q) = cells (aeCompiled env)"
    and c: "0 \<le> cell" "cell < cells (aeCompiled env)" and a: "cache_ok env a" "clean a"
  shows "\<exists>a'. auditRecord env cur prev cell a = Some a' \<and> clean a' \<and> cache_ok env a'"
proof -
  obtain t where t: "agCellTx cur cell = Some t" "txTxID t \<noteq> ''''" "txStatus t \<noteq> StatusFailed"
    "if agNumber cur = 0 then genesis_proved env cur cell t
     else case prev of None \<Rightarrow> False | Some p \<Rightarrow> step_proved env p cur cell t"
    using p by (auto simp: cell_proved_def)
  have "\<exists>a'. auditRecord env cur prev cell a = Some a' \<and> clean a'"
  proof (cases "agNumber cur = 0")
    case True
    then show ?thesis using t genesis_complete a by (simp add: auditRecord_def)
  next
    case False
    then obtain q where q: "prev = Some q" "step_proved env q cur cell t"
      "Step (crule (aeCompiled env)) (agRow q) = Some (agRow cur)"
      using t(4) f by (auto simp: rows_follow_def split: option.splits)
    show ?thesis using cell_complete [OF q(2,3) n [OF False q(1)] c a] t False q(1) by (simp add: auditRecord_def)
  qed
  then show ?thesis using record_cache a(1) by blast
qed

lemma cells_complete:
  assumes "\<And>cell a. cell \<in> set ring \<Longrightarrow> cache_ok env a \<Longrightarrow> clean a \<Longrightarrow>
      \<exists>a'. auditRecord env cur prev cell a = Some a' \<and> clean a' \<and> cache_ok env a'"
    and "cache_ok env a" and "clean a"
  shows "\<exists>a'. cells_loop env cur prev ring a = Some a' \<and> clean a' \<and> cache_ok env a'"
  using assms
proof (induction ring arbitrary: a)
  case (Cons cell ring)
  obtain a1 where a1: "auditRecord env cur prev cell a = Some a1" "clean a1" "cache_ok env a1"
    using Cons.prems(1) [of cell a] Cons.prems(2,3) by auto
  have "\<exists>a'. cells_loop env cur prev ring a1 = Some a' \<and> clean a' \<and> cache_ok env a'"
    by (rule Cons.IH) (use Cons.prems(1) a1 in auto)
  then show ?case using a1(1) stop_clean [OF Cons.prems(3)] by simp
qed simp

lemma next_number:
  fixes g h :: u64
  assumes "g \<le> h" and "h + 1 \<noteq> 0"
  shows "unat (g + 1) = unat g + 1"
proof -
  have le: "unat g \<le> unat h" using assms(1) by (simp add: word_le_nat_alt)
  have "unat h \<noteq> 2 ^ 64 - 1"
  proof
    assume "unat h = 2 ^ 64 - 1"
    then have "unat (h + 1) = 0" by (simp add: unat_word_ariths)
    then show False using assms(2) by (simp add: unat_eq_zero)
  qed
  then have "unat g + 1 < 2 ^ 64" using le unsigned_less [where 'a=nat and w=h] by simp
  then show ?thesis by (simp add: unat_word_ariths)
qed

lemma load_cells:
  assumes "load env g = Inr (Some cur)"
  shows "Cells (agRow cur) = cells (aeCompiled env)"
proof -
  obtain h where "SeedHex (cells (aeCompiled env)) h = Inr (agRow cur)"
    using assms by (auto simp: load_def Let_def split: if_splits sum.splits)
  then show ?thesis using SeedHex_Inr by auto
qed

lemma generation_complete:
  assumes p: "generation_proved env g" and l: "load env g = Inr (Some cur)"
    and prev: "g \<noteq> 0 \<Longrightarrow> load env (g - 1) = Inr prev" and a: "cache_ok env a" "clean a"
  shows "\<exists>a'. auditGeneration env cur prev a = Some a' \<and> clean a' \<and> cache_ok env a'"
proof -
  let ?ring = "[0..cells (aeCompiled env) - 1]"
  have num: "agNumber cur = g" by (rule load_number [OF l])
  obtain prev' where p': "g \<noteq> 0 \<longrightarrow> load env (g - 1) = Inr prev'" "rows_follow env prev' cur"
    "\<forall>cell. 0 \<le> cell \<and> cell < cells (aeCompiled env) \<longrightarrow> cell_proved env prev' cur cell"
    using p l unfolding generation_proved_def by auto
  have cell: "cell_proved env prev cur cell" if "0 \<le> cell" "cell < cells (aeCompiled env)" for cell
    using p' prev that num by (cases "g = 0") (simp_all add: cell_proved_def)
  have follow: "rows_follow env prev cur"
    using p' prev num by (cases "g = 0") (simp_all add: rows_follow_def)
  have row: "Cells (agRow q) = cells (aeCompiled env)" if "agNumber cur \<noteq> 0" "prev = Some q" for q
    using load_cells [of env "g - 1" q] prev that num by simp
  have rc: "\<exists>a'. auditRecord env cur prev c b = Some a' \<and> clean a' \<and> cache_ok env a'"
    if "c \<in> set ?ring" "cache_ok env b" "clean b" for c b
    by (rule record_complete [OF cell follow row]) (use that in auto)
  show ?thesis
  proof (cases "g = 0")
    case True
    have "aeSeed env = Some (agRow cur)" using follow num True by (simp add: rows_follow_def)
    then have "auditSeedRow env cur a = pass CheckContinuity a" by (simp add: auditSeedRow_def Equal_iff)
    then show ?thesis
      using cells_complete [of ?ring env cur prev "pass CheckContinuity a", OF rc] a num True
      by (simp add: auditGeneration_def Let_def)
  next
    case False
    obtain q where q: "prev = Some q" "Step (crule (aeCompiled env)) (agRow q) = Some (agRow cur)"
      using follow num False by (auto simp: rows_follow_def split: option.splits)
    have lq: "load env (g - 1) = Inr (Some q)" using prev q(1) False by simp
    show ?thesis
      using cells_complete [of ?ring env cur prev "pass CheckContinuity a", OF rc] a num False q load_number [OF lq]
      by (simp add: auditGeneration_def Let_def Equal_iff)
  qed
qed

lemma run_complete:
  assumes all: "\<forall>h. g \<le> h \<and> h \<le> aeTo env \<longrightarrow> generation_proved env h" and to: "aeTo env + 1 \<noteq> 0"
    and "cache_ok env a" and "clean a" and "prev = None \<or> g \<noteq> 0 \<and> load env (g - 1) = Inr prev"
  shows "\<exists>a'. run_loop env g prev a = Some (Inr a') \<and> clean a'"
  using assms
proof (induction "unat (aeTo env) + 1 - unat g" arbitrary: g prev a rule: less_induct)
  case less
  show ?case
  proof (cases "aeTo env < g")
    case True
    then show ?thesis using less.prems by (simp add: run_loop.simps)
  next
    case False
    then have gp: "generation_proved env g" using less.prems(1) by simp
    obtain cur prev' where cur: "load env g = Inr (Some cur)" "g \<noteq> 0 \<longrightarrow> load env (g - 1) = Inr prev'"
      using gp unfolding generation_proved_def by blast
    define p where "p = (if prev = None \<and> g > 0 then prev' else prev)"
    have pred: "predecessor env g prev = Inr p" "g \<noteq> 0 \<Longrightarrow> load env (g - 1) = Inr p"
      using cur(2) less.prems(5) by (auto simp: predecessor_def p_def word_gt_0)
    let ?a = "a\<lparr>rep := (rep a)\<lparr>repGenerations := repGenerations (rep a) + 1\<rparr>\<rparr>"
    have "cache_ok env ?a" "clean ?a" using less.prems(3,4) by (simp_all add: clean_def)
    then obtain a2 where a2: "auditGeneration env cur p ?a = Some a2" "clean a2" "cache_ok env a2"
      using generation_complete [OF gp cur(1) pred(2)] by blast
    have step: "run_loop env g prev a = run_loop env (g + 1) (Some cur) (rotate_txs a2)"
      using False pred(1) cur(1) a2 stop_clean [OF a2(2)] by (subst run_loop.simps) simp
    have le: "g \<le> aeTo env" using False by simp
    have up: "unat (g + 1) = unat g + 1" by (rule next_number [OF le to])
    have "\<exists>a'. run_loop env (g + 1) (Some cur) (rotate_txs a2) = Some (Inr a') \<and> clean a'"
    proof (rule less.hyps)
      show "unat (aeTo env) + 1 - unat (g + 1) < unat (aeTo env) + 1 - unat g"
        using up le by (simp add: word_le_nat_alt)
      show "\<forall>h. g + 1 \<le> h \<and> h \<le> aeTo env \<longrightarrow> generation_proved env h"
        using less.prems(1) up by (auto simp: word_le_nat_alt)
      show "Some cur = None \<or> g + 1 \<noteq> 0 \<and> load env (g + 1 - 1) = Inr (Some cur)"
        using up cur(1) by (auto simp: unat_eq_zero [symmetric])
    qed (use to a2 in simp_all)
    then show ?thesis using step by simp
  qed
qed

lemma audit_exact:
  assumes "aeFrom env \<le> aeTo env" and "aeTo env + 1 \<noteq> 0"
  shows "((\<exists>r. Run env = Some (Inr r) \<and> OK r \<and> Gaps r = [])
        = (\<forall>g. aeFrom env \<le> g \<and> g \<le> aeTo env \<longrightarrow> generation_proved env g))
    \<and> (\<forall>r. Run env = Some (Inr r) \<and> OK r \<and> Gaps r = [] \<longrightarrow> \<not> Truncated r)"
proof -
  have "\<exists>r. Run env = Some (Inr r) \<and> OK r \<and> Gaps r = []"
    if all: "\<forall>g. aeFrom env \<le> g \<and> g \<le> aeTo env \<longrightarrow> generation_proved env g"
  proof -
    have "cache_ok env (new_auditor env)" "clean (new_auditor env)"
      by (simp_all add: cache_ok_def new_auditor_def clean_def)
    then obtain a where "run_loop env (aeFrom env) None (new_auditor env) = Some (Inr a)" "clean a"
      using run_complete [OF all assms(2)] by blast
    then show ?thesis using assms(1) by (auto simp: Run_def clean_def OK_def not_less)
  qed
  then show ?thesis using run_clean by blast
qed

lemma proved_row:
  assumes "generation_proved env g" and "load env g = Inr (Some cur)"
  shows "if g = 0 then aeSeed env = Some (agRow cur)
    else \<exists>p. load env (g - 1) = Inr (Some p) \<and> Step (crule (aeCompiled env)) (agRow p) = Some (agRow cur)"
proof -
  obtain cur' prev where p: "load env g = Inr (Some cur')" "g \<noteq> 0 \<longrightarrow> load env (g - 1) = Inr prev"
    "rows_follow env prev cur'"
    using assms(1) unfolding generation_proved_def by blast
  have c: "cur' = cur" "agNumber cur = g" using p(1) assms(2) load_number by simp_all
  show ?thesis
    using p(2,3) unfolding c rows_follow_def by (cases prev) (simp_all add: c(2) split: if_splits)
qed

lemma proved_rows:
  assumes all: "\<forall>g \<le> aeTo env. generation_proved env g" and seed: "aeSeed env = Some seed"
  shows "g \<le> aeTo env \<Longrightarrow> load env g = Inr (Some cur) \<Longrightarrow> agRow cur = nth_row (crule (aeCompiled env)) seed (unat g)"
proof (induction "unat g" arbitrary: g cur)
  case 0
  then have "g = 0" by (simp add: unat_eq_zero)
  then have "aeSeed env = Some (agRow cur)" using proved_row [of env g cur] all 0(2,3) by simp
  then show ?case using seed \<open>g = 0\<close> by (simp add: nth_row_def)
next
  case (Suc k)
  have g: "g \<noteq> 0" using Suc(2) by auto
  then have u: "unat (g - 1) = k" using Suc(2) by (simp add: unat_minus_one)
  obtain p where p: "load env (g - 1) = Inr (Some p)" "Step (crule (aeCompiled env)) (agRow p) = Some (agRow cur)"
    using proved_row [of env g cur] all Suc(3,4) g by auto
  have "g - 1 \<le> aeTo env" using Suc(2,3) u by (simp add: word_le_nat_alt)
  from Suc(1) [OF _ this p(1)] u have "agRow p = nth_row (crule (aeCompiled env)) seed k" by simp
  then show ?case using p(2) Suc(2) by (simp add: nth_row_def flip: Suc(2))
qed

definition row_recorded :: "audit_env \<Rightarrow> u64 \<Rightarrow> row \<Rightarrow> bool" where
  "row_recorded env g row = (\<exists>h. RowAt (aeStore env) g = Some h \<and> SeedHex (cells (aeCompiled env)) h = Inr row)"

definition bit_on_chain :: "audit_env \<Rightarrow> u64 \<Rightarrow> row \<Rightarrow> int \<Rightarrow> bool" where
  "bit_on_chain env g row cell = (\<exists>tid st err x b. CellAt (aeStore env) g cell = Some (tid, st, err) \<and> fetched env tid x
     \<and> Decode (aeCompiled env) (out_bytes (Outputs x ! (if g = 0 then nat cell else 0))) = Inr b
     \<and> bCell b = cell \<and> Get (bRow b) cell = Get row cell)"

lemma cell_proved_output:
  assumes k: "keys_ok (aeStore env)" and l: "load env g = Inr (Some cur)" and p: "cell_proved env prev cur cell"
  shows "bit_on_chain env g (agRow cur) cell"
proof -
  have "\<exists>t x b. agCellTx cur cell = Some t \<and> fetched env (txTxID t) x
     \<and> Decode (aeCompiled env) (out_bytes (Outputs x ! (if g = 0 then nat cell else 0))) = Inr b
     \<and> bCell b = cell \<and> Get (bRow b) cell = Get (agRow cur) cell"
  proof (cases "g = 0")
    case True
    then obtain t where "agCellTx cur cell = Some t" "genesis_proved env cur cell t"
      using p load_number [OF l] by (auto simp: cell_proved_def)
    note t = this(1)
    from \<open>genesis_proved env cur cell t\<close> [unfolded genesis_proved_def] show ?thesis using True t by (elim exE conjE) (intro exI conjI, auto)
  next
    case False
    then obtain q t where t: "agCellTx cur cell = Some t" and q: "step_proved env q cur cell t"
      using p load_number [OF l] by (auto simp: cell_proved_def split: option.splits)
    from q [unfolded step_proved_def Let_def] show ?thesis using False t by (elim exE conjE) (intro exI conjI, auto)
  qed
  then show ?thesis unfolding bit_on_chain_def using loaded_cell [OF k l] by blast
qed

text \<open>Claim C19: the audit answers clean exactly when everything is proved.  A run returns a report with no
  failure and no gap if and only if of every generation of the range the recorded row is the seed or
  the rule's image of the recorded row before, and every cell of the ring has bytes that hash to the
  recorded transaction, whose first input spending this cell's output of the transaction recorded
  before spends a covenant carrying the whole recorded row before, by an unlocking script whose
  preimage is that of this very spend, with a continuation that is this cell's covenant at the
  presented row with the recorded bit (at generation 0, the genesis output of each cell); a clean
  report never stopped early.\<close>

theorem clean_audit_exact:
  assumes "aeFrom env \<le> aeTo env" and "aeTo env + 1 \<noteq> 0"
  shows "((\<exists>r. Run env = Some (Inr r) \<and> OK r \<and> Gaps r = [])
        = (\<forall>g. aeFrom env \<le> g \<and> g \<le> aeTo env \<longrightarrow> generation_proved env g))
    \<and> (\<forall>r. Run env = Some (Inr r) \<and> OK r \<and> Gaps r = [] \<longrightarrow> \<not> Truncated r)"
  by (rule audit_exact [OF assms])

text \<open>Claim C20: an audited history is the reference automaton's.  A run over \<open>0..To\<close> with no failure and no gap
  means that the recorded row of every generation is the deployment's seed taken that many steps by
  the reference rule, and that for every cell of every generation the record names a transaction whose
  bytes were had and hash to that name, whose output is this cell's covenant and carries, at this
  cell, the bit of the reference row.\<close>

theorem audited_history_is_the_rule:
  assumes "Run env = Some (Inr r)" and "OK r" and "Gaps r = []" and "aeFrom env = 0"
    and "aeStore env = run_store pg ops"
  shows "\<exists>seed. aeSeed env = Some seed \<and> (\<forall>g \<le> aeTo env.
      let row = nth_row (crule (aeCompiled env)) seed (unat g) in
        row_recorded env g row
      \<and> (\<forall>cell. 0 \<le> cell \<and> cell < cells (aeCompiled env) \<longrightarrow> bit_on_chain env g row cell))"
proof -
  have all: "\<forall>g \<le> aeTo env. generation_proved env g" using run_clean [OF assms(1-3)] assms(4) by simp
  have k: "keys_ok (aeStore env)" by (simp add: assms(5) keys_ok_run)
  obtain c0 where c0: "load env 0 = Inr (Some c0)"
    using all [THEN spec, of 0] unfolding generation_proved_def by auto
  then obtain seed where seed: "aeSeed env = Some seed" using proved_row [of env 0 c0] all by auto
  show ?thesis
  proof (intro exI [of _ seed] conjI seed allI impI)
    fix g assume g: "g \<le> aeTo env"
    then obtain cur prev where cur: "load env g = Inr (Some cur)"
      "\<forall>cell. 0 \<le> cell \<and> cell < cells (aeCompiled env) \<longrightarrow> cell_proved env prev cur cell"
      using all unfolding generation_proved_def by blast
    have row: "agRow cur = nth_row (crule (aeCompiled env)) seed (unat g)" by (rule proved_rows [OF all seed g cur(1)])
    show "let row = nth_row (crule (aeCompiled env)) seed (unat g) in row_recorded env g row
      \<and> (\<forall>cell. 0 \<le> cell \<and> cell < cells (aeCompiled env) \<longrightarrow> bit_on_chain env g row cell)"
      using load_row [OF k cur(1)] cell_proved_output [OF k cur(1)] cur(2) unfolding row [symmetric] Let_def row_recorded_def
      by blast
  qed
qed

text \<open>The audit returns whenever its last generation is not the last number there is.\<close>

lemma run_loop_returns:
  assumes "aeTo env + 1 \<noteq> 0"
  shows "\<exists>out. run_loop env g prev a = Some out"
proof (induction "unat (aeTo env) + 1 - unat g" arbitrary: g prev a rule: less_induct)
  case less
  show ?case
  proof (cases "aeTo env < g")
    case True
    then show ?thesis by (simp add: run_loop.simps)
  next
    case False
    then have le: "g \<le> aeTo env" by simp
    have "unat (g + 1) = unat g + 1" by (rule next_number [OF le assms])
    then have "unat (aeTo env) + 1 - unat (g + 1) < unat (aeTo env) + 1 - unat g"
      using le by (simp add: word_le_nat_alt)
    note again = less [OF this]
    show ?thesis
    proof (cases "predecessor env g prev")
      case p: (Inr p)
      show ?thesis
      proof (cases "load env g")
        case l: (Inr cur)
        show ?thesis using again
          by (cases cur) (simp_all add: run_loop.simps [of env g] False p l split: option.split)
      qed (simp add: run_loop.simps [of env g] False p)
    qed (simp add: run_loop.simps [of env g] False)
  qed
qed

subsection \<open>A concrete audit\<close>

text \<open>A ring of eight cells over the demonstration covenant: generation 0 from one genesis transaction,
  generation 1 from one transition per cell.\<close>

definition audit_txid :: "int \<Rightarrow> txid" where "audit_txid i = replicate (nat i + 1) CHR ''t''"

definition audit_step_tx :: "int \<Rightarrow> tx" where
  "audit_step_tx i = \<lparr>Inputs = [\<lparr>SourceTXID = Some ''g'', SourceTxOutIndex = word_of_int i, UnlockScript = []\<rparr>],
     Outputs = [\<lparr>OutScript = Some (demo_code i @ [0x6a, 1, 3]), Satoshis = 1\<rparr>,
                \<lparr>OutScript = Some [0x76], Satoshis = 9\<rparr>]\<rparr>"

definition audit_codec :: tx_codec where
  "audit_codec = \<lparr>ParseTx = (\<lambda>raw. if raw = [9] then Inr demo_genesis else Inr (audit_step_tx (uint (raw ! 0)))),
     TxIDOf = (\<lambda>t. if Inputs t = [] then ''g'' else audit_txid (uint (SourceTxOutIndex (Inputs t ! 0)))), RawOf = (\<lambda>t. [])\<rparr>"

definition audit_sdk :: runar_sdk where
  "audit_sdk = \<lparr>ComputeOpPushTx = (\<lambda>t i lock sats off. Inr [5]), EncodePushData = id, EncodeScriptInt = (\<lambda>i. '''')\<rparr>"

definition audit_chunks :: "chunk list" where
  "audit_chunks = map (\<lambda>d. \<lparr>Op = 1, Data = d\<rparr>) [[], [3], [], [1], [1], [5]]"

definition audit_ops :: "store_op list" where
  "audit_ops = [OpRecordGeneration 0 ''01'', OpRecordGeneration 1 ''03'']
     @ map (\<lambda>i. OpRecordTx 1 \<lparr>txGen = 0, txCell = i, txTxID = ''g'', txStatus = StatusSeen, txErr = ''''\<rparr>) [0, 1, 2, 3, 4, 5, 6, 7]
     @ map (\<lambda>i. OpRecordTx 2 \<lparr>txGen = 1, txCell = i, txTxID = audit_txid i, txStatus = StatusSeen, txErr = ''''\<rparr>)
         [0, 1, 2, 3, 4, 5, 6, 7]"

definition demo_audit :: audit_env where
  "demo_audit = \<lparr>aeCompiled = demo_compiled, aeStore = run_store False audit_ops,
     aeSource = (\<lambda>tid. if tid = ''g'' then Inr [9] else Inr [of_nat (length tid - 1)]),
     aeCodec = audit_codec, aeSdk = audit_sdk, aeChunks = (\<lambda>_. Inr audit_chunks), aeFrom = 0, aeTo = 1,
     aeSeed = Some [1], aeMaxFailures = 5\<rparr>"

lemma demo_decode:
  assumes "0 \<le> i" and "i < 8"
  shows "Decode demo_compiled (demo_code i @ [0x6a, 1, b]) = Inr \<lparr>bCell = i, bRow = [b]\<rparr>"
proof -
  have "Cells [b] = cells demo_compiled" by (simp add: Cells_def demo_compiled_def)
  then have "LockingScript demo_compiled i [b] = Inr (demo_code i @ [0x6a, 1, b])"
    using LockingScript_code [OF demo_laws, of i "[b]"] assms by (simp add: demo_compiled_def OP_RETURN_def)
  then show ?thesis by (rule Decode_LockingScript [OF demo_laws])
qed

lemma demo_audit_fields:
  "aeCompiled demo_audit = demo_compiled" "aeCodec demo_audit = audit_codec" "aeSdk demo_audit = audit_sdk"
  "aeChunks demo_audit = (\<lambda>_. Inr audit_chunks)" "aeFrom demo_audit = 0" "aeTo demo_audit = 1"
  "aeSeed demo_audit = Some [1]" "aeStore demo_audit = run_store False audit_ops"
  "cells demo_compiled = 8" "crule demo_compiled = Rule110"
  by (simp_all add: demo_audit_def demo_compiled_def)

definition demo_row :: "u64 \<Rightarrow> audit_generation" where
  "demo_row g = (case load demo_audit g of Inr (Some cur) \<Rightarrow> cur | _ \<Rightarrow> \<lparr>agNumber = 9, agRow = [], agCellTx = Map.empty\<rparr>)"

definition demo_tx :: "u64 \<Rightarrow> int \<Rightarrow> cell_tx" where
  "demo_tx g i = \<lparr>txGen = g, txCell = i, txTxID = (if g = 0 then ''g'' else audit_txid i), txStatus = StatusSeen, txErr = ''''\<rparr>"

lemma demo_rows:
  "agNumber (demo_row 0) = 0 \<and> agRow (demo_row 0) = [1] \<and> list_all (\<lambda>i. agCellTx (demo_row 0) i = Some (demo_tx 0 i)) [0, 1, 2, 3, 4, 5, 6, 7]"
  "agNumber (demo_row 1) = 1 \<and> agRow (demo_row 1) = [3] \<and> list_all (\<lambda>i. agCellTx (demo_row 1) i = Some (demo_tx 1 i)) [0, 1, 2, 3, 4, 5, 6, 7]"
  by code_simp+

lemma demo_load: "load demo_audit 0 = Inr (Some (demo_row 0))" "load demo_audit 1 = Inr (Some (demo_row 1))"
  using demo_rows by (auto simp: demo_row_def split: sum.splits option.splits)

lemma fetched_code [code]:
  "fetched env tid t = (case aeSource env tid of Inl _ \<Rightarrow> False
     | Inr raw \<Rightarrow> raw \<noteq> [] \<and> ParseTx (aeCodec env) raw = Inr t \<and> TxIDOf (aeCodec env) t = tid)"
  by (auto simp: fetched_def split: sum.splits)

lemma demo_bytes:
  "list_all (\<lambda>i. fetched demo_audit (audit_txid i) (audit_step_tx i)) [0, 1, 2, 3, 4, 5, 6, 7]"
  "fetched demo_audit ''g'' demo_genesis"
  by code_simp+

lemma demo_preimage:
  "list_all (\<lambda>i. Preimage audit_sdk demo_compiled (Some (audit_step_tx i)) 0 (demo_code i @ [0x6a, 1, 1]) 1 = Inr [5]
     \<and> spends_input ''g'' (word_of_int i) (audit_step_tx i) = Some 0 \<and> unat (word_of_int i :: u32) = nat i) [0, 1, 2, 3, 4, 5, 6, 7]"
  by code_simp

lemma demo_unlock: "case DecodeUnlocking demo_compiled (Inr audit_chunks) of Inr u \<Rightarrow> uNextRow u = [3] \<and> uPreimage u = [5] | _ \<Rightarrow> False"
  by code_simp

lemma demo_rule: "Step Rule110 [1] = Some [3]"
  by code_simp


lemma demo_genesis_out: "0 \<le> i \<Longrightarrow> i < 8 \<Longrightarrow>
   Outputs demo_genesis ! nat i = \<lparr>OutScript = Some (demo_code i @ [0x6a, 1, 1]), Satoshis = 1\<rparr>"
  "length (Outputs demo_genesis) = 8"
  using demo_ring [of i] by (auto simp: demo_genesis_def)

lemma demo_gen0:
  assumes i: "0 \<le> i" "i < 8"
  shows "cell_proved demo_audit prev (demo_row 0) i"
proof -
  have m: "i \<in> set [0, 1, 2, 3, 4, 5, 6, 7]" using demo_ring [OF i] by simp
  have tx: "agCellTx (demo_row 0) i = Some (demo_tx 0 i)" using demo_rows(1) m unfolding list_all_iff by auto
  have "genesis_proved demo_audit (demo_row 0) i (demo_tx 0 i)"
    unfolding genesis_proved_def using demo_rows(1) demo_bytes(2) demo_genesis_out(1) [OF i] demo_genesis_out(2) demo_decode [OF i] i
    by (intro exI [of _ demo_genesis]) (simp add: demo_audit_fields demo_tx_def out_bytes_def)
  then show ?thesis using tx demo_rows(1) by (simp add: cell_proved_def demo_tx_def)
qed

lemma demo_gen1:
  assumes i: "0 \<le> i" "i < 8"
  shows "cell_proved demo_audit (Some (demo_row 0)) (demo_row 1) i"
proof -
  have m: "i \<in> set [0, 1, 2, 3, 4, 5, 6, 7]" using demo_ring [OF i] by simp
  obtain u where u: "DecodeUnlocking demo_compiled (Inr audit_chunks) = Inr u" "uNextRow u = [3]" "uPreimage u = [5]"
    using demo_unlock by (auto split: sum.splits)
  have tx: "agCellTx (demo_row 0) i = Some (demo_tx 0 i)" "agCellTx (demo_row 1) i = Some (demo_tx 1 i)"
    using demo_rows m unfolding list_all_iff by auto
  have b: "fetched demo_audit (audit_txid i) (audit_step_tx i)" using demo_bytes(1) m unfolding list_all_iff by blast
  have p: "Preimage audit_sdk demo_compiled (Some (audit_step_tx i)) 0 (demo_code i @ [0x6a, 1, 1]) 1 = Inr [5]"
    "spends_input ''g'' (word_of_int i) (audit_step_tx i) = Some 0" "unat (word_of_int i :: u32) = nat i"
    using demo_preimage m unfolding list_all_iff by blast+
  have "step_proved demo_audit (demo_row 0) (demo_row 1) i (demo_tx 1 i)"
    unfolding step_proved_def Let_def
    using tx b p demo_rows demo_bytes(2) demo_genesis_out(1) [OF i] demo_genesis_out(2) demo_decode [OF i] u i
    by (intro exI [of _ "demo_tx 0 i"] exI [of _ "audit_step_tx i"] exI [of _ demo_genesis] exI [of _ 0] exI [of _ u])
      (simp add: demo_audit_fields demo_tx_def out_bytes_def audit_step_tx_def)
  then show ?thesis using tx demo_rows by (simp add: cell_proved_def demo_tx_def audit_txid_def)
qed

lemma demo_proved: "generation_proved demo_audit 0" "generation_proved demo_audit 1"
proof -
  show "generation_proved demo_audit 0"
    unfolding generation_proved_def using demo_load(1) demo_rows(1) demo_gen0 [of _ None]
    by (intro exI [of _ "demo_row 0"] exI [of _ None]) (simp add: demo_audit_fields rows_follow_def)
  show "generation_proved demo_audit 1"
    unfolding generation_proved_def using demo_load demo_rows demo_gen1 demo_rule
    by (intro exI [of _ "demo_row 1"] exI [of _ "Some (demo_row 0)"]) (simp add: demo_audit_fields rows_follow_def)
qed

lemma demo_all_proved: "\<forall>g. aeFrom demo_audit \<le> g \<and> g \<le> aeTo demo_audit \<longrightarrow> generation_proved demo_audit g"
proof (intro allI impI)
  fix g :: u64
  assume "aeFrom demo_audit \<le> g \<and> g \<le> aeTo demo_audit"
  then have "unat g \<le> 1" by (simp add: demo_audit_fields word_le_nat_alt)
  then have "unat g = unat (0 :: u64) \<or> unat g = unat (1 :: u64)" by (simp add: le_Suc_eq)
  then have "g = 0 \<or> g = 1" by (simp only: word_unat_eq_iff)
  then show "generation_proved demo_audit g" using demo_proved by blast
qed

theorem clean_audit_exact_witness: "\<exists>r. Run demo_audit = Some (Inr r) \<and> OK r \<and> Gaps r = [] \<and> \<not> Truncated r"
proof -
  have "aeFrom demo_audit \<le> aeTo demo_audit" "aeTo demo_audit + 1 \<noteq> 0" by (simp_all add: demo_audit_fields)
  from clean_audit_exact [OF this] demo_all_proved show ?thesis by blast
qed

theorem audited_history_is_the_rule_witness:
  "row_recorded demo_audit 1 [3] \<and> bit_on_chain demo_audit 1 [3] 4"
proof -
  have "aeFrom demo_audit \<le> aeTo demo_audit" "aeTo demo_audit + 1 \<noteq> 0" by (simp_all add: demo_audit_fields)
  then obtain r where r: "Run demo_audit = Some (Inr r)" "OK r" "Gaps r = []"
    using audit_exact demo_all_proved by blast
  obtain seed where seed: "aeSeed demo_audit = Some seed"
    "\<forall>g \<le> aeTo demo_audit. let row = nth_row (crule (aeCompiled demo_audit)) seed (unat g) in
        row_recorded demo_audit g row
      \<and> (\<forall>cell. 0 \<le> cell \<and> cell < cells (aeCompiled demo_audit) \<longrightarrow> bit_on_chain demo_audit g row cell)"
    using audited_history_is_the_rule [OF r, of False audit_ops] by (auto simp: demo_audit_fields)
  have "nth_row Rule110 [1] (Suc 0) = [3]" using demo_rule by (simp add: nth_row_def)
  then show ?thesis using seed(2) [THEN spec, of 1] seed(1) by (simp add: demo_audit_fields Let_def)
qed


end
