(* ===== verification/Prune.thy ===== *)
theory Prune
  imports ChainRecover Transition "HOL-Library.List_Lexorder" "HOL-Library.Multiset"
begin

text \<open>
  The pruner, \<open>internal/chain/prune.go\<close>: dropping the raw bytes of wallet transactions that can no
  longer be spent.  The wallet's three tables are lists of rows, a query is a list comprehension with
  its join, order and limit, and another writer may change the tables between the check of a batch and
  its update.  Any statement may fail, and the context may end in the pause after a batch: what a pass has written
  by then stays written.
\<close>

subsection \<open>The wallet's tables\<close>

record known_tx =
  ktTxid :: bytes
  ktStatus :: string
  ktRawTx :: "bytes option"
  ktInputBEEF :: "bytes option"
  ktBlockHeight :: "int option"

record wallet_tx =
  wtID :: int
  wtTxid :: bytes
  wtStatus :: string

record output_row =
  orTxID :: int
  orSpentBy :: "int option"
  orBasket :: "string option"
  orInstructions :: "string option"

record wallet_db =
  known_txs :: "known_tx list"
  transactions :: "wallet_tx list"
  outputs :: "output_row list"

record prune_options =
  DryRun :: bool
  RetainGenerations :: u64
  MinConfirmations :: u64
  BatchSize :: int
  MaxBatches :: int

definition DefaultPruneOptions :: prune_options where
  "DefaultPruneOptions = \<lparr>DryRun = True, RetainGenerations = 1000, MinConfirmations = 6, BatchSize = 2000, MaxBatches = 0\<rparr>"

record prune_report =
  Scanned :: nat
  Prunable :: nat
  Pruned :: nat
  Bytes :: nat
  FloorTxID :: int
  FloorGeneration :: u64
  TipHeight :: u64

record pruner =
  pcells :: int
  popts :: prune_options
  pcursor :: int

record candidate =
  cTxID :: int
  cRawID :: bytes

definition completed :: string where "completed = ''completed''"

definition CellBasket :: string where "CellBasket = ''rule110cells''"

subsection \<open>Queries as text\<close>

definition placeholders :: "nat \<Rightarrow> string" where
  "placeholders n =
     (if n = 0 then ''NULL''
      else let s = concat (replicate n ''?, '') in
        if has_suffix s '', '' then take (length s - 2) s else s)"

text \<open>\<open>rebind\<close> numbers the placeholders for PostgreSQL.\<close>

fun rebind_loop :: "nat \<Rightarrow> string \<Rightarrow> string" where
  "rebind_loop n [] = []"
| "rebind_loop n (c # cs) =
     (if c = CHR ''?'' then CHR ''$'' # decimal (n + 1) @ rebind_loop (n + 1) cs else c # rebind_loop n cs)"

definition rebind :: "bool \<Rightarrow> string \<Rightarrow> string" where
  "rebind pg q = (if \<not> pg then q else rebind_loop 0 q)"

subsection \<open>Reading\<close>

definition tipHeight :: "wallet_db \<Rightarrow> u64" where
  "tipHeight db =
     (let hs = List.map_filter ktBlockHeight (filter (\<lambda>k. ktStatus k = completed) (known_txs db)) in
      if hs = [] then 0 else let h = foldr max hs (hd hs) in if h < 0 then 0 else word_of_int h)"

text \<open>The window is an \<open>int\<close> product, wrapping.\<close>

definition floorWindowCap :: int where "floorWindowCap = 400000"

definition floorWindow :: "int \<Rightarrow> u64 \<Rightarrow> int option" where
  "floorWindow n retain =
     (let window = sint (word_of_int n * (retain + 1)) in
      if window \<le> 0 \<or> window > floorWindowCap then None else Some window)"

text \<open>The newest cell outputs, by transaction id; outputs of one transaction in table order.  \<open>json\<close> reads the
  two fields of the instructions; a field that is absent stays zero.\<close>

definition newest_outputs :: "nat \<Rightarrow> wallet_db \<Rightarrow> output_row list" where
  "newest_outputs window db =
     take window (sort_key (\<lambda>r. - orTxID r)
       (filter (\<lambda>r. orBasket r = Some CellBasket \<and> orInstructions r \<noteq> None \<and> orInstructions r \<noteq> Some '''') (outputs db)))"

definition seen_output :: "(string \<Rightarrow> (int option \<times> u64 option) option) \<Rightarrow> output_row \<Rightarrow> (int \<times> u64) option" where
  "seen_output json r =
     (case orInstructions r of
        None \<Rightarrow> None
      | Some instr \<Rightarrow>
         (case json instr of
            None \<Rightarrow> None
          | Some (c, g) \<Rightarrow> Some (orTxID r, case g of None \<Rightarrow> 0 | Some g \<Rightarrow> g)))"

fun floor_loop :: "u64 \<Rightarrow> (int \<times> u64) list \<Rightarrow> int \<Rightarrow> int" where
  "floor_loop floorGen [] floorTx = floorTx"
| "floor_loop floorGen ((txID, g) # rest) floorTx =
     (if g \<le> floorGen then floor_loop floorGen rest floorTx
      else floor_loop floorGen rest (if floorTx = 0 \<or> txID < floorTx then txID else floorTx))"

definition retention_floor :: "(string \<Rightarrow> (int option \<times> u64 option) option) \<Rightarrow> pruner \<Rightarrow> wallet_db \<Rightarrow> (int \<times> u64) option" where
  "retention_floor json p db =
     (case floorWindow (pcells p) (RetainGenerations (popts p)) of
        None \<Rightarrow> None
      | Some window \<Rightarrow>
         (let all = List.map_filter (seen_output json) (newest_outputs (nat window) db);
              maxGen = foldr (\<lambda>(t, g) m. if g > m then g else m) all 0 in
          if int (length all) < window then Some (0, 0)
          else if maxGen < RetainGenerations (popts p) then Some (0, 0)
          else let floorGen = maxGen - RetainGenerations (popts p) in
            Some (floor_loop floorGen all 0, floorGen)))"

subsection \<open>One batch\<close>

definition candidate_rows :: "int \<Rightarrow> int \<Rightarrow> wallet_db \<Rightarrow> candidate list" where
  "candidate_rows cursor floorTx db =
     concat (map (\<lambda>t. map (\<lambda>k. \<lparr>cTxID = wtID t, cRawID = wtTxid t\<rparr>)
       (filter (\<lambda>k. ktTxid k = wtTxid t \<and> wtID t > cursor \<and> wtID t < floorTx \<and> wtStatus t = completed
          \<and> ktStatus k = completed \<and> ktRawTx k \<noteq> None) (known_txs db))) (transactions db))"

definition candidates :: "pruner \<Rightarrow> int \<Rightarrow> wallet_db \<Rightarrow> candidate list" where
  "candidates p floorTx db = take (nat (BatchSize (popts p))) (sort_key cTxID (candidate_rows (pcursor p) floorTx db))"

text \<open>A left join: a row without a partner stays, with nothing on the right.\<close>

definition left_join :: "('a \<Rightarrow> 'b \<Rightarrow> bool) \<Rightarrow> 'b list \<Rightarrow> 'a \<Rightarrow> 'b option list" where
  "left_join match bs a = (let ms = filter (match a) bs in if ms = [] then [None] else map Some ms)"

definition spenders :: "wallet_db \<Rightarrow> output_row \<Rightarrow> known_tx option list" where
  "spenders db r =
     concat (map (\<lambda>st. left_join (\<lambda>st k. case st of None \<Rightarrow> False | Some st \<Rightarrow> ktTxid k = wtTxid st) (known_txs db) st)
       (left_join (\<lambda>r st. orSpentBy r = Some (wtID st)) (transactions db) r))"

definition buried :: "u64 \<Rightarrow> u64 \<Rightarrow> known_tx option \<Rightarrow> bool" where
  "buried minConf tip sk =
     (case sk of
        None \<Rightarrow> False
      | Some k \<Rightarrow> ktStatus k = completed \<and>
          (case ktBlockHeight k of None \<Rightarrow> False | Some h \<Rightarrow> h + sint minConf \<le> sint tip))"

text \<open>One group of the check: how many joined output rows there are, and how many are settled.\<close>

definition output_group :: "pruner \<Rightarrow> u64 \<Rightarrow> wallet_db \<Rightarrow> int \<Rightarrow> nat \<times> nat" where
  "output_group p tip db txID =
     (let rows = concat (map (spenders db) (filter (\<lambda>r. orTxID r = txID) (outputs db))) in
      (length rows, length (filter (buried (MinConfirmations (popts p)) tip) rows)))"

definition prunable :: "pruner \<Rightarrow> wallet_db \<Rightarrow> u64 \<Rightarrow> candidate list \<Rightarrow> candidate list" where
  "prunable p db tip cands =
     (let byID = fold (\<lambda>c m. m(cTxID c \<mapsto> c)) cands Map.empty;
          ids = remdups (map cTxID cands);
          safe = List.map_filter (\<lambda>txID. case output_group p tip db txID of (all, settled) \<Rightarrow>
                   if all > 0 \<and> settled = all then byID txID else None) ids in
      sort_key cRawID safe)"

definition payloadBytes :: "wallet_db \<Rightarrow> candidate list \<Rightarrow> nat" where
  "payloadBytes db safe =
     sum_list (map (\<lambda>k. case ktRawTx k of None \<Rightarrow> 0 | Some raw \<Rightarrow> length raw)
       (filter (\<lambda>k. ktTxid k \<in> cRawID ` set safe) (known_txs db)))"

definition cleared :: "candidate list \<Rightarrow> known_tx \<Rightarrow> bool" where
  "cleared safe k \<longleftrightarrow> ktTxid k \<in> cRawID ` set safe \<and> ktStatus k = completed \<and> ktRawTx k \<noteq> None"

definition clear :: "candidate list \<Rightarrow> wallet_db \<Rightarrow> wallet_db \<times> nat" where
  "clear safe db =
     (db\<lparr>known_txs := map (\<lambda>k. if cleared safe k then k\<lparr>ktRawTx := None, ktInputBEEF := None\<rparr> else k) (known_txs db)\<rparr>,
      length (filter (cleared safe) (known_txs db)))"

text \<open>The statements of a pass, those of a batch with its number.  \<open>CountCleared\<close> is the driver's count of the rows
  after the update, so a failure there leaves the update done; it also stands for an update whose answer was lost.\<close>

datatype prune_query =
    ReadTip
  | ReadFloor
  | ReadCandidates nat
  | CheckOutputs nat
  | MeasurePayload nat
  | ClearPayload nat
  | CountCleared nat

datatype sweep_error = QueryFailed prune_query string | WindowTooWide | SweepInterrupted

text \<open>What happens to a pass: what other writers do to the tables before the update of a batch, which statements fail,
  and after which batch the context has ended.\<close>

record sweep_world =
  swOthers :: "nat \<Rightarrow> wallet_db \<Rightarrow> wallet_db"
  swFails :: "prune_query \<Rightarrow> string option"
  swDone :: "nat \<Rightarrow> bool"

definition query_error :: "sweep_world \<Rightarrow> prune_query \<Rightarrow> sweep_error option" where
  "query_error W q = map_option (QueryFailed q) (swFails W q)"

definition sweepBatch :: "sweep_world \<Rightarrow> nat \<Rightarrow> pruner \<Rightarrow> int \<Rightarrow> u64 \<Rightarrow> wallet_db \<Rightarrow> prune_report
    \<Rightarrow> (sweep_error + nat) \<times> pruner \<times> wallet_db \<times> prune_report" where
  "sweepBatch W batch p floorTx tip db rep =
     (case query_error W (ReadCandidates batch) of
        Some e \<Rightarrow> (Inl e, p, db, rep)
      | None \<Rightarrow>
     (let cands = candidates p floorTx db in
      if length cands = 0 then (Inr 0, p, db, rep)
      else let p' = p\<lparr>pcursor := cTxID (last cands)\<rparr>;
               rep = rep\<lparr>Scanned := Scanned rep + length cands\<rparr> in
      case query_error W (CheckOutputs batch) of
        Some e \<Rightarrow> (Inl e, p', db, rep)
      | None \<Rightarrow>
     (let safe = prunable p db tip cands in
      if length safe = 0 then (Inr (length cands), p', db, rep)
      else let rep = rep\<lparr>Prunable := Prunable rep + length safe\<rparr> in
      case query_error W (MeasurePayload batch) of
        Some e \<Rightarrow> (Inl e, p', db, rep)
      | None \<Rightarrow>
     (let rep = rep\<lparr>Bytes := Bytes rep + payloadBytes db safe\<rparr> in
      if DryRun (popts p) then (Inr (length cands), p', db, rep)
      else let db = swOthers W batch db in
      case query_error W (ClearPayload batch) of
        Some e \<Rightarrow> (Inl e, p', db, rep)
      | None \<Rightarrow>
     (case clear safe db of
        (db, n) \<Rightarrow>
          (case query_error W (CountCleared batch) of
             Some e \<Rightarrow> (Inl e, p', db, rep)
           | None \<Rightarrow> (Inr (length cands), p', db, rep\<lparr>Pruned := Pruned rep + n\<rparr>)))))))"

subsection \<open>The sweep\<close>

lemma candidate_in:
  "c \<in> set (candidates p floorTx db) \<Longrightarrow> \<exists>t \<in> set (transactions db). \<exists>k \<in> set (known_txs db).
     cTxID c = wtID t \<and> cRawID c = wtTxid t \<and> ktTxid k = wtTxid t \<and> pcursor p < wtID t \<and> wtID t < floorTx
     \<and> wtStatus t = completed \<and> ktStatus k = completed \<and> ktRawTx k \<noteq> None"
proof -
  assume "c \<in> set (candidates p floorTx db)"
  then have "c \<in> set (candidate_rows (pcursor p) floorTx db)" by (auto simp: candidates_def dest: in_set_takeD)
  then obtain t k where "t \<in> set (transactions db)" "k \<in> set (known_txs db)" "c = \<lparr>cTxID = wtID t, cRawID = wtTxid t\<rparr>"
    "ktTxid k = wtTxid t" "pcursor p < wtID t" "wtID t < floorTx" "wtStatus t = completed" "ktStatus k = completed" "ktRawTx k \<noteq> None"
    unfolding candidate_rows_def by auto
  then show ?thesis by (intro bexI [of _ t] bexI [of _ k]) simp_all
qed

lemma sweepBatch_cursor:
  assumes "sweepBatch W batch p floorTx tip db rep = (Inr n, p', db', rep')" and "n \<noteq> 0"
  shows "pcursor p < pcursor p' \<and> pcursor p' < floorTx"
proof -
  have ne: "candidates p floorTx db \<noteq> []" using assms by (auto simp: sweepBatch_def Let_def split: option.splits)
  have "pcursor p' = cTxID (last (candidates p floorTx db))"
    using assms ne by (auto simp: sweepBatch_def Let_def split: if_splits prod.splits option.splits)
  moreover have "last (candidates p floorTx db) \<in> set (candidates p floorTx db)" using ne by simp
  ultimately show ?thesis using candidate_in by fastforce
qed

function sweep_loop :: "sweep_world \<Rightarrow> nat \<Rightarrow> pruner \<Rightarrow> int \<Rightarrow> u64 \<Rightarrow> wallet_db \<Rightarrow> prune_report
    \<Rightarrow> prune_report \<times> sweep_error option \<times> pruner \<times> wallet_db" where
  "sweep_loop W batch p floorTx tip db rep =
     (if \<not> (MaxBatches (popts p) = 0 \<or> int batch < MaxBatches (popts p)) then (rep, None, p, db)
      else case sweepBatch W batch p floorTx tip db rep of
        (Inl e, p', db', rep') \<Rightarrow> (rep', Some e, p', db')
      | (Inr n, p', db', rep') \<Rightarrow>
          if n = 0 then (rep', None, p'\<lparr>pcursor := 0\<rparr>, db')
          else if swDone W batch then (rep', Some SweepInterrupted, p', db')
          else sweep_loop W (batch + 1) p' floorTx tip db' rep')"
  by pat_completeness auto

termination sweep_loop
proof (relation "measure (\<lambda>(W, batch, p, floorTx, tip, db, rep). nat (floorTx - pcursor p))")
  fix W :: sweep_world and batch p floorTx tip db rep x y r n p' z db' rep'
  assume "\<not> \<not> (MaxBatches (popts p) = 0 \<or> int batch < MaxBatches (popts p))"
    "(r, y) = sweepBatch W batch p floorTx tip db rep" "r = Inr n" "(p', z) = y" "(db', rep') = z" "n \<noteq> 0" "\<not> swDone W batch"
  then have "sweepBatch W batch p floorTx tip db rep = (Inr n, p', db', rep')" "n \<noteq> 0" by simp_all
  from sweepBatch_cursor [OF this] show
    "((W, batch + 1, p', floorTx, tip, db', rep'), (W, batch, p, floorTx, tip, db, rep))
      \<in> measure (\<lambda>(W, batch, p, floorTx, tip, db, rep). nat (floorTx - pcursor p))"
    by simp
qed simp

declare sweep_loop.simps [simp del]

definition new_report :: prune_report where
  "new_report = \<lparr>Scanned = 0, Prunable = 0, Pruned = 0, Bytes = 0, FloorTxID = 0, FloorGeneration = 0, TipHeight = 0\<rparr>"

text \<open>A pass answers its report with its error, if any: the report of a pass that failed tells what it had done.\<close>

definition Sweep :: "(string \<Rightarrow> (int option \<times> u64 option) option) \<Rightarrow> sweep_world \<Rightarrow> pruner \<Rightarrow> wallet_db
    \<Rightarrow> prune_report \<times> sweep_error option \<times> pruner \<times> wallet_db" where
  "Sweep json W p db =
     (case query_error W ReadTip of
        Some e \<Rightarrow> (new_report, Some e, p, db)
      | None \<Rightarrow>
     (let tip = tipHeight db; rep = new_report\<lparr>TipHeight := tip\<rparr> in
      if tip < MinConfirmations (popts p) then (rep, None, p, db)
      else if floorWindow (pcells p) (RetainGenerations (popts p)) = None then (rep, Some WindowTooWide, p, db)
      else case query_error W ReadFloor of
        Some e \<Rightarrow> (rep, Some e, p, db)
      | None \<Rightarrow>
     (case retention_floor json p db of
        None \<Rightarrow> (rep, Some WindowTooWide, p, db)
      | Some (floorTx, floorGen) \<Rightarrow>
         (let rep = rep\<lparr>FloorTxID := floorTx, FloorGeneration := floorGen\<rparr> in
          if floorTx \<le> 0 then (rep, None, p, db)
          else sweep_loop W 0 p floorTx tip db rep))))"

text \<open>A pass nobody else writes in, and one in which nothing fails.\<close>

definition quiet :: "sweep_world \<Rightarrow> bool" where
  "quiet W \<longleftrightarrow> (\<forall>batch. swOthers W batch = id)"

definition calm :: sweep_world where
  "calm = \<lparr>swOthers = \<lambda>_. id, swFails = \<lambda>_. None, swDone = \<lambda>_. False\<rparr>"

lemma calm_quiet [simp]: "quiet calm"
  by (simp add: quiet_def calm_def)

subsection \<open>What the check means\<close>

text \<open>The reference: every output of the transaction is spent by a transaction that is completed and buried,
  and it has one.\<close>

definition settled_output :: "u64 \<Rightarrow> u64 \<Rightarrow> wallet_db \<Rightarrow> output_row \<Rightarrow> bool" where
  "settled_output minConf tip db r \<longleftrightarrow>
     (\<exists>st \<in> set (transactions db). \<exists>k \<in> set (known_txs db). orSpentBy r = Some (wtID st) \<and> ktTxid k = wtTxid st
        \<and> ktStatus k = completed \<and> (\<exists>h. ktBlockHeight k = Some h \<and> h + sint minConf \<le> sint tip))"

definition spent_out :: "u64 \<Rightarrow> u64 \<Rightarrow> wallet_db \<Rightarrow> int \<Rightarrow> bool" where
  "spent_out minConf tip db txID \<longleftrightarrow>
     (\<exists>r \<in> set (outputs db). orTxID r = txID)
   \<and> (\<forall>r \<in> set (outputs db). orTxID r = txID \<longrightarrow> settled_output minConf tip db r)"

lemma left_join_ne: "left_join match bs a \<noteq> []"
  by (simp add: left_join_def Let_def)

lemma spenders_ne: "spenders db r \<noteq> []"
proof -
  let ?l = "left_join (\<lambda>r st. orSpentBy r = Some (wtID st)) (transactions db) r"
  have "hd ?l \<in> set ?l" by (rule list.set_sel(1) [OF left_join_ne])
  show ?thesis
  proof
    assume "spenders db r = []"
    then have "\<forall>x \<in> set ?l. left_join (\<lambda>st k. case st of None \<Rightarrow> False | Some st \<Rightarrow> ktTxid k = wtTxid st) (known_txs db) x = []"
      by (simp add: spenders_def)
    from bspec [OF this \<open>hd ?l \<in> set ?l\<close>] show False by (simp add: left_join_ne)
  qed
qed

lemma spenders_buried:
  "sk \<in> set (spenders db r) \<Longrightarrow> buried m tip sk \<Longrightarrow> settled_output m tip db r"
  by (auto simp: spenders_def left_join_def Let_def buried_def settled_output_def split: if_splits option.splits)

text \<open>With primary keys there is one row per output.\<close>

lemma filter_key: "distinct (map f xs) \<Longrightarrow> x \<in> set xs \<Longrightarrow> filter (\<lambda>y. f y = f x) xs = [x]"
proof (induction xs)
  case (Cons a xs)
  show ?case
  proof (cases "x = a")
    case True
    then have "filter (\<lambda>y. f y = f x) xs = []" using Cons.prems(1) by (auto simp: filter_empty_conv image_iff)
    then show ?thesis using True by simp
  next
    case False
    then show ?thesis using Cons by (auto simp: image_iff)
  qed
qed simp

definition wallet_keys :: "wallet_db \<Rightarrow> bool" where
  "wallet_keys db \<longleftrightarrow> distinct (map wtID (transactions db)) \<and> distinct (map ktTxid (known_txs db))"

lemma spenders_settled:
  assumes "wallet_keys db" and "settled_output m tip db r"
  shows "\<exists>k. spenders db r = [Some k] \<and> buried m tip (Some k)"
proof -
  obtain st k where s: "st \<in> set (transactions db)" "k \<in> set (known_txs db)" "orSpentBy r = Some (wtID st)" "ktTxid k = wtTxid st"
    "buried m tip (Some k)"
    using assms(2) by (auto simp: settled_output_def buried_def)
  have "filter (\<lambda>t. orSpentBy r = Some (wtID t)) (transactions db) = [st]"
    using filter_key [of wtID "transactions db" st] assms(1) s by (simp add: wallet_keys_def eq_commute)
  moreover have "filter (\<lambda>q. ktTxid q = wtTxid st) (known_txs db) = [k]"
    using filter_key [of ktTxid "known_txs db" k] assms(1) s by (simp add: wallet_keys_def)
  ultimately have "spenders db r = [Some k]" by (simp add: spenders_def left_join_def Let_def)
  then show ?thesis using s(5) by blast
qed

lemma filter_full: "length (filter P xs) = length xs \<Longrightarrow> \<forall>x \<in> set xs. P x"
proof (induction xs)
  case (Cons a xs)
  have "length (filter P xs) \<le> length xs" by (rule length_filter_le)
  have "P a"
  proof (rule ccontr)
    assume "\<not> P a"
    then have "length (filter P xs) = Suc (length xs)" using Cons.prems by simp
    then show False using \<open>length (filter P xs) \<le> length xs\<close> by linarith
  qed
  then have "length (filter P xs) = length xs" using Cons.prems by simp
  then have "\<forall>x \<in> set xs. P x" by (rule Cons.IH)
  then show ?case using \<open>P a\<close> by (simp only: list.set ball_simps simp_thms)
qed simp

lemma group_settled:
  assumes "output_group p tip db txID = (all, settled)" and "all > 0" and "settled = all"
  shows "spent_out (MinConfirmations (popts p)) tip db txID"
proof -
  let ?rs = "filter (\<lambda>r. orTxID r = txID) (outputs db)"
  let ?rows = "concat (map (spenders db) ?rs)"
  let ?ok = "buried (MinConfirmations (popts p)) tip"
  have g: "?rows \<noteq> []" "length (filter ?ok ?rows) = length ?rows" using assms by (auto simp: output_group_def Let_def)
  have every: "\<forall>sk \<in> set ?rows. ?ok sk"
    by (rule filter_full [OF g(2)])
  have "?rs \<noteq> []" using g(1) by (metis concat.simps(1) list.map(1))
  then have "\<exists>r \<in> set (outputs db). orTxID r = txID" by (auto simp: filter_empty_conv)
  moreover have "settled_output (MinConfirmations (popts p)) tip db r" if "r \<in> set (outputs db)" "orTxID r = txID" for r
  proof -
    have "hd (spenders db r) \<in> set (spenders db r)" by (rule list.set_sel(1) [OF spenders_ne])
    moreover have "set (spenders db r) \<subseteq> set ?rows" using that by auto
    ultimately show ?thesis using every spenders_buried by blast
  qed
  ultimately show ?thesis by (auto simp: spent_out_def)
qed

lemma settled_group:
  assumes "wallet_keys db" and "spent_out (MinConfirmations (popts p)) tip db txID"
  shows "\<exists>all. output_group p tip db txID = (all, all) \<and> all > 0"
proof -
  let ?rs = "filter (\<lambda>r. orTxID r = txID) (outputs db)"
  let ?rows = "concat (map (spenders db) ?rs)"
  have ok: "\<forall>sk \<in> set ?rows. buried (MinConfirmations (popts p)) tip sk"
    using assms spenders_settled by (fastforce simp: spent_out_def)
  obtain r where "r \<in> set ?rs" using assms(2) by (auto simp: spent_out_def)
  then have "?rows \<noteq> []" using spenders_ne by (auto simp: concat_eq_Nil_conv)
  moreover have "filter (buried (MinConfirmations (popts p)) tip) ?rows = ?rows" using ok by (simp add: filter_id_conv)
  ultimately show ?thesis by (simp add: output_group_def Let_def)
qed

subsection \<open>What an update does\<close>

definition null_row :: "bytes set \<Rightarrow> known_tx \<Rightarrow> known_tx" where
  "null_row S k = (if ktTxid k \<in> S \<and> ktStatus k = completed \<and> ktRawTx k \<noteq> None
     then k\<lparr>ktRawTx := None, ktInputBEEF := None\<rparr> else k)"

definition prune_ids :: "bytes set \<Rightarrow> wallet_db \<Rightarrow> wallet_db" where
  "prune_ids S db = db\<lparr>known_txs := map (null_row S) (known_txs db)\<rparr>"

lemma clear_ids: "fst (clear safe db) = prune_ids (cRawID ` set safe) db"
  by (simp add: clear_def prune_ids_def cleared_def null_row_def [abs_def])

lemma null_row_fields [simp]:
  "ktTxid (null_row S k) = ktTxid k" "ktStatus (null_row S k) = ktStatus k" "ktBlockHeight (null_row S k) = ktBlockHeight k"
  by (simp_all add: null_row_def)

lemma null_row_union: "null_row T (null_row S k) = null_row (S \<union> T) k"
proof (cases "ktStatus k = completed \<and> ktRawTx k \<noteq> None")
  case True
  then show ?thesis by (cases "ktTxid k \<in> S") (simp_all add: null_row_def)
next
  case False
  then have "null_row X k = k" for X by (auto simp: null_row_def)
  then show ?thesis by simp
qed

lemma prune_ids_simps [simp]:
  "transactions (prune_ids S db) = transactions db" "outputs (prune_ids S db) = outputs db"
  "known_txs (prune_ids S db) = map (null_row S) (known_txs db)"
  by (simp_all add: prune_ids_def)

lemma prune_ids_empty [simp]: "prune_ids {} db = db"
proof -
  have "null_row {} = id" by (rule ext) (simp add: null_row_def)
  then show ?thesis by (simp add: prune_ids_def)
qed

lemma prune_ids_union: "prune_ids T (prune_ids S db) = prune_ids (S \<union> T) db"
  by (simp add: prune_ids_def null_row_union o_def)

lemma prune_ids_cong:
  assumes "\<And>k. k \<in> set (known_txs db) \<Longrightarrow> ktStatus k = completed \<Longrightarrow> ktRawTx k \<noteq> None \<Longrightarrow> (ktTxid k \<in> S) = (ktTxid k \<in> T)"
  shows "prune_ids S db = prune_ids T db"
proof -
  have "null_row S k = null_row T k" if "k \<in> set (known_txs db)" for k
    using assms [OF that] by (auto simp: null_row_def)
  then show ?thesis by (simp add: prune_ids_def)
qed

lemma keys_prune [simp]: "wallet_keys (prune_ids S db) = wallet_keys db"
  by (simp add: wallet_keys_def o_def)

lemma settled_prune [simp]: "settled_output m tip (prune_ids S db) r = settled_output m tip db r"
  by (simp add: settled_output_def)

lemma spent_out_prune [simp]: "spent_out m tip (prune_ids S db) txID = spent_out m tip db txID"
  by (simp add: spent_out_def)

lemma byID_Some:
  fixes cands :: "candidate list"
  shows "fold (\<lambda>c m. m(cTxID c \<mapsto> c)) cands m i = Some c \<Longrightarrow> m i = Some c \<or> c \<in> set cands \<and> cTxID c = i"
  by (induction cands arbitrary: m) (force split: if_splits)+

lemma byID_keep:
  fixes cands :: "candidate list"
  shows "m i \<noteq> None \<Longrightarrow> \<exists>c. fold (\<lambda>c m. m(cTxID c \<mapsto> c)) cands m i = Some c"
  by (induction cands arbitrary: m) auto

lemma byID_in:
  fixes cands :: "candidate list"
  shows "i \<in> cTxID ` set cands \<Longrightarrow> \<exists>c. fold (\<lambda>c m. m(cTxID c \<mapsto> c)) cands m i = Some c"
proof (induction cands arbitrary: m)
  case (Cons a cands)
  show ?case
  proof (cases "i = cTxID a")
    case True
    then show ?thesis using byID_keep [of "m(cTxID a \<mapsto> a)" i cands] by (simp only: fold_simps o_apply fun_upd_same) simp
  next
    case False
    then show ?thesis using Cons by simp
  qed
qed simp

lemma in_map_filter: "y \<in> set (List.map_filter f xs) \<longleftrightarrow> (\<exists>x \<in> set xs. f x = Some y)"
  by (induction xs) (auto simp: List.map_filter_simps split: option.splits)

lemma prunable_sound:
  assumes "c \<in> set (prunable p db tip cands)"
  shows "c \<in> set cands \<and> spent_out (MinConfirmations (popts p)) tip db (cTxID c)"
proof -
  let ?byID = "fold (\<lambda>c m. m(cTxID c \<mapsto> c)) cands Map.empty"
  obtain i where i: "(case output_group p tip db i of (all, settled) \<Rightarrow> if all > 0 \<and> settled = all then ?byID i else None) = Some c"
    using assms unfolding prunable_def Let_def set_sort in_map_filter by blast
  obtain all settled where g: "output_group p tip db i = (all, settled)" by (cases "output_group p tip db i")
  have "all > 0 \<and> settled = all" "?byID i = Some c" using i g by (simp_all split: if_splits)
  moreover from this have "c \<in> set cands" "cTxID c = i" using byID_Some [of cands Map.empty i c] by simp_all
  ultimately show ?thesis using group_settled [OF g] by simp
qed

lemma prunable_complete:
  assumes "wallet_keys db" and "distinct (map cTxID cands)" and "c \<in> set cands"
    and "spent_out (MinConfirmations (popts p)) tip db (cTxID c)"
  shows "c \<in> set (prunable p db tip cands)"
proof -
  let ?byID = "fold (\<lambda>c m. m(cTxID c \<mapsto> c)) cands Map.empty"
  obtain c' where c': "?byID (cTxID c) = Some c'" using byID_in [of "cTxID c" cands] assms(3) by blast
  have "c' = c" using byID_Some [OF c'] assms(2,3) by (auto simp: distinct_map dest: inj_onD)
  moreover obtain n where "output_group p tip db (cTxID c) = (n, n)" "n > 0" using settled_group assms(1,4) by blast
  ultimately show ?thesis using c' assms(3)
    by (auto simp: prunable_def Let_def in_map_filter image_iff intro!: bexI [of _ c])
qed

text \<open>Candidates, with primary keys: one per transaction.\<close>

definition is_candidate :: "int \<Rightarrow> int \<Rightarrow> wallet_db \<Rightarrow> wallet_tx \<Rightarrow> bool" where
  "is_candidate cursor floorTx db t \<longleftrightarrow> cursor < wtID t \<and> wtID t < floorTx \<and> wtStatus t = completed
     \<and> (\<exists>k \<in> set (known_txs db). ktTxid k = wtTxid t \<and> ktStatus k = completed \<and> ktRawTx k \<noteq> None)"

lemma candidate_rows_keys:
  assumes "wallet_keys db"
  shows "candidate_rows cursor floorTx db =
    map (\<lambda>t. \<lparr>cTxID = wtID t, cRawID = wtTxid t\<rparr>) (filter (is_candidate cursor floorTx db) (transactions db))"
proof -
  let ?P = "\<lambda>t k. ktTxid k = wtTxid t \<and> wtID t > cursor \<and> wtID t < floorTx \<and> wtStatus t = completed
        \<and> ktStatus k = completed \<and> ktRawTx k \<noteq> None"
  let ?c = "\<lambda>t. \<lparr>cTxID = wtID t, cRawID = wtTxid t\<rparr>"
  have one: "map (\<lambda>k. ?c t) (filter (?P t) (known_txs db)) = (if is_candidate cursor floorTx db t then [?c t] else [])" for t
  proof (cases "is_candidate cursor floorTx db t")
    case True
    then obtain k where k: "k \<in> set (known_txs db)" "?P t k" by (auto simp: is_candidate_def)
    have "filter (?P t) (known_txs db) = filter (\<lambda>q. ktTxid q = ktTxid k) (known_txs db)"
    proof (rule filter_cong [OF refl])
      fix q assume q: "q \<in> set (known_txs db)"
      show "?P t q = (ktTxid q = ktTxid k)"
      proof
        assume "ktTxid q = ktTxid k"
        then have "q = k" using q k(1) assms by (auto simp: wallet_keys_def distinct_map dest: inj_onD)
        then show "?P t q" using k(2) by simp
      qed (use k(2) in simp)
    qed
    also have "\<dots> = [k]" using filter_key [of ktTxid "known_txs db" k] assms k(1) by (simp add: wallet_keys_def)
    finally show ?thesis using True by simp
  next
    case False
    then have "filter (?P t) (known_txs db) = []" by (auto simp: is_candidate_def filter_empty_conv)
    then show ?thesis using False by simp
  qed
  have "concat (map (\<lambda>t. if Q t then [f t] else []) ts) = map f (filter Q ts)" for Q f and ts :: "wallet_tx list"
    by (induction ts) simp_all
  then show ?thesis unfolding candidate_rows_def one .
qed

lemma candidates_keys:
  assumes "wallet_keys db"
  shows "distinct (map cTxID (candidates p floorTx db))"
proof -
  let ?rows = "candidate_rows (pcursor p) floorTx db"
  have "map cTxID ?rows = map wtID (filter (is_candidate (pcursor p) floorTx db) (transactions db))"
    using assms by (simp add: candidate_rows_keys)
  then have "distinct (map cTxID ?rows)" using assms by (simp add: wallet_keys_def distinct_map_filter)
  moreover have "mset (map cTxID (sort_key cTxID ?rows)) = mset (map cTxID ?rows)" by simp
  ultimately have "distinct (map cTxID (sort_key cTxID ?rows))" by (metis mset_eq_imp_distinct_iff)
  then show ?thesis unfolding candidates_def take_map [symmetric] by (rule distinct_take)
qed

text \<open>A batch takes the lowest ids, so what it leaves lies past its last one.\<close>

lemma batch_rest:
  assumes "wallet_keys db" and "0 < BatchSize (popts p)" and "t \<in> set (transactions db)"
    and "is_candidate (pcursor p) floorTx db t"
  shows "candidates p floorTx db \<noteq> [] \<and>
    (\<lparr>cTxID = wtID t, cRawID = wtTxid t\<rparr> \<in> set (candidates p floorTx db) \<or> cTxID (last (candidates p floorTx db)) < wtID t)"
proof -
  let ?c = "\<lparr>cTxID = wtID t, cRawID = wtTxid t\<rparr>"
  let ?xs = "sort_key cTxID (candidate_rows (pcursor p) floorTx db)"
  let ?n = "nat (BatchSize (popts p))"
  have "?c \<in> set ?xs" using assms by (auto simp: candidate_rows_keys)
  then obtain i where i: "i < length ?xs" "?xs ! i = ?c" unfolding in_set_conv_nth by blast
  have n: "0 < ?n" using assms(2) by simp
  have ne: "take ?n ?xs \<noteq> []" using i(1) n by (metis length_0_conv less_nat_zero_code less_numeral_extra(3) take_eq_Nil2)
  have "?c \<in> set (take ?n ?xs) \<or> cTxID (last (take ?n ?xs)) < wtID t"
  proof (cases "i < ?n")
    case True
    then show ?thesis using i by (metis in_set_conv_nth length_take min_less_iff_conj nth_take)
  next
    case False
    then have l: "last (take ?n ?xs) = ?xs ! (?n - 1)" using i(1) n ne by (simp add: last_conv_nth min_def)
    have lt: "?n - 1 < i" using False n by simp
    have "sorted (map cTxID ?xs)" by simp
    then have le: "cTxID (?xs ! (?n - 1)) \<le> cTxID (?xs ! i)" using lt i(1) by (simp add: sorted_iff_nth_mono)
    have "distinct (map cTxID ?xs)"
      using candidates_keys [OF assms(1), of "p\<lparr>popts := popts p\<lparr>BatchSize := int (length ?xs)\<rparr>\<rparr>" floorTx] by (simp add: candidates_def)
    then have "cTxID (?xs ! (?n - 1)) \<noteq> cTxID (?xs ! i)" using lt i(1) nth_eq_iff_index_eq [of "map cTxID ?xs" "?n - 1" i] by simp
    then show ?thesis using le l i(2) by simp
  qed
  then show ?thesis using ne by (simp add: candidates_def)
qed

text \<open>The transactions a sweep is to strip: completed, older than the floor, and spent out.\<close>

definition dead_after :: "int \<Rightarrow> u64 \<Rightarrow> u64 \<Rightarrow> int \<Rightarrow> wallet_db \<Rightarrow> bytes set" where
  "dead_after cursor minConf tip floorTx db =
     {wtTxid t | t. t \<in> set (transactions db) \<and> wtStatus t = completed \<and> cursor < wtID t \<and> wtID t < floorTx
        \<and> spent_out minConf tip db (wtID t)}"

lemma dead_after_prune [simp]: "dead_after c m tip f (prune_ids S db) = dead_after c m tip f db"
  by (simp add: dead_after_def)

lemma dead_after_mono: "c \<le> c' \<Longrightarrow> dead_after c' m tip f db \<subseteq> dead_after c m tip f db"
  by (force simp: dead_after_def)

lemma prunable_dead:
  "cRawID ` set (prunable p db tip (candidates p floorTx db)) \<subseteq> dead_after (pcursor p) (MinConfirmations (popts p)) tip floorTx db"
proof
  fix x assume "x \<in> cRawID ` set (prunable p db tip (candidates p floorTx db))"
  then obtain c where c: "c \<in> set (prunable p db tip (candidates p floorTx db))" "x = cRawID c" by blast
  note s = prunable_sound [OF c(1)]
  show "x \<in> dead_after (pcursor p) (MinConfirmations (popts p)) tip floorTx db"
    using candidate_in [OF conjunct1 [OF s]] conjunct2 [OF s] c(2) unfolding dead_after_def by force
qed

lemma sweepBatch_effect:
  assumes "sweepBatch W batch p floorTx tip db rep = (r, p', db', rep')" and "quiet W"
  defines "safe \<equiv> prunable p db tip (candidates p floorTx db)"
  shows "popts p' = popts p \<and> (db' = db \<or> \<not> DryRun (popts p) \<and> db' = prune_ids (cRawID ` set safe) db)
    \<and> (\<forall>n. r = Inr n \<longrightarrow> n = length (candidates p floorTx db)
        \<and> pcursor p' = (if n = 0 then pcursor p else cTxID (last (candidates p floorTx db)))
        \<and> db' = (if n = 0 \<or> DryRun (popts p) then db else prune_ids (cRawID ` set safe) db))"
proof -
  have "prune_ids (cRawID ` set safe) db = fst (clear safe db)" by (simp add: clear_ids)
  moreover have "safe = [] \<Longrightarrow> fst (clear safe db) = db" by (simp add: clear_ids)
  ultimately show ?thesis using assms(1,2) unfolding sweepBatch_def Let_def safe_def quiet_def
    by (auto split: if_splits prod.splits option.splits)
qed

lemma sweepBatch_dead:
  assumes b: "sweepBatch W batch p floorTx tip db rep = (Inr n, p', db', rep')" and q: "quiet W" and keys: "wallet_keys db"
    and o: "0 < BatchSize (popts p)" "\<not> DryRun (popts p)"
  defines "D \<equiv> (\<lambda>c. dead_after c (MinConfirmations (popts p)) tip floorTx db)"
  shows "(n = 0 \<longrightarrow> prune_ids (D (pcursor p)) db = db)
    \<and> (n \<noteq> 0 \<longrightarrow> prune_ids (D (pcursor p')) db' = prune_ids (D (pcursor p)) db)"
proof -
  let ?S = "cRawID ` set (prunable p db tip (candidates p floorTx db))"
  note e = sweepBatch_effect [OF b q]
  have dead: "\<exists>t \<in> set (transactions db). wtTxid t = ktTxid k \<and> is_candidate (pcursor p) floorTx db t
      \<and> spent_out (MinConfirmations (popts p)) tip db (wtID t)"
    if k: "k \<in> set (known_txs db)" "ktStatus k = completed" "ktRawTx k \<noteq> None" "ktTxid k \<in> D (pcursor p)" for k
  proof -
    obtain t where "t \<in> set (transactions db)" "wtTxid t = ktTxid k" "wtStatus t = completed" "pcursor p < wtID t" "wtID t < floorTx"
      "spent_out (MinConfirmations (popts p)) tip db (wtID t)"
      using k(4) by (auto simp: D_def dead_after_def)
    moreover from this have "is_candidate (pcursor p) floorTx db t" using k(1-3) by (auto simp: is_candidate_def)
    ultimately show ?thesis by blast
  qed
  show ?thesis
  proof (intro conjI impI)
    assume "n = 0"
    then have none: "candidates p floorTx db = []" using e by simp
    have "prune_ids (D (pcursor p)) db = prune_ids {} db"
      using dead batch_rest [OF keys o(1), of _ floorTx] none by (intro prune_ids_cong) blast
    then show "prune_ids (D (pcursor p)) db = db" by simp
  next
    assume n: "n \<noteq> 0"
    have db': "db' = prune_ids ?S db" and cur: "pcursor p' = cTxID (last (candidates p floorTx db))" using e n o(2) by simp_all
    have mono: "D (pcursor p') \<subseteq> D (pcursor p)"
      using sweepBatch_cursor [OF b n] unfolding D_def by (intro dead_after_mono) simp
    have S: "?S \<subseteq> D (pcursor p)" unfolding D_def by (rule prunable_dead)
    have later: "ktTxid k \<in> ?S \<union> D (pcursor p')"
      if k: "k \<in> set (known_txs db)" "ktStatus k = completed" "ktRawTx k \<noteq> None" "ktTxid k \<in> D (pcursor p)" for k
    proof -
      obtain t where t: "t \<in> set (transactions db)" "wtTxid t = ktTxid k" "is_candidate (pcursor p) floorTx db t"
        "spent_out (MinConfirmations (popts p)) tip db (wtID t)" using dead [OF k] by blast
      let ?c = "\<lparr>cTxID = wtID t, cRawID = wtTxid t\<rparr>"
      consider "?c \<in> set (candidates p floorTx db)" | "cTxID (last (candidates p floorTx db)) < wtID t"
        using batch_rest [OF keys o(1) t(1,3)] by blast
      then show ?thesis
      proof cases
        case 1
        then have "?c \<in> set (prunable p db tip (candidates p floorTx db))"
          using prunable_complete [OF keys candidates_keys [OF keys]] t(4) by simp
        then show ?thesis using t(2) by force
      next
        case 2
        then have "wtTxid t \<in> D (pcursor p')" using t cur unfolding D_def dead_after_def is_candidate_def by fastforce
        then show ?thesis using t(2) by simp
      qed
    qed
    have "prune_ids (?S \<union> D (pcursor p')) db = prune_ids (D (pcursor p)) db"
      using later S mono by (intro prune_ids_cong) blast
    then show "prune_ids (D (pcursor p')) db' = prune_ids (D (pcursor p)) db"
      by (simp add: db' prune_ids_union)
  qed
qed

text \<open>The four ways a batch of the loop ends: not begun, failed, exhausted, or followed by another unless interrupted.\<close>

lemma sweep_loop_cases:
  assumes "sweep_loop W batch p floorTx tip db rep = (rep', err, p', db')"
  obtains (limit) "rep' = rep" "err = None" "p' = p" "db' = db" "MaxBatches (popts p) \<noteq> 0"
  | (failed) e where "sweepBatch W batch p floorTx tip db rep = (Inl e, p', db', rep')" "err = Some e"
  | (exhausted) q where "sweepBatch W batch p floorTx tip db rep = (Inr 0, q, db', rep')" "err = None" "p' = q\<lparr>pcursor := 0\<rparr>"
  | (interrupted) n where "sweepBatch W batch p floorTx tip db rep = (Inr n, p', db', rep')" "n \<noteq> 0" "err = Some SweepInterrupted"
  | (another) n q d r where "sweepBatch W batch p floorTx tip db rep = (Inr n, q, d, r)" "n \<noteq> 0"
      "sweep_loop W (batch + 1) q floorTx tip d r = (rep', err, p', db')"
proof -
  note run = assms [unfolded sweep_loop.simps [of W batch p floorTx tip db rep]]
  obtain o1 q d r where b: "sweepBatch W batch p floorTx tip db rep = (o1, q, d, r)" by (metis prod_cases4)
  show thesis
  proof (cases "MaxBatches (popts p) = 0 \<or> int batch < MaxBatches (popts p)")
    case False
    then show ?thesis using run limit by simp
  next
    case go: True
    show ?thesis
    proof (cases o1)
      case (Inl e)
      then show ?thesis using run go b failed by simp
    next
      case (Inr n)
      then show ?thesis using run go b exhausted interrupted another by (simp split: if_splits)
    qed
  qed
qed

lemma sweep_loop_induct [consumes 1, case_names limit failed exhausted interrupted another]:
  assumes "sweep_loop W batch p floorTx tip db rep = (rep', err, p', db')"
    and "\<And>batch p db rep. MaxBatches (popts p) \<noteq> 0 \<Longrightarrow> P batch p db rep rep None p db"
    and "\<And>batch p db rep e p' db' rep'. sweepBatch W batch p floorTx tip db rep = (Inl e, p', db', rep') \<Longrightarrow>
      P batch p db rep rep' (Some e) p' db'"
    and "\<And>batch p db rep q db' rep'. sweepBatch W batch p floorTx tip db rep = (Inr 0, q, db', rep') \<Longrightarrow>
      P batch p db rep rep' None (q\<lparr>pcursor := 0\<rparr>) db'"
    and "\<And>batch p db rep n p' db' rep'. sweepBatch W batch p floorTx tip db rep = (Inr n, p', db', rep') \<Longrightarrow> n \<noteq> 0 \<Longrightarrow>
      P batch p db rep rep' (Some SweepInterrupted) p' db'"
    and "\<And>batch p db rep n q d r rep' err p' db'. sweepBatch W batch p floorTx tip db rep = (Inr n, q, d, r) \<Longrightarrow> n \<noteq> 0 \<Longrightarrow>
      P (batch + 1) q d r rep' err p' db' \<Longrightarrow> P batch p db rep rep' err p' db'"
  shows "P batch p db rep rep' err p' db'"
  using assms(1)
proof (induction "nat (floorTx - pcursor p)" arbitrary: batch p db rep rule: less_induct)
  case less
  from less.prems show ?case
  proof (cases rule: sweep_loop_cases)
    case (another n q d r)
    have "nat (floorTx - pcursor q) < nat (floorTx - pcursor p)" using sweepBatch_cursor [OF another(1,2)] by simp
    from assms(6) [OF another(1,2) less.hyps [OF this another(3)]] show ?thesis .
  next
    case limit
    then show ?thesis using assms(2) by simp
  next
    case (failed e)
    show ?thesis unfolding failed(2) by (rule assms(3) [OF failed(1)])
  next
    case (exhausted q)
    show ?thesis unfolding exhausted(2,3) by (rule assms(4) [OF exhausted(1)])
  next
    case (interrupted n)
    show ?thesis unfolding interrupted(3) by (rule assms(5) [OF interrupted(1,2)])
  qed
qed

lemma sweep_loop_effect:
  assumes "sweep_loop W batch p floorTx tip db rep = (rep', err, p', db')" and "quiet W"
  shows "popts p' = popts p
    \<and> (\<exists>S \<subseteq> dead_after (pcursor p) (MinConfirmations (popts p)) tip floorTx db. db' = prune_ids S db)
    \<and> (DryRun (popts p) \<longrightarrow> db' = db)
    \<and> (wallet_keys db \<and> \<not> DryRun (popts p) \<and> 0 < BatchSize (popts p) \<and> MaxBatches (popts p) = 0 \<and> err = None \<longrightarrow>
        db' = prune_ids (dead_after (pcursor p) (MinConfirmations (popts p)) tip floorTx db) db)"
  using assms(1)
proof (induction rule: sweep_loop_induct)
  case (limit batch p db rep)
  then show ?case by (auto intro!: exI [of _ "{}"])
next
  case (failed batch p db rep e p' db' rep')
  have "db' = db \<or> \<not> DryRun (popts p) \<and> db' = prune_ids (cRawID ` set (prunable p db tip (candidates p floorTx db))) db"
    "popts p' = popts p" using sweepBatch_effect [OF failed assms(2)] by simp_all
  then show ?case using prunable_dead [of p db tip floorTx] by (auto intro: exI [of _ "{}"])
next
  case (exhausted batch p db rep q db' rep')
  have "db' = db" "popts q = popts p" using sweepBatch_effect [OF exhausted assms(2)] by simp_all
  then show ?case using sweepBatch_dead [OF exhausted assms(2)] by (auto intro!: exI [of _ "{}"])
next
  case (interrupted batch p db rep n p' db' rep')
  have "db' = db \<or> \<not> DryRun (popts p) \<and> db' = prune_ids (cRawID ` set (prunable p db tip (candidates p floorTx db))) db"
    "popts p' = popts p" using sweepBatch_effect [OF interrupted(1) assms(2)] by simp_all
  then show ?case using prunable_dead [of p db tip floorTx] by (auto intro: exI [of _ "{}"])
next
  case (another batch p db rep n q d r rep' err p' db')
  let ?m = "MinConfirmations (popts p)"
  let ?S = "if DryRun (popts p) then {} else cRawID ` set (prunable p db tip (candidates p floorTx db))"
  note e = sweepBatch_effect [OF another(1) assms(2)]
  have o: "popts q = popts p" and d: "d = prune_ids ?S db" using e another(2) by simp_all
  have S: "?S \<subseteq> dead_after (pcursor p) ?m tip floorTx db" using prunable_dead by simp
  have mono: "dead_after (pcursor q) ?m tip floorTx db \<subseteq> dead_after (pcursor p) ?m tip floorTx db"
    using sweepBatch_cursor [OF another(1,2)] by (intro dead_after_mono) simp
  have ih: "popts p' = popts p \<and> (\<exists>T \<subseteq> dead_after (pcursor q) ?m tip floorTx db. db' = prune_ids T d) \<and> (DryRun (popts p) \<longrightarrow> db' = d)
    \<and> (wallet_keys db \<and> \<not> DryRun (popts p) \<and> 0 < BatchSize (popts p) \<and> MaxBatches (popts p) = 0 \<and> err = None \<longrightarrow>
        db' = prune_ids (dead_after (pcursor q) ?m tip floorTx db) d)"
    using another(3) by (simp add: o d)
  then obtain T where T: "T \<subseteq> dead_after (pcursor q) ?m tip floorTx db" "db' = prune_ids T d" by blast
  have "db' = prune_ids (?S \<union> T) db" using T(2) by (simp only: d prune_ids_union)
  moreover have "?S \<union> T \<subseteq> dead_after (pcursor p) ?m tip floorTx db" using S T(1) mono by blast
  moreover have "DryRun (popts p) \<Longrightarrow> db' = db" using ih d by simp
  moreover have "wallet_keys db \<Longrightarrow> \<not> DryRun (popts p) \<Longrightarrow> 0 < BatchSize (popts p) \<Longrightarrow> MaxBatches (popts p) = 0 \<Longrightarrow> err = None
      \<Longrightarrow> db' = prune_ids (dead_after (pcursor p) ?m tip floorTx db) db"
    using ih sweepBatch_dead [OF another(1) assms(2)] another(2) by simp
  ultimately show ?case using ih by blast
qed

lemma sweepBatch_fields:
  assumes "sweepBatch W batch p floorTx tip db rep = (r, p', db', rep')"
  shows "FloorTxID rep' = FloorTxID rep \<and> FloorGeneration rep' = FloorGeneration rep \<and> TipHeight rep' = TipHeight rep
    \<and> popts p' = popts p \<and> pcells p' = pcells p \<and> (DryRun (popts p) \<longrightarrow> db' = db)"
  using assms unfolding sweepBatch_def Let_def by (auto split: if_splits prod.splits option.splits)

text \<open>Whoever else writes, a pass keeps its options, its ring and the floor it reads, and a dry one writes nothing.\<close>

lemma sweep_loop_floor:
  assumes "sweep_loop W batch p floorTx tip db rep = (rep', err, p', db')"
  shows "FloorTxID rep' = FloorTxID rep \<and> FloorGeneration rep' = FloorGeneration rep \<and> TipHeight rep' = TipHeight rep
    \<and> popts p' = popts p \<and> pcells p' = pcells p \<and> (DryRun (popts p) \<longrightarrow> db' = db)"
  using assms by (induction rule: sweep_loop_induct) (use sweepBatch_fields in fastforce)+

text \<open>How a pass ends: before the floor is read and without writing, or in the loop below it.\<close>

lemma Sweep_cases:
  assumes "Sweep json W p db = (rep, err, p', db')"
  obtains (still) "p' = p" "db' = db" "FloorTxID rep \<le> 0" | (swept) floorTx floorGen
    where "retention_floor json p db = Some (floorTx, floorGen)" "0 < floorTx" "FloorTxID rep = floorTx" "TipHeight rep = tipHeight db"
      "sweep_loop W 0 p floorTx (tipHeight db) db
        (new_report\<lparr>TipHeight := tipHeight db, FloorTxID := floorTx, FloorGeneration := floorGen\<rparr>) = (rep, err, p', db')"
proof (cases "query_error W ReadTip = None \<and> \<not> tipHeight db < MinConfirmations (popts p) \<and> query_error W ReadFloor = None
    \<and> floorWindow (pcells p) (RetainGenerations (popts p)) \<noteq> None \<and> (\<exists>x g. retention_floor json p db = Some (x, g) \<and> 0 < x)")
  case True
  then obtain floorTx floorGen where f: "retention_floor json p db = Some (floorTx, floorGen)" "0 < floorTx" by blast
  then have l: "sweep_loop W 0 p floorTx (tipHeight db) db
        (new_report\<lparr>TipHeight := tipHeight db, FloorTxID := floorTx, FloorGeneration := floorGen\<rparr>) = (rep, err, p', db')"
    using assms True by (simp add: Sweep_def Let_def)
  then show ?thesis using swept [OF f] sweep_loop_floor [OF l] by simp
next
  case False
  then have "p' = p \<and> db' = db \<and> FloorTxID rep \<le> 0"
    using assms unfolding Sweep_def Let_def
    by (auto simp: new_report_def not_le split: option.splits if_splits prod.splits)
  then show ?thesis using still by blast
qed

lemma sweep_effect:
  assumes "Sweep json W p db = (rep, err, p', db')" and "quiet W"
  defines "dead \<equiv> dead_after (pcursor p) (MinConfirmations (popts p)) (TipHeight rep) (FloorTxID rep) db"
  shows "(\<exists>S \<subseteq> dead. db' = prune_ids S db) \<and> (DryRun (popts p) \<longrightarrow> db' = db)
    \<and> (wallet_keys db \<and> \<not> DryRun (popts p) \<and> 0 < BatchSize (popts p) \<and> MaxBatches (popts p) = 0 \<and> 0 \<le> pcursor p \<and> err = None \<longrightarrow>
        db' = prune_ids dead db)"
  using assms(1)
proof (cases rule: Sweep_cases)
  case still
  then have "0 \<le> pcursor p \<Longrightarrow> dead = {}" by (auto simp: dead_def dead_after_def)
  then show ?thesis using still by (auto intro!: exI [of _ "{}"])
next
  case (swept floorTx floorGen)
  then show ?thesis using sweep_loop_effect [OF swept(5) assms(2)] by (simp add: dead_def)
qed

text \<open>Claim C25: a sweep with no other writer clears the raw bytes of exactly the right rows.  Whatever it clears, also when a
  statement fails or the context ends between two batches, belongs to a completed transaction below the retention
  floor that has an output, and every output of which is spent by a completed transaction buried at least
  \<open>MinConfirmations\<close> under the tip; a dry run changes nothing; and an unbounded pass that starts at the cursor's
  beginning over tables with their primary keys and comes to its end leaves no such row behind, however the batches
  fall.\<close>

theorem sweep_exact:
  assumes "Sweep json W p db = (rep, err, p', db')" and "quiet W"
  defines "dead \<equiv> dead_after (pcursor p) (MinConfirmations (popts p)) (TipHeight rep) (FloorTxID rep) db"
  shows "(\<exists>S \<subseteq> dead. db' = prune_ids S db) \<and> (DryRun (popts p) \<longrightarrow> db' = db)
    \<and> (wallet_keys db \<and> \<not> DryRun (popts p) \<and> 0 < BatchSize (popts p) \<and> MaxBatches (popts p) = 0 \<and> 0 \<le> pcursor p \<and> err = None \<longrightarrow>
        db' = prune_ids dead db)"
  using sweep_effect [OF assms(1,2)] unfolding dead_def .

subsection \<open>The retention floor\<close>

lemma floor_loop_below:
  assumes "\<forall>(t, g) \<in> set xs. 0 < t" and "0 \<le> f"
  shows "(f \<noteq> 0 \<longrightarrow> 0 < floor_loop fg xs f \<and> floor_loop fg xs f \<le> f)
    \<and> (\<forall>(t, g) \<in> set xs. fg < g \<longrightarrow> 0 < floor_loop fg xs f \<and> floor_loop fg xs f \<le> t)"
  using assms
proof (induction fg xs f rule: floor_loop.induct)
  case (2 floorGen txID g rest floorTx)
  show ?case
  proof (cases "g \<le> floorGen")
    case True
    then show ?thesis using 2 by auto
  next
    case False
    define F where "F = (if floorTx = 0 \<or> txID < floorTx then txID else floorTx)"
    have pos: "0 < txID" "\<forall>(t, g) \<in> set rest. 0 < t" using "2.prems"(1) by simp_all
    then have f: "0 < F" "F \<le> txID" "floorTx \<noteq> 0 \<Longrightarrow> F \<le> floorTx" using "2.prems"(2) by (auto simp: F_def)
    have ih: "(F \<noteq> 0 \<longrightarrow> 0 < floor_loop floorGen rest F \<and> floor_loop floorGen rest F \<le> F)
      \<and> (\<forall>(t, g) \<in> set rest. floorGen < g \<longrightarrow> 0 < floor_loop floorGen rest F \<and> floor_loop floorGen rest F \<le> t)"
      unfolding F_def by (rule "2.IH"(2) [OF False pos(2)]) (use f(1) in \<open>simp add: F_def\<close>)
    have r: "floor_loop floorGen ((txID, g) # rest) floorTx = floor_loop floorGen rest F" using False by (simp add: F_def)
    have low: "0 < floor_loop floorGen rest F" "floor_loop floorGen rest F \<le> F" using ih f(1) by simp_all
    have "floor_loop floorGen rest F \<le> txID" "floorTx \<noteq> 0 \<Longrightarrow> floor_loop floorGen rest F \<le> floorTx" using low f by linarith+
    then show ?thesis unfolding r using ih low(1) by (simp del: floor_loop.simps)
  qed
qed simp

lemma foldr_max_attained:
  fixes xs :: "(int \<times> u64) list"
  shows "foldr (\<lambda>(t, g) m. if g > m then g else m) xs 0 = 0
    \<or> (\<exists>x \<in> set xs. snd x = foldr (\<lambda>(t, g) m. if g > m then g else m) xs 0)"
proof (induction xs)
  case (Cons x xs)
  then show ?case by (cases x; cases "snd x > foldr (\<lambda>(t, g) m. if g > m then g else m) xs 0") (simp_all, blast+)
qed simp

lemma retention_floor_sound:
  assumes "retention_floor json p db = Some (floorTx, floorGen)" and "0 < floorTx" and "\<forall>r \<in> set (outputs db). 0 < orTxID r"
    and "floorWindow (pcells p) (RetainGenerations (popts p)) = Some window"
    and "r \<in> set (newest_outputs (nat window) db)" and "seen_output json r = Some (i, g)"
    and "\<forall>r' \<in> set (newest_outputs (nat window) db). \<forall>i' g'. seen_output json r' = Some (i', g') \<longrightarrow>
      unat g' < unat g + unat (RetainGenerations (popts p))"
    and "0 < unat g + unat (RetainGenerations (popts p))"
  shows "floorTx \<le> i"
proof -
  let ?all = "List.map_filter (seen_output json) (newest_outputs (nat window) db)"
  let ?max = "foldr (\<lambda>(t, g) m. if g > m then g else m) ?all 0"
  let ?R = "RetainGenerations (popts p)"
  have f: "floorTx = floor_loop (?max - ?R) ?all 0" "?R \<le> ?max"
    using assms(1,2,4) by (auto simp: retention_floor_def Let_def split: if_splits)
  have "unat ?max < unat g + unat ?R"
  proof (rule disjE [OF foldr_max_attained [of ?all]])
    assume "?max = 0"
    then show ?thesis using assms(8) by simp
  next
    assume "\<exists>x \<in> set ?all. snd x = ?max"
    then obtain x where "x \<in> set ?all" "snd x = ?max" by blast
    then obtain r' where "r' \<in> set (newest_outputs (nat window) db)" "seen_output json r' = Some (fst x, ?max)"
      unfolding in_map_filter by (cases x) auto
    then show ?thesis using assms(7) by blast
  qed
  then have "unat ?max - unat ?R < unat g"
    using f(2) unfolding word_le_nat_alt by linarith
  then have "unat (?max - ?R) < unat g" by (simp only: unat_sub [OF f(2)])
  then have "?max - ?R < g" by (rule iffD2 [OF word_less_nat_alt])
  moreover have "(i, g) \<in> set ?all" using assms(5,6) by (auto simp: in_map_filter)
  moreover have "\<forall>(t, g) \<in> set ?all. 0 < t"
  proof (clarify)
    fix t h assume "(t, h) \<in> set ?all"
    then obtain r' where "r' \<in> set (newest_outputs (nat window) db)" "seen_output json r' = Some (t, h)"
      by (auto simp: in_map_filter)
    then show "0 < t" using assms(3)
      by (auto simp: newest_outputs_def seen_output_def dest!: in_set_takeD split: option.splits)
  qed
  ultimately show ?thesis using floor_loop_below [of ?all 0 "?max - ?R"] f(1) by fastforce
qed

text \<open>The retention floor is a brake of its own.  A row is retained when its transaction made one of the newest
  \<open>cells * (retain + 1)\<close> cell outputs, at a generation less than \<open>RetainGenerations\<close> below the newest of them.\<close>

definition retained :: "(string \<Rightarrow> (int option \<times> u64 option) option) \<Rightarrow> int \<Rightarrow> u64 \<Rightarrow> wallet_db \<Rightarrow> known_tx \<Rightarrow> bool" where
  "retained json n keep db k \<longleftrightarrow>
     (\<exists>window r g. floorWindow n keep = Some window \<and> r \<in> set (newest_outputs (nat window) db)
        \<and> seen_output json r = Some (orTxID r, g)
        \<and> (\<forall>r' \<in> set (newest_outputs (nat window) db). \<forall>i' g'. seen_output json r' = Some (i', g') \<longrightarrow> unat g' < unat g + unat keep)
        \<and> (\<exists>t \<in> set (transactions db). wtID t = orTxID r \<and> ktTxid k = wtTxid t))"

lemma retained_prune [simp]: "retained json n keep (prune_ids S db) k = retained json n keep db k"
  by (simp add: retained_def newest_outputs_def)

definition table_keys :: "wallet_db \<Rightarrow> bool" where
  "table_keys db \<longleftrightarrow> (\<forall>r \<in> set (outputs db). 0 < orTxID r) \<and> distinct (map wtTxid (transactions db))"

lemma table_keys_prune [simp]: "table_keys (prune_ids S db) = table_keys db"
  by (simp add: table_keys_def)

text \<open>However a pass ends, it is an update of dead rows that leaves every retained row as it was.\<close>

theorem retained_outputs_survive:
  assumes "Sweep json W p db = (rep, err, p', db')" and "quiet W" and "table_keys db"
    and "retained json (pcells p) (RetainGenerations (popts p)) db k" and "k \<in> set (known_txs db)"
  shows "\<exists>S. db' = prune_ids S db \<and> null_row S k = k"
  using assms(1)
proof (cases rule: Sweep_cases)
  case still
  have "null_row {} k = k" by (simp add: null_row_def)
  then show ?thesis using still by (intro exI [of _ "{}"]) simp
next
  case (swept floorTx floorGen)
  let ?D = "dead_after (pcursor p) (MinConfirmations (popts p)) (TipHeight rep) (FloorTxID rep) db"
  obtain S where S: "S \<subseteq> ?D" "db' = prune_ids S db" using sweep_effect [OF assms(1,2)] by blast
  obtain window r g t where w: "floorWindow (pcells p) (RetainGenerations (popts p)) = Some window"
    and r: "r \<in> set (newest_outputs (nat window) db)" "seen_output json r = Some (orTxID r, g)"
      "\<forall>r' \<in> set (newest_outputs (nat window) db). \<forall>i' g'. seen_output json r' = Some (i', g') \<longrightarrow>
        unat g' < unat g + unat (RetainGenerations (popts p))"
    and t: "t \<in> set (transactions db)" "wtID t = orTxID r" "ktTxid k = wtTxid t"
    using assms(4) unfolding retained_def by blast
  have keys: "\<forall>r \<in> set (outputs db). 0 < orTxID r" "distinct (map wtTxid (transactions db))"
    using assms(3) by (simp_all add: table_keys_def)
  have "0 < unat g + unat (RetainGenerations (popts p))" using r by force
  then have le: "FloorTxID rep \<le> orTxID r"
    using retention_floor_sound [OF swept(1,2) keys(1) w r] swept(3) by simp
  have "wtTxid t \<notin> ?D"
  proof
    assume "wtTxid t \<in> ?D"
    then obtain t' where t': "t' \<in> set (transactions db)" "wtTxid t = wtTxid t'" "wtID t' < FloorTxID rep"
      by (auto simp: dead_after_def)
    have "t' = t" using t'(1,2) keys(2) t(1) by (auto simp: distinct_map dest: inj_onD)
    then show False using t'(3) t(2) le by simp
  qed
  then have "null_row S k = k" using S(1) t(3) by (auto simp: null_row_def)
  then show ?thesis using S(2) by blast
qed

subsection \<open>A ring that is not in step\<close>

text \<open>Two cells, two retained generations: cell 0 wrote generations 5 to 7, then cell 1 wrote 1 to 6.  The window is
  the newest six outputs, all of cell 1, so the floor comes from its generation 5 and lies above every transaction
  of cell 0; generation 6 of cell 0, one below the newest there is, is spent and buried, and loses its bytes.\<close>

definition drift_outputs :: "(int \<times> int option \<times> nat) list" where
  "drift_outputs = [(1, Some 2, 5), (2, Some 3, 6), (3, None, 7), (4, Some 5, 1), (5, Some 6, 2), (6, Some 7, 3),
     (7, Some 8, 4), (8, Some 9, 5), (9, None, 6)]"

definition drift_db :: wallet_db where
  "drift_db = \<lparr>
     known_txs = map (\<lambda>(i, _, _). \<lparr>ktTxid = [word_of_int i], ktStatus = completed, ktRawTx = Some [0], ktInputBEEF = None,
       ktBlockHeight = Some i\<rparr>) drift_outputs,
     transactions = map (\<lambda>(i, _, _). \<lparr>wtID = i, wtTxid = [word_of_int i], wtStatus = completed\<rparr>) drift_outputs,
     outputs = map (\<lambda>(i, s, g). \<lparr>orTxID = i, orSpentBy = s, orBasket = Some CellBasket,
       orInstructions = Some (replicate g CHR ''x'')\<rparr>) drift_outputs\<rparr>"

definition drift_json :: "string \<Rightarrow> (int option \<times> u64 option) option" where
  "drift_json instr = Some (None, Some (of_nat (length instr)))"

definition drift_pruner :: "bool \<Rightarrow> pruner" where
  "drift_pruner dry = \<lparr>pcells = 2,
     popts = \<lparr>DryRun = dry, RetainGenerations = 2, MinConfirmations = 1, BatchSize = 4, MaxBatches = 0\<rparr>, pcursor = 0\<rparr>"

lemma drift_tip: "tipHeight drift_db = 9"
  by code_simp

lemma drift_floor: "retention_floor drift_json (drift_pruner dry) drift_db = Some (8, 4)"
  by code_simp

lemma retained_generation_pruned:
  "map (\<lambda>k. ktRawTx k = None) (known_txs (snd (snd (snd (Sweep drift_json calm (drift_pruner False) drift_db)))))
     = [True, True, False, True, True, True, True, False, False]"
  by code_simp

lemma drift_report:
  "case Sweep drift_json calm (drift_pruner False) drift_db of (rep, err, _) \<Rightarrow>
     rep = \<lparr>Scanned = 7, Prunable = 6, Pruned = 6, Bytes = 6, FloorTxID = 8, FloorGeneration = 4, TipHeight = 9\<rparr> \<and> err = None"
  by code_simp

text \<open>A pass whose context ends after the first batch of four answers an error and has stripped three rows.\<close>

lemma interrupted_has_written:
  "case Sweep drift_json (calm\<lparr>swDone := \<lambda>_. True\<rparr>) (drift_pruner False) drift_db of (rep, err, p, db) \<Rightarrow>
     err = Some SweepInterrupted \<and> Pruned rep = 3 \<and> map (\<lambda>k. ktRawTx k = None) (known_txs db) =
       [True, True, False, True, False, False, False, False, False]"
  by code_simp

subsection \<open>Witnesses\<close>

lemma drift_keys: "wallet_keys drift_db" "table_keys drift_db"
  by code_simp+

lemma drift_sweep:
  "\<exists>rep p' db'. Sweep drift_json calm (drift_pruner False) drift_db = (rep, None, p', db') \<and> FloorTxID rep = 8 \<and> TipHeight rep = 9"
  using drift_report by (auto split: prod.splits)

lemma sweep_exact_witness:
  "\<exists>rep p' db'. Sweep drift_json calm (drift_pruner False) drift_db = (rep, None, p', db')
     \<and> db' = prune_ids (dead_after 0 1 9 8 drift_db) drift_db \<and> db' \<noteq> drift_db"
proof -
  obtain rep p' db' where s: "Sweep drift_json calm (drift_pruner False) drift_db = (rep, None, p', db')"
    "FloorTxID rep = 8" "TipHeight rep = 9" using drift_sweep by blast
  have "map (\<lambda>k. ktRawTx k = None) (known_txs db') = [True, True, False, True, True, True, True, False, False]"
    using retained_generation_pruned s(1) by simp
  moreover have "map (\<lambda>k. ktRawTx k = None) (known_txs drift_db) = replicate 9 False" by code_simp
  ultimately have "db' \<noteq> drift_db" by (auto simp: numeral_eq_Suc)
  moreover have "db' = prune_ids (dead_after 0 1 9 8 drift_db) drift_db"
    using sweep_exact [OF s(1)] drift_keys s(2,3) by (simp add: drift_pruner_def)
  ultimately show ?thesis using s(1) by blast
qed

lemma drift_retained: "retained drift_json 2 2 drift_db (known_txs drift_db ! 7)"
proof -
  have "list_all (\<lambda>r'. case seen_output drift_json r' of None \<Rightarrow> True | Some (i', g') \<Rightarrow> unat g' < 7) (newest_outputs (nat 6) drift_db)"
    by code_simp
  moreover have "unat (5 :: u64) + unat (2 :: u64) = 7" by simp
  ultimately have g: "\<forall>r' \<in> set (newest_outputs (nat 6) drift_db). \<forall>i' g'. seen_output drift_json r' = Some (i', g') \<longrightarrow>
      unat g' < unat (5 :: u64) + unat (2 :: u64)" by (auto simp: list_all_iff split: option.splits)
  have "floorWindow 2 2 = Some 6" "outputs drift_db ! 7 \<in> set (newest_outputs (nat 6) drift_db)"
    "seen_output drift_json (outputs drift_db ! 7) = Some (orTxID (outputs drift_db ! 7), 5)"
    "transactions drift_db ! 7 \<in> set (transactions drift_db)" "wtID (transactions drift_db ! 7) = orTxID (outputs drift_db ! 7)"
    "ktTxid (known_txs drift_db ! 7) = wtTxid (transactions drift_db ! 7)" by code_simp+
  then show ?thesis using g unfolding retained_def by blast
qed

lemma drift_row: "known_txs drift_db ! 7 \<in> set (known_txs drift_db)"
  by code_simp

end
