(* ===== verification/AuditTool.thy ===== *)
theory AuditTool
  imports AuditExact Prune Costs
begin

text \<open>
  The audit as a command: the reader of transaction bytes that opens no wallet
  (\<open>internal/chain/txreader.go\<close>) and \<open>cmd/rule110/audit.go\<close>, which turns flags into a range,
  runs the audit over the deployment's record and the reader, and decides what to print and how to exit.
\<close>

subsection \<open>The reader\<close>

datatype reader_error =
    NotTransactionID txid
  | WalletQueryFailed txid string
  | NoBytesNoArcade txid
  | ArcadeReadFailed txid string
  | NoBytesAnywhere txid

text \<open>The wallet's database, whose query may fail, and arcade where a URL names it.\<close>

record tx_reader =
  trDatabase :: "string + wallet_db"
  trOracle :: "(txid \<Rightarrow> string + bytes option) option"

definition OpenTxReader :: "chain_config \<Rightarrow> (string \<Rightarrow> txid \<Rightarrow> string + bytes option) \<Rightarrow> string + wallet_db \<Rightarrow> tx_reader" where
  "OpenTxReader cfg arcade db =
     \<lparr>trDatabase = db, trOracle = (if ArcadeURL cfg \<noteq> '''' then Some (arcade (ArcadeURL cfg)) else None)\<rparr>"

text \<open>\<open>SELECT raw_tx FROM known_txs WHERE txid = ?\<close>: the first row, whose column may be null.\<close>

definition select_raw :: "wallet_db \<Rightarrow> bytes \<Rightarrow> bytes option" where
  "select_raw db key = (case find (\<lambda>k. ktTxid k = key) (known_txs db) of None \<Rightarrow> None | Some k \<Rightarrow> ktRawTx k)"

definition TxReader_RawTx :: "tx_reader \<Rightarrow> txid \<Rightarrow> reader_error + bytes" where
  "TxReader_RawTx r tid =
     (case hex_decode tid of
        Inl e \<Rightarrow> Inl (NotTransactionID tid)
      | Inr key \<Rightarrow>
         if length key \<noteq> 32 then Inl (NotTransactionID tid)
         else case trDatabase r of
           Inl e \<Rightarrow> Inl (WalletQueryFailed tid e)
         | Inr db \<Rightarrow>
            (let ask = (case trOracle r of
                   None \<Rightarrow> Inl (NoBytesNoArcade tid)
                 | Some oracle \<Rightarrow>
                    (case oracle tid of
                       Inl e \<Rightarrow> Inl (ArcadeReadFailed tid e)
                     | Inr None \<Rightarrow> Inl (NoBytesAnywhere tid)
                     | Inr (Some raw) \<Rightarrow> if length raw = 0 then Inl (NoBytesAnywhere tid) else Inr raw)) in
             case select_raw db key of
               None \<Rightarrow> ask
             | Some raw \<Rightarrow> if length raw > 0 then Inr raw else ask))"

subsection \<open>The command\<close>

datatype audit_tool_error =
    LastNotPositive
  | NoDeployment string
  | AuditCompile script_error
  | AuditSeed ca_error
  | RangeEmpty u64 u64 u64
  | AuditRunFailed audit_error

definition auditRange :: "int \<Rightarrow> int \<Rightarrow> u64 \<Rightarrow> u64 \<Rightarrow> audit_tool_error + u64 \<times> u64" where
  "auditRange from to newestN latest =
     (let final = (if to \<ge> 0 then word_of_int to else latest);
          first = (if from \<ge> 0 then word_of_int from
                   else if final + 1 > newestN then final + 1 - newestN else 0) in
      if first > final then Inl (RangeEmpty first final latest) else Inr (first, final))"

text \<open>What is printed: the counts, the gaps listed and how many more there are, the failures, and the verdict, of
  which \<open>AuditFailed\<close> is the error the process exits with.\<close>

datatype audit_verdict =
    AuditFailed nat u64 u64
  | PassWithGaps u64 u64 nat
  | PassRange u64 u64 rule

record audit_print =
  apCounts :: "(check \<times> nat) list"
  apGenerations :: nat
  apTransactions :: nat
  apPassed :: nat
  apGapCount :: nat
  apGaps :: "gap list"
  apMoreGaps :: "int option"
  apFailures :: "failure list"
  apTruncated :: bool
  apVerdict :: audit_verdict

definition printAudit :: "report \<Rightarrow> rule \<Rightarrow> int \<Rightarrow> audit_print" where
  "printAudit rp rule listGaps =
     (let listed = (if length (Gaps rp) > 0 \<and> listGaps > 0 then take (nat listGaps) (Gaps rp) else []);
          more = (if listGaps > 0 \<and> int (length (Gaps rp)) > listGaps then Some (int (length (Gaps rp)) - listGaps) else None) in
      \<lparr>apCounts = Counts rp, apGenerations = repGenerations rp, apTransactions = Transactions rp, apPassed = PassedTotal rp,
       apGapCount = length (Gaps rp), apGaps = listed, apMoreGaps = more,
       apFailures = (if \<not> OK rp then Failures rp else []), apTruncated = (\<not> OK rp \<and> Truncated rp),
       apVerdict = (if \<not> OK rp then AuditFailed (length (Failures rp)) (From rp) (To rp)
                    else if length (Gaps rp) > 0 then PassWithGaps (From rp) (To rp) (length (Gaps rp))
                    else PassRange (From rp) (To rp) rule)\<rparr>)"

record audit_flags =
  afFrom :: int
  afTo :: int
  afLast :: u64
  afMaxFailures :: int
  afGaps :: int

text \<open>What the command finds: the state file, the contract's source, the record and the readers of bytes.\<close>

record audit_site =
  asFacts :: "string + deployment"
  asArtifact :: "string + artifact"
  asStore :: store
  asReader :: tx_reader
  asText :: "reader_error \<Rightarrow> string"
  asCodec :: tx_codec
  asSdk :: runar_sdk
  asChunks :: "bytes \<Rightarrow> string + chunk list"

definition audit_env_of :: "audit_site \<Rightarrow> compiled \<Rightarrow> row \<Rightarrow> int \<Rightarrow> u64 \<Rightarrow> u64 \<Rightarrow> audit_env" where
  "audit_env_of S c seed maxFailures first final =
     \<lparr>aeCompiled = c, aeStore = asStore S,
      aeSource = (\<lambda>tid. case TxReader_RawTx (asReader S) tid of Inl e \<Rightarrow> Inl (asText S e) | Inr raw \<Rightarrow> Inr raw),
      aeCodec = asCodec S, aeSdk = asSdk S, aeChunks = asChunks S, aeFrom = first, aeTo = final,
      aeSeed = Some seed, aeMaxFailures = maxFailures\<rparr>"

definition cmdAudit :: "audit_site \<Rightarrow> audit_flags \<Rightarrow> (audit_tool_error + audit_print) option" where
  "cmdAudit S f =
     (if afLast f = 0 \<and> afFrom f < 0 then Some (Inl LastNotPositive)
      else case asFacts S of
        Inl e \<Rightarrow> Some (Inl (NoDeployment e))
      | Inr facts \<Rightarrow>
     (case Compile (asArtifact S) (dCells facts) (dRule facts) of
        Inl e \<Rightarrow> Some (Inl (AuditCompile e))
      | Inr c \<Rightarrow>
     (case Seed facts of
        Inl e \<Rightarrow> Some (Inl (AuditSeed e))
      | Inr seed \<Rightarrow>
     (case auditRange (afFrom f) (afTo f) (afLast f) (stLatest (Stats (asStore S))) of
        Inl e \<Rightarrow> Some (Inl e)
      | Inr (first, final) \<Rightarrow>
         map_option (\<lambda>z. case z of Inl e \<Rightarrow> Inl (AuditRunFailed e) | Inr rp \<Rightarrow> Inr (printAudit rp (dRule facts) (afGaps f)))
           (Run (audit_env_of S c seed (afMaxFailures f) first final))))))"

subsection \<open>The range\<close>

text \<open>Without \<open>-from\<close> and \<open>-to\<close> the range is the newest \<open>-last\<close> generations, or all of them when there are
  fewer.\<close>

lemma auditRange_newest:
  assumes "n \<noteq> 0" and "latest + 1 \<noteq> 0" and "from < 0" and "to < 0"
  shows "\<exists>first. auditRange from to n latest = Inr (first, latest) \<and> unat first = unat latest + 1 - unat n"
proof -
  have l: "unat (latest + 1) = unat latest + 1" using assms(2) by (simp add: add.commute [of latest] unatSuc)
  show ?thesis
  proof (cases "latest + 1 > n")
    case True
    then have "unat (latest + 1 - n) = unat latest + 1 - unat n" using l by (simp add: unat_sub)
    moreover have "\<not> latest + 1 - n > latest"
      using assms(1) calculation by (simp add: word_less_nat_alt unat_gt_0 [symmetric] word_neq_0_conv [symmetric])
    ultimately show ?thesis using assms(3,4) True by (simp add: auditRange_def)
  next
    case False
    then show ?thesis using assms(3,4) l by (auto simp: auditRange_def word_less_nat_alt)
  qed
qed

lemma auditRange_ordered: "auditRange from to n latest = Inr (first, final) \<Longrightarrow> first \<le> final"
  by (auto simp: auditRange_def Let_def split: if_splits)

subsection \<open>The unqualified pass\<close>

text \<open>Claim C31: what the line \<open>PASS -- generations a..b are rule r\<close> is worth, end to end.  For any flags that denote a
  range and any deployment that can be opened, \<open>rule110 audit\<close> prints the unqualified pass exactly when every
  generation of the range is proved, by the record and the bytes the reader finds, to be the rule's image of the one
  before; and with no \<open>-from\<close> and \<open>-to\<close> the range is the newest \<open>-last\<close> recorded generations.\<close>

theorem audit_command_exact:
  assumes "asFacts S = Inr facts" and "Compile (asArtifact S) (dCells facts) (dRule facts) = Inr c" and "Seed facts = Inr seed"
    and "auditRange (afFrom f) (afTo f) (afLast f) (stLatest (Stats (asStore S))) = Inr (first, final)"
    and "final + 1 \<noteq> 0" and "afLast f \<noteq> 0 \<or> 0 \<le> afFrom f"
  shows "((\<exists>out a b r. cmdAudit S f = Some (Inr out) \<and> apVerdict out = PassRange a b r)
       = (\<forall>g. first \<le> g \<and> g \<le> final \<longrightarrow> generation_proved (audit_env_of S c seed (afMaxFailures f) first final) g))
    \<and> (afFrom f < 0 \<and> afTo f < 0 \<longrightarrow>
      final = stLatest (Stats (asStore S)) \<and> unat first = unat final + 1 - unat (afLast f))"
proof -
  let ?env = "audit_env_of S c seed (afMaxFailures f) first final"
  have cmd: "cmdAudit S f = map_option (\<lambda>z. case z of Inl e \<Rightarrow> Inl (AuditRunFailed e)
      | Inr rp \<Rightarrow> Inr (printAudit rp (dRule facts) (afGaps f))) (Run ?env)"
    using assms by (auto simp: cmdAudit_def)
  have verdict: "(\<exists>a b r. apVerdict (printAudit rp q k) = PassRange a b r) \<longleftrightarrow> OK rp \<and> Gaps rp = []" for rp q k
    by (simp add: printAudit_def Let_def)
  have "(\<exists>out a b r. cmdAudit S f = Some (Inr out) \<and> apVerdict out = PassRange a b r)
      \<longleftrightarrow> (\<exists>rp. Run ?env = Some (Inr rp) \<and> OK rp \<and> Gaps rp = [])"
  proof -
    have "(\<exists>out. cmdAudit S f = Some (Inr out) \<and> P out) \<longleftrightarrow>
        (\<exists>rp. Run ?env = Some (Inr rp) \<and> P (printAudit rp (dRule facts) (afGaps f)))" for P
      unfolding cmd by (cases "Run ?env") (auto split: sum.splits)
    from this [of "\<lambda>out. \<exists>a b r. apVerdict out = PassRange a b r"] have "(\<exists>out. cmdAudit S f = Some (Inr out) \<and> (\<exists>a b r. apVerdict out = PassRange a b r))
      \<longleftrightarrow> (\<exists>rp. Run ?env = Some (Inr rp) \<and> OK rp \<and> Gaps rp = [])"
      by (simp only: verdict)
    then show ?thesis by blast
  qed
  moreover have "aeFrom ?env \<le> aeTo ?env" "aeTo ?env + 1 \<noteq> 0" "aeFrom ?env = first" "aeTo ?env = final"
    using auditRange_ordered [OF assms(4)] assms(5) by (simp_all add: audit_env_of_def)
  ultimately have pass: "(\<exists>out a b r. cmdAudit S f = Some (Inr out) \<and> apVerdict out = PassRange a b r)
       = (\<forall>g. first \<le> g \<and> g \<le> final \<longrightarrow> generation_proved ?env g)"
    using conjunct1 [OF audit_exact [of ?env]] by simp
  have "afFrom f < 0 \<and> afTo f < 0 \<longrightarrow>
      final = stLatest (Stats (asStore S)) \<and> unat first = unat final + 1 - unat (afLast f)"
  proof
    assume neg: "afFrom f < 0 \<and> afTo f < 0"
    then have "final = stLatest (Stats (asStore S))" using assms(4) by (auto simp: auditRange_def Let_def split: if_splits)
    then show "final = stLatest (Stats (asStore S)) \<and> unat first = unat final + 1 - unat (afLast f)"
      using auditRange_newest [of "afLast f" final "afFrom f" "afTo f"] assms(4,5,6) neg by auto
  qed
  with pass show ?thesis ..
qed

subsection \<open>Auditing a pruned wallet\<close>

lemma select_pruned:
  "select_raw (prune_ids S db) key = (if key \<in> S \<and> select_raw (prune_ids S db) key = None then None else select_raw db key)"
proof -
  have p: "(\<lambda>k. ktTxid k = key) \<circ> null_row S = (\<lambda>k. ktTxid k = key)" by (simp add: fun_eq_iff)
  have f: "find (\<lambda>k. ktTxid k = key) (map (null_row S) rows) = map_option (null_row S) (find (\<lambda>k. ktTxid k = key) rows)" for rows
    by (induction rows) simp_all
  show ?thesis
  proof (cases "find (\<lambda>k. ktTxid k = key) (known_txs db)")
    case (Some k)
    then have "ktTxid k = key" by (auto simp: find_Some_iff)
    then show ?thesis using Some by (auto simp: select_raw_def prune_ids_def f null_row_def)
  qed (simp add: select_raw_def prune_ids_def f)
qed

lemma reader_pruned:
  assumes "\<forall>tid key raw. hex_decode tid = Inr key \<and> key \<in> S \<and> select_raw db key = Some raw \<and> raw \<noteq> [] \<longrightarrow> ask tid = Inr (Some raw)"
  shows "TxReader_RawTx \<lparr>trDatabase = Inr (prune_ids S db), trOracle = Some ask\<rparr> =
    TxReader_RawTx \<lparr>trDatabase = Inr db, trOracle = Some ask\<rparr>"
proof
  fix tid
  show "TxReader_RawTx \<lparr>trDatabase = Inr (prune_ids S db), trOracle = Some ask\<rparr> tid =
    TxReader_RawTx \<lparr>trDatabase = Inr db, trOracle = Some ask\<rparr> tid"
  proof (cases "hex_decode tid")
    case (Inr key)
    show ?thesis
    proof (cases "key \<in> S \<and> select_raw (prune_ids S db) key = None")
      case True
      then show ?thesis using assms Inr
        by (cases "select_raw db key") (auto simp: TxReader_RawTx_def Let_def)
    next
      case False
      then have "select_raw (prune_ids S db) key = select_raw db key" using select_pruned [of S db key] by argo
      then show ?thesis using Inr by (simp add: TxReader_RawTx_def)
    qed
  qed (simp add: TxReader_RawTx_def)
qed

text \<open>Claim C32: pruning and auditing compose.  When arcade still serves, byte for byte, every transaction the sweep may
  strip, the whole audit command answers the same before and after a sweep, whatever its flags and however the sweep ended: no check turns into a
  gap and no verdict changes.\<close>

theorem audit_survives_sweep:
  assumes "Sweep json W p db = (rp, err, p', db')" and "quiet W"
    and "\<forall>tid key raw. hex_decode tid = Inr key \<and> key \<in> dead_after (pcursor p) (MinConfirmations (popts p)) (TipHeight rp) (FloorTxID rp) db
      \<and> select_raw db key = Some raw \<and> raw \<noteq> [] \<longrightarrow> ask tid = Inr (Some raw)"
  shows "cmdAudit (S\<lparr>asReader := \<lparr>trDatabase = Inr db', trOracle = Some ask\<rparr>\<rparr>) f =
    cmdAudit (S\<lparr>asReader := \<lparr>trDatabase = Inr db, trOracle = Some ask\<rparr>\<rparr>) f"
proof -
  obtain X where X: "X \<subseteq> dead_after (pcursor p) (MinConfirmations (popts p)) (TipHeight rp) (FloorTxID rp) db" "db' = prune_ids X db"
    using sweep_effect [OF assms(1,2)] by blast
  have "TxReader_RawTx \<lparr>trDatabase = Inr db', trOracle = Some ask\<rparr> = TxReader_RawTx \<lparr>trDatabase = Inr db, trOracle = Some ask\<rparr>"
    unfolding X(2) by (rule reader_pruned) (use assms(3) X(1) in blast)
  then have "audit_env_of (S\<lparr>asReader := \<lparr>trDatabase = Inr db', trOracle = Some ask\<rparr>\<rparr>) =
      audit_env_of (S\<lparr>asReader := \<lparr>trDatabase = Inr db, trOracle = Some ask\<rparr>\<rparr>)"
    by (simp add: audit_env_of_def fun_eq_iff split: sum.split)
  then show ?thesis by (simp add: cmdAudit_def cong: sum.case_cong prod.case_cong if_cong)
qed

text \<open>Without arcade a stripped transaction reads as an error, which the audit files as a gap and never as a
  failure.\<close>

lemma pruned_is_a_gap:
  assumes "hex_decode tid = Inr key" and "length key = 32" and "select_raw db key = None"
    and "asReader S = \<lparr>trDatabase = Inr db, trOracle = None\<rparr>" and "txs a tid = None" and "prevTxs a tid = None"
  shows "\<exists>p. fetch_tx (audit_env_of S c seed m first final) tid a = (Inl p, a) \<and> is_missing p"
  using assms by (simp add: fetch_tx_def audit_env_of_def TxReader_RawTx_def is_missing_def)

subsection \<open>Witnesses\<close>

text \<open>A ring of eight just created: generation 0 recorded, its one transaction in the wallet's database.\<close>

definition site_txid :: txid where "site_txid = replicate 64 CHR ''0''"

definition site_tx :: "int \<Rightarrow> cell_tx" where
  "site_tx i = \<lparr>txGen = 0, txCell = i, txTxID = site_txid, txStatus = StatusSeen, txErr = ''''\<rparr>"

definition site_facts :: deployment where
  "site_facts = \<lparr>dCells = 8, dRule = Rule110, GenesisTxID = site_txid, dSeedHex = ''01'', CellSatoshis = 1, legacyTips = []\<rparr>"

definition demo_site :: audit_site where
  "demo_site = \<lparr>
     asFacts = Inr site_facts, asArtifact = Inr demo_artifact,
     asStore = run_store False (OpRecordGeneration 0 ''01'' # map (\<lambda>i. OpRecordTx 1 (site_tx i)) [0, 1, 2, 3, 4, 5, 6, 7]),
     asReader = \<lparr>trDatabase = Inr \<lparr>known_txs = [\<lparr>ktTxid = replicate 32 0, ktStatus = completed, ktRawTx = Some [9],
       ktInputBEEF = None, ktBlockHeight = Some 1\<rparr>], transactions = [], outputs = []\<rparr>, trOracle = None\<rparr>,
     asText = (\<lambda>_. []),
     asCodec = \<lparr>ParseTx = (\<lambda>raw. Inr demo_genesis), TxIDOf = (\<lambda>t. site_txid), RawOf = (\<lambda>t. [])\<rparr>,
     asSdk = audit_sdk, asChunks = (\<lambda>_. Inr audit_chunks)\<rparr>"

definition site_env :: audit_env where "site_env = audit_env_of demo_site demo_compiled [1] 50 0 0"

lemma site_bytes: "fetched site_env site_txid demo_genesis"
  by code_simp

lemma site_load: "\<exists>cur. load site_env 0 = Inr (Some cur) \<and> agNumber cur = 0 \<and> agRow cur = [1]
  \<and> (\<forall>i \<in> set [0, 1, 2, 3, 4, 5, 6, 7]. agCellTx cur i = Some (site_tx i))"
proof -
  have "case load site_env 0 of Inr (Some cur) \<Rightarrow> agNumber cur = 0 \<and> agRow cur = [1]
    \<and> list_all (\<lambda>i. agCellTx cur i = Some (site_tx i)) [0, 1, 2, 3, 4, 5, 6, 7]
    | _ \<Rightarrow> False" by code_simp
  then show ?thesis by (auto simp: list_all_iff split: sum.splits option.splits)
qed

lemma site_fields: "aeCompiled site_env = demo_compiled" "aeSeed site_env = Some [1]" "cells demo_compiled = 8"
  by (simp_all add: site_env_def audit_env_of_def demo_compiled_def)

lemma site_proved: "generation_proved site_env 0"
proof -
  obtain cur where cur: "load site_env 0 = Inr (Some cur)" "agNumber cur = 0" "agRow cur = [1]"
    "\<forall>i \<in> set [0, 1, 2, 3, 4, 5, 6, 7]. agCellTx cur i = Some (site_tx i)"
    using site_load by blast
  have "cell_proved site_env None cur i" if i: "0 \<le> i" "i < 8" for i
  proof -
    have tx: "agCellTx cur i = Some (site_tx i)" using cur(4) demo_ring [OF i] by auto
    have "genesis_proved site_env cur i (site_tx i)"
      unfolding genesis_proved_def using site_bytes demo_genesis_out(1) [OF i] demo_genesis_out(2) demo_decode [OF i] i cur(3)
      by (intro exI [of _ demo_genesis]) (simp add: site_fields site_tx_def out_bytes_def)
    then show ?thesis using tx cur(2) by (simp add: cell_proved_def site_tx_def site_txid_def)
  qed
  then show ?thesis unfolding generation_proved_def using cur
    by (intro exI [of _ cur] exI [of _ None]) (simp add: site_fields rows_follow_def)
qed

theorem audit_command_exact_witness:
  "\<exists>out a b r. cmdAudit demo_site \<lparr>afFrom = - 1, afTo = - 1, afLast = 10, afMaxFailures = 50, afGaps = 20\<rparr> = Some (Inr out)
     \<and> apVerdict out = PassRange a b r"
proof -
  let ?f = "\<lparr>afFrom = - 1, afTo = - 1, afLast = 10, afMaxFailures = 50, afGaps = 20\<rparr>"
  have facts: "asFacts demo_site = Inr site_facts" by (simp add: demo_site_def)
  have art: "Compile (asArtifact demo_site) (dCells site_facts) (dRule site_facts) = Inr demo_compiled"
    using demo_compiles by (simp add: demo_site_def site_facts_def)
  have seed: "Seed site_facts = Inr [1]" by code_simp
  have "stLatest (Stats (asStore demo_site)) = 0" by code_simp
  then have range: "auditRange (afFrom ?f) (afTo ?f) (afLast ?f) (stLatest (Stats (asStore demo_site))) = Inr (0, 0)"
    by (simp add: auditRange_def)
  have "\<forall>g. 0 \<le> g \<and> g \<le> 0 \<longrightarrow> generation_proved site_env g" using site_proved by auto
  then show ?thesis
    using conjunct1 [OF audit_command_exact [OF facts art seed range]] by (simp add: site_env_def)
qed

theorem audit_survives_sweep_witness:
  "\<exists>db'. db' \<noteq> drift_db \<and> (\<forall>f. cmdAudit (demo_site\<lparr>asReader := \<lparr>trDatabase = Inr db', trOracle = Some (\<lambda>_. Inr (Some [0]))\<rparr>\<rparr>) f =
     cmdAudit (demo_site\<lparr>asReader := \<lparr>trDatabase = Inr drift_db, trOracle = Some (\<lambda>_. Inr (Some [0]))\<rparr>\<rparr>) f)"
proof -
  obtain rp p' db' where s: "Sweep drift_json calm (drift_pruner False) drift_db = (rp, None, p', db')"
    using drift_sweep by blast
  have "map (\<lambda>k. ktRawTx k = None) (known_txs db') = [True, True, False, True, True, True, True, False, False]"
    using retained_generation_pruned s(1) by simp
  moreover have "map (\<lambda>k. ktRawTx k = None) (known_txs drift_db) = replicate 9 False" by code_simp
  ultimately have ne: "db' \<noteq> drift_db" by (auto simp: numeral_eq_Suc)
  have "raw = [0]" if sel: "select_raw drift_db key = Some raw" for key raw
  proof -
    obtain k where "k \<in> set (known_txs drift_db)" "ktRawTx k = Some raw"
      using sel by (auto simp: select_raw_def find_Some_iff split: option.splits intro: nth_mem)
    then show ?thesis by (auto simp: drift_db_def)
  qed
  then have "\<forall>tid key raw. hex_decode tid = Inr key \<and> key \<in> dead_after (pcursor (drift_pruner False))
      (MinConfirmations (popts (drift_pruner False))) (TipHeight rp) (FloorTxID rp) drift_db
    \<and> select_raw drift_db key = Some raw \<and> raw \<noteq> [] \<longrightarrow> (\<lambda>_. Inr (Some [0])) tid = Inr (Some raw)" by blast
  from audit_survives_sweep [OF s calm_quiet this] show ?thesis using ne by blast
qed

end
