(* ===== verification/Tools.thy ===== *)
theory Tools
  imports EngineRecovery Transition
begin

text \<open>
  The one-shot tools that write, \<open>cmd/rule110/tips.go\<close> and \<open>cmdStep\<close> of \<open>main.go\<close>: opening a
  deployment under the writer lease, advancing a single cell by hand and the import of a legacy state file's
  tips.  Reads and writes of the record do not fail here; what the tools print is a value.
\<close>

subsection \<open>Errors\<close>

datatype import_refusal =
    RefusedByRecord int u64 txid
  | BeyondSeed int u64
  | NoUsableBytes int u64 txid string
  | TipUnverified int tip_error

datatype tool_error =
    OpenChainFailed string
  | NoStateFile string
  | ToolCompile script_error
  | OpenStoreFailed string
  | LeaseUnreadable string
  | LeaseHeld string
  | ToolDerive derive_error
  | BelowFloor "(int \<times> u64 \<times> u64) list"
  | OutsideRing int int
  | CellIsHalted int halt_reason
  | ToolRow ca_error
  | ToolPanicked
  | StepError advance_error bool
  | ToolRecover history_error
  | LegacySeed ca_error
  | PartialImport "import_refusal list"
  | NothingBuilt

subsection \<open>A deployment under the writer lease\<close>

definition toolLeaseTTL :: int where "toolLeaseTTL = 60 * second"

text \<open>What opening depends on outside the record: each of the steps that may fail, in their order.\<close>

record tool_site =
  tsChain :: "string option"
  tsFacts :: "string + deployment"
  tsArtifact :: "string + artifact"
  tsStore :: "string option"
  tsLease :: "string option"
  tsPid :: nat

record tool_session =
  teCompiled :: compiled
  teFacts :: deployment
  teOwner :: string

text \<open>What a process holds open.\<close>

datatype resource = TheChain | TheStore

definition tool_owner :: "string \<Rightarrow> nat \<Rightarrow> string" where
  "tool_owner tool pid = tool @ ''-'' @ decimal pid"

definition openDeployment :: "tool_site \<Rightarrow> string \<Rightarrow> int \<Rightarrow> store \<Rightarrow> (tool_error + tool_session) \<times> store \<times> resource list" where
  "openDeployment S tool now s =
     (case tsChain S of
        Some e \<Rightarrow> (Inl (OpenChainFailed e), s, [])
      | None \<Rightarrow>
         (let open_now = [TheChain] in
          case tsFacts S of
            Inl e \<Rightarrow> (Inl (NoStateFile e), s, removeAll TheChain open_now)
          | Inr facts \<Rightarrow>
         (case Compile (tsArtifact S) (dCells facts) (dRule facts) of
            Inl e \<Rightarrow> (Inl (ToolCompile e), s, removeAll TheChain open_now)
          | Inr c \<Rightarrow>
         (case tsStore S of
            Some e \<Rightarrow> (Inl (OpenStoreFailed e), s, removeAll TheChain open_now)
          | None \<Rightarrow>
             (let open_now = TheStore # open_now; owner = tool_owner tool (tsPid S) in
              case tsLease S of
                Some e \<Rightarrow> (Inl (LeaseUnreadable e), s, removeAll TheChain (removeAll TheStore open_now))
              | None \<Rightarrow>
                 (case AcquireLease s LeaseName owner toolLeaseTTL now of
                    (s, False) \<Rightarrow> (Inl (LeaseHeld tool), s, removeAll TheChain (removeAll TheStore open_now))
                  | (s, True) \<Rightarrow> (Inr \<lparr>teCompiled = c, teFacts = facts, teOwner = owner\<rparr>, s, open_now)))))))"

definition release_deployment :: "tool_session \<Rightarrow> store \<times> resource list \<Rightarrow> store \<times> resource list" where
  "release_deployment D st = (ReleaseLease (fst st) LeaseName (teOwner D), removeAll TheChain (removeAll TheStore (snd st)))"

text \<open>One tick of the renewal, and whether the lease was found lost; a read that fails changes nothing.\<close>

definition holdToolLease_tick :: "tool_session \<Rightarrow> bool \<Rightarrow> int \<Rightarrow> store \<Rightarrow> store \<times> bool" where
  "holdToolLease_tick D readable now s =
     (if \<not> readable then (s, False)
      else case AcquireLease s LeaseName (teOwner D) toolLeaseTTL now of (s, held) \<Rightarrow> (s, \<not> held))"

subsection \<open>The cell a tool may advance\<close>

text \<open>The positions derived from the record, checked against the legacy floor; then the one cell, if it is in the
  ring and not halted.\<close>

definition tool_positions :: "tx_codec \<Rightarrow> ledger \<Rightarrow> tx_status option \<Rightarrow> tool_session \<Rightarrow> store \<Rightarrow> tool_error + cell_position list" where
  "tool_positions K l arcade D s =
     (case DeriveTips K l (teCompiled D) (teFacts D) s of
        Inl e \<Rightarrow> Inl (ToolDerive e)
      | Inr ps \<Rightarrow>
         (case CheckMigrationFloor s arcade ps (legacyTips (teFacts D)) of
            [] \<Rightarrow> Inr ps
          | short \<Rightarrow> Inl (BelowFloor short)))"

definition tool_tip :: "tx_codec \<Rightarrow> ledger \<Rightarrow> tx_status option \<Rightarrow> tool_session \<Rightarrow> int \<Rightarrow> store \<Rightarrow> tool_error + cell_chain" where
  "tool_tip K l arcade D cell s =
     (case tool_positions K l arcade D s of
        Inl e \<Rightarrow> Inl e
      | Inr ps \<Rightarrow>
         if cell < 0 \<or> cell \<ge> dCells (teFacts D) then Inl (OutsideRing cell (dCells (teFacts D)))
         else if Halted (ps ! nat cell) then Inl (CellIsHalted cell (HaltReason (ps ! nat cell)))
         else Inr (posTip (ps ! nat cell)))"

subsection \<open>One step by hand\<close>

definition attempt_row :: "u64 \<Rightarrow> int \<Rightarrow> cell_tx" where
  "attempt_row g cell = \<lparr>txGen = g, txCell = cell, txTxID = '''', txStatus = StatusAttempting, txErr = ''''\<rparr>"

text \<open>What is written once a transition has been broadcast: its generation, then its transaction.\<close>

definition record_result :: "int \<Rightarrow> int \<Rightarrow> chain_step \<Rightarrow> store \<Rightarrow> store" where
  "record_result now cell res s =
     RecordTx (RecordGeneration s (srGeneration res) (srRowHex res)) now
       \<lparr>txGen = srGeneration res, txCell = cell, txTxID = srTxID res, txStatus = StatusBroadcast, txErr = ''''\<rparr>"

text \<open>\<open>now 0\<close> and \<open>now 1\<close> are the times of the two writes.  An error is returned with the sentinel of
  \<open>AdvanceCell\<close>: whether anything can have been broadcast.\<close>

definition cmdStep :: "tx_codec \<Rightarrow> ledger \<Rightarrow> tx_status option \<Rightarrow> step_wallet \<Rightarrow> runar_sdk \<Rightarrow> tool_session \<Rightarrow> int \<Rightarrow> (nat \<Rightarrow> int) \<Rightarrow> store
    \<Rightarrow> (tool_error + chain_step) \<times> store \<times> wallet_call list" where
  "cmdStep K l arcade W sdk D cell now s =
     (let n = dCells (teFacts D); rule = dRule (teFacts D) in
      case tool_tip K l arcade D cell s of
        Inl e \<Rightarrow> (Inl e, s, [])
      | Inr tip \<Rightarrow>
     (case Row tip n of
        Inl e \<Rightarrow> (Inl (ToolRow e), s, [])
      | Inr row \<Rightarrow>
     (case Step rule row of
        None \<Rightarrow> (Inl ToolPanicked, s, [])
      | Some nxt \<Rightarrow>
         (let s = RecordTx s (now 0) (attempt_row (Generation tip + 1) cell) in
          case AdvanceCell W sdk (teCompiled D) tip n rule of
            (Inl (e, broadcast), calls) \<Rightarrow>
              (Inl (StepError e broadcast), (if \<not> broadcast then DeleteAttempt s (Generation tip + 1) cell else s), calls)
          | (Inr res, calls) \<Rightarrow> (Inr res, record_result (now 1) cell res s, calls)))))"

subsection \<open>What opening leaves behind\<close>

text \<open>A failure leaves nothing open and no lease of the tool's own; success leaves the chain, the store and the
  lease.\<close>

lemma open_deployment_exact:
  assumes "openDeployment S tool now s = (r, s', held)"
  shows "(\<forall>e. r = Inl e \<longrightarrow> s' = s \<and> held = [])
    \<and> (\<forall>D. r = Inr D \<longrightarrow> (s', True) = AcquireLease s LeaseName (teOwner D) toolLeaseTTL now
        \<and> teOwner D = tool_owner tool (tsPid S) \<and> set held = {TheChain, TheStore} \<and> snd (release_deployment D (s', held)) = [])"
proof -
  have same: "AcquireLease s name owner ttl now = (z, False) \<Longrightarrow> z = s" for name owner ttl z
    by (auto simp: AcquireLease_def Let_def split: option.splits if_splits)
  show ?thesis using assms
    by (auto simp: openDeployment_def Let_def release_deployment_def dest: same split: option.splits sum.splits prod.splits bool.splits)
qed

text \<open>The owner a tool names itself by is its name and its process number.  Two containers on one record, each running
  the tool as process 1, are one owner to the lease: both are let in.\<close>

lemma same_pid_both_hold:
  assumes "openDeployment S tool now s = (Inr D, s1, held)" and "tsPid S' = tsPid S" and "tsChain S' = None"
    and "tsFacts S' = tsFacts S" and "tsArtifact S' = tsArtifact S" and "tsStore S' = None" and "tsLease S' = None"
    and "keys_ok s"
  shows "\<exists>D' s2 held'. openDeployment S' tool later s1 = (Inr D', s2, held')"
proof -
  have o: "(s1, True) = AcquireLease s LeaseName (tool_owner tool (tsPid S)) toolLeaseTTL now"
    using open_deployment_exact [OF assms(1)] by simp
  then have "snd (AcquireLease s LeaseName (tool_owner tool (tsPid S)) toolLeaseTTL now)" by (metis snd_conv)
  then have "lease_of s1 LeaseName =
      Some \<lparr>leaseName = LeaseName, leaseOwner = tool_owner tool (tsPid S), leaseExpires = now + toolLeaseTTL\<rparr>"
    using lease_of_acquired [of s LeaseName "tool_owner tool (tsPid S)" toolLeaseTTL now] assms(8) o
    by (metis fst_conv keys_ok_def)
  then obtain s2 where "AcquireLease s1 LeaseName (tool_owner tool (tsPid S)) toolLeaseTTL later = (s2, True)"
    by (auto simp: AcquireLease_def Let_def)
  then show ?thesis using assms
    by (auto simp: openDeployment_def Let_def split: option.splits sum.splits prod.splits bool.splits)
qed

subsection \<open>A cell that may be advanced\<close>

text \<open>A derived cell that is not halted: its tip is its own, nothing above it waits or was refused, and no settled
  record lies above it; or it has no record and stands on its genesis output.\<close>

lemma free_cell:
  assumes k: "keys_ok s" and der: "DeriveTips K l c d s = Inr ps" and cell: "0 \<le> cell" "cell < dCells d"
    and g: "GenesisTxID d \<noteq> ''''" and free: "\<not> Halted (ps ! nat cell)"
  obtains (settled) t where "newest_where s cell settles t" "Generation (posTip (ps ! nat cell)) = tipGen t"
      "records_above s cell StatusFailed (tipGen t) = {}" "records_above s cell StatusAttempting (tipGen t) = {}"
      "Cell (posTip (ps ! nat cell)) = cell"
  | (fresh) "\<forall>h. CellAt s h cell = None" "Generation (posTip (ps ! nat cell)) = 0" "Cell (posTip (ps ! nat cell)) = cell"
proof -
  obtain records gen tid p where e: "CellTips s (dCells d) tipDepth = Inr records" "classify d s records cell = ((gen, tid), p)"
    "if tid = '''' then ps ! nat cell = p else \<exists>raw t. RawTx l tid = Inr raw
         \<and> (\<exists>row. DeriveTip K c cell gen row tid raw = Inr t) \<and> ps ! nat cell = p\<lparr>posTip := t\<rparr>"
    using DeriveTips_cell [OF der cell] by metis
  consider t where "newest_where s cell settles t" | "\<forall>t. \<not> newest_where s cell settles t" "\<forall>h. CellAt s h cell = None"
    | h where "\<forall>t. \<not> newest_where s cell settles t" "CellAt s h cell \<noteq> None" by blast
  then show ?thesis
  proof cases
    case 1
    note d = DeriveTips_settled [OF k der cell 1]
    have "records_above s cell StatusFailed (tipGen t) \<union> records_above s cell StatusAttempting (tipGen t) = {}"
      using conjunct1 [OF d] free by (simp add: position_ok_def Let_def)
    moreover have "Generation (posTip (ps ! nat cell)) = tipGen t \<and> Cell (posTip (ps ! nat cell)) = cell"
      using conjunct2 [OF d] DeriveTip_fields by blast
    ultimately show ?thesis using 1 settled by blast
  next
    case 2
    then have "gen = 0 \<and> tid = GenesisTxID d" using classify_fresh [OF k e(1) cell, of d] e(2) by simp
    then have "Generation (posTip (ps ! nat cell)) = 0 \<and> Cell (posTip (ps ! nat cell)) = cell"
      using e(3) g DeriveTip_fields by fastforce
    then show ?thesis using fresh 2(2) by blast
  next
    case 3
    then have "tid = '''' \<and> Halted p" using classify_unsettled [OF k e(1) cell 3(2), of d] e(2) by auto
    then show ?thesis using e(3) free by simp
  qed
qed

text \<open>An attempt left at the generation above its tip halts it at every derivation that follows.\<close>

lemma attempt_halts:
  assumes k: "keys_ok s" and der: "DeriveTips K l c d s = Inr ps" and cell: "0 \<le> cell" "cell < dCells d"
    and g: "GenesisTxID d \<noteq> ''''" and free: "\<not> Halted (ps ! nat cell)"
    and k1: "keys_ok s1" and der1: "DeriveTips K1 l1 c1 d s1 = Inr ps1"
    and at: "\<And>h. CellAt s1 h cell = (if h = G then Some (i, StatusAttempting, e) else CellAt s h cell)"
    and G: "G = Generation (posTip (ps ! nat cell)) + 1" "G \<noteq> 0"
  shows "Halted (ps1 ! nat cell)"
  using k der cell g free
proof (cases rule: free_cell)
  case (settled t)
  have up: "tipGen t < G" using G settled(2) word_next_greater by simp
  have t1: "newest_where s1 cell settles t"
    using settled(1) up by (auto simp: newest_where_def at settles_def settled_status_def)
  have "records_above s1 cell StatusAttempting (tipGen t) \<noteq> {}" using up by (auto simp: records_above_def at)
  then show ?thesis
    using conjunct1 [OF DeriveTips_settled [OF k1 der1 cell t1]] by (auto simp: position_ok_def Let_def)
next
  case fresh
  obtain records gen tid p where e: "CellTips s1 (dCells d) tipDepth = Inr records" "classify d s1 records cell = ((gen, tid), p)"
    "tid = '''' \<longrightarrow> ps1 ! nat cell = p"
    using DeriveTips_cell [OF der1 cell] by metis
  have "CellAt s1 G cell \<noteq> None" by (simp add: at)
  moreover have "\<not> newest_where s1 cell settles t" for t
    using fresh(1) by (auto simp: newest_where_def at settles_def settled_status_def split: if_splits)
  ultimately have "tid = '''' \<and> Halted p" using classify_unsettled [OF k1 e(1) cell, of G d] e(2) by auto
  then show ?thesis using e(3) by simp
qed

text \<open>A transaction recorded there moves the tip to it.\<close>

lemma result_moves:
  assumes k: "keys_ok s" and der: "DeriveTips K l c d s = Inr ps" and cell: "0 \<le> cell" "cell < dCells d"
    and g: "GenesisTxID d \<noteq> ''''" and free: "\<not> Halted (ps ! nat cell)"
    and k1: "keys_ok s1" and der1: "DeriveTips K1 l1 c1 d s1 = Inr ps1"
    and at: "\<And>h. CellAt s1 h cell = (if h = G then Some (i, StatusBroadcast, e) else CellAt s h cell)"
    and G: "G = Generation (posTip (ps ! nat cell)) + 1" "G \<noteq> 0" and named: "i \<noteq> ''''"
  shows "Generation (posTip (ps1 ! nat cell)) = G"
proof -
  have old: "h \<le> G" if "CellAt s h cell = Some (x, st, z)" "settles st x" for h x st z
    using k der cell g free
  proof (cases rule: free_cell)
    case (settled t)
    then have "h \<le> tipGen t" using that by (auto simp: newest_where_def)
    moreover have "tipGen t < G" using G settled(2) word_next_greater by simp
    ultimately show ?thesis by simp
  next
    case fresh
    then show ?thesis using that by simp
  qed
  have "newest_where s1 cell settles \<lparr>tipCell = cell, tipGen = G, tipTxID = i, tipStatus = StatusBroadcast, tipErr = e\<rparr>"
  proof (rule newest_where_put [where s = s])
    show "CellAt s1 G cell = Some (i, StatusBroadcast, e)" by (simp add: at)
    show "settles StatusBroadcast i" using named by (simp add: settles_def settled_status_def)
    show "h \<le> G" if "CellAt s1 h cell \<noteq> CellAt s h cell" for h using that by (auto simp: at split: if_splits)
  qed (rule old)
  from conjunct2 [OF DeriveTips_settled [OF k1 der1 cell this]] show ?thesis using DeriveTip_fields by fastforce
qed

subsection \<open>Stepping by hand\<close>

lemma tool_tip_free:
  assumes "tool_tip K l arcade D cell s = Inr tip"
  obtains ps where "DeriveTips K l (teCompiled D) (teFacts D) s = Inr ps" "0 \<le> cell" "cell < dCells (teFacts D)"
    "\<not> Halted (ps ! nat cell)" "tip = posTip (ps ! nat cell)"
  using assms that by (auto simp: tool_tip_def tool_positions_def split: sum.splits list.splits if_splits)

text \<open>The ways a step ends: before the record is touched; with the intent written and taken back; with the intent left
  open under a transaction that may be out; with the transaction recorded.\<close>

lemma step_cases:
  assumes "cmdStep K l arcade W sdk D cell now s = (out, s', calls)" and k: "keys_ok s"
  obtains (refused) e where "out = Inl e" "s' = s" "calls = []"
  | (unsigned) tip e where "tool_tip K l arcade D cell s = Inr tip" "out = Inl (StepError e False)"
      "calls = [] \<or> (\<exists>args. calls = [CallCreate args] \<and> saGeneration args = Generation tip + 1)" "keys_ok s'"
      "\<And>h c. CellAt s' h c = (if h = Generation tip + 1 \<and> c = cell then None else CellAt s h c)"
  | (unresolved) tip e args ref unlock where "tool_tip K l arcade D cell s = Inr tip" "out = Inl (StepError e True)"
      "calls = [CallCreate args, CallSign ref unlock]" "saGeneration args = Generation tip + 1" "keys_ok s'"
      "\<And>h c. CellAt s' h c = (if h = Generation tip + 1 \<and> c = cell then Some ('''', StatusAttempting, '''') else CellAt s h c)"
  | (recorded) tip res args ref unlock raw where "tool_tip K l arcade D cell s = Inr tip" "out = Inr res"
      "calls = [CallCreate args, CallSign ref unlock]" "saGeneration args = Generation tip + 1"
      "wSign W ref unlock = Inr (srTxID res, raw)" "srGeneration res = Generation tip + 1" "keys_ok s'"
      "\<And>h c. CellAt s' h c = (if h = Generation tip + 1 \<and> c = cell then Some (srTxID res, StatusBroadcast, '''') else CellAt s h c)"
proof (cases "tool_tip K l arcade D cell s")
  case (Inl e)
  then have "out = Inl e" "s' = s" "calls = []" using assms(1) by (simp_all add: cmdStep_def)
  then show ?thesis by (rule refused)
next
  case tip: (Inr tip)
  let ?n = "dCells (teFacts D)" and ?rule = "dRule (teFacts D)" and ?g = "Generation tip + 1"
  show ?thesis
  proof (cases "Row tip ?n")
    case (Inl e)
    then have "out = Inl (ToolRow e)" "s' = s" "calls = []" using assms(1) tip by (simp_all add: cmdStep_def)
    then show ?thesis by (rule refused)
  next
    case row: (Inr row)
    obtain nxt where nxt: "Step ?rule row = Some nxt" using Step_total by blast
    define s1 where "s1 = RecordTx s (now 0) (attempt_row ?g cell)"
    obtain r c where adv: "AdvanceCell W sdk (teCompiled D) tip ?n ?rule = (r, c)" by fastforce
    have k1: "keys_ok s1" by (simp add: s1_def keys_ok_record [OF k])
    have at1: "CellAt s1 h c' = (if h = ?g \<and> c' = cell then Some ('''', StatusAttempting, '''') else CellAt s h c')" for h c'
      by (simp add: s1_def CellAt_record attempt_row_def)
    have args: "saGeneration args = ?g" if "CallCreate args \<in> set c" for args
      using adv that by (auto simp: AdvanceCell_def stepArgs_def Let_def split: sum.splits option.splits prod.splits if_splits)
    show ?thesis
    proof (cases r)
      case (Inl eb)
      obtain e b where eb: "eb = (e, b)" by fastforce
      have res: "out = Inl (StepError e b)" "s' = (if \<not> b then DeleteAttempt s1 ?g cell else s1)" "calls = c"
        using assms(1) tip row nxt adv Inl eb by (auto simp: cmdStep_def s1_def Let_def)
      show ?thesis
      proof (cases b)
        case False
        have "CellAt s' h c' = (if h = ?g \<and> c' = cell then None else CellAt s h c')" for h c'
          using res(2) False attempts.look_retract [OF k1, of ?g cell h c'] at1 by simp
        moreover have "keys_ok s'" using res(2) False attempts.ok_retract [OF k1] by simp
        moreover have "c = [] \<or> (\<exists>args. c = [CallCreate args])"
          using AdvanceCell_calls [OF adv] Inl eb False by auto
        ultimately show ?thesis using unsigned tip res False args by auto
      next
        case True
        obtain a ref unlock where "c = [CallCreate a, CallSign ref unlock]" using AdvanceCell_calls [OF adv] Inl eb True by auto
        then show ?thesis using unresolved tip res True args k1 at1 by auto
      qed
    next
      case (Inr result)
      have res: "out = Inr result" "s' = record_result (now 1) cell result s1" "calls = c"
        using assms(1) tip row nxt adv Inr by (simp_all add: cmdStep_def s1_def Let_def)
      obtain a ref unlock raw where ok: "c = [CallCreate a, CallSign ref unlock]" "wSign W ref unlock = Inr (srTxID result, raw)"
        "srGeneration result = ?g"
        using adv Inr by (auto simp: AdvanceCell_def Let_def split: sum.splits option.splits prod.splits)
      have "keys_ok s'" using k1 by (simp add: res(2) record_result_def keys_ok_record keys_ok_generation)
      moreover have "CellAt s' h c' = (if h = ?g \<and> c' = cell then Some (srTxID result, StatusBroadcast, '''') else CellAt s h c')" for h c'
        by (simp add: res(2) record_result_def CellAt_record CellAt_generation ok(3) at1)
      ultimately show ?thesis using recorded tip res ok args by auto
    qed
  qed
qed

text \<open>Claim C33: a step by hand never signs the same generation twice.  Once \<open>rule110 step\<close> has had a transition of a
  cell signed, whatever became of it (recorded, or lost in an error after signing), a
  later run over the record it left, with any wallet and whatever the network answers, asks the wallet
  only for a later generation; and when the first run ended in an error it asks for nothing at all.\<close>

theorem step_never_signs_twice:
  assumes "cmdStep K l arcade W sdk D cell now (run_store pg ops) = (out, s1, calls)"
    and "CallSign ref unlock \<in> set calls" and "CallCreate args \<in> set calls" and "saGeneration args \<noteq> 0"
    and "\<forall>r u i raw. wSign W r u = Inr (i, raw) \<longrightarrow> i \<noteq> ''''" and "GenesisTxID (teFacts D) \<noteq> ''''"
    and "cmdStep K' l' arcade' W' sdk' D' cell now' s1 = (out', s2, calls')" and "teFacts D' = teFacts D"
  shows "(\<forall>args'. CallCreate args' \<in> set calls' \<longrightarrow> saGeneration args < saGeneration args' \<or> saGeneration args' = 0)
    \<and> (\<forall>e. out = Inl e \<longrightarrow> calls' = [] \<and> s2 = s1)"
proof -
  let ?s = "run_store pg ops"
  have k: "keys_ok ?s" by (rule keys_ok_run)
  have blocked: "calls' = [] \<and> s2 = s1" if at: "\<And>h c. CellAt s1 h c = (if h = Generation tip + 1 \<and> c = cell
      then Some ('''', StatusAttempting, '''') else CellAt ?s h c)" and k1: "keys_ok s1"
    and tip: "tool_tip K l arcade D cell ?s = Inr tip" and g: "Generation tip + 1 \<noteq> 0" for tip
  proof -
    obtain ps where ps: "DeriveTips K l (teCompiled D) (teFacts D) ?s = Inr ps" "0 \<le> cell" "cell < dCells (teFacts D)"
      "\<not> Halted (ps ! nat cell)" "tip = posTip (ps ! nat cell)" using tip by (rule tool_tip_free)
    have no: "\<nexists>tip'. tool_tip K' l' arcade' D' cell s1 = Inr tip'"
    proof
      assume "\<exists>tip'. tool_tip K' l' arcade' D' cell s1 = Inr tip'"
      then obtain tip' where t': "tool_tip K' l' arcade' D' cell s1 = Inr tip'" by blast
      obtain ps1 where ps1: "DeriveTips K' l' (teCompiled D') (teFacts D') s1 = Inr ps1" "\<not> Halted (ps1 ! nat cell)"
        using t' by (rule tool_tip_free)
      show False using attempt_halts [OF k ps(1-3) assms(6) ps(4) k1 ps1(1) [unfolded assms(8)], of "Generation tip + 1"] at ps(5) g ps1(2) by auto
    qed
    show ?thesis using assms(7) k1 by (cases rule: step_cases) (use no in auto)
  qed
  show ?thesis using assms(1) k
  proof (cases rule: step_cases)
    case (refused e)
    then show ?thesis using assms(2) by simp
  next
    case (unsigned tip e)
    then show ?thesis using assms(2) by auto
  next
    case (unresolved tip e a r u)
    then have "Generation tip + 1 \<noteq> 0" using assms(3,4) by auto
    then show ?thesis using blocked [OF unresolved(6,5,1)] by simp
  next
    case (recorded tip res a r u raw)
    then have a: "saGeneration args = Generation tip + 1" and g: "Generation tip + 1 \<noteq> 0" using assms(3,4) by auto
    have named: "srTxID res \<noteq> ''''" using recorded(5) assms(5) by blast
    obtain ps where ps: "DeriveTips K l (teCompiled D) (teFacts D) ?s = Inr ps" "0 \<le> cell" "cell < dCells (teFacts D)"
      "\<not> Halted (ps ! nat cell)" "tip = posTip (ps ! nat cell)" using recorded(1) by (rule tool_tip_free)
    have moved: "Generation tip' = Generation tip + 1" if t': "tool_tip K' l' arcade' D' cell s1 = Inr tip'" for tip'
    proof -
      obtain ps1 where ps1: "DeriveTips K' l' (teCompiled D') (teFacts D') s1 = Inr ps1" "tip' = posTip (ps1 ! nat cell)"
        using t' by (rule tool_tip_free)
      show ?thesis
        using result_moves [OF k ps(1-3) assms(6) ps(4) recorded(7) ps1(1) [unfolded assms(8)], of "Generation tip + 1"]
          recorded(8) ps(5) g named ps1(2) by auto
    qed
    have "saGeneration args < saGeneration args' \<or> saGeneration args' = 0" if c: "CallCreate args' \<in> set calls'" for args'
    proof -
      obtain tip' where "tool_tip K' l' arcade' D' cell s1 = Inr tip'" "saGeneration args' = Generation tip' + 1"
        using assms(7) recorded(7) by (cases rule: step_cases) (use c in auto)
      then have "saGeneration args' = saGeneration args + 1" using moved a by simp
      then show ?thesis using word_next_greater [of "saGeneration args"] by auto
    qed
    then show ?thesis using recorded(2) by simp
  qed
qed

subsection \<open>The tips of a legacy state file\<close>

text \<open>The rows from generation 0 up to a generation, by the rule from the seed.\<close>

primrec rows_upto :: "rule \<Rightarrow> nat \<Rightarrow> row \<Rightarrow> row list" where
  "rows_upto rule 0 row = [row]"
| "rows_upto rule (Suc k) row = row # rows_upto rule k (case Step rule row of None \<Rightarrow> [] | Some r \<Rightarrow> r)"

datatype import_verdict =
    NotATip
  | ImportRefused import_refusal
  | AlreadyCovered
  | Importable cell_chain u64

definition import_bytes :: "ledger \<Rightarrow> cell_chain \<Rightarrow> string + bytes" where
  "import_bytes l t =
     (case hex_decode (RawTxHex t) of
        Inl _ \<Rightarrow> RawTx l (TxID t)
      | Inr raw \<Rightarrow> if length raw = 0 then RawTx l (TxID t) else Inr raw)"

definition import_tip :: "tx_codec \<Rightarrow> ledger \<Rightarrow> compiled \<Rightarrow> deployment \<Rightarrow> row list \<Rightarrow> u64 \<Rightarrow> (txid \<Rightarrow> bool) \<Rightarrow> cell_position list
    \<Rightarrow> cell_chain \<Rightarrow> import_verdict" where
  "import_tip K l c d rows highest refused existing t =
     (if Cell t < 0 \<or> Cell t \<ge> dCells d \<or> TxID t = '''' then NotATip
      else if refused (TxID t) then ImportRefused (RefusedByRecord (Cell t) (Generation t) (TxID t))
      else if Generation t > highest then ImportRefused (BeyondSeed (Cell t) (Generation t))
      else case import_bytes l t of
        Inl e \<Rightarrow> ImportRefused (NoUsableBytes (Cell t) (Generation t) (TxID t) e)
      | Inr raw \<Rightarrow>
     (case DeriveTip K c (Cell t) (Generation t) (rows ! unat (Generation t)) (TxID t) raw of
        Inl e \<Rightarrow> ImportRefused (TipUnverified (Cell t) e)
      | Inr tip \<Rightarrow>
         (let have_gen = Generation (posTip (existing ! nat (Cell t))) in
          if have_gen \<ge> Generation tip then AlreadyCovered else Importable tip have_gen)))"

record import_report =
  imLegacy :: nat
  imOk :: "(cell_chain \<times> u64) list"
  imSkipped :: nat
  imRefused :: "import_refusal list"

definition import_report_of :: "import_verdict list \<Rightarrow> import_report" where
  "import_report_of vs =
     \<lparr>imLegacy = length vs,
      imOk = concat (map (\<lambda>v. case v of Importable tip had \<Rightarrow> [(tip, had)] | _ \<Rightarrow> []) vs),
      imSkipped = length (filter (\<lambda>v. v = AlreadyCovered) vs),
      imRefused = concat (map (\<lambda>v. case v of ImportRefused r \<Rightarrow> [r] | _ \<Rightarrow> []) vs)\<rparr>"

definition write_import :: "int \<Rightarrow> cell_chain \<times> u64 \<Rightarrow> store \<Rightarrow> store" where
  "write_import now v s =
     (let tip = fst v in
      RecordTx (RecordGeneration s (Generation tip) (RowHex tip)) now
        \<lparr>txGen = Generation tip, txCell = Cell tip, txTxID = TxID tip, txStatus = StatusSeen, txErr = ''''\<rparr>)"

definition cmdImportTips :: "tx_codec \<Rightarrow> ledger \<Rightarrow> tool_session \<Rightarrow> bool \<Rightarrow> int \<Rightarrow> store \<Rightarrow> (tool_error + import_report) \<times> store" where
  "cmdImportTips K l D apply_it now s =
     (let d = teFacts D; legacy = legacyTips d in
      if length legacy = 0 then (Inr (import_report_of []), s)
      else case Seed d of
        Inl e \<Rightarrow> (Inl (LegacySeed e), s)
      | Inr seed \<Rightarrow>
         (let highest = fold (\<lambda>t m. max m (Generation t)) legacy 0;
              rows = rows_upto (dRule d) (unat highest) seed in
          case DeriveTips K l (teCompiled D) d s of
            Inl e \<Rightarrow> (Inl (ToolDerive e), s)
          | Inr existing \<Rightarrow>
             (let refused = RejectedTxIDs s (filter (\<lambda>i. i \<noteq> '''') (map TxID legacy));
                  rp = import_report_of (map (import_tip K l (teCompiled D) d rows highest refused existing) legacy) in
              if \<not> apply_it then (Inr rp, s)
              else if length (imRefused rp) > 0 then (Inl (PartialImport (imRefused rp)), s)
              else (Inr rp, fold (write_import now) (imOk rp) s))))"

subsection \<open>What an import brings about\<close>

lemma newest_where_exists:
  assumes k: "keys_ok s" and r: "CellAt s g c = Some (i, st, e)" "Q st i"
  obtains t where "newest_where s c Q t" "g \<le> tipGen t"
proof -
  let ?G = "{h. \<exists>i st e. CellAt s h c = Some (i, st, e) \<and> Q st i}"
  have "h \<in> rowGen ` set (cell_txs s)" if "h \<in> ?G" for h
    using that by (force simp: CellAt_def find_Some_iff)
  then have fin: "finite ?G" by (meson finite_imageI finite_set finite_subset subsetI)
  have "Max ?G \<in> ?G" using r by (intro Max_in [OF fin]) blast
  then obtain i' st' e' where m: "CellAt s (Max ?G) c = Some (i', st', e')" "Q st' i'" by blast
  have top: "h \<le> Max ?G" if "CellAt s h c = Some (x, y, z)" "Q y x" for h x y z
    using Max_ge [OF fin] that by blast
  let ?t = "\<lparr>tipCell = c, tipGen = Max ?G, tipTxID = i', tipStatus = st', tipErr = e'\<rparr>"
  have "newest_where s c Q ?t" using m top by (simp add: newest_where_def)
  moreover have "g \<le> tipGen ?t" using top [OF r] by simp
  ultimately show ?thesis by (rule that)
qed

text \<open>A derived tip is at least as far as any settled record of its cell, and at generation 0 when there is none.\<close>

lemma derived_reaches:
  assumes k: "keys_ok s" and der: "DeriveTips K l c d s = Inr ps" and cell: "0 \<le> cell" "cell < dCells d"
  shows "CellAt s g cell = Some (i, st, e) \<Longrightarrow> settles st i \<Longrightarrow> g \<le> Generation (posTip (ps ! nat cell))"
    and "\<exists>i st e. Generation (posTip (ps ! nat cell)) = 0
      \<or> CellAt s (Generation (posTip (ps ! nat cell))) cell = Some (i, st, e) \<and> settles st i"
proof -
  have at: "Generation (posTip (ps ! nat cell)) = tipGen t" if "newest_where s cell settles t" for t
    using conjunct2 [OF DeriveTips_settled [OF k der cell that]] DeriveTip_fields by blast
  show "g \<le> Generation (posTip (ps ! nat cell))" if "CellAt s g cell = Some (i, st, e)" "settles st i"
    using k that by (rule newest_where_exists) (simp add: at)
  show "\<exists>i st e. Generation (posTip (ps ! nat cell)) = 0
      \<or> CellAt s (Generation (posTip (ps ! nat cell))) cell = Some (i, st, e) \<and> settles st i"
  proof (cases "\<exists>t. newest_where s cell settles t")
    case True
    then obtain t where t: "newest_where s cell settles t" by blast
    then have "CellAt s (tipGen t) cell = Some (tipTxID t, tipStatus t, tipErr t) \<and> settles (tipStatus t) (tipTxID t)"
      by (simp add: newest_where_def)
    then show ?thesis unfolding at [OF t] by blast
  next
    case False
    obtain records gen tid p where e: "CellTips s (dCells d) tipDepth = Inr records" "classify d s records cell = ((gen, tid), p)"
      "if tid = '''' then ps ! nat cell = p else \<exists>raw t. RawTx l tid = Inr raw
         \<and> (\<exists>row. DeriveTip K c cell gen row tid raw = Inr t) \<and> ps ! nat cell = p\<lparr>posTip := t\<rparr>"
      using DeriveTips_cell [OF der cell] by metis
    have "gen = 0 \<and> posTip p = no_chain"
    proof (cases "\<forall>h. CellAt s h cell = None")
      case True
      then show ?thesis using classify_fresh [OF k e(1) cell, of d] e(2) by simp
    next
      case some: False
      then obtain h where "CellAt s h cell \<noteq> None" by blast
      then show ?thesis using classify_unsettled [OF k e(1) cell _, of h d] False e(2) by auto
    qed
    then have "Generation (posTip (ps ! nat cell)) = 0"
      using e(3) DeriveTip_fields by (fastforce simp: no_chain_def split: if_splits)
    then show ?thesis by blast
  qed
qed

lemma write_import_at:
  "CellAt (write_import now v s) g c =
     (if g = Generation (fst v) \<and> c = Cell (fst v) then Some (TxID (fst v), StatusSeen, '''') else CellAt s g c)"
  by (auto simp: write_import_def Let_def CellAt_record CellAt_generation)

lemma write_imports_at:
  "CellAt (fold (write_import now) vs s) g c =
     (case find (\<lambda>v. Generation (fst v) = g \<and> Cell (fst v) = c) (rev vs) of
        None \<Rightarrow> CellAt s g c
      | Some v \<Rightarrow> Some (TxID (fst v), StatusSeen, ''''))"
  by (induction vs rule: rev_induct) (auto simp: write_import_at split: option.splits)

lemma write_imports_keys: "keys_ok s \<Longrightarrow> keys_ok (fold (write_import now) vs s)"
  by (induction vs arbitrary: s) (auto simp: write_import_def Let_def keys_ok_generation keys_ok_record)

lemma rows_upto_nth: "i \<le> k \<Longrightarrow> rows_upto rule k seed ! i = nth_row rule seed i"
proof (induction k arbitrary: i seed)
  case 0
  then show ?case by (simp add: nth_row_def)
next
  case (Suc k)
  obtain r where r: "Step rule seed = Some r" using Step_total by blast
  show ?case
  proof (cases i)
    case (Suc j)
    then show ?thesis using Suc.IH [of j r] Suc.prems r by (simp add: nth_row_def funpow_Suc_right del: funpow.simps)
  qed (simp add: nth_row_def)
qed

text \<open>What makes an entry importable.\<close>

definition import_proved :: "tx_codec \<Rightarrow> ledger \<Rightarrow> tool_session \<Rightarrow> store \<Rightarrow> cell_chain \<Rightarrow> cell_chain \<Rightarrow> bool" where
  "import_proved K l D s t tip \<longleftrightarrow> (\<exists>seed raw. Seed (teFacts D) = Inr seed \<and> import_bytes l t = Inr raw
     \<and> DeriveTip K (teCompiled D) (Cell t) (Generation t) (nth_row (dRule (teFacts D)) seed (unat (Generation t))) (TxID t) raw = Inr tip
     \<and> \<not> RejectedTxIDs s [TxID t] (TxID t))"

lemma rejected_single: "i \<in> set is \<Longrightarrow> RejectedTxIDs s is i = RejectedTxIDs s [i] i"
  by (simp add: RejectedTxIDs_def)

lemma import_tip_cases:
  fixes K :: tx_codec and l :: ledger and s :: store and ps :: "cell_position list"
  assumes "Seed (teFacts D) = Inr seed" and "t \<in> set legacy"
  defines "highest \<equiv> fold (\<lambda>t m. max m (Generation t)) legacy 0"
  defines "v \<equiv> import_tip K l (teCompiled D) (teFacts D) (rows_upto (dRule (teFacts D)) (unat highest) seed) highest
    (RejectedTxIDs s (filter (\<lambda>i. i \<noteq> '''') (map TxID legacy))) ps t"
  shows "v = NotATip \<and> (Cell t < 0 \<or> Cell t \<ge> dCells (teFacts D) \<or> TxID t = '''')
    \<or> (\<exists>r. v = ImportRefused r)
    \<or> 0 \<le> Cell t \<and> Cell t < dCells (teFacts D) \<and> TxID t \<noteq> '''' \<and>
       (v = AlreadyCovered \<and> Generation t \<le> Generation (posTip (ps ! nat (Cell t)))
      \<or> (\<exists>tip. v = Importable tip (Generation (posTip (ps ! nat (Cell t)))) \<and> import_proved K l D s t tip
           \<and> Generation (posTip (ps ! nat (Cell t))) < Generation t))"
proof (cases "Cell t < 0 \<or> Cell t \<ge> dCells (teFacts D) \<or> TxID t = ''''")
  case True
  then show ?thesis by (simp add: v_def import_tip_def)
next
  case tip: False
  have "fold (\<lambda>t m. max m (Generation t)) xs a = fold max (map Generation xs) a" for xs :: "cell_chain list" and a
    by (induction xs arbitrary: a) (simp_all add: max.commute)
  then have "highest = fold max (map Generation legacy) 0" by (simp add: highest_def)
  moreover have "Generation t \<le> fold max (map Generation legacy) 0" by (rule fold_max_mem) (use assms(2) in simp)
  ultimately have "Generation t \<le> highest" by simp
  then have "unat (Generation t) \<le> unat highest" by (simp add: word_le_nat_alt)
  then have row: "rows_upto (dRule (teFacts D)) (unat highest) seed ! unat (Generation t) = nth_row (dRule (teFacts D)) seed (unat (Generation t))"
    by (rule rows_upto_nth)
  have rej: "RejectedTxIDs s (filter (\<lambda>i. i \<noteq> '''') (map TxID legacy)) (TxID t) = RejectedTxIDs s [TxID t] (TxID t)"
    by (rule rejected_single) (use assms(2) tip in auto)
  have gen: "Generation u = Generation t" if "DeriveTip K c (Cell t) (Generation t) r (TxID t) raw = Inr u" for c r raw u
    using DeriveTip_fields [OF that] by simp
  show ?thesis using tip assms(1) gen
    by (auto simp: v_def import_tip_def import_proved_def row rej Let_def split: sum.splits)
qed

lemma import_proved_fields:
  "import_proved K l D s t tip \<Longrightarrow> Generation tip = Generation t \<and> Cell tip = Cell t \<and> TxID tip = TxID t"
  using DeriveTip_fields by (fastforce simp: import_proved_def)

text \<open>An applied import that goes through: what it writes is proved, and every entry is covered already or written.\<close>

lemma import_accepts:
  assumes run: "cmdImportTips K l D True now s = (Inr rp, s')" and ne: "legacyTips (teFacts D) \<noteq> []"
  obtains ps where "DeriveTips K l (teCompiled D) (teFacts D) s = Inr ps" "s' = fold (write_import now) (imOk rp) s"
    "\<forall>v \<in> set (imOk rp). \<exists>t \<in> set (legacyTips (teFacts D)). import_proved K l D s t (fst v) \<and> TxID t \<noteq> ''''"
    "\<forall>t \<in> set (legacyTips (teFacts D)). 0 \<le> Cell t \<and> Cell t < dCells (teFacts D) \<and> TxID t \<noteq> '''' \<longrightarrow>
       Generation t \<le> Generation (posTip (ps ! nat (Cell t))) \<or> (\<exists>v \<in> set (imOk rp). import_proved K l D s t (fst v))"
proof -
  define legacy where "legacy = legacyTips (teFacts D)"
  define highest where "highest = fold (\<lambda>t m. max m (Generation t)) legacy 0"
  obtain seed ps where seed: "Seed (teFacts D) = Inr seed" and ps: "DeriveTips K l (teCompiled D) (teFacts D) s = Inr ps"
    using run ne by (auto simp: cmdImportTips_def Let_def split: sum.splits)
  define verdict where "verdict t = import_tip K l (teCompiled D) (teFacts D) (rows_upto (dRule (teFacts D)) (unat highest) seed) highest
    (RejectedTxIDs s (filter (\<lambda>i. i \<noteq> '''') (map TxID legacy))) ps t" for t
  have "cmdImportTips K l D True now s = (let rp = import_report_of (map verdict legacy) in
      if length (imRefused rp) > 0 then (Inl (PartialImport (imRefused rp)), s) else (Inr rp, fold (write_import now) (imOk rp) s))"
    using ne seed ps by (simp add: cmdImportTips_def Let_def legacy_def highest_def verdict_def [abs_def])
  then have rp: "rp = import_report_of (map verdict legacy)" "imRefused rp = []" "s' = fold (write_import now) (imOk rp) s"
    using run by (auto simp: Let_def split: if_splits)
  note cases = import_tip_cases [OF seed, of _ legacy K l s ps, folded highest_def, folded verdict_def]
  have mem: "v \<in> set (imOk rp) \<longleftrightarrow> (\<exists>t \<in> set legacy. verdict t = Importable (fst v) (snd v))" for v
    by (force simp: rp(1) import_report_of_def split: import_verdict.splits)
  have accepted: "verdict t \<noteq> ImportRefused r" if "t \<in> set legacy" for t r
    using rp(2) that by (force simp: rp(1) import_report_of_def)
  have prov: "\<exists>t \<in> set legacy. import_proved K l D s t (fst v) \<and> TxID t \<noteq> ''''" if v: "v \<in> set (imOk rp)" for v
  proof -
    obtain t where t: "t \<in> set legacy" "verdict t = Importable (fst v) (snd v)" using v unfolding mem by blast
    then show ?thesis using cases [OF t(1)] by auto
  qed
  have cov: "Generation t \<le> Generation (posTip (ps ! nat (Cell t))) \<or> (\<exists>v \<in> set (imOk rp). import_proved K l D s t (fst v))"
    if t: "t \<in> set legacy" "0 \<le> Cell t \<and> Cell t < dCells (teFacts D) \<and> TxID t \<noteq> ''''" for t
  proof -
    consider "Generation t \<le> Generation (posTip (ps ! nat (Cell t)))"
      | tip had where "verdict t = Importable tip had" "import_proved K l D s t tip"
      using cases [OF t(1)] accepted [OF t(1)] t(2) by fastforce
    then show ?thesis
    proof cases
      case 2
      then have "(tip, had) \<in> set (imOk rp)" unfolding mem using t(1) by auto
      then show ?thesis using 2(2) by force
    qed simp
  qed
  show ?thesis by (rule that [OF ps rp(3)]) (use prov cov in \<open>auto simp: legacy_def\<close>)
qed

lemma write_imports_change:
  assumes "CellAt (fold (write_import now) vs s) g c \<noteq> CellAt s g c"
  obtains v where "v \<in> set vs" "g = Generation (fst v)" "c = Cell (fst v)"
    "CellAt (fold (write_import now) vs s) g c = Some (TxID (fst v), StatusSeen, '''')"
proof -
  obtain v where v: "find (\<lambda>v. Generation (fst v) = g \<and> Cell (fst v) = c) (rev vs) = Some v"
    using assms unfolding write_imports_at by (auto split: option.splits)
  then have "v \<in> set vs" "g = Generation (fst v)" "c = Cell (fst v)"
    using find_SomeD [OF v] by auto
  moreover have "CellAt (fold (write_import now) vs s) g c = Some (TxID (fst v), StatusSeen, '''')"
    by (simp add: write_imports_at v)
  ultimately show ?thesis by (rule that)
qed

lemma write_imports_settle:
  assumes named: "\<forall>v \<in> set vs. TxID (fst v) \<noteq> ''''"
    and "(\<exists>i st e. CellAt s g c = Some (i, st, e) \<and> settles st i) \<or> (\<exists>v \<in> set vs. g = Generation (fst v) \<and> c = Cell (fst v))"
  shows "\<exists>i st e. CellAt (fold (write_import now) vs s) g c = Some (i, st, e) \<and> settles st i"
proof (cases "find (\<lambda>v. Generation (fst v) = g \<and> Cell (fst v) = c) (rev vs)")
  case None
  then have "\<not> (\<exists>v \<in> set vs. g = Generation (fst v) \<and> c = Cell (fst v))" by (auto simp: find_eq_None)
  then show ?thesis using assms(2) None unfolding write_imports_at by auto
next
  case (Some v)
  then have "v \<in> set vs" by (metis (mono_tags, lifting) find_SomeD set_rev)
  then show ?thesis using named unfolding write_imports_at Some by (simp add: settles_def settled_status_def)
qed

lemma DeriveTips_length: "DeriveTips K l c d s = Inr ps \<Longrightarrow> length ps = nat (dCells d)"
  by (auto simp: DeriveTips_def Let_def dest!: tips_loop_spec list_all2_lengthD split: sum.splits option.splits)

lemma import_floor:
  assumes k: "keys_ok s" and run: "cmdImportTips K l D True now s = (Inr rp, s')"
    and der: "DeriveTips K' l' c' (teFacts D) s' = Inr ps'"
  shows "CheckMigrationFloor s' arcade ps' (legacyTips (teFacts D)) = []"
proof (cases "legacyTips (teFacts D) = []")
  case True
  then show ?thesis by (simp add: CheckMigrationFloor_def)
next
  case False
  obtain ps where ps: "DeriveTips K l (teCompiled D) (teFacts D) s = Inr ps" and s': "s' = fold (write_import now) (imOk rp) s"
    and prov: "\<forall>v \<in> set (imOk rp). \<exists>t \<in> set (legacyTips (teFacts D)). import_proved K l D s t (fst v) \<and> TxID t \<noteq> ''''"
    and cov: "\<forall>t \<in> set (legacyTips (teFacts D)). 0 \<le> Cell t \<and> Cell t < dCells (teFacts D) \<and> TxID t \<noteq> '''' \<longrightarrow>
       Generation t \<le> Generation (posTip (ps ! nat (Cell t))) \<or> (\<exists>v \<in> set (imOk rp). import_proved K l D s t (fst v))"
    using run False by (rule import_accepts)
  have named: "\<forall>v \<in> set (imOk rp). TxID (fst v) \<noteq> ''''" using prov import_proved_fields by metis
  have k': "keys_ok s'" unfolding s' by (rule write_imports_keys [OF k])
  have "Generation t \<le> Generation (posTip (ps' ! nat (Cell t)))"
    if t: "t \<in> set (legacyTips (teFacts D))" "0 \<le> Cell t" "Cell t < int (length ps')" "TxID t \<noteq> ''''" for t
  proof -
    have cell: "0 \<le> Cell t" "Cell t < dCells (teFacts D)" using t DeriveTips_length [OF der] by (simp_all split: if_splits)
    have reach: "g \<le> Generation (posTip (ps' ! nat (Cell t)))" if "(\<exists>i st e. CellAt s g (Cell t) = Some (i, st, e) \<and> settles st i)
        \<or> (\<exists>v \<in> set (imOk rp). g = Generation (fst v) \<and> Cell t = Cell (fst v))" for g
      using write_imports_settle [OF named that, of now, folded s'] derived_reaches(1) [OF k' der cell] by metis
    from cov t(1,4) cell consider "Generation t \<le> Generation (posTip (ps ! nat (Cell t)))"
      | v where "v \<in> set (imOk rp)" "import_proved K l D s t (fst v)" by blast
    then show ?thesis
    proof cases
      case 1
      from derived_reaches(2) [OF k ps cell] reach 1 show ?thesis by (metis order_trans word_zero_le)
    next
      case 2
      then show ?thesis using reach [of "Generation t"] import_proved_fields [OF 2(2)] by force
    qed
  qed
  then show ?thesis by (auto simp: CheckMigrationFloor_def Let_def filter_empty_conv)
qed

text \<open>Claim C34: an import fixes what it is for, and nothing else.  A dry run and a refused import leave the record as it
  was.  An import that goes through changes only slots of entries it proved: the entry's bytes hash to its txid and
  carry its cell's covenant at the row the seed reaches at its generation, and the record does not call it
  refused.  And it clears the floor: every later derivation that succeeds, over the record it left, lies at or
  beyond every legacy tip, so the check that refused to start the automaton passes.\<close>

theorem import_clears_floor:
  assumes "cmdImportTips K l D apply_it now (run_store pg ops) = (out, s')"
  shows "(\<not> apply_it \<or> (\<exists>e. out = Inl e) \<longrightarrow> s' = run_store pg ops)
    \<and> (\<forall>h c. CellAt s' h c \<noteq> CellAt (run_store pg ops) h c \<longrightarrow> (\<exists>t \<in> set (legacyTips (teFacts D)). \<exists>tip.
         import_proved K l D (run_store pg ops) t tip \<and> h = Generation t \<and> c = Cell t \<and> CellAt s' h c = Some (TxID tip, StatusSeen, '''')))
    \<and> (apply_it \<and> (\<exists>rp. out = Inr rp) \<longrightarrow> (\<forall>K' l' c' ps' arcade. DeriveTips K' l' c' (teFacts D) s' = Inr ps' \<longrightarrow>
         CheckMigrationFloor s' arcade ps' (legacyTips (teFacts D)) = []))"
proof -
  define s where "s = run_store pg ops"
  have k: "keys_ok s" by (simp add: s_def keys_ok_run)
  note run = assms [folded s_def]
  have same: "s' = s" if "\<not> apply_it \<or> (\<exists>e. out = Inl e) \<or> legacyTips (teFacts D) = []"
    using run that by (auto simp: cmdImportTips_def Let_def split: if_splits sum.splits)
  have change: "\<exists>t \<in> set (legacyTips (teFacts D)). \<exists>tip.
         import_proved K l D s t tip \<and> h = Generation t \<and> c = Cell t \<and> CellAt s' h c = Some (TxID tip, StatusSeen, '''')"
    if diff: "CellAt s' h c \<noteq> CellAt s h c" for h c
  proof -
    obtain rp where a: "cmdImportTips K l D True now s = (Inr rp, s')" "legacyTips (teFacts D) \<noteq> []"
    proof -
      have "apply_it" "\<nexists>e. out = Inl e" "legacyTips (teFacts D) \<noteq> []" using same diff by blast+
      then show ?thesis using that run by (cases out) simp_all
    qed
    obtain ps where s': "s' = fold (write_import now) (imOk rp) s"
      and prov: "\<forall>v \<in> set (imOk rp). \<exists>t \<in> set (legacyTips (teFacts D)). import_proved K l D s t (fst v) \<and> TxID t \<noteq> ''''"
      using a by (rule import_accepts)
    obtain v where v: "v \<in> set (imOk rp)" "h = Generation (fst v)" "c = Cell (fst v)" "CellAt s' h c = Some (TxID (fst v), StatusSeen, '''')"
      using diff unfolding s' by (rule write_imports_change)
    then show ?thesis using prov import_proved_fields by metis
  qed
  have "CheckMigrationFloor s' arcade ps' (legacyTips (teFacts D)) = []"
    if "apply_it" "out = Inr rp" "DeriveTips K' l' c' (teFacts D) s' = Inr ps'" for rp K' l' c' ps' arcade
    using import_floor [OF k _ that(3)] run that(1,2) by simp
  then show ?thesis unfolding s_def [symmetric] using same change by blast
qed

end
