(* ===== verification/Operator.thy ===== *)
theory Operator
  imports Tools
begin

text \<open>
  What an operator is told: \<open>rule110 recover\<close> with its closing report (\<open>cmd/rule110/tips.go\<close>), and the depth
  probe (\<open>cmd/rule110/probe.go\<close>) with its sampling of the network's verdicts.  Both are proved against the
  record they leave.
\<close>

subsection \<open>Recovery by hand, and its report\<close>

record recover_report =
  rrDecisions :: "cell_recovery list"
  rrStuck :: "(int \<times> bool \<times> halt_reason) list"

definition reportHalted :: "cell_position list \<Rightarrow> cell_recovery list \<Rightarrow> (int \<times> bool \<times> halt_reason) list" where
  "reportHalted after decisions =
     map (\<lambda>cell. (int cell, int cell \<in> fst ` set decisions, HaltReason (after ! cell)))
       (filter (\<lambda>cell. Halted (after ! cell)) [0..<length after])"

definition cmdRecover :: "tx_codec \<Rightarrow> ledger \<Rightarrow> tx_status option \<Rightarrow> tool_session \<Rightarrow> bool \<Rightarrow> bool \<Rightarrow> int \<Rightarrow> store
    \<Rightarrow> (tool_error + recover_report) \<times> store" where
  "cmdRecover K l arcade D apply_it retryRefused now s =
     (case tool_positions K l arcade D s of
        Inl e \<Rightarrow> (Inl e, s)
      | Inr ps \<Rightarrow>
     (case Recover K l arcade (teCompiled D) (teFacts D) now s ps \<lparr>Apply = apply_it, RetryRefused = retryRefused\<rparr> of
        Inl e \<Rightarrow> (Inl (ToolRecover e), s)
      | Inr (s', _, decisions) \<Rightarrow>
         (if \<not> apply_it then (Inr \<lparr>rrDecisions = decisions, rrStuck = reportHalted ps decisions\<rparr>, s')
          else case DeriveTips K l (teCompiled D) (teFacts D) s' of
            Inl e \<Rightarrow> (Inl (ToolDerive e), s')
          | Inr after \<Rightarrow> (Inr \<lparr>rrDecisions = decisions, rrStuck = reportHalted after decisions\<rparr>, s'))))"

text \<open>The pass itself has no error branch that is reached: the one record operation that can refuse is
  called with the transaction it asks for.  So an error that follows a write is only the second derivation's,
  and the record then stands as the pass wrote it.\<close>

lemma recover_loop_total: "recover_loop K l arcade c d opts now k ps s \<noteq> Inl e"
proof (induction ps arbitrary: k s e)
  case (Cons p ps)
  have a: "applyRecovery now s' k p r \<noteq> Inl e'" for s' r e'
    by (auto simp: applyRecovery_def DeleteRejection_def Let_def split: verdict.splits)
  show ?case using Cons.IH a by (auto split: option.splits sum.splits)
qed simp

lemma recover_failed:
  assumes "cmdRecover K l arcade D apply_it retryRefused now s = (Inl e, s')" and "s' \<noteq> s"
  shows "apply_it \<and> (\<exists>e'. e = ToolDerive e' \<and> DeriveTips K l (teCompiled D) (teFacts D) s' = Inl e')"
  using assms by (auto simp: cmdRecover_def split: sum.splits if_splits)

text \<open>Claim C35: the closing report is the record's, not the decisions'.  \<open>rule110 recover\<close> without \<open>-apply\<close> changes
  nothing; with or without, a cell that has a settled record is listed as halted exactly when, in the record as it now
  stands, a rejection or an unresolved attempt lies above the newest of them, and the list says of it whether
  recovery examined it.\<close>

theorem recover_report_exact:
  assumes "cmdRecover K l arcade D apply_it retryRefused now (run_store pg ops) = (Inr rp, s')"
    and "0 \<le> cell" and "cell < dCells (teFacts D)" and "newest_where s' cell settles t"
  shows "(\<not> apply_it \<longrightarrow> s' = run_store pg ops)
    \<and> ((\<exists>seen why. (cell, seen, why) \<in> set (rrStuck rp)) \<longleftrightarrow>
        records_above s' cell StatusFailed (tipGen t) \<union> records_above s' cell StatusAttempting (tipGen t) \<noteq> {})
    \<and> (\<forall>seen why. (cell, seen, why) \<in> set (rrStuck rp) \<longrightarrow> seen = (cell \<in> fst ` set (rrDecisions rp)))"
proof -
  obtain ps out where ps: "DeriveTips K l (teCompiled D) (teFacts D) (run_store pg ops) = Inr ps"
    and rec: "Recover K l arcade (teCompiled D) (teFacts D) now (run_store pg ops) ps
      \<lparr>Apply = apply_it, RetryRefused = retryRefused\<rparr> = Inr (s', out, rrDecisions rp)"
    using assms(1) by (auto simp: cmdRecover_def tool_positions_def split: sum.splits list.splits if_splits)
  note ok = recover_loop_ok [OF keys_ok_run rec [unfolded Recover_def]]
  obtain after where after: "DeriveTips K l (teCompiled D) (teFacts D) s' = Inr after"
    "rrStuck rp = reportHalted after (rrDecisions rp)"
    using assms(1) ps rec ok by (cases rp) (auto simp: cmdRecover_def tool_positions_def split: sum.splits list.splits if_splits)
  obtain m where m: "cell = int m" "m < length after" using assms(2,3) DeriveTips_length [OF after(1)] that [of "nat cell"] by auto
  have listed: "(cell, seen, why) \<in> set (rrStuck rp) \<longleftrightarrow> Halted (after ! nat cell) \<and> why = HaltReason (after ! nat cell)
      \<and> seen = (cell \<in> fst ` set (rrDecisions rp))" for seen why
  proof -
    have "(int m, seen, why) \<in> set (map (\<lambda>k. (int k, int k \<in> S, HaltReason (after ! k))) (filter (\<lambda>k. Halted (after ! k)) [0..<length after]))
        \<longleftrightarrow> Halted (after ! m) \<and> why = HaltReason (after ! m) \<and> seen = (int m \<in> S)" for S
      using m(2) by auto
    then show ?thesis unfolding after(2) reportHalted_def m(1) nat_int .
  qed
  have "Halted (after ! nat cell) \<longleftrightarrow>
      records_above s' cell StatusFailed (tipGen t) \<union> records_above s' cell StatusAttempting (tipGen t) \<noteq> {}"
    using conjunct1 [OF DeriveTips_settled [OF conjunct1 [OF ok] after(1) assms(2-4)]] by (simp add: position_ok_def Let_def)
  then show ?thesis using ok listed by auto
qed

subsection \<open>The depth probe\<close>

definition probeSweep :: nat where "probeSweep = 60"

definition mined_verdict :: "tx_status \<Rightarrow> txid \<Rightarrow> bool" where
  "mined_verdict ask t = (case ask t of Inr (Some r) \<Rightarrow> recStatus r = ArcMined \<or> recStatus r = ArcImmutable | _ \<Rightarrow> False)"

definition refused_verdict :: "tx_status \<Rightarrow> txid \<Rightarrow> bool" where
  "refused_verdict ask t = (case ask t of Inr (Some r) \<Rightarrow> recStatus r = ArcRejected \<or> recStatus r = ArcDoubleSpendAttempted | _ \<Rightarrow> False)"

text \<open>The sampling loop: the last mined position, the first refused one and its reason.\<close>

fun probe_scan :: "tx_status \<Rightarrow> nat \<Rightarrow> txid list \<Rightarrow> int \<times> int \<times> (arc_status \<times> string) option
    \<Rightarrow> int \<times> int \<times> (arc_status \<times> string) option" where
  "probe_scan ask i [] acc = acc"
| "probe_scan ask i (t # ts) (minedAt, refusedAt, why) =
     probe_scan ask (i + 1) ts
       (case ask t of
          Inl e \<Rightarrow> (minedAt, refusedAt, why)
        | Inr None \<Rightarrow> (minedAt, refusedAt, why)
        | Inr (Some r) \<Rightarrow>
           if recStatus r = ArcMined \<or> recStatus r = ArcImmutable then (int i, refusedAt, why)
           else if recStatus r = ArcRejected \<or> recStatus r = ArcDoubleSpendAttempted
             then (if refusedAt < 0 then (minedAt, int i, Some (recStatus r, recExtraInfo r)) else (minedAt, refusedAt, why))
           else (minedAt, refusedAt, why))"

definition probeStatuses :: "tx_status \<Rightarrow> txid list \<Rightarrow> int \<times> int \<times> (arc_status \<times> string) option" where
  "probeStatuses ask txids =
     (let from = nat (max 0 (int (length txids) - int probeSweep)) in
      case probe_scan ask from (drop from txids) (int from - 1, - 1, None) of
        (minedAt, refusedAt, why) \<Rightarrow> (int (length txids) - 1 - minedAt, refusedAt, why))"

text \<open>What the probe runs against: whether it is still wanted at a depth, arcade as it answers then (at 0, after the
  last wait), the times of its writes, the wallet.\<close>

record probe_env =
  pbAlive :: "nat \<Rightarrow> bool"
  pbLook :: "nat \<Rightarrow> tx_status"
  pbNow :: "nat \<Rightarrow> int"
  pbWallet :: step_wallet
  pbSdk :: runar_sdk

datatype probe_outcome =
    ProbeRejectedAt int "(arc_status \<times> string) option" int
  | ProbeNoLimit nat int

fun probe_loop :: "probe_env \<Rightarrow> tool_session \<Rightarrow> int \<Rightarrow> nat \<Rightarrow> nat \<Rightarrow> cell_chain \<Rightarrow> txid list \<Rightarrow> store
    \<Rightarrow> probe_outcome option \<times> txid list \<times> store \<times> wallet_call list" where
  "probe_loop P D cell 0 depth tip built s = (None, built, s, [])"
| "probe_loop P D cell (Suc k) depth tip built s =
     (if \<not> pbAlive P depth then (None, built, s, [])
      else let s = RecordTx s (pbNow P (2 * depth)) (attempt_row (Generation tip + 1) cell) in
        case AdvanceCell (pbWallet P) (pbSdk P) (teCompiled D) tip (dCells (teFacts D)) (dRule (teFacts D)) of
          (Inl _, calls) \<Rightarrow> (None, built, s, calls)
        | (Inr res, calls) \<Rightarrow>
           (let tip = \<lparr>Cell = cell, TxID = srTxID res, Vout = 0, Satoshis_of = Satoshis_of tip, Generation = srGeneration res,
                  RowHex = srRowHex res, RawTxHex = srRawTxHex res, LegacyBEEFHex = ''''\<rparr>;
                built = built @ [srTxID res];
                s = record_result (pbNow P (2 * depth + 1)) cell res s;
                found = (if depth mod 25 = 0
                  then (case probeStatuses (pbLook P depth) built of (unconfirmed, refusedAt, why) \<Rightarrow>
                          if refusedAt \<ge> 0 then Some (ProbeRejectedAt (refusedAt + 1) why unconfirmed) else None)
                  else None) in
            case found of
              Some v \<Rightarrow> (Some v, built, s, calls)
            | None \<Rightarrow>
               (case probe_loop P D cell k (depth + 1) tip built s of (r, b, s, rest_calls) \<Rightarrow> (r, b, s, calls @ rest_calls))))"

definition cmdDepthProbe :: "tx_codec \<Rightarrow> ledger \<Rightarrow> tx_status option \<Rightarrow> probe_env \<Rightarrow> tool_session \<Rightarrow> int \<Rightarrow> int \<Rightarrow> store
    \<Rightarrow> (tool_error + probe_outcome) \<times> txid list \<times> store \<times> wallet_call list" where
  "cmdDepthProbe K l arcade P D cell maxDepth s =
     (case tool_tip K l arcade D cell s of
        Inl e \<Rightarrow> (Inl e, [], s, [])
      | Inr tip \<Rightarrow>
         (case probe_loop P D cell (nat maxDepth) 1 tip [] s of
            (Some v, built, s, calls) \<Rightarrow> (Inr v, built, s, calls)
          | (None, built, s, calls) \<Rightarrow>
             if length built = 0 then (Inl NothingBuilt, built, s, calls)
             else (case probeStatuses (pbLook P 0) built of (unconfirmed, refusedAt, why) \<Rightarrow>
                    (Inr (if refusedAt \<ge> 0 then ProbeRejectedAt (refusedAt + 1) why unconfirmed
                          else ProbeNoLimit (length built) unconfirmed), built, s, calls))))"

subsection \<open>What a sample says\<close>

text \<open>What the scan knows of the positions it has been over, those of \<open>xs\<close> from \<open>i\<close> on.\<close>

definition scan_ok :: "tx_status \<Rightarrow> nat \<Rightarrow> txid list \<Rightarrow> int \<times> int \<times> (arc_status \<times> string) option \<Rightarrow> bool" where
  "scan_ok ask i xs acc \<longleftrightarrow>
     (case acc of (minedAt, refusedAt, why) \<Rightarrow>
        int i - 1 \<le> minedAt \<and> minedAt < int (i + length xs)
      \<and> (int i \<le> minedAt \<longrightarrow> mined_verdict ask (xs ! (nat minedAt - i)))
      \<and> (\<forall>j < length xs. minedAt < int (i + j) \<longrightarrow> \<not> mined_verdict ask (xs ! j))
      \<and> (refusedAt = - 1 \<or> int i \<le> refusedAt \<and> refusedAt < int (i + length xs) \<and> refused_verdict ask (xs ! (nat refusedAt - i)))
      \<and> (\<forall>j < length xs. refusedAt = - 1 \<or> int (i + j) < refusedAt \<longrightarrow> \<not> refused_verdict ask (xs ! j)))"

lemma probe_scan_append:
  "probe_scan ask i (xs @ ys) acc = probe_scan ask (i + length xs) ys (probe_scan ask i xs acc)"
proof (induction xs arbitrary: i acc)
  case (Cons t xs)
  then show ?case by (cases acc) simp
qed simp

lemma probe_scan_one:
  "probe_scan ask k [t] (m, r, why) =
     (if mined_verdict ask t then (int k, r, why)
      else if refused_verdict ask t \<and> r < 0
        then (m, int k, case ask t of Inr (Some v) \<Rightarrow> Some (recStatus v, recExtraInfo v) | _ \<Rightarrow> why)
      else (m, r, why))"
  by (simp add: mined_verdict_def refused_verdict_def split: sum.split option.split)

lemma probe_scan_ok: "scan_ok ask i xs (probe_scan ask i xs (int i - 1, - 1, None))"
proof (induction xs rule: rev_induct)
  case Nil
  then show ?case by (simp add: scan_ok_def)
next
  case (snoc t xs)
  obtain m r why where a: "probe_scan ask i xs (int i - 1, - 1, None) = (m, r, why)" by (metis prod_cases3)
  note ok = snoc.IH [unfolded a scan_ok_def prod.case]
  have m: "mined_verdict ask ((xs @ [t]) ! (nat m - i))" if "int i \<le> m"
  proof -
    have "nat m - i < length xs" using ok that by linarith
    then show ?thesis using ok that by (simp add: nth_append)
  qed
  have r: "refused_verdict ask ((xs @ [t]) ! (nat r - i))" if "int i \<le> r"
  proof -
    have r: "r < int (i + length xs)" "refused_verdict ask (xs ! (nat r - i))" using ok that by auto
    then have "nat r - i < length xs" using that by linarith
    then show ?thesis using r by (simp add: nth_append)
  qed
  have all: "(\<forall>j < length (xs @ [t]). Q j) \<longleftrightarrow> (\<forall>j < length xs. Q j) \<and> Q (length xs)" for Q
    by (auto simp: less_Suc_eq)
  have old: "\<forall>j < length xs. (xs @ [t]) ! j = xs ! j" "(xs @ [t]) ! length xs = t" by (simp_all add: nth_append)
  have pos: "int i + int (length xs) \<noteq> - 1" "nat (int i + int (length xs)) - i = length xs" by simp_all
  consider (mined) "mined_verdict ask t" "probe_scan ask i (xs @ [t]) (int i - 1, - 1, None) = (int (i + length xs), r, why)"
    | (first) w where "\<not> mined_verdict ask t" "refused_verdict ask t" "r < 0"
        "probe_scan ask i (xs @ [t]) (int i - 1, - 1, None) = (m, int (i + length xs), w)"
    | (other) "\<not> mined_verdict ask t" "refused_verdict ask t \<longrightarrow> \<not> r < 0"
        "probe_scan ask i (xs @ [t]) (int i - 1, - 1, None) = (m, r, why)"
    unfolding probe_scan_append a probe_scan_one by (cases "mined_verdict ask t"; cases "refused_verdict ask t \<and> r < 0") simp_all
  then show ?case
  proof cases
    case mined
    then have "\<not> refused_verdict ask t" by (auto simp: mined_verdict_def refused_verdict_def split: sum.splits option.splits)
    then show ?thesis unfolding mined(2) scan_ok_def prod.case all using ok r old mined(1) pos by auto
  next
    case first
    then have "r = - 1" using ok by auto
    then show ?thesis unfolding first(4) scan_ok_def prod.case all using ok m old first(1,2) pos by auto
  next
    case other
    then show ?thesis unfolding other(3) scan_ok_def prod.case all using ok m r old by auto
  qed
qed

text \<open>The sample as a statement about the newest sixty transactions: how many of them, at the tip, are not
  mined, and the oldest that was refused.\<close>

lemma probe_statuses_exact:
  assumes "probeStatuses ask txids = (unconfirmed, refusedAt, why)"
  defines "n \<equiv> length txids" and "lo \<equiv> length txids - 60"
  shows "0 \<le> unconfirmed \<and> unconfirmed \<le> int (min 60 n)
    \<and> (\<forall>j < n. lo \<le> j \<and> n \<le> j + nat unconfirmed \<longrightarrow> \<not> mined_verdict ask (txids ! j))
    \<and> (unconfirmed < int (min 60 n) \<longrightarrow> mined_verdict ask (txids ! (n - 1 - nat unconfirmed)))
    \<and> (refusedAt \<noteq> - 1 \<longrightarrow> int lo \<le> refusedAt \<and> refusedAt < int n \<and> refused_verdict ask (txids ! nat refusedAt))
    \<and> (\<forall>j < n. lo \<le> j \<and> (refusedAt = - 1 \<or> int j < refusedAt) \<longrightarrow> \<not> refused_verdict ask (txids ! j))"
proof -
  have f: "nat (max 0 (int n - int probeSweep)) = lo" by (simp add: n_def lo_def probeSweep_def)
  obtain m where scan: "probe_scan ask lo (drop lo txids) (int lo - 1, - 1, None) = (m, refusedAt, why)"
    and u: "unconfirmed = int n - 1 - m"
    using assms(1) f by (auto simp: probeStatuses_def n_def [symmetric] Let_def split: prod.splits)
  note ok = probe_scan_ok [of ask lo "drop lo txids", unfolded scan scan_ok_def prod.case]
  have len: "lo + length (drop lo txids) = n" "lo \<le> n" "int n - int lo = int (min 60 n)" by (auto simp: n_def lo_def)
  have shift: "drop lo txids ! (j - lo) = txids ! j" if "lo \<le> j" "j < n" for j
    using that by (simp add: n_def)
  have each: "P (drop lo txids ! (j - lo)) (lo + (j - lo))" if "\<forall>j < length (drop lo txids). P (drop lo txids ! j) (lo + j)" "lo \<le> j" "j < n" for P j
    using that(1) [rule_format, of "j - lo"] that(2,3) by (simp add: n_def)
  have "\<not> mined_verdict ask (txids ! j)" if "lo \<le> j" "j < n" "n \<le> j + nat unconfirmed" for j
    using each [of "\<lambda>x k. m < int k \<longrightarrow> \<not> mined_verdict ask x" j] ok that shift [OF that(1,2)] u by auto
  moreover have "\<not> refused_verdict ask (txids ! j)" if "lo \<le> j" "j < n" "refusedAt = - 1 \<or> int j < refusedAt" for j
    using each [of "\<lambda>x k. refusedAt = - 1 \<or> int k < refusedAt \<longrightarrow> \<not> refused_verdict ask x" j] ok that shift [OF that(1,2)] by auto
  moreover have "mined_verdict ask (txids ! (n - 1 - nat unconfirmed))" if "unconfirmed < int (min 60 n)"
  proof -
    have m: "int lo \<le> m" "m < int n" using that u len ok by auto
    then have "nat m = n - 1 - nat unconfirmed" using u by linarith
    then show ?thesis using ok m shift [of "nat m"] by (auto simp: nat_less_iff le_nat_iff)
  qed
  moreover have "int lo \<le> refusedAt \<and> refusedAt < int n \<and> refused_verdict ask (txids ! nat refusedAt)" if "refusedAt \<noteq> - 1"
    using ok that len shift [of "nat refusedAt"] by (auto simp: nat_less_iff le_nat_iff)
  ultimately show ?thesis using ok len u by auto
qed

subsection \<open>What a probe leaves in the record\<close>

definition signings :: "wallet_call list \<Rightarrow> nat" where
  "signings calls = length (filter (\<lambda>c. case c of CallSign _ _ \<Rightarrow> True | _ \<Rightarrow> False) calls)"

lemma advance_signings:
  assumes "AdvanceCell W sdk c tip n rule = (r, calls)"
  shows "(\<exists>e. r = Inl (e, False) \<and> signings calls = 0) \<or> (\<exists>e. r = Inl (e, True) \<and> signings calls = 1)
    \<or> (\<exists>res. r = Inr res \<and> signings calls = 1 \<and> srGeneration res = Generation tip + 1)"
proof -
  have "srGeneration res = Generation tip + 1" if "r = Inr res" for res
    using assms that by (auto simp: AdvanceCell_def Let_def split: sum.splits option.splits prod.splits)
  note gen = this
  from AdvanceCell_calls [OF assms] show ?thesis
  proof
    assume "(calls = [] \<or> (\<exists>args. calls = [CallCreate args])) \<and> (\<exists>e. r = Inl (e, False))"
    then show ?thesis by (auto simp: signings_def)
  next
    assume "\<exists>cur nxt args reference signable unlock. stepArgs W c tip n rule = Inr (cur, nxt, args)
          \<and> wCreate W args = Inr (Some (reference, signable)) \<and> stepUnlock W sdk c tip cur nxt signable = Inr unlock
          \<and> calls = [CallCreate args, CallSign reference unlock] \<and> (\<forall>e b. r = Inl (e, b) \<longrightarrow> b)"
    then have "signings calls = 1" "\<forall>e b. r = Inl (e, b) \<longrightarrow> b" by (auto simp: signings_def)
    then show ?thesis using gen by (cases r) auto
  qed
qed

text \<open>The record of the cell after a run from a tip at generation \<open>g\<close> that built \<open>new\<close>: one transaction on each
  generation above it, and, where the loop broke off at a transition, an attempt above those.\<close>

fun probe_view :: "u64 \<Rightarrow> txid list \<Rightarrow> bool \<Rightarrow> u64 \<Rightarrow> (txid \<times> status \<times> string) option \<Rightarrow> (txid \<times> status \<times> string) option" where
  "probe_view g [] left_open h old = (if left_open \<and> h = g + 1 then Some ('''', StatusAttempting, '''') else old)"
| "probe_view g (t # ts) left_open h old =
     probe_view (g + 1) ts left_open h (if h = g + 1 then Some (t, StatusBroadcast, '''') else old)"

lemma probe_loop_record:
  assumes "keys_ok s" and "probe_loop P D cell k depth tip built s = (r, built', s', calls)"
  obtains new left_open where "built' = built @ new" "keys_ok s'" "length new \<le> k"
    "\<forall>h c. CellAt s' h c = (if c = cell then probe_view (Generation tip) new left_open h (CellAt s h c) else CellAt s h c)"
    "signings calls = length new \<or> left_open \<and> signings calls = length new + 1"
  using assms
proof (induction k arbitrary: depth tip built s r built' s' calls thesis)
  case 0
  then show ?case by (auto simp: signings_def intro!: "0.prems"(1) [of "[]" False])
next
  case (Suc k)
  let ?g = "Generation tip"
  show ?case
  proof (cases "pbAlive P depth")
    case False
    then show ?thesis using Suc.prems(2,3) by (auto simp: signings_def intro!: Suc.prems(1) [of "[]" False])
  next
    case alive: True
    define s1 where "s1 = RecordTx s (pbNow P (2 * depth)) (attempt_row (?g + 1) cell)"
    have k1: "keys_ok s1" by (simp add: s1_def keys_ok_record [OF Suc.prems(2)])
    have at1: "CellAt s1 h c = (if h = ?g + 1 \<and> c = cell then Some ('''', StatusAttempting, '''') else CellAt s h c)" for h c
      by (simp add: s1_def CellAt_record attempt_row_def)
    obtain out c where adv: "AdvanceCell (pbWallet P) (pbSdk P) (teCompiled D) tip (dCells (teFacts D)) (dRule (teFacts D)) = (out, c)"
      by fastforce
    show ?thesis
    proof (cases out)
      case (Inl e)
      then have "built' = built" "s' = s1" "calls = c" using Suc.prems(3) alive adv by (auto simp: s1_def Let_def)
      then show ?thesis using k1 at1 advance_signings [OF adv] Inl by (intro Suc.prems(1) [of "[]" True]) auto
    next
      case (Inr res)
      have sg: "signings c = 1" "srGeneration res = ?g + 1" using advance_signings [OF adv] Inr by auto
      define s2 where "s2 = record_result (pbNow P (2 * depth + 1)) cell res s1"
      define tip2 where "tip2 = \<lparr>Cell = cell, TxID = srTxID res, Vout = 0, Satoshis_of = Satoshis_of tip, Generation = srGeneration res,
                  RowHex = srRowHex res, RawTxHex = srRawTxHex res, LegacyBEEFHex = ''''\<rparr>"
      have k2: "keys_ok s2" using k1 by (simp add: s2_def record_result_def keys_ok_record keys_ok_generation)
      have at2: "CellAt s2 h c' = (if h = ?g + 1 \<and> c' = cell then Some (srTxID res, StatusBroadcast, '''') else CellAt s h c')" for h c'
        by (simp add: s2_def record_result_def CellAt_record CellAt_generation sg(2) at1)
      consider (stop) v where "r = Some v" "built' = built @ [srTxID res]" "s' = s2" "calls = c"
        | (go) rest_calls where "probe_loop P D cell k (depth + 1) tip2 (built @ [srTxID res]) s2 = (r, built', s', rest_calls)" "calls = c @ rest_calls"
        using Suc.prems(3) alive adv Inr
        by (auto simp: s1_def s2_def tip2_def Let_def split: prod.splits option.splits if_splits)
      then show ?thesis
      proof cases
        case stop
        then show ?thesis using k2 at2 sg by (intro Suc.prems(1) [of "[srTxID res]" False]) auto
      next
        case go
        obtain new left_open where "built' = (built @ [srTxID res]) @ new" "keys_ok s'" "length new \<le> k"
          "\<forall>h c. CellAt s' h c = (if c = cell then probe_view (Generation tip2) new left_open h (CellAt s2 h c) else CellAt s2 h c)"
          "signings rest_calls = length new \<or> left_open \<and> signings rest_calls = length new + 1"
          using k2 go(1) by (rule Suc.IH [rotated])
        then show ?thesis using sg go(2) at2
          by (intro Suc.prems(1) [of "srTxID res # new" left_open]) (auto simp: signings_def tip2_def)
      qed
    qed
  qed
qed

lemma unat_next: "unat g + 1 < 2 ^ 64 \<Longrightarrow> unat (g + 1) = unat g + 1" for g :: u64
  by (simp add: unat_word_ariths)

lemma probe_view_old: "unat h \<le> unat g \<Longrightarrow> unat g + length new + 1 < 2 ^ 64 \<Longrightarrow> probe_view g new left_open h old = old"
proof (induction g new left_open h old rule: probe_view.induct)
  case (1 g left_open h old)
  then have "h \<noteq> g + 1" using unat_next [of g] by auto
  then show ?case by simp
next
  case (2 g t ts left_open h old)
  then have u: "unat (g + 1) = unat g + 1" by (simp add: unat_next)
  then have "h \<noteq> g + 1" using "2.prems"(1) by auto
  then show ?case using 2 u by simp
qed

lemma probe_view_at:
  "unat g + length new + 1 < 2 ^ 64 \<Longrightarrow> unat h = unat g + 1 + j \<Longrightarrow>
     probe_view g new left_open h old =
       (if j < length new then Some (new ! j, StatusBroadcast, '''')
        else if left_open \<and> j = length new then Some ('''', StatusAttempting, '''') else old)"
proof (induction g new left_open h old arbitrary: j rule: probe_view.induct)
  case (1 g left_open h old)
  then have "h = g + 1 \<longleftrightarrow> j = 0" using unat_next [of g] by (auto simp: word_unat_eq_iff)
  then show ?case by simp
next
  case (2 g t ts left_open h old)
  then have u: "unat (g + 1) = unat g + 1" by (simp add: unat_next)
  show ?case
  proof (cases j)
    case 0
    then have "h = g + 1" using "2.prems"(2) u by (simp add: word_unat_eq_iff)
    then show ?thesis using 0 "2.prems"(1) u by (simp add: probe_view_old)
  next
    case (Suc i)
    then have "h \<noteq> g + 1" "unat h = unat (g + 1) + 1 + i" using "2.prems"(2) u by auto
    then show ?thesis using "2.IH" [of i] "2.prems"(1) u Suc by simp
  qed
qed

text \<open>Claim C36: a probe accounts for everything it has signed.  Wherever it stops (the depth asked for, an interrupt, a
  refusal it sampled, an error), the record of every other cell is what it was, every transaction it built
  is recorded as broadcast on its own generation above the tip, and it has had at most one more signed, in which
  case the generation after those is recorded as attempted: the next derivation finds the cell halted and
  unknown, never on an output that is spent.\<close>

theorem probe_accounts:
  assumes "cmdDepthProbe K l arcade P D cell maxDepth (run_store pg ops) = (out, built, s', calls)"
    and "tool_tip K l arcade D cell (run_store pg ops) = Inr tip" and "unat (Generation tip) + nat maxDepth + 1 < 2 ^ 64"
  shows "(\<forall>h c. c \<noteq> cell \<or> h \<le> Generation tip \<longrightarrow> CellAt s' h c = CellAt (run_store pg ops) h c)
    \<and> (\<forall>j < length built. CellAt s' (Generation tip + 1 + of_nat j) cell = Some (built ! j, StatusBroadcast, ''''))
    \<and> (signings calls = length built
       \<or> signings calls = length built + 1 \<and> CellAt s' (Generation tip + 1 + of_nat (length built)) cell = Some ('''', StatusAttempting, ''''))"
proof -
  obtain r where l: "probe_loop P D cell (nat maxDepth) 1 tip [] (run_store pg ops) = (r, built, s', calls)"
    using assms(1,2) by (auto simp: cmdDepthProbe_def split: prod.splits option.splits if_splits)
  obtain new left_open where w: "built = [] @ new" "keys_ok s'" "length new \<le> nat maxDepth"
    "\<forall>h c. CellAt s' h c = (if c = cell then probe_view (Generation tip) new left_open h (CellAt (run_store pg ops) h c) else CellAt (run_store pg ops) h c)"
    "signings calls = length new \<or> left_open \<and> signings calls = length new + 1"
    using keys_ok_run l by (rule probe_loop_record)
  have fits: "unat (Generation tip) + length new + 1 < 2 ^ 64" using assms(3) w(3) by linarith
  have gen: "unat (Generation tip + 1 + of_nat j) = unat (Generation tip) + 1 + j" if "j \<le> length new" for j
    using fits that by (simp add: unat_word_ariths unsigned_of_nat take_bit_nat_eq_self)
  show ?thesis
    using w probe_view_at [OF fits gen] probe_view_old [OF _ fits] by (auto simp: word_le_nat_alt)
qed

subsection \<open>Witnesses\<close>

text \<open>The ring of eight with no record yet: cell 0 is stepped by hand, and stepped again.\<close>

definition demo_session :: tool_session where
  "demo_session = \<lparr>teCompiled = demo_compiled, teFacts = demo_deployment, teOwner = tool_owner ''step'' 1\<rparr>"

definition hand_step :: "store \<Rightarrow> (tool_error + chain_step) \<times> store \<times> wallet_call list" where
  "hand_step = cmdStep demo_codec (demo_ledger []) None demo_wallet step_sdk demo_session 0 int"

definition asks_for :: "u64 \<Rightarrow> wallet_call list \<Rightarrow> bool" where
  "asks_for g calls = list_ex (\<lambda>c. case c of CallCreate a \<Rightarrow> saGeneration a = g | _ \<Rightarrow> False) calls"

lemma asks_forE: "asks_for g calls \<Longrightarrow> \<exists>a. CallCreate a \<in> set calls \<and> saGeneration a = g"
proof -
  assume "asks_for g calls"
  then obtain c where "c \<in> set calls" "case c of CallCreate a \<Rightarrow> saGeneration a = g | _ \<Rightarrow> False"
    by (auto simp: asks_for_def list_ex_iff)
  then show ?thesis by (cases c rule: wallet_call.exhaust) auto
qed

lemma signs_some: "signings calls \<noteq> 0 \<Longrightarrow> \<exists>r u. CallSign r u \<in> set calls"
proof -
  assume "signings calls \<noteq> 0"
  then obtain c where "c \<in> set calls" "case c of CallSign _ _ \<Rightarrow> True | _ \<Rightarrow> False"
    by (auto simp: signings_def filter_empty_conv)
  then show ?thesis by (cases c rule: wallet_call.exhaust) auto
qed

lemma hand_steps:
  "case hand_step (run_store False []) of (out, s1, calls) \<Rightarrow>
     asks_for 1 calls \<and> signings calls = 1 \<and> asks_for 2 (snd (snd (hand_step s1)))"
  by code_simp

theorem step_never_signs_twice_witness:
  "\<exists>out s1 calls a r u out2 s2 calls2 a2. hand_step (run_store False []) = (out, s1, calls) \<and> CallSign r u \<in> set calls
     \<and> CallCreate a \<in> set calls \<and> hand_step s1 = (out2, s2, calls2) \<and> CallCreate a2 \<in> set calls2 \<and> saGeneration a < saGeneration a2"
proof -
  obtain out s1 calls where one: "hand_step (run_store False []) = (out, s1, calls)" by (metis prod_cases3)
  obtain out2 s2 calls2 where two: "hand_step s1 = (out2, s2, calls2)" by (metis prod_cases3)
  have v: "asks_for 1 calls" "signings calls \<noteq> 0" "asks_for 2 calls2" using hand_steps one two by auto
  obtain a a2 r u where c: "CallCreate a \<in> set calls" "saGeneration a = 1" "CallSign r u \<in> set calls"
    "CallCreate a2 \<in> set calls2" "saGeneration a2 = 2" using asks_forE [OF v(1)] signs_some [OF v(2)] asks_forE [OF v(3)] by blast
  have named: "\<forall>r u i raw. wSign demo_wallet r u = Inr (i, raw) \<longrightarrow> i \<noteq> ''''" "GenesisTxID (teFacts demo_session) \<noteq> ''''"
    by (simp_all add: demo_wallet_def demo_session_def demo_deployment_def)
  have "saGeneration a \<noteq> 0" using c(2) by simp
  from step_never_signs_twice [OF one [unfolded hand_step_def] c(3,1) this named two [unfolded hand_step_def] refl] c
  have "saGeneration a < saGeneration a2" by auto
  then show ?thesis using one two c by blast
qed

text \<open>A state file that remembers cell 0 one generation further than the record does.\<close>

definition legacy_session :: tool_session where
  "legacy_session = demo_session\<lparr>teFacts := demo_deployment\<lparr>legacyTips := [demo_next]\<rparr>\<rparr>"

lemma legacy_run:
  "case cmdImportTips demo_codec (demo_ledger []) legacy_session True 1 (run_store False []) of (out, s') \<Rightarrow>
     (case out of Inr rp \<Rightarrow> imSkipped rp = 0 \<and> length (imOk rp) = 1 | _ \<Rightarrow> False)
     \<and> (case DeriveTips demo_codec (demo_ledger []) demo_compiled (teFacts legacy_session) s' of Inr ps \<Rightarrow> True | _ \<Rightarrow> False)"
  "case DeriveTips demo_codec (demo_ledger []) demo_compiled (teFacts legacy_session) (run_store False []) of
     Inr ps \<Rightarrow> CheckMigrationFloor (run_store False []) None ps [demo_next] = [(0, 0, 1)] | _ \<Rightarrow> False"
  by code_simp+

theorem import_clears_floor_witness:
  "\<exists>rp s' ps'. cmdImportTips demo_codec (demo_ledger []) legacy_session True 1 (run_store False []) = (Inr rp, s')
     \<and> DeriveTips demo_codec (demo_ledger []) demo_compiled (teFacts legacy_session) s' = Inr ps'
     \<and> CheckMigrationFloor s' None ps' [demo_next] = []"
proof -
  obtain rp s' ps' where r: "cmdImportTips demo_codec (demo_ledger []) legacy_session True 1 (run_store False []) = (Inr rp, s')"
    "DeriveTips demo_codec (demo_ledger []) demo_compiled (teFacts legacy_session) s' = Inr ps'"
    using legacy_run(1) by (auto split: prod.splits sum.splits)
  have "legacyTips (teFacts legacy_session) = [demo_next]" by (simp add: legacy_session_def)
  then show ?thesis using import_clears_floor [OF r(1)] r by auto
qed

lemma recover_dry:
  assumes "keys_ok s" and "cmdRecover K l arcade D False retryRefused now s = (rp, s')"
  shows "s' = s"
  using assms recover_loop_ok [OF assms(1)] by (auto simp: cmdRecover_def Recover_def split: sum.splits)

theorem recover_report_exact_witness:
  "\<exists>rp. cmdRecover demo_codec (demo_ledger []) None demo_session False False 5 (run_store False demo_ops) = (Inr rp, run_store False demo_ops)
     \<and> (\<exists>seen why. (0, seen, why) \<in> set (rrStuck rp))"
proof -
  have "case fst (cmdRecover demo_codec (demo_ledger []) None demo_session False False 5 (run_store False demo_ops)) of Inr v \<Rightarrow> True | _ \<Rightarrow> False"
    by code_simp
  then obtain rp s' where r: "cmdRecover demo_codec (demo_ledger []) None demo_session False False 5 (run_store False demo_ops) = (Inr rp, s')"
    by (auto split: sum.splits simp: prod_eq_iff)
  have ring: "0 < dCells (teFacts demo_session)" by (simp add: demo_session_def demo_deployment_def)
  have s': "s' = run_store False demo_ops" by (rule recover_dry [OF keys_ok_run r])
  have "CellAt (run_store False demo_ops) 2 0 = Some (''cc'', StatusFailed, ''no'')" by code_simp
  then have "2 \<in> records_above s' 0 StatusFailed 1" by (simp add: records_above_def s')
  then have "\<exists>seen why. (0, seen, why) \<in> set (rrStuck rp)"
    using conjunct1 [OF conjunct2 [OF recover_report_exact [OF r order.refl ring demo_settled [folded s']]]] by auto
  then show ?thesis using r s' by blast
qed

definition demo_probe :: "step_wallet \<Rightarrow> probe_env" where
  "demo_probe W = \<lparr>pbAlive = (\<lambda>_. True), pbLook = (\<lambda>_ _. Inr None), pbNow = int, pbWallet = W, pbSdk = step_sdk\<rparr>"

lemma probe_run:
  "case cmdDepthProbe demo_codec (demo_ledger []) None (demo_probe demo_wallet) demo_session 0 5 (run_store False []) of
     (out, built, s', calls) \<Rightarrow> built = [''bb''] \<and> signings calls = 1"
  "case tool_tip demo_codec (demo_ledger []) None demo_session 0 (run_store False []) of Inr tip \<Rightarrow> Generation tip = 0 | _ \<Rightarrow> False"
  by code_simp+

theorem probe_accounts_witness:
  "\<exists>out s' calls. cmdDepthProbe demo_codec (demo_ledger []) None (demo_probe demo_wallet) demo_session 0 5 (run_store False []) = (out, [''bb''], s', calls)
     \<and> CellAt s' 1 0 = Some (''bb'', StatusBroadcast, '''')"
proof -
  obtain out s' calls where r: "cmdDepthProbe demo_codec (demo_ledger []) None (demo_probe demo_wallet) demo_session 0 5 (run_store False [])
      = (out, [''bb''], s', calls)" using probe_run(1) by (auto split: prod.splits)
  obtain tip where t: "tool_tip demo_codec (demo_ledger []) None demo_session 0 (run_store False []) = Inr tip" "Generation tip = 0"
    using probe_run(2) by (auto split: sum.splits)
  then show ?thesis using probe_accounts [OF r t(1)] r by auto
qed

text \<open>With nothing to spend the wallet builds nothing and the probe says so; but unlike a step by hand it does not take
  back the attempt it wrote.  Nothing was signed, and the cell is halted as unknown.\<close>

lemma probe_leaves_attempt:
  "let broke = demo_wallet\<lparr>wCreate := (\<lambda>_. Inl ''not enough funds'')\<rparr> in
   (case cmdDepthProbe demo_codec (demo_ledger []) None (demo_probe broke) demo_session 0 5 (run_store False []) of
      (out, built, s', calls) \<Rightarrow> (case out of Inl NothingBuilt \<Rightarrow> True | _ \<Rightarrow> False) \<and> signings calls = 0
        \<and> CellAt s' 1 0 = Some ('''', StatusAttempting, '''')
        \<and> (case DeriveTips demo_codec (demo_ledger []) demo_compiled demo_deployment s' of Inr ps \<Rightarrow> Halted (ps ! 0) | _ \<Rightarrow> False))
   \<and> (case cmdStep demo_codec (demo_ledger []) None broke step_sdk demo_session 0 int (run_store False []) of
      (out, s', calls) \<Rightarrow> CellAt s' 1 0 = None)"
  by code_simp

end
