(* ===== verification/Wiring.thy ===== *)
theory Wiring
  imports Costs Payments
begin

text \<open>
  The wiring of the wallet, \<open>internal/chain/chain.go\<close>: what \<open>Open\<close> builds from a configuration and in which order,
  what it closes again when a step fails, and what \<open>Close\<close> releases.  With it the fuel keeper's configuration
  (\<open>fuel.go\<close>) and the choice of the wallet's database, which the pruner and the transaction reader make for
  themselves (\<open>prune.go\<close>, \<open>txreader.go\<close>).  The services are third-party: what each answers is a field of
  a record, and starting or closing one is an entry in a log.
\<close>

subsection \<open>Where the wallet's database is\<close>

text \<open>\<open>filepath.Join\<close>: empty and \<open>.\<close> elements vanish, \<open>..\<close> takes the element before it.\<close>

fun split_slash :: "string \<Rightarrow> string list" where
  "split_slash [] = [[]]"
| "split_slash (c # cs) =
     (if c = CHR ''/'' then [] # split_slash cs
      else case split_slash cs of [] \<Rightarrow> [[c]] | p # ps \<Rightarrow> (c # p) # ps)"

fun clean_parts :: "bool \<Rightarrow> string list \<Rightarrow> string list \<Rightarrow> string list" where
  "clean_parts rooted [] out = rev out"
| "clean_parts rooted (p # ps) out =
     (if p = '''' \<or> p = ''.'' then clean_parts rooted ps out
      else if p = ''..'' then
        (case out of
           [] \<Rightarrow> clean_parts rooted ps (if rooted then [] else [p])
         | q # rest \<Rightarrow> clean_parts rooted ps (if q = ''..'' then p # out else rest))
      else clean_parts rooted ps (p # out))"

fun join_slash :: "string list \<Rightarrow> string" where
  "join_slash [] = []"
| "join_slash [p] = p"
| "join_slash (p # ps) = p @ ''/'' @ join_slash ps"

definition path_clean :: "string \<Rightarrow> string" where
  "path_clean p =
     (if p = '''' then ''.''
      else let rooted = (hd p = CHR ''/''); s = join_slash (clean_parts rooted (split_slash p) []) in
        if rooted then ''/'' @ s else if s = '''' then ''.'' else s)"

definition path_join :: "string \<Rightarrow> string \<Rightarrow> string" where
  "path_join dir f = (if dir = '''' then path_clean f else path_clean (dir @ ''/'' @ f))"

datatype backend = BackendSQLite string | BackendPostgres string

definition wallet_backend :: "chain_config \<Rightarrow> backend" where
  "wallet_backend cfg =
     (if PostgresDSN cfg \<noteq> '''' then BackendPostgres (PostgresDSN cfg)
      else BackendSQLite (path_join (DataDir cfg) ''wallet.db''))"

definition sqliteWalletDSN :: "string \<Rightarrow> string" where
  "sqliteWalletDSN dir = path_join dir ''wallet.db'' @ ''?'' @
     ''_busy_timeout=5000&_foreign_keys=on&_journal_mode=WAL&_pragma=synchronous%28NORMAL%29&_txlock=immediate''"

text \<open>The driver, its target and whether placeholders are numbered.\<close>

definition direct_database :: "chain_config \<Rightarrow> string \<times> string \<times> bool" where
  "direct_database cfg =
     (if PostgresDSN cfg \<noteq> '''' then (''pgx'', PostgresDSN cfg, True) else (''sqlite'', sqliteWalletDSN (DataDir cfg), False))"

lemma direct_is_wallet:
  "direct_database cfg =
     (case wallet_backend cfg of
        BackendPostgres dsn \<Rightarrow> (''pgx'', dsn, True)
      | BackendSQLite path \<Rightarrow> (''sqlite'', path @ drop (length path) (sqliteWalletDSN (DataDir cfg)), False))"
  by (simp add: direct_database_def wallet_backend_def sqliteWalletDSN_def)

lemma path_join_examples:
  "path_join ''./data'' ''wallet.db'' = ''data/wallet.db''" "path_join ''/var//lib/../data/'' ''wallet.db'' = ''/var/data/wallet.db''"
  "path_join ''..'' ''wallet.db'' = ''../wallet.db''" "path_join '''' ''wallet.db'' = ''wallet.db''"
  by code_simp+

subsection \<open>What is opened\<close>

datatype service = TheProvider | TheWallet | TheMonitor | TheRecord

datatype lifecycle = Opened service | Closed service

record arcade_config =
  acURL :: string
  acEventsURL :: string
  acCallbackToken :: string
  acFullStatusUpdates :: bool

text \<open>The storage options that the covenant and the throughput rest on.\<close>

record storage_options =
  soMaxChangeOutputs :: int
  soFeeRate :: int
  soMinBroadcastFeeRate :: int
  soUTXOManagement :: "(u64 \<times> u64) option"
  soRequiredChange :: bool
  soDirectInputBEEF :: bool
  soSendConcurrency :: int
  soChronicle :: bool

record provider_config =
  pcBackend :: backend
  pcNetwork :: string
  pcStorageName :: string
  pcMaxDBConns :: int
  pcExtra :: storage_options

definition storageName :: string where "storageName = ''rule110-storage''"

definition storage_extra :: "chain_config \<Rightarrow> (u64 \<times> u64) option \<Rightarrow> storage_options" where
  "storage_extra cfg um =
     \<lparr>soMaxChangeOutputs = 1, soFeeRate = FeeSatPerKB cfg, soMinBroadcastFeeRate = MinBroadcastFeeRate cfg, soUTXOManagement = um,
      soRequiredChange = True, soDirectInputBEEF = True, soSendConcurrency = 64, soChronicle = Chronicle cfg\<rparr>"

definition provider_of :: "chain_config \<Rightarrow> (u64 \<times> u64) option \<Rightarrow> provider_config" where
  "provider_of cfg um =
     \<lparr>pcBackend = wallet_backend cfg, pcNetwork = Network cfg, pcStorageName = storageName, pcMaxDBConns = MaxDBConns cfg,
      pcExtra = storage_extra cfg um\<rparr>"

text \<open>What the outside answers: the URL parser and the toolbox's networks, the keys, the key file's world, and each
  service.\<close>

record open_site =
  osParse :: "string \<Rightarrow> string + string \<times> string"
  osNetwork :: "string \<Rightarrow> string option"
  osKeys :: key_library
  osSha256 :: "bytes \<Rightarrow> bytes"
  osToolbox :: toolbox
  osKeyWorld :: key_world
  osHeaders :: "string \<Rightarrow> string option"
  osProvider :: "provider_config \<Rightarrow> string option"
  osMigrate :: "string \<Rightarrow> string \<Rightarrow> string option"
  osNewWallet :: "string \<Rightarrow> string \<Rightarrow> string option"
  osIdentityKey :: "string + string"
  osNewDaemon :: "int \<Rightarrow> string option"
  osStartDaemon :: "string option"
  osClose :: "service \<Rightarrow> string option"

datatype open_error =
    OpenConfig config_error
  | OpenIdentity identity_error
  | OpenKeys payment_error
  | OpenHeaders string
  | OpenPool string
  | OpenProvider string
  | OpenMigrate string
  | OpenWallet string
  | OpenIdentityKey string
  | OpenMonitor string
  | StartMonitor string

record chain_handle =
  hdConfig :: chain_config
  hdIdentity :: identity
  hdOracle :: arcade_config
  hdHeaders :: string
  hdProvider :: provider_config
  hdWallet :: bool
  hdIdentityKey :: string
  hdClosers :: "service list"

subsection \<open>Closing\<close>

fun close_loop :: "(service \<Rightarrow> string option) \<Rightarrow> service list \<Rightarrow> string option \<Rightarrow> string option \<times> lifecycle list" where
  "close_loop fails [] firstErr = (firstErr, [])"
| "close_loop fails (f # fs) firstErr =
     (case close_loop fails fs (if fails f \<noteq> None \<and> firstErr = None then fails f else firstErr) of
        (err, acts) \<Rightarrow> (err, Closed f # acts))"

definition close_chain :: "(service \<Rightarrow> string option) \<Rightarrow> chain_handle \<Rightarrow> string option \<times> lifecycle list" where
  "close_chain fails c =
     (case close_loop fails (hdClosers c) None of
        (err, acts) \<Rightarrow> (err, (if hdWallet c then [Closed TheWallet] else []) @ acts))"

subsection \<open>Opening\<close>

text \<open>The key file and the log of what was opened and closed go with the answer.\<close>

definition Open :: "open_site \<Rightarrow> chain_config \<Rightarrow> key_file \<Rightarrow> (open_error + chain_handle) \<times> key_file \<times> lifecycle list" where
  "Open S cfg0 keys =
     (case Validate (osParse S) (osNetwork S) cfg0 of
        (cfg, Some e) \<Rightarrow> (Inl (OpenConfig e), keys, [])
      | (cfg, None) \<Rightarrow>
     (case LoadOrCreateIdentity (osKeyWorld S) keys of
        (Inl e, keys) \<Rightarrow> (Inl (OpenIdentity e), keys, [])
      | (Inr d, keys) \<Rightarrow>
     (case CallbackToken (osKeys S) (osSha256 S) d of
        Inl e \<Rightarrow> (Inl (OpenKeys e), keys, [])
      | Inr token \<Rightarrow>
         (let oracle = \<lparr>acURL = ArcadeURL cfg, acEventsURL = eventsURL cfg, acCallbackToken = token,
                acFullStatusUpdates = FullStatusUpdates cfg\<rparr> in
     (case osHeaders S (chainTracksURL cfg) of
        Some e \<Rightarrow> (Inl (OpenHeaders e), keys, [])
      | None \<Rightarrow>
     (case utxoManagement (osToolbox S) cfg of
        Inl e \<Rightarrow> (Inl (OpenPool e), keys, [])
      | Inr um \<Rightarrow>
     (case osProvider S (provider_of cfg um) of
        Some e \<Rightarrow> (Inl (OpenProvider e), keys, [])
      | None \<Rightarrow>
         (let acts = [Opened TheProvider];
              c = \<lparr>hdConfig = cfg, hdIdentity = d, hdOracle = oracle, hdHeaders = chainTracksURL cfg,
                   hdProvider = provider_of cfg um, hdWallet = False, hdIdentityKey = '''', hdClosers = [TheProvider]\<rparr> in
     (case WalletPublicKeyHex (osKeys S) d of
        Inl e \<Rightarrow> (Inl (OpenKeys e), keys, acts @ snd (close_chain (osClose S) c))
      | Inr walletPub \<Rightarrow>
     (case osMigrate S storageName walletPub of
        Some e \<Rightarrow> (Inl (OpenMigrate e), keys, acts @ snd (close_chain (osClose S) c))
      | None \<Rightarrow>
     (case osNewWallet S (Network cfg) (WalletKeyHex d) of
        Some e \<Rightarrow> (Inl (OpenWallet e), keys, acts @ snd (close_chain (osClose S) c))
      | None \<Rightarrow>
         (let acts = acts @ [Opened TheWallet]; c = c\<lparr>hdWallet := True\<rparr> in
     (case osIdentityKey S of
        Inl e \<Rightarrow> (Inl (OpenIdentityKey e), keys, acts @ snd (close_chain (osClose S) c))
      | Inr pub \<Rightarrow>
         (let c = c\<lparr>hdIdentityKey := pub\<rparr> in
     (case osNewDaemon S (ApplyConcurrency cfg) of
        Some e \<Rightarrow> (Inl (OpenMonitor e), keys, acts @ snd (close_chain (osClose S) c))
      | None \<Rightarrow>
     (case osStartDaemon S of
        Some e \<Rightarrow> (Inl (StartMonitor e), keys, acts @ snd (close_chain (osClose S) c))
      | None \<Rightarrow> (Inr (c\<lparr>hdClosers := TheMonitor # hdClosers c\<rparr>), keys, acts @ [Opened TheMonitor])))))))))))))))))"

subsection \<open>What a failed opening leaves, and what a handle releases\<close>

text \<open>The services held along a log; none if something is opened twice or closed without being open.\<close>

fun holding :: "service set \<Rightarrow> lifecycle list \<Rightarrow> service set option" where
  "holding held [] = Some held"
| "holding held (Opened s # acts) = (if s \<in> held then None else holding (insert s held) acts)"
| "holding held (Closed s # acts) = (if s \<in> held then holding (held - {s}) acts else None)"

lemma holding_append:
  "holding held (xs @ ys) = (case holding held xs of None \<Rightarrow> None | Some h \<Rightarrow> holding h ys)"
  by (induction held xs rule: holding.induct) simp_all

lemma close_loop_log: "snd (close_loop fails fs e) = map Closed fs"
  by (induction fs arbitrary: e) (simp_all add: split_beta)

lemma close_loop_first:
  "fst (close_loop fails fs e) = (if e \<noteq> None then e else case find (\<lambda>f. fails f \<noteq> None) fs of None \<Rightarrow> None | Some f \<Rightarrow> fails f)"
  by (induction fs arbitrary: e) (auto simp: split_beta)

lemma close_chain_exact:
  "snd (close_chain fails c) = (if hdWallet c then [Closed TheWallet] else []) @ map Closed (hdClosers c)"
  "fst (close_chain fails c) = (case find (\<lambda>f. fails f \<noteq> None) (hdClosers c) of None \<Rightarrow> None | Some f \<Rightarrow> fails f)"
  using close_loop_log [of fails "hdClosers c" None] close_loop_first [of fails "hdClosers c" None]
  by (cases "close_loop fails (hdClosers c) None", simp add: close_chain_def)+

lemma open_outcome:
  assumes "Open S cfg keys = (r, keys', acts)"
  shows "(\<forall>e. r = Inl e \<longrightarrow> holding {} acts = Some {})
    \<and> (\<forall>c. r = Inr c \<longrightarrow> acts = [Opened TheProvider, Opened TheWallet, Opened TheMonitor]
        \<and> hdWallet c \<and> hdClosers c = [TheMonitor, TheProvider]
        \<and> Validate (osParse S) (osNetwork S) cfg = (hdConfig c, None)
        \<and> LoadOrCreateIdentity (osKeyWorld S) keys = (Inr (hdIdentity c), keys')
        \<and> CallbackToken (osKeys S) (osSha256 S) (hdIdentity c) = Inr (acCallbackToken (hdOracle c))
        \<and> pcBackend (hdProvider c) = wallet_backend (hdConfig c)
        \<and> utxoManagement (osToolbox S) (hdConfig c) = Inr (soUTXOManagement (pcExtra (hdProvider c))))"
  using assms
  by (auto simp: Open_def close_chain_exact holding_append Let_def provider_of_def storage_extra_def
      split: prod.splits option.splits sum.splits)

text \<open>Claim C37: every start leaves nothing behind.  When \<open>Open\<close> fails, at whatever step, each service it had started is
  closed, once, and none that it had not; when it succeeds the provider, the wallet and the monitor are
  running, and \<open>Close\<close> then closes each once, the monitor before the storage it writes to, whatever errors
  it meets, and reports the first of them.  The handle carries the validated configuration.\<close>

theorem opened_is_released:
  assumes "Open S cfg keys = (r, keys', acts)"
  shows "case r of
      Inl e \<Rightarrow> holding {} acts = Some {}
    | Inr c \<Rightarrow> holding {} acts = Some {TheProvider, TheWallet, TheMonitor}
        \<and> Validate (osParse S) (osNetwork S) cfg = (hdConfig c, None)
        \<and> (\<forall>fails. holding {} (acts @ snd (close_chain fails c)) = Some {}
            \<and> snd (close_chain fails c) = [Closed TheWallet, Closed TheMonitor, Closed TheProvider]
            \<and> fst (close_chain fails c) = (case fails TheMonitor of Some e \<Rightarrow> Some e | None \<Rightarrow> fails TheProvider))"
proof (cases r)
  case (Inl e)
  then show ?thesis using open_outcome [OF assms] by simp
next
  case (Inr c)
  then have c: "acts = [Opened TheProvider, Opened TheWallet, Opened TheMonitor]" "hdWallet c" "hdClosers c = [TheMonitor, TheProvider]"
    "Validate (osParse S) (osNetwork S) cfg = (hdConfig c, None)" using open_outcome [OF assms] by simp_all
  show ?thesis unfolding Inr by (auto simp: c close_chain_exact split: option.splits)
qed

text \<open>The event stream's token is the deployment's: every later opening over the key file the first left, with whatever
  configuration, finds the same keys and asks for the same stream.\<close>

lemma token_survives_restart:
  assumes "Open S cfg keys = (Inr c, keys', acts)" and "Open S' cfg' keys' = (Inr c', keys'', acts')"
    and "osKeys S' = osKeys S" and "osSha256 S' = osSha256 S"
  shows "hdIdentity c' = hdIdentity c \<and> acCallbackToken (hdOracle c') = acCallbackToken (hdOracle c) \<and> keys'' = keys'"
proof -
  have a: "LoadOrCreateIdentity (osKeyWorld S) keys = (Inr (hdIdentity c), keys')"
    "CallbackToken (osKeys S) (osSha256 S) (hdIdentity c) = Inr (acCallbackToken (hdOracle c))"
    using open_outcome [OF assms(1)] by simp_all
  have b: "LoadOrCreateIdentity (osKeyWorld S') keys' = (Inr (hdIdentity c'), keys'')"
    "CallbackToken (osKeys S) (osSha256 S) (hdIdentity c') = Inr (acCallbackToken (hdOracle c'))"
    using open_outcome [OF assms(2)] assms(3,4) by simp_all
  have "keys' = KeyFile (Inr (hdIdentity c))"
    using a(1) by (auto simp: LoadOrCreateIdentity_def Let_def split: option.splits key_file.splits sum.splits if_splits)
  then have "hdIdentity c' = hdIdentity c \<and> keys'' = keys'"
    using b(1) by (auto simp: LoadOrCreateIdentity_def split: option.splits if_splits)
  then show ?thesis using a(2) b(2) by simp
qed

subsection \<open>Waiting for coins, and the keeper\<close>

datatype wait_error = CountFailed string | NothingClaimable u64 | WaitCancelled

text \<open>\<open>WaitForClaimableFunds\<close>: each look at the change basket with the time after it; running out of looks is the
  caller's context ending.  The balance is only reported, and is zero when it cannot be read.\<close>

fun wait_loop :: "int \<Rightarrow> (string + u64) \<Rightarrow> ((string + int) \<times> int) list \<Rightarrow> wait_error option" where
  "wait_loop deadline balance [] = Some WaitCancelled"
| "wait_loop deadline balance ((answer, now) # rest) =
     (case answer of
        Inl e \<Rightarrow> Some (CountFailed e)
      | Inr n \<Rightarrow>
         if n > 0 then None
         else if now > deadline then Some (NothingClaimable (case balance of Inl _ \<Rightarrow> 0 | Inr b \<Rightarrow> b))
         else wait_loop deadline balance rest)"

definition WaitForClaimableFunds :: "int \<Rightarrow> int \<Rightarrow> (string + u64) \<Rightarrow> ((string + int) \<times> int) list \<Rightarrow> wait_error option" where
  "WaitForClaimableFunds start timeout balance looks = wait_loop (start + timeout) balance looks"

text \<open>It returns only on a coin it has seen, and gives up only on a look after the deadline that found none.\<close>

lemma wait_returns:
  "WaitForClaimableFunds start timeout balance looks = None \<Longrightarrow> \<exists>n now. (Inr n, now) \<in> set looks \<and> 0 < n"
  "WaitForClaimableFunds start timeout balance looks = Some (NothingClaimable b) \<Longrightarrow>
     \<exists>n now. (Inr n, now) \<in> set looks \<and> n \<le> 0 \<and> start + timeout < now"
proof -
  have "wait_loop d balance looks = None \<Longrightarrow> \<exists>n now. (Inr n, now) \<in> set looks \<and> 0 < n"
    "wait_loop d balance looks = Some (NothingClaimable b) \<Longrightarrow> \<exists>n now. (Inr n, now) \<in> set looks \<and> n \<le> 0 \<and> d < now" for d
    by (induction d balance looks rule: wait_loop.induct) (auto split: sum.splits if_splits; force)+
  then show "WaitForClaimableFunds start timeout balance looks = None \<Longrightarrow> \<exists>n now. (Inr n, now) \<in> set looks \<and> 0 < n"
    "WaitForClaimableFunds start timeout balance looks = Some (NothingClaimable b) \<Longrightarrow>
     \<exists>n now. (Inr n, now) \<in> set looks \<and> n \<le> 0 \<and> start + timeout < now"
    by (simp_all add: WaitForClaimableFunds_def)
qed

text \<open>\<open>ClaimableCoins\<close>, over the wallet's coin counts by basket.\<close>

definition ClaimableCoins :: "toolbox \<Rightarrow> (string \<Rightarrow> string + int) \<Rightarrow> chain_config \<Rightarrow> string + int" where
  "ClaimableCoins tb coins c =
     coins (case FuelPool tb c of (pool, _, _, enabled) \<Rightarrow> if enabled then pool else BasketNameForChange tb)"

text \<open>The keeper's settings that the code overrides; the others are the toolbox's.\<close>

record keeper_config =
  kcOriginator :: string
  kcTargetPoolSize :: u64
  kcMintConcurrency :: int
  kcDisableStreamYield :: bool
  kcStreamLeafCap :: int
  kcRecycleBasket :: string
  kcChunkFeeHeadroom :: u64

definition fuelKeeperConfig :: "toolbox \<Rightarrow> ((u64 \<times> u64) option \<Rightarrow> u64 \<Rightarrow> keeper_config) \<Rightarrow> chain_config \<Rightarrow> string + keeper_config" where
  "fuelKeeperConfig tb from_throughput c =
     (case utxoManagement tb c of
        Inl e \<Rightarrow> Inl e
      | Inr um \<Rightarrow>
         Inr ((from_throughput um (FuelDenomination c))
           \<lparr>kcOriginator := Originator c, kcTargetPoolSize := FuelPoolSize c, kcMintConcurrency := 64, kcDisableStreamYield := True,
            kcStreamLeafCap := 2000, kcRecycleBasket := BasketNameForChange tb, kcChunkFeeHeadroom := chunkFeeHeadroom c\<rparr>))"

text \<open>The keeper is started only for a pool; \<open>new\<close> is the toolbox's check of its settings.\<close>

definition RunFuelKeeper :: "toolbox \<Rightarrow> ((u64 \<times> u64) option \<Rightarrow> u64 \<Rightarrow> keeper_config) \<Rightarrow> (keeper_config \<Rightarrow> string option) \<Rightarrow> chain_config
    \<Rightarrow> string + keeper_config option" where
  "RunFuelKeeper tb from_throughput new_keeper c =
     (case FuelPool tb c of (_, denom, target, enabled) \<Rightarrow>
      if \<not> enabled then Inr None
      else case fuelKeeperConfig tb from_throughput c of
        Inl e \<Rightarrow> Inl e
      | Inr k \<Rightarrow> (case new_keeper k of Some e \<Rightarrow> Inl e | None \<Rightarrow> Inr (Some k)))"

text \<open>An opened handle never fails to configure its keeper, and the keeper mints the pool the wallet claims from.\<close>

lemma keeper_of_opened:
  assumes "Open S cfg keys = (Inr c, keys', acts)" and "new_keeper = (\<lambda>_. None)"
  shows "\<exists>k. RunFuelKeeper (osToolbox S) from_throughput new_keeper (hdConfig c) = Inr k
    \<and> (k = None \<longleftrightarrow> \<not> Throughput (hdConfig c))
    \<and> (\<forall>kc. k = Some kc \<longrightarrow> kcTargetPoolSize kc = FuelPoolSize (hdConfig c)
         \<and> soUTXOManagement (pcExtra (hdProvider c)) = Some (FuelDenomination (hdConfig c), kcTargetPoolSize kc))"
proof -
  have um: "utxoManagement (osToolbox S) (hdConfig c) = Inr (soUTXOManagement (pcExtra (hdProvider c)))"
    using open_outcome [OF assms(1)] by simp
  then show ?thesis
    by (cases "Throughput (hdConfig c)") (auto simp: RunFuelKeeper_def fuelKeeperConfig_def FuelPool_def assms(2) utxoManagement_def
        split: option.splits dest!: sym [of "Some _"])
qed

subsection \<open>A wallet that opens, and one whose monitor does not start\<close>

definition demo_open :: "string option \<Rightarrow> open_site" where
  "demo_open monitor =
     \<lparr>osParse = (\<lambda>u. Inr (''https'', ''arcade'')), osNetwork = (\<lambda>n. None), osKeys = demo_keys, osSha256 = (\<lambda>bs. replicate 32 7),
      osToolbox = demo_toolbox, osKeyWorld = \<lparr>kwMkdir = None, kwFresh = Inr ([1], [2], [3], [4]), kwWrite = None, kwRename = None\<rparr>,
      osHeaders = (\<lambda>u. None), osProvider = (\<lambda>p. None), osMigrate = (\<lambda>n k. None), osNewWallet = (\<lambda>n k. None),
      osIdentityKey = Inr ''02'', osNewDaemon = (\<lambda>n. None), osStartDaemon = monitor, osClose = (\<lambda>s. None)\<rparr>"

definition demo_flags :: chain_config where
  "demo_flags = (DefaultConfig ''tstn'')\<lparr>ArcadeURL := ''https://arcade/''\<rparr>"

lemma demo_opens:
  "\<exists>c keys acts. Open (demo_open None) demo_flags NoKeyFile = (Inr c, keys, acts)"
  "\<exists>keys acts. Open (demo_open (Some ''x'')) demo_flags NoKeyFile = (Inl (StartMonitor ''x''), keys, acts)"
proof -
  have "case Open (demo_open None) demo_flags NoKeyFile of (Inr c, _) \<Rightarrow> True | _ \<Rightarrow> False" by code_simp
  then show "\<exists>c keys acts. Open (demo_open None) demo_flags NoKeyFile = (Inr c, keys, acts)"
    by (auto split: prod.splits sum.splits)
  have "case Open (demo_open (Some ''x'')) demo_flags NoKeyFile of (Inl e, _) \<Rightarrow> e = StartMonitor ''x'' | _ \<Rightarrow> False" by code_simp
  then show "\<exists>keys acts. Open (demo_open (Some ''x'')) demo_flags NoKeyFile = (Inl (StartMonitor ''x''), keys, acts)"
    by (auto split: prod.splits sum.splits)
qed

theorem opened_is_released_witness:
  "\<exists>c keys acts acts'. Open (demo_open None) demo_flags NoKeyFile = (Inr c, keys, acts)
     \<and> fst (close_chain (\<lambda>s. if s = TheProvider then Some ''disk'' else None) c) = Some ''disk''
     \<and> Open (demo_open (Some ''x'')) demo_flags NoKeyFile = (Inl (StartMonitor ''x''), keys, acts') \<and> holding {} acts' = Some {}"
proof -
  obtain c keys acts where a: "Open (demo_open None) demo_flags NoKeyFile = (Inr c, keys, acts)" using demo_opens by blast
  obtain keys' acts' where b: "Open (demo_open (Some ''x'')) demo_flags NoKeyFile = (Inl (StartMonitor ''x''), keys', acts')"
    using demo_opens by blast
  have "fst (snd (Open (demo_open None) demo_flags NoKeyFile)) = fst (snd (Open (demo_open (Some ''x'')) demo_flags NoKeyFile))"
    by code_simp
  then have "keys' = keys" using a b by simp
  then show ?thesis using opened_is_released [OF a] opened_is_released [OF b] a b by simp
qed

end
