(* ===== verification/Commands.thy ===== *)
theory Commands
  imports Wiring Prune EngineRun Web
begin

text \<open>
  The commands that put the program together: \<open>cmd/rule110/main.go\<close> (\<open>address\<close>, \<open>fund\<close>, \<open>fuel\<close>, \<open>genesis\<close> and
  \<open>run\<close>), \<open>runsupport.go\<close> and \<open>prune.go\<close>.  The parsing of flags is the standard library's: a command takes the
  configuration that \<open>bindCommon\<close> and the flags made.  Printed lines are values.
\<close>

subsection \<open>Flags and their defaults\<close>

definition envOr :: "(string \<Rightarrow> string) \<Rightarrow> string \<Rightarrow> string \<Rightarrow> string" where
  "envOr env key fallback = (if env key \<noteq> '''' then env key else fallback)"

text \<open>\<open>strconv.ParseBool\<close>.\<close>

definition ParseBool :: "string \<Rightarrow> bool option" where
  "ParseBool s =
     (if s \<in> {''1'', ''t'', ''T'', ''TRUE'', ''true'', ''True''} then Some True
      else if s \<in> {''0'', ''f'', ''F'', ''FALSE'', ''false'', ''False''} then Some False else None)"

definition envBool :: "(string \<Rightarrow> string) \<Rightarrow> string \<Rightarrow> bool \<Rightarrow> bool" where
  "envBool env key fallback =
     (if env key = '''' then fallback else case ParseBool (env key) of None \<Rightarrow> fallback | Some b \<Rightarrow> b)"

text \<open>What the flags of every subcommand start from, and the network's name.\<close>

definition bindCommon :: "(string \<Rightarrow> string) \<Rightarrow> string \<Rightarrow> chain_config \<Rightarrow> chain_config \<times> string" where
  "bindCommon env tstn cfg =
     (cfg\<lparr>ArcadeURL := envOr env ''RULE110_ARCADE_URL'' '''', ChainTracksURL := envOr env ''RULE110_CHAINTRACKS_URL'' '''',
        EventsURL := envOr env ''RULE110_EVENTS_URL'' '''', DataDir := envOr env ''RULE110_DATA_DIR'' (DataDir cfg),
        PostgresDSN := envOr env ''RULE110_POSTGRES_DSN'' '''',
        chain_config.LockControls := envBool env ''RULE110_LOCK_CONTROLS'' (chain_config.LockControls cfg),
        PublicFunding := envBool env ''RULE110_PUBLIC_FUNDING'' (PublicFunding cfg)\<rparr>,
      envOr env ''RULE110_NETWORK'' tstn)"

datatype flag_error =
    RuleOutOfRange u64
  | UnknownNetwork string
  | CoinValueNeeded
  | CoinValueMismatch u64 u64

definition parseRule :: "u64 \<Rightarrow> flag_error + rule" where
  "parseRule n = (if n > 255 then Inl (RuleOutOfRange n) else Inr (ucast n))"

text \<open>\<open>known\<close> is the toolbox's list of networks.\<close>

definition parseNetwork :: "(string \<Rightarrow> string + string) \<Rightarrow> string \<Rightarrow> flag_error + string" where
  "parseNetwork known s = map_sum UnknownNetwork id (known (trim_space s))"

text \<open>A ring of a validated size has a cell 0, so the panic of \<open>Set\<close> cannot occur.\<close>

datatype seed_error = SeedRefused ca_error | SeedPanicked

definition seedFor :: "int \<Rightarrow> seed_error + row" where
  "seedFor n = (case SeedSingle n of Inl e \<Rightarrow> Inl (SeedRefused e) | Inr None \<Rightarrow> Inl SeedPanicked | Inr (Some row) \<Rightarrow> Inr row)"

definition seedRow :: "int \<Rightarrow> string \<Rightarrow> seed_error + row" where
  "seedRow n hexSeed = (if hexSeed = '''' then seedFor n else map_sum SeedRefused id (SeedHex n hexSeed))"

definition fuelCoinValue :: "toolbox \<Rightarrow> chain_config \<Rightarrow> u64 \<Rightarrow> flag_error + u64" where
  "fuelCoinValue tb cfg sats =
     (case FuelPool tb cfg of (_, denomination, _, throughput) \<Rightarrow>
      if \<not> throughput then (if sats = 0 then Inl CoinValueNeeded else Inr sats)
      else if sats = 0 \<or> sats = denomination then Inr denomination
      else Inl (CoinValueMismatch sats denomination))"

lemma parse_rule_exact: "parseRule n = Inr r \<longleftrightarrow> unat n < 256 \<and> unat r = unat n"
proof -
  have "n > 255 \<longleftrightarrow> \<not> unat n < 256" by (simp add: word_less_nat_alt not_less Suc_le_eq) linarith
  moreover have "unat (ucast n :: rule) = unat n" if "unat n < 256" using that by (simp add: unsigned_ucast_eq take_bit_nat_eq_self)
  ultimately show ?thesis by (auto simp: parseRule_def word_unat_eq_iff)
qed

text \<open>The two doors into a deployment start it from the same row.\<close>

lemma same_first_row: "seedRow n '''' = seedFor n"
  by (simp add: seedRow_def)

lemma single_seed:
  assumes "0 < n" and "8 dvd n"
  shows "\<exists>row. seedFor n = Inr row \<and> Cells row = n"
proof -
  let ?row = "replicate (nat (n div 8)) (0 :: u8)"
  have c: "Cells ?row = n" using assms by (simp add: Cells_def)
  then obtain row where r: "Set ?row 0 True = Some row" using assms(1) by (simp add: Set_eq)
  then have "seedFor n = Inr row" using NewRow_Inr [OF assms] by (simp add: seedFor_def SeedSingle_def)
  then show ?thesis using Set_length [OF r] c by (simp add: Cells_def)
qed

subsection \<open>The address and the operator's payment\<close>

datatype command_error =
    CommandFlag flag_error
  | CommandSeed seed_error
  | CommandIdentity identity_error
  | CommandPayment payment_error
  | CommandOpen open_error
  | TxAndBumpRequired
  | BalanceUnread string
  | CommandCompile script_error
  | CommandWait wait_error
  | CommandGenesis genesis_error
  | CommandCoins string
  | CommandFuel fuel_error

text \<open>\<open>mainnet\<close> is the toolbox's name of the network that uses the other address version.\<close>

definition cmdAddress :: "(string \<Rightarrow> string + string) \<Rightarrow> string \<Rightarrow> key_library \<Rightarrow> key_world \<Rightarrow> string \<Rightarrow> key_file
    \<Rightarrow> (command_error + funding_target) \<times> key_file" where
  "cmdAddress known mainnet L W network keys =
     (case parseNetwork known network of
        Inl e \<Rightarrow> (Inl (CommandFlag e), keys)
      | Inr net \<Rightarrow>
     (case LoadOrCreateIdentity W keys of
        (Inl e, keys) \<Rightarrow> (Inl (CommandIdentity e), keys)
      | (Inr d, keys) \<Rightarrow> (map_sum CommandPayment id (FundingAddress L d (net = mainnet)), keys)))"

text \<open>What a command that spends is given: the networks, what opening depends on, and the wallet's balance when it is
  asked for the first and the second time.\<close>

record command_site =
  csNetworks :: "string \<Rightarrow> string + string"
  csMainnet :: string
  csOpen :: open_site
  csBalance :: "nat \<Rightarrow> string + u64"

text \<open>Every exit after the opening goes through the deferred \<open>Close\<close>.\<close>

definition closing :: "command_site \<Rightarrow> chain_handle \<Rightarrow> lifecycle list" where
  "closing S c = snd (close_chain (osClose (csOpen S)) c)"

record fund_flags =
  ffTx :: string
  ffBump :: string
  ffVout :: u64
  ffDescription :: string

definition cmdFund :: "command_site \<Rightarrow> pay_env \<Rightarrow> proof_env \<Rightarrow> chain_config \<Rightarrow> string \<Rightarrow> fund_flags \<Rightarrow> key_file
    \<Rightarrow> (command_error + u64 \<times> u64) \<times> key_file \<times> lifecycle list \<times> pay_call list" where
  "cmdFund S E P cfg network f keys =
     (if ffTx f = '''' \<or> ffBump f = '''' then (Inl TxAndBumpRequired, keys, [], [])
      else case parseNetwork (csNetworks S) network of
        Inl e \<Rightarrow> (Inl (CommandFlag e), keys, [], [])
      | Inr net \<Rightarrow>
     (case Open (csOpen S) (cfg\<lparr>Network := net\<rparr>) keys of
        (Inl e, keys, acts) \<Rightarrow> (Inl (CommandOpen e), keys, acts, [])
      | (Inr c, keys, acts) \<Rightarrow>
         (let acts = acts @ closing S c in
      case csBalance S 0 of
        Inl e \<Rightarrow> (Inl (BalanceUnread e), keys, acts, [])
      | Inr before \<Rightarrow>
     (case Internalize (osKeys (csOpen S)) (hdIdentity c) (net = csMainnet S) E P (ffTx f) (ffBump f) (ucast (ffVout f)) (ffDescription f) of
        (Some e, calls) \<Rightarrow> (Inl (CommandPayment e), keys, acts, calls)
      | (None, calls) \<Rightarrow>
         (case csBalance S 1 of
            Inl e \<Rightarrow> (Inl (BalanceUnread e), keys, acts, calls)
          | Inr after \<Rightarrow> (Inr (before, after), keys, acts, calls))))))"

subsection \<open>Minting fuel\<close>

text \<open>\<open>coins k\<close> is the wallet's count of claimable coins by basket, before and after.  What was minted is reported even
  when a later round failed.\<close>

definition cmdFuel :: "command_site \<Rightarrow> (nat \<Rightarrow> string \<Rightarrow> string + int) \<Rightarrow> (nat \<Rightarrow> shaped_change \<Rightarrow> string + txid) \<Rightarrow> chain_config
    \<Rightarrow> string \<Rightarrow> u64 \<Rightarrow> u64 \<Rightarrow> key_file
    \<Rightarrow> (command_error + int \<times> int) \<times> fuel_result list \<times> key_file \<times> lifecycle list" where
  "cmdFuel S coins mint cfg network howMany sats keys =
     (let tb = osToolbox (csOpen S) in
      case parseNetwork (csNetworks S) network of
        Inl e \<Rightarrow> (Inl (CommandFlag e), [], keys, [])
      | Inr net \<Rightarrow>
         (let cfg = cfg\<lparr>Network := net\<rparr> in
      case fuelCoinValue tb cfg sats of
        Inl e \<Rightarrow> (Inl (CommandFlag e), [], keys, [])
      | Inr v \<Rightarrow>
     (case Open (csOpen S) cfg keys of
        (Inl e, keys, acts) \<Rightarrow> (Inl (CommandOpen e), [], keys, acts)
      | (Inr c, keys, acts) \<Rightarrow>
         (let acts = acts @ closing S c in
      case ClaimableCoins tb (coins 0) (hdConfig c) of
        Inl e \<Rightarrow> (Inl (CommandCoins e), [], keys, acts)
      | Inr before \<Rightarrow>
     (case FanOutFuel tb (hdConfig c) mint howMany v of
        (rs, Some e) \<Rightarrow> (Inl (CommandFuel e), rs, keys, acts)
      | (rs, None) \<Rightarrow>
         (case ClaimableCoins tb (coins 1) (hdConfig c) of
            Inl e \<Rightarrow> (Inl (CommandCoins e), rs, keys, acts)
          | Inr after \<Rightarrow> (Inr (before, after), rs, keys, acts)))))))"

subsection \<open>Creating a ring by hand\<close>

record genesis_world =
  gwArtifact :: "string + artifact"
  gwLooks :: "((string + int) \<times> int) list"
  gwStart :: int
  gwCreate :: "genesis_output list \<Rightarrow> string + txid \<times> bytes"
  gwParseBEEF :: "bytes \<Rightarrow> string + tx"

definition genesisWait :: int where "genesisWait = 180 * second"

definition cmdGenesis :: "command_site \<Rightarrow> genesis_world \<Rightarrow> chain_config \<Rightarrow> string \<Rightarrow> u64 \<Rightarrow> string \<Rightarrow> key_file \<Rightarrow> state_file
    \<Rightarrow> (command_error + deployment \<times> u64 \<times> u64) \<times> key_file \<times> state_file \<times> lifecycle list" where
  "cmdGenesis S W cfg network ruleFlag seedHex keys state =
     (case parseRule ruleFlag of
        Inl e \<Rightarrow> (Inl (CommandFlag e), keys, state, [])
      | Inr r \<Rightarrow>
     (case parseNetwork (csNetworks S) network of
        Inl e \<Rightarrow> (Inl (CommandFlag e), keys, state, [])
      | Inr net \<Rightarrow>
     (case seedRow (cfCells cfg) seedHex of
        Inl e \<Rightarrow> (Inl (CommandSeed e), keys, state, [])
      | Inr seed \<Rightarrow>
     (case Compile (gwArtifact W) (cfCells cfg) r of
        Inl e \<Rightarrow> (Inl (CommandCompile e), keys, state, [])
      | Inr program \<Rightarrow>
     (case Open (csOpen S) (cfg\<lparr>cfRule := r, Network := net\<rparr>) keys of
        (Inl e, keys, acts) \<Rightarrow> (Inl (CommandOpen e), keys, state, acts)
      | (Inr c, keys, acts) \<Rightarrow>
         (let acts = acts @ closing S c in
      case WaitForClaimableFunds (gwStart W) genesisWait (csBalance S 0) (gwLooks W) of
        Some e \<Rightarrow> (Inl (CommandWait e), keys, state, acts)
      | None \<Rightarrow>
     (case csBalance S 1 of
        Inl e \<Rightarrow> (Inl (BalanceUnread e), keys, state, acts)
      | Inr before \<Rightarrow>
     (case Genesis (gwCreate W) (gwParseBEEF W) (cfCellSatoshis (hdConfig c)) program seed state of
        (Inl e, state) \<Rightarrow> (Inl (CommandGenesis e), keys, state, acts)
      | (Inr d, state) \<Rightarrow>
         (case csBalance S 2 of
            Inl e \<Rightarrow> (Inl (BalanceUnread e), keys, state, acts)
          | Inr after \<Rightarrow> (Inr (d, before, after), keys, state, acts))))))))))"

subsection \<open>What the spending commands do\<close>

text \<open>\<open>-vout\<close> is cut to 32 bits without a look: an index that does not exist names one that does.\<close>

lemma fund_vout_wraps:
  "cmdFund S E P cfg network (f\<lparr>ffVout := v + 2 ^ 32\<rparr>) keys = cmdFund S E P cfg network (f\<lparr>ffVout := v\<rparr>) keys"
proof -
  have "ucast (v + 2 ^ 32) = (ucast v :: u32)"
    by transfer (simp add: take_bit_eq_mod mod_mod_cancel)
  note cut = this
  have fields: "ffTx (f\<lparr>ffVout := x\<rparr>) = ffTx f" "ffBump (f\<lparr>ffVout := x\<rparr>) = ffBump f" "ffVout (f\<lparr>ffVout := x\<rparr>) = x"
    "ffDescription (f\<lparr>ffVout := x\<rparr>) = ffDescription f" for x by simp_all

  show ?thesis unfolding cmdFund_def fields cut ..
qed

text \<open>What validation leaves of the settings the pool rests on.\<close>

lemma validated_pool:
  assumes "Validate parse network c = (c', None)"
  shows "Throughput c' = Throughput c \<and> FuelDenomination c' = FuelDenomination c \<and> FuelPoolSize c' = FuelPoolSize c
    \<and> FeeSatPerKB c' = FeeSatPerKB c \<and> cfCellSatoshis c' = cfCellSatoshis c \<and> cfCells c' = cfCells c \<and> cfRule c' = cfRule c
    \<and> Network c' = Network c"
  using assms
  by (auto simp: Validate_def trimURLs_def fillLag_def fillPayments_def Let_def split: if_splits sum.splits prod.splits)

definition pool_shape :: "toolbox \<Rightarrow> u64 \<Rightarrow> shaped_change \<Rightarrow> bool" where
  "pool_shape tb v sh \<longleftrightarrow> scBasket sh = PoolBasket tb \<and> scSatoshis sh = v \<and> scSourceBasket sh = BasketNameForChange tb"

lemma fan_out_pool:
  assumes "FuelPool tb c = (PoolBasket tb, d, n, True)" and "\<forall>k sh. pool_shape tb v sh \<longrightarrow> mint' k sh = mint k sh"
  shows "FanOutFuel tb c mint' howMany v = FanOutFuel tb c mint howMany v"
proof -
  have "fan_out_loop tb c mint' howMany v minted results = fan_out_loop tb c mint howMany v minted results" for minted results
    using assms
  proof (induction tb c mint howMany v minted results rule: fan_out_loop.induct)
    case (1 tb c mint howMany v minted results)
    let ?batch = "min (howMany - minted) fanoutPerTx"
    show ?case
    proof (cases "minted < howMany")
      case True
      show ?thesis
      proof (cases "fuelShape tb c ?batch v")
        case (Inr shape)
        then have "pool_shape tb v shape"
          using "1.prems"(1) by (auto simp: fuelShape_def pool_shape_def Let_def split: if_splits)
        then have "mint' (length results) shape = mint (length results) shape" using "1.prems"(2) by blast
        then show ?thesis
          using 1(1) [OF _ refl Inr] "1.prems" True Inr
          by (subst (1 2) fan_out_loop.simps) (simp add: Let_def split: sum.split)
      qed (use True in \<open>subst (1 2) fan_out_loop.simps, simp add: Let_def\<close>)
    qed (subst (1 2) fan_out_loop.simps, simp)
  qed
  then show ?thesis by (simp add: FanOutFuel_def)
qed

lemma fan_out_made:
  assumes "FanOutFuel tb c mint howMany v = (rs, err)"
  shows "(\<forall>x \<in> set rs. frValue x = v) \<and> (err = None \<longrightarrow> coins_of rs = unat howMany)"
proof (cases "howMany = 0 \<or> v = 0")
  case True
  then show ?thesis using assms by (auto simp: FanOutFuel_def split: if_splits)
next
  case False
  then have run: "fan_out_loop tb c mint howMany v 0 [] = (rs, err)" using assms by (simp add: FanOutFuel_def)
  have base: "(0 :: u64) \<le> howMany" "coins_of [] = unat (0 :: u64)" "unat (0 :: u64) = min (100 * length []) (unat howMany)"
    and none: "\<forall>r \<in> set []. 0 < unat (frCoins r) \<and> unat (frCoins r) \<le> 100 \<and> frValue r = v"
    by (simp_all add: coins_of_def)
  show ?thesis using fan_out_loop_exact [OF run base(1) _ base(2,3) none] False by auto
qed

lemma closed_after:
  assumes "Open (csOpen S) cfg keys = (Inr c, keys', acts)"
  shows "holding {} (acts @ closing S c) = Some {}"
  using open_outcome [OF assms] by (auto simp: closing_def close_chain_exact)

lemma opened_pool:
  assumes "Open S cfg keys = (Inr c, keys', acts)"
  shows "\<exists>um. utxoManagement (osToolbox S) cfg = Inr um \<and> (um = None \<longleftrightarrow> \<not> Throughput cfg)
    \<and> FuelPool (osToolbox S) (hdConfig c) = FuelPool (osToolbox S) cfg"
proof -
  have "Validate (osParse S) (osNetwork S) cfg = (hdConfig c, None)"
    "utxoManagement (osToolbox S) (hdConfig c) = Inr (soUTXOManagement (pcExtra (hdProvider c)))"
    using open_outcome [OF assms] by simp_all
  then show ?thesis using validated_pool [of "osParse S" "osNetwork S" cfg "hdConfig c"]
    by (auto simp: utxoManagement_def FuelPool_def split: if_splits option.splits dest!: sym [of "Some _"])
qed

text \<open>Claim C38: \<open>rule110 fuel\<close> mints what the automaton can claim.  Under the pool strategy every coin it mints has
  exactly the configured denomination, goes into the pool's basket and is paid for from change (the wallet is asked
  for no other shape, so what it would answer to one does not matter); a run that ends well has minted
  exactly the coins asked for; a value other than the denomination is refused before anything is opened;
  and however it ends the wallet is closed again.\<close>

theorem fuel_matches_pool:
  assumes "cmdFuel S coins mint cfg network howMany sats keys = (r, rs, keys', acts)" and "Throughput cfg"
  shows "(\<forall>x \<in> set rs. frValue x = FuelDenomination cfg) \<and> holding {} acts = Some {}
    \<and> (\<forall>z. r = Inr z \<longrightarrow> coins_of rs = unat howMany)
    \<and> (sats \<noteq> 0 \<and> sats \<noteq> FuelDenomination cfg \<longrightarrow> rs = [] \<and> (acts = [] \<or> (\<exists>e. r = Inl (CommandOpen e))))
    \<and> (\<forall>mint'. (\<forall>k sh. pool_shape (osToolbox (csOpen S)) (FuelDenomination cfg) sh \<longrightarrow> mint' k sh = mint k sh) \<longrightarrow>
         cmdFuel S coins mint' cfg network howMany sats keys = (r, rs, keys', acts))"
proof -
  let ?tb = "osToolbox (csOpen S)"
  have unopened: ?thesis if "rs = []" "holding {} acts = Some {}" "acts = [] \<or> (\<exists>e. r = Inl (CommandOpen e))" "\<nexists>z. r = Inr z"
    "\<And>mint'. cmdFuel S coins mint' cfg network howMany sats keys = (r, rs, keys', acts)"
    using that(1-4) by (auto simp: that(5))
  show ?thesis
  proof (cases "parseNetwork (csNetworks S) network")
    case (Inl e)
    then show ?thesis using assms(1) by (intro unopened) (auto simp: cmdFuel_def)
  next
    case net: (Inr net)
    let ?cfg = "cfg\<lparr>Network := net\<rparr>"
    show ?thesis
    proof (cases "fuelCoinValue ?tb ?cfg sats")
      case (Inl e)
      then show ?thesis using assms(1) net by (intro unopened) (auto simp: cmdFuel_def Let_def)
    next
      case v: (Inr v)
      show ?thesis
      proof (cases "fst (Open (csOpen S) ?cfg keys)")
        case (Inl e)
        then obtain keys1 acts1 where o: "Open (csOpen S) ?cfg keys = (Inl e, keys1, acts1)" by (metis prod.collapse)
        then have "holding {} acts1 = Some {}" using open_outcome [OF o] by simp
        then show ?thesis using assms(1) net v o by (intro unopened) (auto simp: cmdFuel_def Let_def)
      next
        case (Inr c)
        then obtain keys1 acts1 where o: "Open (csOpen S) ?cfg keys = (Inr c, keys1, acts1)" by (metis prod.collapse)
        have fp: "FuelPool ?tb (hdConfig c) = (PoolBasket ?tb, FuelDenomination cfg, FuelPoolSize cfg, True)"
          using opened_pool [OF o] assms(2) by (auto simp: FuelPool_def utxoManagement_def split: if_splits option.splits)
        have val: "v = FuelDenomination cfg" "sats = 0 \<or> sats = FuelDenomination cfg"
          using v opened_pool [OF o] assms(2)
          by (auto simp: fuelCoinValue_def FuelPool_def utxoManagement_def split: if_splits option.splits)
        let ?run = "\<lambda>m. cmdFuel S coins m cfg network howMany sats keys"
        have same: "?run mint' = ?run mint" if "\<forall>k sh. pool_shape ?tb (FuelDenomination cfg) sh \<longrightarrow> mint' k sh = mint k sh" for mint'
          using fan_out_pool [OF fp that, of howMany] net v o by (simp add: cmdFuel_def Let_def val(1) cong: sum.case_cong)
        obtain rs1 err where f: "FanOutFuel ?tb (hdConfig c) mint howMany v = (rs1, err)" by fastforce
        have acts: "acts = acts1 @ closing S c" and rs: "rs = [] \<or> rs = rs1" "(\<exists>z. r = Inr z) \<longrightarrow> rs = rs1 \<and> err = None"
          using assms(1) net v o f by (auto simp: cmdFuel_def Let_def split: sum.splits option.splits)
        have "(\<forall>x \<in> set rs1. frValue x = v) \<and> (err = None \<longrightarrow> coins_of rs1 = unat howMany)"
          using fan_out_made [OF f] .
        then show ?thesis using closed_after [OF o] same assms(1) rs val unfolding acts by auto
      qed
    qed
  qed
qed

subsection \<open>Pruning\<close>

datatype prune_error =
    PruneNoDeployment string
  | BatchNotPositive
  | CellsNotPositive
  | PruneNotOpened string
  | SweepFailed sweep_error

text \<open>The database is the one the wallet uses; \<open>connect\<close> opens it and pings.\<close>

definition OpenPruner :: "(string \<times> string \<times> bool \<Rightarrow> string option) \<Rightarrow> chain_config \<Rightarrow> prune_options \<Rightarrow> prune_error + pruner" where
  "OpenPruner connect cfg opts =
     (if BatchSize opts \<le> 0 then Inl BatchNotPositive
      else if cfCells cfg \<le> 0 then Inl CellsNotPositive
      else case connect (direct_database cfg) of
        Some e \<Rightarrow> Inl (PruneNotOpened e)
      | None \<Rightarrow> Inr \<lparr>pcells = cfCells cfg, popts = opts, pcursor = 0\<rparr>)"

text \<open>\<open>Run\<close>: one pass after another, whatever each answers, until the context ends.  A pass comes with what happens to
  it and with what other writers do to the tables after it.\<close>

type_synonym prune_pass = "sweep_world \<times> (wallet_db \<Rightarrow> wallet_db)"

fun pruner_Run :: "(string \<Rightarrow> (int option \<times> u64 option) option) \<Rightarrow> pruner \<Rightarrow> prune_pass list \<Rightarrow> wallet_db \<Rightarrow> pruner \<times> wallet_db" where
  "pruner_Run json p [] db = (p, db)"
| "pruner_Run json p ((W, between) # passes) db =
     (case Sweep json W p db of (rep, err, p, db) \<Rightarrow> pruner_Run json p passes (between db))"

record prune_site =
  psNetworks :: "string \<Rightarrow> string + string"
  psFacts :: "string + deployment"
  psConnect :: "string \<times> string \<times> bool \<Rightarrow> string option"
  psJson :: "string \<Rightarrow> (int option \<times> u64 option) option"
  psWorld :: sweep_world
  psPasses :: "prune_pass list"

record prune_flags =
  pfOptions :: prune_options
  pfApply :: bool
  pfWatch :: bool

text \<open>A pass that failed answers its error, and its report is lost; the tables stay as the pass left them.\<close>

definition cmdPrune :: "prune_site \<Rightarrow> chain_config \<Rightarrow> string \<Rightarrow> prune_flags \<Rightarrow> wallet_db
    \<Rightarrow> ((flag_error + prune_error) + prune_report option) \<times> wallet_db" where
  "cmdPrune S cfg network f db =
     (case parseNetwork (psNetworks S) network of
        Inl e \<Rightarrow> (Inl (Inl e), db)
      | Inr net \<Rightarrow>
         (let opts = (pfOptions f)\<lparr>DryRun := \<not> pfApply f\<rparr> in
      case psFacts S of
        Inl e \<Rightarrow> (Inl (Inr (PruneNoDeployment e)), db)
      | Inr d \<Rightarrow>
     (case OpenPruner (psConnect S) (cfg\<lparr>Network := net, cfCells := dCells d\<rparr>) opts of
        Inl e \<Rightarrow> (Inl (Inr e), db)
      | Inr p \<Rightarrow>
         if pfWatch f then (case pruner_Run (psJson S) p (psPasses S) db of (p, db) \<Rightarrow> (Inr None, db))
         else (case Sweep (psJson S) (psWorld S) p db of
             (rep, Some e, p, db) \<Rightarrow> (Inl (Inr (SweepFailed e)), db)
           | (rep, None, p, db) \<Rightarrow> (Inr (Some rep), db)))))"

text \<open>A dry pass writes nothing, and what fails before the first batch has written nothing either.\<close>

lemma sweep_kept:
  assumes "Sweep json W p db = (rep, err, p', db')"
  shows "popts p' = popts p \<and> pcells p' = pcells p \<and> (DryRun (popts p) \<longrightarrow> db' = db)"
  using assms by (cases rule: Sweep_cases) (auto dest: sweep_loop_floor)

definition before_batches :: "sweep_error \<Rightarrow> bool" where
  "before_batches e = (case e of WindowTooWide \<Rightarrow> True | QueryFailed q _ \<Rightarrow> q = ReadTip \<or> q = ReadFloor | SweepInterrupted \<Rightarrow> False)"

lemma batch_error: "sweepBatch W batch p floorTx tip db rep = (Inl e, p', db', rep') \<Longrightarrow> \<not> before_batches e"
  by (auto simp: sweepBatch_def query_error_def before_batches_def Let_def split: if_splits option.splits prod.splits)

lemma sweep_refused:
  assumes "Sweep json W p db = (rep, Some e, p', db')" and "before_batches e"
  shows "db' = db"
  using assms(1)
proof (cases rule: Sweep_cases)
  case (swept floorTx floorGen)
  have "sweep_loop W b q x tip d r = (r', err, q', d') \<Longrightarrow> err = Some e' \<Longrightarrow> \<not> before_batches e'" for b q x tip d r r' err q' d' e'
    by (induction rule: sweep_loop_induct) (auto dest: batch_error simp: before_batches_def)
  then show ?thesis using swept(5) assms(2) by blast
qed simp

lemma dry_run_waits:
  "pruner_Run json p passes db = (p', db') \<Longrightarrow> DryRun (popts p) \<Longrightarrow> db' = fold snd passes db"
proof (induction json p passes db rule: pruner_Run.induct)
  case (2 json p W between passes db)
  obtain rep err q d where s: "Sweep json W p db = (rep, err, q, d)" by (metis prod_cases4)
  then show ?case using 2 sweep_kept [OF s] by simp
qed simp

text \<open>Nobody else writes while the command runs.\<close>

definition alone :: "prune_site \<Rightarrow> prune_flags \<Rightarrow> bool" where
  "alone S f = (if pfWatch f then \<forall>(W, between) \<in> set (psPasses S). quiet W \<and> between = id else quiet (psWorld S))"

lemma row_stays: "null_row D k = k \<Longrightarrow> k \<in> set (known_txs db) \<Longrightarrow> k \<in> set (known_txs (prune_ids D db))"
  using imageI [of k "set (known_txs db)" "null_row D"] by (simp add: prune_ids_def)

lemma watch_retains:
  "pruner_Run json p passes db = (p', db') \<Longrightarrow> \<forall>(W, between) \<in> set passes. quiet W \<and> between = id \<Longrightarrow> table_keys db \<Longrightarrow>
     retained json (pcells p) (RetainGenerations (popts p)) db k \<Longrightarrow> k \<in> set (known_txs db) \<Longrightarrow> k \<in> set (known_txs db')"
proof (induction json p passes db rule: pruner_Run.induct)
  case (2 json p W between passes db)
  obtain rep err q d where s: "Sweep json W p db = (rep, err, q, d)" by (metis prod_cases4)
  have w: "quiet W" "between = id" "\<forall>(W, between) \<in> set passes. quiet W \<and> between = id" using "2.prems"(2) by (simp_all add: id_def)
  obtain D where D: "d = prune_ids D db" "null_row D k = k"
    using retained_outputs_survive [OF s w(1) "2.prems"(3-5)] by blast
  have run: "pruner_Run json q passes (between d) = (p', db')" using "2.prems"(1) s w(2) by simp
  show ?case
    by (rule "2.IH" [OF s [symmetric] refl refl run w(3)])
      (use sweep_kept [OF s] D row_stays [OF D(2) "2.prems"(5)] "2.prems"(3,4) w(2) in simp_all)
qed simp

text \<open>Claim C39: \<open>rule110 prune\<close> does not touch what it was asked to keep.  Whatever the flags and whatever the configuration
  says of the ring, a command that was not given \<open>-apply\<close> writes nothing (under \<open>-watch\<close> the tables are as the
  other writers left them), and neither does one that fails before its first batch.  A pass that fails or is interrupted
  later has written already: but however the command ends, and under \<open>-watch\<close> after however many passes, every
  transaction keeps its row that made one of the newest \<open>cells * (retain + 1)\<close> cell outputs, the cells being those
  of the deployment on disk, at a generation less than \<open>-retain-generations\<close> below the newest of them, as long as
  nobody else writes the tables.\<close>

theorem prune_command_protects:
  assumes "cmdPrune S cfg network f db = (r, db')"
  shows "(\<not> pfApply f \<longrightarrow> db' = (if r = Inr None then fold snd (psPasses S) db else db))
    \<and> (\<forall>e. r = Inl e \<and> (\<forall>e'. e = Inr (SweepFailed e') \<longrightarrow> before_batches e') \<longrightarrow> db' = db)
    \<and> (\<forall>d k. psFacts S = Inr d \<and> alone S f \<and> table_keys db
        \<and> retained (psJson S) (dCells d) (RetainGenerations (pfOptions f)) db k \<and> k \<in> set (known_txs db)
        \<longrightarrow> k \<in> set (known_txs db'))"
proof (cases "(\<exists>e. r = Inl (Inr (SweepFailed e))) \<or> (\<exists>z. r = Inr z)")
  case False
  then have "db' = db \<and> (\<forall>z. r \<noteq> Inr z)"
    using assms by (auto simp: cmdPrune_def Let_def split: sum.splits if_splits prod.splits option.splits)
  then show ?thesis by auto
next
  case True
  let ?opts = "(pfOptions f)\<lparr>DryRun := \<not> pfApply f\<rparr>"
  obtain d p where p: "psFacts S = Inr d" "p = \<lparr>pcells = dCells d, popts = ?opts, pcursor = 0\<rparr>"
    and run: "(if pfWatch f then (case pruner_Run (psJson S) p (psPasses S) db of (p, db) \<Rightarrow> (Inr None, db))
       else (case Sweep (psJson S) (psWorld S) p db of
             (rep, Some e, p, db) \<Rightarrow> (Inl (Inr (SweepFailed e)), db) | (rep, None, p, db) \<Rightarrow> (Inr (Some rep), db))) = (r, db')"
    using assms True by (auto simp: cmdPrune_def OpenPruner_def Let_def split: sum.splits if_splits option.splits)
  have opts: "DryRun (popts p) = (\<not> pfApply f)" "RetainGenerations (popts p) = RetainGenerations (pfOptions f)" "pcells p = dCells d"
    by (simp_all add: p)
  show ?thesis
  proof (cases "pfWatch f")
    case True
    obtain p' d' where q: "pruner_Run (psJson S) p (psPasses S) db = (p', d')" by fastforce
    then have "r = Inr None" "db' = d'" using run True by simp_all
    then show ?thesis using dry_run_waits [OF q] watch_retains [OF q] opts p(1) True by (auto simp: alone_def)
  next
    case False
    obtain rep err p' d' where q: "Sweep (psJson S) (psWorld S) p db = (rep, err, p', d')" by (metis prod_cases4)
    then have r: "db' = d'" "r = (case err of None \<Rightarrow> Inr (Some rep) | Some e \<Rightarrow> Inl (Inr (SweepFailed e)))"
      using run False by (auto split: option.splits)
    have stays: "k \<in> set (known_txs d')" if k: "quiet (psWorld S)" "table_keys db"
      "retained (psJson S) (dCells d) (RetainGenerations (pfOptions f)) db k" "k \<in> set (known_txs db)" for k
    proof -
      obtain D where "d' = prune_ids D db" "null_row D k = k" using retained_outputs_survive [OF q k(1,2), unfolded opts, OF k(3,4)] by blast
      then show ?thesis using row_stays k(4) by blast
    qed
    show ?thesis using sweep_kept [OF q] sweep_refused [of "psJson S" "psWorld S" p db rep _ p' d'] q opts p(1) False stays
      by (auto simp: r alone_def split: option.splits)
  qed
qed

subsection \<open>The lease of a starting process\<close>

text \<open>Host and process number.  The engine takes the lease under the same name.\<close>

definition InstanceOwner :: "(string + string) \<Rightarrow> nat \<Rightarrow> string" where
  "InstanceOwner hostname pid =
     (case hostname of Inl _ \<Rightarrow> ''unknown'' | Inr h \<Rightarrow> if h = '''' then ''unknown'' else h) @ ''-'' @ decimal pid"

text \<open>The predicate \<open>leaseHolder\<close> hands to the cold start: a record that cannot be read reads as not leading.\<close>

definition leaseHolder :: "string \<Rightarrow> bool \<Rightarrow> int \<Rightarrow> store \<Rightarrow> store \<times> bool" where
  "leaseHolder owner readable now s = (if \<not> readable then (s, False) else AcquireLease s LeaseName owner LeaseTTL now)"

text \<open>The cold start over the record: each pass comes after whatever the process's own renewals and other instances
  did to the record, asks for the lease at its time, and is otherwise answered by the world.\<close>

record run_pass =
  rpOthers :: "store_op list"
  rpReadable :: bool
  rpNow :: int
  rpWorld :: pass_world

fun run_boot :: "boot_env \<Rightarrow> string \<Rightarrow> run_pass list \<Rightarrow> boot \<Rightarrow> store \<Rightarrow> deployment option \<times> boot \<times> store" where
  "run_boot E owner [] b s = (None, b, s)"
| "run_boot E owner (w # ws) b s =
     (let s = fold store_step (rpOthers w) s in
      case leaseHolder owner (rpReadable w) (rpNow w) s of
        (s, leads) \<Rightarrow>
          (case attempt E ((rpWorld w)\<lparr>pwLeader := leads\<rparr>) b of
             (Some d, _, b) \<Rightarrow> (Some d, setPhase E PhaseReady '''' b, s)
           | (None, _, b) \<Rightarrow> run_boot E owner ws b s))"

definition boots_Run :: "boot_env \<Rightarrow> string \<Rightarrow> run_pass list \<Rightarrow> boot \<Rightarrow> store \<Rightarrow> deployment option \<times> boot \<times> store" where
  "boots_Run E owner ws b s =
     (case LoadDeployment (bFile b) of
        Some d \<Rightarrow> (Some d, setPhase E PhaseReady '''' b, s)
      | None \<Rightarrow> run_boot E owner ws b s)"

subsection \<open>Running\<close>

datatype run_error =
    RunFlag flag_error
  | RunOpen open_error
  | RunStore string
  | RunCompile script_error
  | RunSeed seed_error
  | RunCost cost_error
  | RunEngineFailed start_error

record run_site =
  rsCommand :: command_site
  rsStore :: "string option"
  rsFile :: state_file
  rsArtifact :: "string + artifact"
  rsParseBEEF :: "bytes \<Rightarrow> string + tx"
  rsFuelText :: "fuel_error \<Rightarrow> string"
  rsGenesisText :: "genesis_error \<Rightarrow> string"
  rsHostname :: "string + string"
  rsPid :: nat
  rsCodec :: tx_codec
  rsLedger :: ledger
  rsArcade :: "tx_status option"
  rsNow :: int

record run_flags =
  rfRate :: rat
  rfStart :: bool
  rfAutoRecover :: bool

datatype run_end =
    RunFailed run_error
  | RunInterrupted boot
  | RunEngine engine boot compiled

text \<open>The bootstrapper's options, from the configuration that \<open>Open\<close> validated.\<close>

definition boot_options_of :: "chain_config \<Rightarrow> row \<Rightarrow> u64 \<Rightarrow> boot_options" where
  "boot_options_of cfg seed genesisSize =
     \<lparr>boSeed = seed, boThroughput = Throughput cfg, boFuelDenomination = FuelDenomination cfg, boFirstFuelCoins = FirstFuelCoins cfg,
      boMinBootstrap = BootstrapMinimum cfg genesisSize, boNetwork = Network cfg, boLockControls = chain_config.LockControls cfg\<rparr>"

definition boot_env_of :: "run_site \<Rightarrow> chain_config \<Rightarrow> compiled \<Rightarrow> row \<Rightarrow> u64 \<Rightarrow> boot_env" where
  "boot_env_of S cfg program seed genesisSize =
     \<lparr>beToolbox = osToolbox (csOpen (rsCommand S)), beConfig = cfg, beCompiled = program, beParseBEEF = rsParseBEEF S,
      beFuelText = rsFuelText S, beGenesisText = rsGenesisText S, beOptions = boot_options_of cfg seed genesisSize\<rparr>"

definition run_target :: "run_site \<Rightarrow> chain_handle \<Rightarrow> string option" where
  "run_target S c =
     (case FundingAddress (osKeys (csOpen (rsCommand S))) (hdIdentity c) (Network (hdConfig c) = csMainnet (rsCommand S)) of
        Inl _ \<Rightarrow> None
      | Inr t \<Rightarrow> Some (ftAddress t))"

text \<open>What the funding endpoint is given, when it is exposed: network, minimum and suggestion.\<close>

definition newFunder :: "chain_config \<Rightarrow> u64 \<Rightarrow> (string \<times> u64 \<times> u64) option" where
  "newFunder cfg genesisSize =
     (if PublicFunding cfg then Some (Network cfg, MinPaymentSatoshis cfg, BootstrapMinimum cfg genesisSize) else None)"

text \<open>From the handle to the engine: the second half of \<open>run\<close>.  A state file that does not load counts as none here,
  as in the cold start; genesis is the one to see that it exists.\<close>

definition run_opened :: "run_site \<Rightarrow> run_flags \<Rightarrow> run_pass list \<Rightarrow> chain_handle \<Rightarrow> store \<Rightarrow> run_end \<times> store" where
  "run_opened S f ws c s =
     (let cfg = hdConfig c;
          (n, r) = (case LoadDeployment (rsFile S) of Some d \<Rightarrow> (dCells d, dRule d) | None \<Rightarrow> (cfCells cfg, cfRule cfg)) in
      case Compile (rsArtifact S) n r of
        Inl e \<Rightarrow> (RunFailed (RunCompile e), s)
      | Inr program \<Rightarrow>
     (case seedFor n of
        Inl e \<Rightarrow> (RunFailed (RunSeed e), s)
      | Inr seed \<Rightarrow>
     (case GenesisBytes program seed of
        Inl e \<Rightarrow> (RunFailed (RunCost e), s)
      | Inr genesisSize \<Rightarrow>
         (let E = boot_env_of S cfg program seed genesisSize; b = new_boot E (run_target S c) (rsFile S) in
      case boots_Run E (InstanceOwner (rsHostname S) (rsPid S)) ws b s of
        (None, b, s) \<Rightarrow> (RunInterrupted b, s)
      | (Some d, b, s) \<Rightarrow>
     (case (if dCells d \<noteq> n \<or> dRule d \<noteq> r then Compile (rsArtifact S) (dCells d) (dRule d) else Inr program) of
        Inl e \<Rightarrow> (RunFailed (RunCompile e), s)
      | Inr program \<Rightarrow>
     (case New (rsCodec S) (rsLedger S) (rsArcade S) program d s
         (options.make (rfAutoRecover f) (chain_config.LockControls cfg) (rfRate f) (rfStart f)) (config.truncate cfg) (rsNow S) of
        Inl e \<Rightarrow> (RunFailed (RunEngineFailed e), s)
      | Inr e \<Rightarrow> (RunEngine e (Adopt e b) program, s)))))))"

text \<open>With an engine the process goes on holding what it opened; every other end releases it.\<close>

definition cmdRun :: "run_site \<Rightarrow> chain_config \<Rightarrow> string \<Rightarrow> run_flags \<Rightarrow> run_pass list \<Rightarrow> key_file \<Rightarrow> store
    \<Rightarrow> run_end \<times> store \<times> key_file \<times> lifecycle list" where
  "cmdRun S cfg network f ws keys s =
     (case parseNetwork (csNetworks (rsCommand S)) network of
        Inl e \<Rightarrow> (RunFailed (RunFlag e), s, keys, [])
      | Inr net \<Rightarrow>
     (case Open (csOpen (rsCommand S)) (cfg\<lparr>Network := net\<rparr>) keys of
        (Inl e, keys, acts) \<Rightarrow> (RunFailed (RunOpen e), s, keys, acts)
      | (Inr c, keys, acts) \<Rightarrow>
     (case rsStore S of
        Some e \<Rightarrow> (RunFailed (RunStore e), s, keys, acts @ closing (rsCommand S) c)
      | None \<Rightarrow>
         (case run_opened S f ws c s of
            (RunEngine e b program, s) \<Rightarrow> (RunEngine e b program, s, keys, acts @ [Opened TheRecord])
          | (r, s) \<Rightarrow> (r, s, keys, acts @ [Opened TheRecord, Closed TheRecord] @ closing (rsCommand S) c)))))"

subsection \<open>What a run comes to\<close>

text \<open>Other writers record only cells of the ring.\<close>

definition ring_op :: "store_op \<Rightarrow> bool" where
  "ring_op op = (case op of OpRecordTx now t \<Rightarrow> 0 \<le> txCell t | _ \<Rightarrow> True)"

lemma ring_rows_iff: "in_ring_rows s \<longleftrightarrow> (\<forall>r \<in> set (cell_txs s). 0 \<le> rowCell r)"
proof
  assume s: "in_ring_rows s"
  have "\<not> rowCell r < 0" if "r \<in> set (cell_txs s)" for r
    using s that by (auto simp: in_ring_rows_def CellAt_def find_eq_None)
  then show "\<forall>r \<in> set (cell_txs s). 0 \<le> rowCell r" by (simp add: not_less)
next
  assume "\<forall>r \<in> set (cell_txs s). 0 \<le> rowCell r"
  then show "in_ring_rows s" by (force simp: in_ring_rows_def CellAt_def find_eq_None)
qed

lemma ring_rows_keys: "map row_key (cell_txs s') = map row_key (cell_txs s) \<Longrightarrow> in_ring_rows s \<Longrightarrow> in_ring_rows s'"
proof -
  assume k: "map row_key (cell_txs s') = map row_key (cell_txs s)" and s: "in_ring_rows s"
  have "rowCell ` set (cell_txs s') = snd ` set (map row_key (cell_txs s'))" by (force simp: row_key_def)
  also have "\<dots> = rowCell ` set (cell_txs s)" unfolding k by (force simp: row_key_def)
  finally show "in_ring_rows s'" using s unfolding ring_rows_iff by (metis imageE imageI)
qed

lemma ring_rows_step:
  assumes "in_ring_rows s" and "ring_op op"
  shows "in_ring_rows (store_step op s)"
proof -
  have seq: "map row_key (cell_txs (updateStatusBatchTx x us now)) = map row_key (cell_txs x)" for us x now
    by (induction us arbitrary: x) (simp_all add: updateStatusBatchTx_def keys_update)
  have joined: "map row_key (cell_txs (update_join x us now)) = map row_key (cell_txs x)" for us x now
    by (simp add: update_join_def o_def split: option.split)
  show ?thesis
  proof (cases op)
    case (OpRecordTx now t)
    then show ?thesis using assms by (auto simp: ring_op_def in_ring_rows_def CellAt_record)
  next
    case (OpUpdateStatus now tid st msg)
    then show ?thesis using assms(1) by (auto intro: ring_rows_keys [OF keys_update])
  next
    case (OpUpdateStatusBatch us now)
    then show ?thesis using assms(1) by (auto simp: UpdateStatusBatch_def intro: ring_rows_keys seq joined keys_update)
  qed (use assms(1) in \<open>auto simp: ring_rows_iff RecordGeneration_def DeleteAttempt_def DeleteRejection_def DeleteUnsignedRejection_def
      delete_rows_def AcquireLease_def ReleaseLease_def Let_def split: option.split\<close>)
qed

lemma ring_rows_run:
  assumes "\<forall>op \<in> set ops. ring_op op"
  shows "in_ring_rows (run_store pg ops)"
proof -
  have "in_ring_rows s \<Longrightarrow> \<forall>op \<in> set ops. ring_op op \<Longrightarrow> in_ring_rows (fold store_step ops s)" for s
    by (induction ops arbitrary: s) (simp_all add: ring_rows_step)
  then show ?thesis using assms by (simp add: run_store_def empty_store_def in_ring_rows_def CellAt_def)
qed

lemma run_store_append: "run_store pg (ops @ more_ops) = fold store_step more_ops (run_store pg ops)"
  by (simp add: run_store_def)

text \<open>The passes over the record are passes of the cold start, each led when the lease was granted; and the record they
  leave is the one they found, the others' operations and lease requests applied.\<close>

definition pass_of :: "run_pass \<Rightarrow> pass_world \<Rightarrow> bool" where
  "pass_of w v \<longleftrightarrow> v = (rpWorld w)\<lparr>pwLeader := pwLeader v\<rparr> \<and> (pwLeader v \<longrightarrow> rpReadable w)"

lemma run_boot_passes:
  "run_boot E owner ws b (run_store pg ops) = (d, b', s') \<Longrightarrow> \<forall>w \<in> set ws. \<forall>op \<in> set (rpOthers w). ring_op op \<Longrightarrow>
     (\<exists>vs n. boot_loop E vs b = (d, b') \<and> list_all2 pass_of (take n ws) vs) \<and> (\<exists>ops'. s' = run_store pg (ops @ ops') \<and> (\<forall>op \<in> set ops'. ring_op op))"
proof (induction ws arbitrary: b ops)
  case Nil
  then show ?case by (auto intro: exI [of _ "[]"])
next
  case (Cons w ws)
  obtain s1 leads where l: "leaseHolder owner (rpReadable w) (rpNow w) (run_store pg (ops @ rpOthers w)) = (s1, leads)" by fastforce
  then obtain asked where s1: "s1 = run_store pg (ops @ rpOthers w @ asked)" "\<forall>op \<in> set asked. ring_op op"
  proof (cases "rpReadable w")
    case True
    then have "s1 = run_store pg (ops @ rpOthers w @ [OpAcquireLease LeaseName owner LeaseTTL (rpNow w)])"
      using l by (simp add: leaseHolder_def run_store_def)
    then show ?thesis using that [of "[OpAcquireLease LeaseName owner LeaseTTL (rpNow w)]"] by (simp add: ring_op_def)
  next
    case False
    then show ?thesis using that [of "[]"] l by (simp add: leaseHolder_def)
  qed
  let ?v = "(rpWorld w)\<lparr>pwLeader := leads\<rparr>"
  obtain d1 err b1 where a: "attempt E ?v b = (d1, err, b1)" by (metis prod_cases3)
  have led: "pass_of w ?v" using l by (auto simp: pass_of_def leaseHolder_def split: if_splits)
  have others: "\<forall>op \<in> set (rpOthers w @ asked). ring_op op" using Cons.prems(2) s1(2) by auto
  show ?case
  proof (cases d1)
    case None
    then have "run_boot E owner ws b1 (run_store pg (ops @ rpOthers w @ asked)) = (d, b', s')"
      using Cons.prems(1) l a s1(1) by (simp add: run_store_append)
    then obtain vs n ops' where "boot_loop E vs b1 = (d, b')" "list_all2 pass_of (take n ws) vs" "s' = run_store pg ((ops @ rpOthers w @ asked) @ ops')"
      "\<forall>op \<in> set ops'. ring_op op" using Cons.IH [of b1 "ops @ rpOthers w @ asked"] Cons.prems(2) by auto
    then show ?thesis using others a None led
      by (intro conjI exI [of _ "?v # vs"] exI [of _ "Suc n"] exI [of _ "rpOthers w @ asked @ ops'"]) auto
  next
    case (Some x)
    then have "d = Some x" "b' = setPhase E PhaseReady '''' b1" "s' = s1"
      using Cons.prems(1) l a by (simp_all add: run_store_append)
    then show ?thesis using others a Some s1(1) led
      by (intro conjI exI [of _ "[?v]"] exI [of _ "Suc 0"] exI [of _ "rpOthers w @ asked"]) auto
  qed
qed

text \<open>Money spent pass by pass: a pass that spends found the record readable and the minimum in the wallet.\<close>

definition passes_paid :: "u64 \<Rightarrow> run_pass list \<Rightarrow> spending list list \<Rightarrow> bool" where
  "passes_paid minimum ws parts \<longleftrightarrow> length parts \<le> length ws \<and> (\<forall>i < length parts. parts ! i \<noteq> [] \<longrightarrow>
     rpReadable (ws ! i) \<and> (\<exists>fn. pwFunds (rpWorld (ws ! i)) = Inr fn \<and> minimum \<le> Spendable fn + Reserve fn))"

lemma boot_loop_paid:
  assumes "boot_loop E vs b = (d, b')" and "LoadDeployment (bFile b) = None" and "list_all2 pass_of (take n ws) vs"
  shows "\<exists>parts. bSpent b' = bSpent b @ concat parts \<and> passes_paid (boMinBootstrap (beOptions E)) ws parts
    \<and> (bFile b \<noteq> NoState \<longrightarrow> (\<forall>outs. SpentGenesis outs \<notin> set (concat parts)))"
proof -
  obtain parts where p: "map fst parts = take (length parts) vs" "bSpent b' = bSpent b @ paid parts" "list_all (part_ok E) parts"
    "bFile b \<noteq> NoState \<longrightarrow> (\<forall>(w, fuel, gen) \<in> set parts. gen = [])"
    using boot_loop_parts [OF assms(1,2)] by blast
  let ?spent = "map (\<lambda>(w, fuel, gen). fuel @ gen) parts"
  have len: "length parts \<le> length vs" "length vs \<le> length ws"
    using arg_cong [OF p(1), of length] list_all2_lengthD [OF assms(3)] by auto
  have "rpReadable (ws ! i) \<and> (\<exists>fn. pwFunds (rpWorld (ws ! i)) = Inr fn \<and> boMinBootstrap (beOptions E) \<le> Spendable fn + Reserve fn)"
    if i: "i < length parts" "?spent ! i \<noteq> []" for i
  proof -
    obtain v fuel gen where v: "parts ! i = (v, fuel, gen)" by (metis prod_cases3)
    have "fst (parts ! i) = vs ! i" using arg_cong [OF p(1), of "\<lambda>xs. xs ! i"] i(1) by simp
    moreover have "take n ws ! i = ws ! i" using list_all2_lengthD [OF assms(3)] i(1) len by simp
    ultimately have "pass_of (ws ! i) v" using list_all2_nthD2 [OF assms(3), of i] v i(1) len by simp
    then have l: "v = (rpWorld (ws ! i))\<lparr>pwLeader := pwLeader v\<rparr>" "pwLeader v \<longrightarrow> rpReadable (ws ! i)" by (simp_all add: pass_of_def)
    have "pwFunds v = pwFunds (rpWorld (ws ! i))" by (subst l(1)) simp
    moreover have "funded E v" using p(3) v i by (auto simp: list_all_length part_ok_def)
    ultimately show ?thesis using l(2) by (auto simp: funded_def)
  qed
  then have "passes_paid (boMinBootstrap (beOptions E)) ws ?spent" using len by (simp add: passes_paid_def)
  moreover have "SpentGenesis outs \<notin> set (concat ?spent)" if "bFile b \<noteq> NoState" for outs
    using p(3,4) that by (fastforce simp: list_all_iff part_ok_def)
  ultimately show ?thesis using p(2) unfolding paid_def by blast
qed

text \<open>A cold start over the record: what it returns is on disk, the record is in order, and a state file that is there is
  run or, if it does not load, left alone.\<close>

lemma boots_run_ok:
  assumes "boots_Run E owner ws b (run_store pg ops) = (d, b', s')" and "bFile b = found" and "bSpent b = []"
    and "\<forall>w \<in> set ws. \<forall>op \<in> set (rpOthers w). ring_op op" and "\<forall>op \<in> set ops. ring_op op"
  shows "keys_ok s' \<and> in_ring_rows s'
    \<and> (\<forall>x. d = Some x \<longrightarrow> bFile b' = StateOf x \<and> bPhase b' = PhaseReady \<and> (found = NoState \<or> found = StateOf x))
    \<and> (d = None \<longrightarrow> bFile b' = found \<and> LoadDeployment found = None)
    \<and> (\<forall>x. found = StateOf x \<longrightarrow> d = Some x \<and> bSpent b' = [])
    \<and> (\<exists>parts. bSpent b' = concat parts \<and> passes_paid (boMinBootstrap (beOptions E)) ws parts
      \<and> (found \<noteq> NoState \<longrightarrow> (\<forall>outs. SpentGenesis outs \<notin> set (concat parts))))"
proof (cases "LoadDeployment found")
  case None
  then have r: "run_boot E owner ws b (run_store pg ops) = (d, b', s')" using assms(1,2) by (simp add: boots_Run_def)
  obtain vs n ops' where v: "boot_loop E vs b = (d, b')" "list_all2 pass_of (take n ws) vs"
    "s' = run_store pg (ops @ ops')" "\<forall>op \<in> set ops'. ring_op op"
    using run_boot_passes [OF r assms(4)] by blast
  have n: "LoadDeployment (bFile b) = None" "\<And>x. found \<noteq> StateOf x" using assms(2) None by auto
  have "in_ring_rows s'" unfolding v(3) by (rule ring_rows_run) (use v(4) assms(5) in auto)
  moreover have "keys_ok s'" unfolding v(3) by (rule keys_ok_run)
  moreover have "(\<forall>x. d = Some x \<longrightarrow> bFile b' = StateOf x \<and> bPhase b' = PhaseReady) \<and> (d = None \<longrightarrow> bFile b' = bFile b)
      \<and> (bFile b \<noteq> NoState \<longrightarrow> d = None)"
    using boot_loop_parts [OF v(1) n(1)] by blast
  ultimately show ?thesis using boot_loop_paid [OF v(1) n(1) v(2)] n(2) None assms(2,3) by auto
next
  case (Some x)
  then have "d = Some x" "b' = setPhase E PhaseReady '''' b" "s' = run_store pg ops" using assms(1,2) by (simp_all add: boots_Run_def)
  moreover have "passes_paid m ws []" for m by (simp add: passes_paid_def)
  ultimately show ?thesis using Some assms(2,3) ring_rows_run [OF assms(5)] keys_ok_run by (auto intro!: exI [of _ "[]"])
qed

lemma Compile_fields: "Compile src n r = Inr c \<Longrightarrow> cells c = n \<and> crule c = r"
  by (auto simp: Compile_def Let_def split: if_splits sum.splits option.splits)

lemma index_fold_kept:
  "eDeployment (fold (\<lambda>t e. if txTxID t \<noteq> '''' then indexTx (txTxID t) (txGen t) (txCell t) e else e) ts e) = eDeployment e"
  "eOpts (fold (\<lambda>t e. if txTxID t \<noteq> '''' then indexTx (txTxID t) (txGen t) (txCell t) e else e) ts e) = eOpts e"
  "eConfig (fold (\<lambda>t e. if txTxID t \<noteq> '''' then indexTx (txTxID t) (txGen t) (txCell t) e else e) ts e) = eConfig e"
  "eMode (fold (\<lambda>t e. if txTxID t \<noteq> '''' then indexTx (txTxID t) (txGen t) (txCell t) e else e) ts e) = eMode e"
  by (induction ts arbitrary: e) (simp_all add: indexTx_def Let_def)

lemma positions_kept:
  "eOpts (positions_loop cell ps e) = eOpts e" "eConfig (positions_loop cell ps e) = eConfig e" "eMode (positions_loop cell ps e) = eMode e"
  by (induction ps arbitrary: cell e) (simp_all add: Let_def set_tip_def)

lemma New_fields:
  assumes "New K l arcade c d s o1 cfg now = Inr e"
  shows "eDeployment e = d \<and> eOpts e = o1 \<and> eConfig e = cfg \<and> eMode e = startMode o1"
  using assms
  by (auto simp: New_def Let_def index_fold_kept applyPositions_def positions_kept new_engine_def split: sum.splits if_splits)

text \<open>What was spent was asked for: the minimum of every spending pass is that of the configured ring, compiled, seeded
  and sized.\<close>

definition paid_for :: "run_site \<Rightarrow> chain_config \<Rightarrow> run_pass list \<Rightarrow> spending list \<Rightarrow> bool" where
  "paid_for S cfg ws spent \<longleftrightarrow>
     (\<exists>program seed genesisSize parts. Compile (rsArtifact S) (cfCells cfg) (cfRule cfg) = Inr program
        \<and> seedFor (cfCells cfg) = Inr seed \<and> GenesisBytes program seed = Inr genesisSize
        \<and> spent = concat parts \<and> passes_paid (BootstrapMinimum cfg genesisSize) ws parts)"

text \<open>What \<open>run_opened\<close> hands to the engine, and what it leaves when it is interrupted.\<close>

lemma run_opened_ok:
  assumes "run_opened S f ws c (run_store pg ops) = (end, s')"
    and "\<forall>w \<in> set ws. \<forall>op \<in> set (rpOthers w). ring_op op" and "\<forall>op \<in> set ops. ring_op op"
  shows "case end of
      RunEngine e b program \<Rightarrow>
        engine_ok e \<and> bEngine b = Some e \<and> bFile b = StateOf (eDeployment e) \<and> bPhase b = PhaseReady
        \<and> cells program = dCells (eDeployment e) \<and> crule program = dRule (eDeployment e)
        \<and> eConfig e = config.truncate (hdConfig c) \<and> (eMode e = ModeRunning \<longleftrightarrow> rfStart f \<or> chain_config.LockControls (hdConfig c))
        \<and> (rsFile S = NoState \<and> paid_for S (hdConfig c) ws (bSpent b) \<or> rsFile S = StateOf (eDeployment e) \<and> bSpent b = [])
    | RunInterrupted b \<Rightarrow>
        bFile b = rsFile S \<and> LoadDeployment (rsFile S) = None \<and> paid_for S (hdConfig c) ws (bSpent b)
        \<and> (rsFile S \<noteq> NoState \<longrightarrow> (\<forall>outs. SpentGenesis outs \<notin> set (bSpent b)))
    | RunFailed x \<Rightarrow> True"
proof (cases "\<exists>x. end = RunFailed x")
  case False
  let ?cfg = "hdConfig c"
  define nr where "nr = (case LoadDeployment (rsFile S) of Some d \<Rightarrow> (dCells d, dRule d) | None \<Rightarrow> (cfCells ?cfg, cfRule ?cfg))"
  obtain n r where n: "nr = (n, r)" by fastforce
  obtain prog seed sz d b1 where r1: "Compile (rsArtifact S) n r = Inr prog" "seedFor n = Inr seed" "GenesisBytes prog seed = Inr sz"
    and run: "boots_Run (boot_env_of S ?cfg prog seed sz) (InstanceOwner (rsHostname S) (rsPid S)) ws
      (new_boot (boot_env_of S ?cfg prog seed sz) (run_target S c) (rsFile S)) (run_store pg ops) = (d, b1, s')"
    and rest: "(case d of None \<Rightarrow> RunInterrupted b1 | Some d \<Rightarrow>
       (case (if dCells d \<noteq> n \<or> dRule d \<noteq> r then Compile (rsArtifact S) (dCells d) (dRule d) else Inr prog) of
          Inl e \<Rightarrow> RunFailed (RunCompile e)
        | Inr program \<Rightarrow>
       (case New (rsCodec S) (rsLedger S) (rsArcade S) program d s'
         (options.make (rfAutoRecover f) (chain_config.LockControls ?cfg) (rfRate f) (rfStart f)) (config.truncate ?cfg) (rsNow S) of
          Inl e \<Rightarrow> RunFailed (RunEngineFailed e)
        | Inr e \<Rightarrow> RunEngine e (Adopt e b1) program))) = end"
    using assms(1) n False unfolding run_opened_def Let_def nr_def [symmetric]
    by (auto simp: split: sum.splits option.splits prod.splits)
  let ?E = "boot_env_of S ?cfg prog seed sz"
  have new: "bFile (new_boot ?E (run_target S c) (rsFile S)) = rsFile S" "bSpent (new_boot ?E (run_target S c) (rsFile S)) = []"
    by (simp_all add: new_boot_def publish_def notify_def)
  have least: "boMinBootstrap (beOptions ?E) = BootstrapMinimum ?cfg sz" by (simp add: boot_env_of_def boot_options_of_def)
  note ok = boots_run_ok [OF run new assms(2,3), unfolded least]
  have paid: "paid_for S ?cfg ws (bSpent b1)" if "LoadDeployment (rsFile S) = None"
    using ok r1 n that unfolding paid_for_def nr_def by auto
  show ?thesis
  proof (cases d)
    case None
    then have "end = RunInterrupted b1" using rest by simp
    then show ?thesis using ok None paid by auto
  next
    case (Some x)
    obtain program e where prog: "(if dCells x \<noteq> n \<or> dRule x \<noteq> r then Compile (rsArtifact S) (dCells x) (dRule x) else Inr prog) = Inr program"
      and eng: "New (rsCodec S) (rsLedger S) (rsArcade S) program x s'
         (options.make (rfAutoRecover f) (chain_config.LockControls ?cfg) (rfRate f) (rfStart f)) (config.truncate ?cfg) (rsNow S) = Inr e"
      and ended: "end = RunEngine e (Adopt e b1) program"
      using rest Some False by (auto split: sum.splits)
    have p: "cells program = dCells x \<and> crule program = dRule x"
      using prog Compile_fields [OF r1(1)] Compile_fields [of "rsArtifact S" "dCells x" "dRule x" program] by (auto split: if_splits)
    have e: "eDeployment e = x" "eConfig e = config.truncate ?cfg" "eMode e = ModeRunning \<longleftrightarrow> rfStart f \<or> chain_config.LockControls ?cfg"
      using New_fields [OF eng] by (auto simp: startMode_def options.make_def)
    have w: "engine_ok e" using start_ok [OF eng] ok by blast
    have adopted: "bEngine (Adopt e b1) = Some e" "bFile (Adopt e b1) = bFile b1" "bPhase (Adopt e b1) = bPhase b1" "bSpent (Adopt e b1) = bSpent b1"
      by (simp_all add: Adopt_def notify_def)
    have f: "bFile b1 = StateOf x \<and> bPhase b1 = PhaseReady \<and> (rsFile S = NoState \<or> rsFile S = StateOf x \<and> bSpent b1 = [])"
      using ok Some by blast
    have "rsFile S = NoState \<and> paid_for S ?cfg ws (bSpent b1) \<or> rsFile S = StateOf x \<and> bSpent b1 = []"
      using f paid by auto
    then show ?thesis unfolding ended run_end.case adopted e using f p w e(3) by simp
  qed
qed auto

text \<open>Claim C40: what \<open>rule110 run\<close> runs is what is on disk.  Whatever the flags, the world and the record it comes to (as long
  as nobody records a cell of a negative number), an engine that is started is well formed, is the one the
  web interface is given, runs the deployment the state file holds with a covenant compiled for its
  ring and rule, under the validated configuration and in the mode the flags ask for.  A deployment found on
  disk is run as it is and nothing is spent; otherwise there was no state file, and money was spent only in passes over
  a readable record whose funds had reached the minimum, which is computed from the size of the genesis of the
  configured ring.  A run interrupted before has kept to the same minimum and left the state file as it was, and a
  file that does not load has kept it from creating a ring.  And a run that does not get to an engine releases all it
  had opened.\<close>

theorem run_starts_deployment:
  assumes "cmdRun S cfg network f ws keys (run_store pg ops) = (r, s', keys', acts)"
    and "\<forall>w \<in> set ws. \<forall>op \<in> set (rpOthers w). ring_op op" and "\<forall>op \<in> set ops. ring_op op"
  shows "case r of
      RunEngine e b program \<Rightarrow>
        engine_ok e \<and> bEngine b = Some e \<and> bFile b = StateOf (eDeployment e)
        \<and> cells program = dCells (eDeployment e) \<and> crule program = dRule (eDeployment e)
        \<and> (\<exists>net vcfg. parseNetwork (csNetworks (rsCommand S)) network = Inr net
            \<and> Validate (osParse (csOpen (rsCommand S))) (osNetwork (csOpen (rsCommand S))) (cfg\<lparr>Network := net\<rparr>) = (vcfg, None)
            \<and> eConfig e = config.truncate vcfg \<and> (eMode e = ModeRunning \<longleftrightarrow> rfStart f \<or> chain_config.LockControls vcfg)
            \<and> (rsFile S = NoState \<and> paid_for S vcfg ws (bSpent b) \<or> rsFile S = StateOf (eDeployment e) \<and> bSpent b = []))
        \<and> holding {} acts = Some {TheProvider, TheWallet, TheMonitor, TheRecord}
    | RunInterrupted b \<Rightarrow>
        bFile b = rsFile S \<and> LoadDeployment (rsFile S) = None
        \<and> (\<exists>net vcfg. parseNetwork (csNetworks (rsCommand S)) network = Inr net
            \<and> Validate (osParse (csOpen (rsCommand S))) (osNetwork (csOpen (rsCommand S))) (cfg\<lparr>Network := net\<rparr>) = (vcfg, None)
            \<and> paid_for S vcfg ws (bSpent b))
        \<and> (rsFile S \<noteq> NoState \<longrightarrow> (\<forall>outs. SpentGenesis outs \<notin> set (bSpent b)))
        \<and> holding {} acts = Some {}
    | RunFailed e \<Rightarrow> holding {} acts = Some {}"
proof (cases "parseNetwork (csNetworks (rsCommand S)) network")
  case (Inl e)
  then show ?thesis using assms(1) by (auto simp: cmdRun_def)
next
  case (Inr net)
  let ?O = "csOpen (rsCommand S)"
  obtain oc keys1 acts1 where o: "Open ?O (cfg\<lparr>Network := net\<rparr>) keys = (oc, keys1, acts1)" by (metis prod_cases3)
  show ?thesis
  proof (cases oc)
    case (Inl e)
    then show ?thesis using assms(1) Inr o open_outcome [OF o] by (auto simp: cmdRun_def)
  next
    case c: (Inr c)
    have acts1: "acts1 = [Opened TheProvider, Opened TheWallet, Opened TheMonitor]"
      and valid: "Validate (osParse ?O) (osNetwork ?O) (cfg\<lparr>Network := net\<rparr>) = (hdConfig c, None)"
      and shut: "closing (rsCommand S) c = [Closed TheWallet, Closed TheMonitor, Closed TheProvider]"
      using open_outcome [OF o] c by (auto simp: closing_def close_chain_exact)
    have open_s: "rsStore S = None" if "r = RunEngine e b program" for e b program
      using assms(1) Inr o c that by (auto simp: cmdRun_def split: option.splits)
    show ?thesis
    proof (cases r)
      case (RunEngine e b program)
      have "run_opened S f ws c (run_store pg ops) = (RunEngine e b program, s')" "acts = acts1 @ [Opened TheRecord]"
        using assms(1) Inr o c RunEngine open_s [OF RunEngine] by (auto simp: cmdRun_def split: prod.splits run_end.splits)
      with run_opened_ok [OF this(1) assms(2,3)] valid Inr show ?thesis unfolding RunEngine run_end.case by (auto simp: acts1)
    next
      case (RunFailed e)
      then show ?thesis using assms(1) Inr o c
        by (auto simp: cmdRun_def acts1 shut split: option.splits prod.splits run_end.splits)
    next
      case (RunInterrupted b)
      have "run_opened S f ws c (run_store pg ops) = (RunInterrupted b, s')" and h: "holding {} acts = Some {}"
        using assms(1) Inr o c RunInterrupted
        by (auto simp: cmdRun_def acts1 shut split: option.splits prod.splits run_end.splits)
      with run_opened_ok [OF this(1) assms(2,3)] valid Inr show ?thesis unfolding RunInterrupted run_end.case by auto
    qed
  qed
qed

subsection \<open>What a starting process announces\<close>

text \<open>\<open>net.SplitHostPort\<close> and \<open>net.JoinHostPort\<close>; the caller does not look at the error.\<close>

definition SplitHostPort :: "string \<Rightarrow> (string \<times> string) option" where
  "SplitHostPort s =
     (if CHR '':'' \<notin> set s then None
      else let port = rev (takeWhile (\<lambda>c. c \<noteq> CHR '':'') (rev s)); i = length s - length port - 1 in
        if hd s = CHR ''['' then
          (if CHR '']'' \<notin> set s then None
           else let host = takeWhile (\<lambda>c. c \<noteq> CHR '']'') (tl s); close = Suc (length host) in
             if close + 1 \<noteq> i \<or> CHR ''['' \<in> set (tl s) \<or> CHR '']'' \<in> set (drop (close + 1) s) then None
             else Some (host, port))
        else if CHR '':'' \<in> set (take i s) \<or> CHR ''['' \<in> set s \<or> CHR '']'' \<in> set s then None
        else Some (take i s, port))"

definition JoinHostPort :: "string \<Rightarrow> string \<Rightarrow> string" where
  "JoinHostPort host port = (if CHR '':'' \<in> set host then ''['' @ host @ '']:'' @ port else host @ '':'' @ port)"

definition uiURL :: "string \<Rightarrow> string" where
  "uiURL addr =
     (case SplitHostPort addr of
        None \<Rightarrow> ''http://'' @ addr
      | Some (host, port) \<Rightarrow>
          ''http://'' @ JoinHostPort (if host \<in> {'''', ''0.0.0.0'', ''::''} then ''localhost'' else host) port)"

text \<open>A wildcard becomes this machine, and a host that was named is kept, with brackets or without.\<close>

lemma split_join:
  assumes "CHR ''['' \<notin> set host \<union> set port" and "CHR '']'' \<notin> set host \<union> set port" and "CHR '':'' \<notin> set port"
  shows "SplitHostPort (JoinHostPort host port) = Some (host, port)"
proof -
  have last: "takeWhile (\<lambda>c. c \<noteq> CHR '':'') (rev port @ CHR '':'' # cs) = rev port" for cs
    using assms(3) by (subst takeWhile_append2) auto
  have brk: "takeWhile (\<lambda>c. c \<noteq> CHR '']'') (host @ CHR '']'' # cs) = host" for cs
    using assms(2) by (subst takeWhile_append2) auto
  show ?thesis
  proof (cases "CHR '':'' \<in> set host")
    case True
    then show ?thesis using assms by (simp add: SplitHostPort_def JoinHostPort_def last brk Let_def)
  next
    case False
    then have "hd (host @ CHR '':'' # port) \<noteq> CHR ''[''" using assms(1) by (cases host) auto
    then show ?thesis using assms False by (simp add: SplitHostPort_def JoinHostPort_def last Let_def)
  qed
qed

lemma ui_url_exact:
  assumes "CHR ''['' \<notin> set host \<union> set port" and "CHR '']'' \<notin> set host \<union> set port" and "CHR '':'' \<notin> set port"
  shows "uiURL (JoinHostPort host port) =
    ''http://'' @ (if host \<in> {'''', ''0.0.0.0'', ''::''} then ''localhost:'' @ port else JoinHostPort host port)"
  using split_join [OF assms] by (simp add: uiURL_def JoinHostPort_def)

lemma ui_url_examples:
  "uiURL '':8110'' = ''http://localhost:8110''" "uiURL ''0.0.0.0:8110'' = ''http://localhost:8110''"
  "uiURL ''[::]:8110'' = ''http://localhost:8110''" "uiURL ''[2001:db8::1]:80'' = ''http://[2001:db8::1]:80''"
  "uiURL ''8110'' = ''http://8110''"
  by code_simp+

text \<open>The lines of \<open>printBanner\<close> that depend on the settings.\<close>

datatype banner_line =
    RingLine rule int
  | ArcadeLine string string
  | PoolLine u64 u64 string
  | ControlsLocked
  | FundingPublic u64
  | ReadyAt string

definition printBanner :: "toolbox \<Rightarrow> chain_config \<Rightarrow> compiled \<Rightarrow> string \<Rightarrow> banner_line list" where
  "printBanner tb cfg c addr =
     [RingLine (crule c) (cells c), ArcadeLine (ArcadeURL cfg) (Network cfg)]
     @ (case FuelPool tb cfg of (basket, denom, target, on) \<Rightarrow> if on then [PoolLine target denom basket] else [])
     @ (if chain_config.LockControls cfg then [ControlsLocked] else [])
     @ (if PublicFunding cfg then [FundingPublic (MinPaymentSatoshis cfg)] else [])
     @ [ReadyAt (uiURL addr)]"

text \<open>Taking the validated configuration back matters: the minimum that is announced and given to the funding endpoint is
  more than a coin of the pool, never nothing.\<close>

lemma advertised_minimum:
  assumes "Open S cfg keys = (Inr c, keys', acts)" and "Throughput cfg"
    and "newFunder (hdConfig c) sz = Some (net, least, suggested) \<or> FundingPublic least \<in> set (printBanner tb (hdConfig c) program addr)"
  shows "PublicFunding (hdConfig c) \<and> FuelDenomination cfg < least"
proof -
  have v: "Validate (osParse S) (osNetwork S) cfg = (hdConfig c, None)" using open_outcome [OF assms(1)] by simp
  have least: "least = MinPaymentSatoshis (hdConfig c)" "PublicFunding (hdConfig c)"
    using assms(3) by (auto simp: newFunder_def printBanner_def split: if_splits prod.splits)
  have "\<not> (Throughput (hdConfig c) \<and> MinPaymentSatoshis (hdConfig c) \<le> FuelDenomination (hdConfig c))"
    using v by (auto simp: Validate_def Let_def split: if_splits sum.splits prod.splits)
  then show ?thesis using least validated_pool [OF v] assms(2) by simp
qed

subsection \<open>The commands at work\<close>

definition demo_commands :: command_site where
  "demo_commands = \<lparr>csNetworks = (\<lambda>s. Inr s), csMainnet = ''main'', csOpen = demo_open None, csBalance = (\<lambda>k. Inr 0)\<rparr>"

lemma demo_commands_opens: "\<exists>c keys acts. Open (csOpen demo_commands) (demo_flags\<lparr>Network := ''tstn''\<rparr>) NoKeyFile = (Inr c, keys, acts)"
  using demo_opens(1) by (simp add: demo_commands_def demo_flags_def DefaultConfig_def)

text \<open>A hundred and fifty coins in two rounds.\<close>

theorem fuel_matches_pool_witness:
  "\<exists>r rs keys acts. cmdFuel demo_commands (\<lambda>k b. Inr 0) (\<lambda>k sh. Inr ''aa'') demo_flags ''tstn'' 150 0 NoKeyFile = (r, rs, keys, acts)
     \<and> r = Inr (0, 0) \<and> coins_of rs = 150 \<and> (\<forall>x \<in> set rs. frValue x = 1000)"
proof -
  let ?run = "cmdFuel demo_commands (\<lambda>k b. Inr 0) (\<lambda>k sh. Inr ''aa'') demo_flags ''tstn'' 150 0 NoKeyFile"
  obtain r rs keys acts where run: "?run = (r, rs, keys, acts)" by (metis prod_cases4)
  have "fst ?run = Inr (0, 0)" by code_simp
  then have r: "r = Inr (0, 0)" using run by simp
  have "Throughput demo_flags" "FuelDenomination demo_flags = 1000" by (simp_all add: demo_flags_def DefaultConfig_def)
  then show ?thesis using fuel_matches_pool [OF run] run r by simp
qed

definition drift_site :: "sweep_world \<Rightarrow> prune_site" where
  "drift_site W = \<lparr>psNetworks = (\<lambda>s. Inr s), psFacts = Inr (demo_deployment\<lparr>dCells := 2\<rparr>), psConnect = (\<lambda>t. None),
     psJson = drift_json, psWorld = W, psPasses = []\<rparr>"

definition drift_flags :: prune_flags where
  "drift_flags = \<lparr>pfOptions = \<lparr>DryRun = True, RetainGenerations = 2, MinConfirmations = 1, BatchSize = 4, MaxBatches = 0\<rparr>,
     pfApply = True, pfWatch = False\<rparr>"

text \<open>One pass to its end, and one that is interrupted after its first batch.\<close>

lemma drift_command:
  "\<exists>rep db'. cmdPrune (drift_site calm) demo_flags ''tstn'' drift_flags drift_db = (Inr (Some rep), db') \<and> db' \<noteq> drift_db"
  "\<exists>db'. cmdPrune (drift_site (calm\<lparr>swDone := \<lambda>_. True\<rparr>)) demo_flags ''tstn'' drift_flags drift_db
     = (Inl (Inr (SweepFailed SweepInterrupted)), db') \<and> db' \<noteq> drift_db"
proof -
  have net: "parseNetwork (\<lambda>s. Inr s) ''tstn'' = Inr ''tstn''" by code_simp
  have kept: "map (\<lambda>k. ktRawTx k = None) (known_txs drift_db) = replicate 9 False" by code_simp
  obtain rep p' db' where s: "Sweep drift_json calm (drift_pruner False) drift_db = (rep, None, p', db')"
    using drift_sweep by blast
  have "map (\<lambda>k. ktRawTx k = None) (known_txs db') = [True, True, False, True, True, True, True, False, False]"
    using retained_generation_pruned s by simp
  then have "db' \<noteq> drift_db" using kept by (auto simp: numeral_eq_Suc)
  then show "\<exists>rep db'. cmdPrune (drift_site calm) demo_flags ''tstn'' drift_flags drift_db = (Inr (Some rep), db') \<and> db' \<noteq> drift_db"
    using s net by (simp add: cmdPrune_def drift_site_def drift_flags_def OpenPruner_def drift_pruner_def)
  obtain rep p' db' where s: "Sweep drift_json (calm\<lparr>swDone := \<lambda>_. True\<rparr>) (drift_pruner False) drift_db = (rep, Some SweepInterrupted, p', db')"
    "map (\<lambda>k. ktRawTx k = None) (known_txs db') = [True, True, False, True, False, False, False, False, False]"
    using interrupted_has_written by (auto split: prod.splits)
  then have "db' \<noteq> drift_db" using kept by (auto simp: numeral_eq_Suc)
  then show "\<exists>db'. cmdPrune (drift_site (calm\<lparr>swDone := \<lambda>_. True\<rparr>)) demo_flags ''tstn'' drift_flags drift_db
     = (Inl (Inr (SweepFailed SweepInterrupted)), db') \<and> db' \<noteq> drift_db"
    using s(1) net by (simp add: cmdPrune_def drift_site_def drift_flags_def OpenPruner_def drift_pruner_def)
qed

theorem prune_command_protects_witness:
  "\<exists>rep db' db''. cmdPrune (drift_site calm) demo_flags ''tstn'' drift_flags drift_db = (Inr (Some rep), db') \<and> db' \<noteq> drift_db
     \<and> cmdPrune (drift_site (calm\<lparr>swDone := \<lambda>_. True\<rparr>)) demo_flags ''tstn'' drift_flags drift_db
         = (Inl (Inr (SweepFailed SweepInterrupted)), db'') \<and> db'' \<noteq> drift_db
     \<and> known_txs drift_db ! 7 \<in> set (known_txs db') \<and> known_txs drift_db ! 7 \<in> set (known_txs db'')"
proof -
  obtain rep db' db'' where c: "cmdPrune (drift_site calm) demo_flags ''tstn'' drift_flags drift_db = (Inr (Some rep), db')" "db' \<noteq> drift_db"
    "cmdPrune (drift_site (calm\<lparr>swDone := \<lambda>_. True\<rparr>)) demo_flags ''tstn'' drift_flags drift_db
      = (Inl (Inr (SweepFailed SweepInterrupted)), db'')" "db'' \<noteq> drift_db"
    using drift_command by blast
  have facts: "psFacts (drift_site W) = Inr (demo_deployment\<lparr>dCells := 2\<rparr>) \<and> alone (drift_site W) drift_flags \<and> table_keys drift_db
        \<and> retained (psJson (drift_site W)) (dCells (demo_deployment\<lparr>dCells := 2\<rparr>)) (RetainGenerations (pfOptions drift_flags)) drift_db
             (known_txs drift_db ! 7) \<and> known_txs drift_db ! 7 \<in> set (known_txs drift_db)" if "quiet W" for W
    using that drift_keys(2) drift_retained drift_row by (simp add: drift_site_def drift_flags_def alone_def)
  have "quiet (calm\<lparr>swDone := \<lambda>_. True\<rparr>)" by (simp add: quiet_def calm_def)
  note stays = prune_command_protects [THEN conjunct2, THEN conjunct2, THEN spec, THEN spec, THEN mp, OF _ facts]
  show ?thesis using c stays [OF c(1) calm_quiet] stays [OF c(3) \<open>quiet (calm\<lparr>swDone := \<lambda>_. True\<rparr>)\<close>] by blast
qed

text \<open>A restart: the state file is there, the record is empty, and the engine starts on what the file says.\<close>

definition demo_run :: run_site where
  "demo_run = \<lparr>rsCommand = demo_commands, rsStore = None, rsFile = StateOf demo_deployment, rsArtifact = Inr demo_artifact,
     rsParseBEEF = (\<lambda>b. Inl ''''), rsFuelText = (\<lambda>e. ''''), rsGenesisText = (\<lambda>e. ''''), rsHostname = Inr ''host'', rsPid = 7,
     rsCodec = demo_codec, rsLedger = demo_ledger [], rsArcade = None, rsNow = 0\<rparr>"

lemma New_demo: "\<exists>e. New demo_codec (demo_ledger []) None demo_compiled demo_deployment (run_store False []) o1 cfg 0 = Inr e"
proof -
  have "CheckMigrationFloor s a ps (legacyTips demo_deployment) = []" for s a ps
    by (simp add: CheckMigrationFloor_def demo_deployment_def Let_def)
  then show ?thesis using fresh_derived by (auto simp: New_def Let_def split: sum.splits)
qed

theorem run_starts_deployment_witness:
  "\<exists>e b program s keys acts. cmdRun demo_run demo_flags ''tstn'' \<lparr>rfRate = 1, rfStart = True, rfAutoRecover = False\<rparr> [] NoKeyFile
       (run_store False []) = (RunEngine e b program, s, keys, acts)
     \<and> eDeployment e = demo_deployment \<and> eMode e = ModeRunning \<and> bSpent b = []"
proof -
  let ?f = "\<lparr>rfRate = 1, rfStart = True, rfAutoRecover = False\<rparr>"
  have net: "parseNetwork (csNetworks demo_commands) ''tstn'' = Inr ''tstn''" by code_simp
  obtain c keys acts where o: "Open (csOpen demo_commands) (demo_flags\<lparr>Network := ''tstn''\<rparr>) NoKeyFile = (Inr c, keys, acts)"
    using demo_commands_opens by blast
  have seed: "seedFor 8 = Inr [1]" by code_simp
  have "case GenesisBytes demo_compiled [1] of Inr sz \<Rightarrow> True | _ \<Rightarrow> False" by code_simp
  then obtain sz where sz: "GenesisBytes demo_compiled [1] = Inr sz" by (auto split: sum.splits)
  have d: "dCells demo_deployment = 8" "dRule demo_deployment = Rule110" by (simp_all add: demo_deployment_def)
  obtain e where e: "New demo_codec (demo_ledger []) None demo_compiled demo_deployment (run_store False [])
      (options.make False (chain_config.LockControls (hdConfig c)) 1 True) (config.truncate (hdConfig c)) 0 = Inr e"
    using New_demo by blast
  have site: "rsFile demo_run = StateOf demo_deployment" "rsArtifact demo_run = Inr demo_artifact" "rsCommand demo_run = demo_commands"
    "rsStore demo_run = None" "rsCodec demo_run = demo_codec" "rsLedger demo_run = demo_ledger []" "rsArcade demo_run = None"
    "rsNow demo_run = 0" by (simp_all add: demo_run_def)
  have kept: "bFile (new_boot E t (StateOf x)) = StateOf x" for E t x by (simp add: new_boot_def publish_def)
  have "\<exists>b. run_opened demo_run ?f [] c (run_store False []) = (RunEngine e b demo_compiled, run_store False [])"
    unfolding run_opened_def Let_def site
    by (simp add: d demo_compiles seed sz boots_Run_def kept e)
  then obtain b where b: "run_opened demo_run ?f [] c (run_store False []) = (RunEngine e b demo_compiled, run_store False [])" by blast
  have run: "cmdRun demo_run demo_flags ''tstn'' ?f [] NoKeyFile (run_store False []) =
      (RunEngine e b demo_compiled, run_store False [], keys, acts @ [Opened TheRecord])"
    by (simp add: cmdRun_def site net o b)
  show ?thesis using run_starts_deployment [OF run] run site(1) by force
qed

end
