(* ===== verification/Spec2Isabelle.thy ===== *)
theory Spec2Isabelle
  imports CellContract CellScript EngineRun Progress ColdStart Web AuditTool Operator Commands
begin

text \<open>
  A verification development for rule-110-arcade: an elementary cellular automaton whose every cell is
  a chain of on-chain transactions, each of which proves one bit of the next row.

  The program and the theories that model it.  A row of the ring is stepped by the reference automaton
  (\<open>internal/ca/ca.go\<close>: \<open>Ca\<close>).  Each cell has a covenant (\<open>contracts/Cell.runar.go\<close>: \<open>CellContract\<close>) that
  accepts a spend presenting a row of the ring's length whose own bit is the rule applied to its
  neighbourhood; \<open>internal/cellscript/cellscript.go\<close> (\<open>CellScript\<close>) binds the compiled covenant to a cell and a
  row, decodes a locking script back to them and builds and reads unlocking scripts.  The durable record
  (\<open>internal/history/history.go\<close>: \<open>History\<close>) keeps one row per attempted cell transition, the rows of the
  generations and the writer lease.  \<open>internal/chain\<close> turns bytes into tips (\<open>tips.go\<close>, \<open>genesis.go\<close>:
  \<open>ChainTips\<close>), makes one transition through the wallet (\<open>step.go\<close>: \<open>Transition\<close>), decides what may be done with a
  cell that is stuck (\<open>recover.go\<close>, \<open>ledger.go\<close>: \<open>ChainRecover\<close>), prices things and mints fuel (\<open>config.go\<close>,
  \<open>cost.go\<close>, \<open>fuel.go\<close>, the funds of \<open>chain.go\<close>: \<open>Costs\<close>) and strips the wallet of bytes nobody can need again
  (\<open>prune.go\<close>: \<open>Prune\<close>).  \<open>internal/engine\<close> is the running program: positions derived from the record
  (\<open>derive.go\<close>: \<open>Derive\<close>), recovery of all cells (\<open>recovery.go\<close>: \<open>EngineRecovery\<close>), the engine's state and start
  (\<open>engine.go\<close>: \<open>Engine\<close>), the network's verdicts (\<open>status.go\<close>: \<open>Status\<close>), repair of a refused cell (\<open>recovery.go\<close>:
  \<open>Repair\<close>), workers, clock and lease (\<open>worker.go\<close>: \<open>Worker\<close>).  \<open>EngineRun\<close> composes all of them into a step
  relation and \<open>Progress\<close> into rounds of the ring.  \<open>internal/boot/boot.go\<close> (\<open>ColdStart\<close>) brings a deployment up from
  nothing, and \<open>internal/audit/audit.go\<close> (\<open>HistoryAudit\<close>, \<open>AuditExact\<close>) checks afterwards, from the record and
  the bytes alone, that what ran was the automaton.

  Around that core stand the ways in.  \<open>Payments\<close> is how money arrives: the key file, the funding address, the
  outputs of a stranger's transaction that pay it and their credit (\<open>internal/chain/identity.go\<close>, \<open>funding.go\<close>,
  \<open>payment.go\<close>).  \<open>Web\<close> is the public surface (\<open>internal/web\<close>): the funding endpoint with its token
  bucket, the archive with its caching, the controls, and the adapters of \<open>cmd/rule110\<close> that join them to the chain and
  the record.  \<open>AuditTool\<close> is \<open>rule110 audit\<close> over the reader of \<open>internal/chain/txreader.go\<close>.  \<open>Tools\<close> and
  \<open>Operator\<close> are the commands that write under the engine's lease (\<open>cmd/rule110/tips.go\<close>, \<open>probe.go\<close>,
  \<open>main.go\<close>): a step by hand and the import of legacy tips in the one, recovery with its report and the depth
  probe in the other.  \<open>Wiring\<close> is how the wallet is put together (\<open>chain.go\<close>: \<open>Open\<close>, \<open>Close\<close>,
  \<open>WaitForClaimableFunds\<close>; the fuel keeper's settings of \<open>fuel.go\<close>; the database it shares with the pruner):
  a handle is what the configuration makes of the third-party services, and every service that is started or stopped is
  an entry in a log.  \<open>Commands\<close> is the rest of the command line (\<open>main.go\<close>, \<open>runsupport.go\<close>, \<open>prune.go\<close>):
  \<open>address\<close>, \<open>fund\<close>, \<open>fuel\<close>, \<open>genesis\<close> and \<open>prune\<close>, and \<open>run\<close>, which opens the wallet and the record, brings a
  deployment up under the writer lease taken in that record (\<open>boots_Run\<close>) and hands it to the engine that
  \<open>EngineRun\<close> then runs.

  How the definitions correspond to the code.  Every function of the source is a definition of the same
  name where the name is free, with the guards, early returns and state changes of the source in their
  order; a piece of a long function has a name of its own and the manifest names its lines.  Structs are
  records, enumerations datatypes, machine integers words that wrap (\<open>uint64\<close> generations, satoshis and
  marks), Go's \<open>int\<close> an unbounded integer where the code cannot reach its bounds and a wrapped one where it
  can (\<open>floorWindow\<close>).  An \<open>error\<close> is the left summand of a sum over a datatype of errors, with the text kept
  wherever the code matches on it; a panic is \<open>None\<close>.  Tables are lists of rows and queries list
  operations with the order and limit of the statement.  Time, the answers of the wallet, the network and the
  database, and whether a context has ended are arguments.

  What is a parameter.  The Runar compiler and its SDK, the transaction codec and hash, the Script interpreter,
  the wallet, arcade and the toolbox are not part of the repository: they are fields of records
  (\<open>compiled\<close>, \<open>tx_codec\<close>, \<open>runar_sdk\<close>, \<open>ledger\<close>, \<open>step_wallet\<close>, \<open>toolbox\<close>, \<open>audit_env\<close>) or function arguments, and a
  theorem that relies on their documented behaviour says so in a named hypothesis (\<open>wallet_faithful\<close>,
  \<open>willing\<close>), with a witness on concrete functions.

  The groups of lemmas.
  \<^item> The rule: a step sets every bit by its neighbourhood (\<open>Ca\<close>); all covenants of a ring accept one presented row
    exactly when it is the automaton's step (\<open>CellContract\<close>); scripts decode to the cell and row they were built
    from and to nothing else (\<open>CellScript\<close>).
  \<^item> The record: queries answer exactly the rows they promise, the lease excludes, the batched update is the
    sequence of updates, the primary keys survive every operation (\<open>History\<close>).
  \<^item> Tips: what \<open>DeriveTip\<close> and \<open>VerifySuccessor\<close> accept is proved by bytes (\<open>ChainTips\<close>), what \<open>AdvanceCell\<close> reports
    passes them, and its error, mark and text, tells exactly whether anything was broadcast (\<open>Transition\<close>).
  \<^item> Decisions: the locale \<open>recovery_decision\<close> states the contract of the five decisions and is interpreted on each;
    each has its exact condition; adoptions rest on verified chains of bytes (\<open>ChainRecover\<close>).  \<open>Derive\<close> and
    \<open>EngineRecovery\<close> lift this to the ring: a cell is halted exactly for the reasons the code names, and an
    applied adoption is found again by the next derivation.  What recovery decides is compared with a table of its own
    (\<open>decision_table\<close>), which does not go through the code's dispatch.
  \<^item> The engine: verdicts never lower a state, refusals halt a cell on their budget, intent is durable before a
    broadcast, a repairable pile of rejections is cleared, every reachable state is well formed and a level ring
    moves (\<open>Status\<close>, \<open>Repair\<close>, \<open>Worker\<close>, \<open>EngineRun\<close>, \<open>Progress\<close>).
  \<^item> The audit is clean exactly when every generation is proved, and a clean audit from generation 0 makes every
    recorded row the seed stepped that many times (\<open>AuditExact\<close>).
  \<^item> Money: fees never fall below the rate, the quoted minimum covers a cold start, a cold start spends only when it
    should and starts once it can (\<open>Costs\<close>, \<open>ColdStart\<close>); the pruner strips exactly the spent-out transactions and
    none of the retained ones, and a pass that fails half-way has stripped no others (\<open>Prune\<close>).
  \<^item> The outside: a payment is credited exactly when it pays, is ours to broadcast and is new (\<open>Payments\<close>).  The
    locale \<open>metered\<close> states the law of a service whose every piece of work costs a token, is proved once and interpreted
    on the bucket and on the funding endpoint, which bounds what anonymous posts can commission (\<open>Web\<close>).
  \<^item> The operator: the audit's unqualified pass means every generation was proved, before a sweep and after it
    (\<open>AuditTool\<close>); a step by hand never signs a generation twice, an import clears the floor (\<open>Tools\<close>), the closing report
    of a recovery is the record's and a probe accounts for what it signed (\<open>Operator\<close>).
  \<^item> The whole process: a failed opening closes exactly what it had started (\<open>Wiring\<close>); what \<open>run\<close> starts is well formed and
    is the deployment on disk, paid for only when there was none and only above the minimum of its genesis; \<open>fuel\<close> mints what the pool can claim and
    \<open>prune\<close> protects what it was asked to keep, the cells counted from the deployment (\<open>Commands\<close>).

  Bounds and termination.  Loops over the ring, over rows and over batches are structural.  The walk along a cell's
  successors stops at the code's own bound (\<open>defaultMaxWalk\<close>), the repair makes the code's four passes
  (\<open>maxWreckage + 1\<close>), the durable write its three tries; no fuel is added to them.  The fan-out terminates because
  every round mints a coin, the sweep because its cursor rises below the floor: both are total functions
  with that measure.  The audit's loop runs over word-sized generations and is a \<open>partial_function\<close>; its theorems
  prove the report it returns.  Loops that wait for the world (\<open>boot_loop\<close>, \<open>retry_loop\<close>, the engine's steps) take the
  world's answers as a list, so ending the list is the context ending.  Fees are Go's \<open>float64\<close>
  expressions: the IEEE operations they use are written out on exact fractions, and the theorem about them
  holds while size times rate stays below \<open>2 ^ 50\<close>, far above the genesis of
  any ring at any plausible rate.

  Not modelled.  Goroutines and locks appear as the atomic steps the locks make of them; sleeping and waking is the
  order of the steps.  Opening databases, migrations and driver errors, JSON files, logging and the prose of messages
  the code never matches are left out, as are the inside of the third-party services, the observer pointer of
  \<open>OnStatus\<close>, the transport of the web server (event stream, gzip, static files, metrics), the parsing of flags, the
  dispatch on the subcommand and the drain at shutdown.  Errors of a database are modelled where the code goes on
  after one or leaves something written behind it: the statements of the pruner (\<open>prune_query\<close>), the reads of the
  wallet and of the lease.  The state file is missing, readable, broken or hidden (\<open>state_file\<close>), and answers alike
  throughout one run.  Of the writes that follow a signing, those that fail because the context has just ended are left
  out (\<open>probe_loop\<close>).
\<close>

end
